(* ===== verification/Xrla_Prelude.thy ===== *)
theory Xrla_Prelude
  imports Main "HOL-Library.Word"
begin

text \<open>
  Shared vocabulary of the development: machine integers and bytes, big-endian
  encodings, the result type of fallible code (a sum with the error on the left),
  parsers over byte lists, and the codec interface (a writer, a reader and the laws
  that tie them) that every record of the chunk format instantiates.

  A fixed-size byte array of the source ([u8; 32], [u8; 20]) is modelled by the word of
  that many bits. \<open>to_be_bytes\<close> is its array of bytes, most significant byte first,
  as in Rust's to_be_bytes; the lemmas \<open>be_nat_less_iff\<close> and \<open>from_be_to_be\<close> show that the
  word order is the lexicographic order of the arrays and that nothing is lost.
\<close>

section \<open>Machine types\<close>

type_synonym byte = "8 word"
type_synonym u16 = "16 word"
type_synonym u32 = "32 word"
type_synonym u64 = "64 word"
type_synonym hash256 = "256 word"
type_synonym account_id = "160 word"

named_theorems codec_simps "unfolding of writers and readers"
named_theorems wf_simps "well-formedness of the values a writer accepts"

section \<open>Big-endian byte strings\<close>

fun nat_be :: "nat \<Rightarrow> nat \<Rightarrow> byte list" where
  "nat_be 0 v = []"
| "nat_be (Suc n) v = nat_be n (v div 256) @ [of_nat v]"

definition be_nat :: "byte list \<Rightarrow> nat" where
  "be_nat bs = foldl (\<lambda>a b. a * 256 + unat b) 0 bs"

definition to_be_bytes :: "'a::len word \<Rightarrow> byte list" where
  "to_be_bytes w = nat_be (LENGTH('a) div 8) (unat w)"

definition from_be_bytes :: "byte list \<Rightarrow> 'a::len word" where
  "from_be_bytes bs = of_nat (be_nat bs)"

lemma length_nat_be [simp]: "length (nat_be n v) = n"
  by (induction n arbitrary: v) auto

lemma be_nat_Nil [simp]: "be_nat [] = 0"
  by (simp add: be_nat_def)

lemma be_nat_snoc [simp]: "be_nat (bs @ [b]) = be_nat bs * 256 + unat b"
  by (simp add: be_nat_def)

lemma unat_byte_less [simp]: "unat (b :: byte) < 256"
  using unsigned_less [of b, where 'a = nat] by simp

lemma unat_of_nat_byte: "unat (of_nat v :: byte) = v mod 256"
  by (simp add: unat_of_nat)

lemma be_nat_nat_be: "be_nat (nat_be n v) = v mod 256 ^ n"
proof (induction n arbitrary: v)
  case 0
  then show ?case by simp
next
  case (Suc n)
  have "v mod (256 * 256 ^ n) = 256 * (v div 256 mod 256 ^ n) + v mod 256"
    by (rule mod_mult2_eq)
  with Suc show ?case by (simp add: unat_of_nat_byte)
qed

lemma nat_be_zero [simp]: "nat_be n 0 = replicate n 0"
  by (induction n) (simp_all add: replicate_append_same)

lemma be_nat_zeros [simp]: "be_nat (replicate n 0) = 0"
  by (induction n) (simp_all flip: replicate_append_same)

lemma nat_be_be_nat: "nat_be (length bs) (be_nat bs) = bs"
proof (induction bs rule: rev_induct)
  case Nil
  then show ?case by simp
next
  case (snoc b bs)
  have "(of_nat (be_nat bs * 256 + unat b) :: byte) = b"
    by (rule word_unat_eq_iff [THEN iffD2])
      (simp add: unat_of_nat_byte del: of_nat_add of_nat_mult)
  with snoc show ?case by (simp del: of_nat_add of_nat_mult)
qed

lemma be_nat_less: "be_nat bs < 256 ^ length bs"
proof (induction bs rule: rev_induct)
  case Nil
  then show ?case by simp
next
  case (snoc b bs)
  have "be_nat bs * 256 + unat b < Suc (be_nat bs) * 256" by simp
  also from snoc have "\<dots> \<le> 256 ^ length bs * 256" by (intro mult_right_mono) simp_all
  finally show ?case by simp
qed

lemma be_nat_append: "be_nat (as @ bs) = be_nat as * 256 ^ length bs + be_nat bs"
  by (induction bs rule: rev_induct) (simp_all add: algebra_simps flip: append_assoc)

lemma be_nat_inject: "length as = length bs \<Longrightarrow> be_nat as = be_nat bs \<Longrightarrow> as = bs"
  by (metis nat_be_be_nat)

text \<open>Comparing arrays of one length byte by byte is comparing the numbers they spell.\<close>

lemma be_nat_Cons: "be_nat (b # bs) = unat b * 256 ^ length bs + be_nat bs"
  using be_nat_append [of "[b]" bs] by (simp add: be_nat_def)

lemma be_nat_less_iff:
  "length as = length bs \<Longrightarrow> be_nat as < be_nat bs \<longleftrightarrow> ord_class.lexordp as bs"
proof (induction as bs rule: list_induct2)
  case Nil
  then show ?case by simp
next
  case (Cons a as b bs)
  let ?k = "256 ^ length bs :: nat"
  have bounds: "be_nat as < ?k" "be_nat bs < ?k"
    using be_nat_less [of as] be_nat_less [of bs] Cons.hyps by simp_all
  consider "unat a < unat b" | "unat b < unat a" | "a = b"
    by (metis linorder_neqE_nat word_unat_eq_iff)
  then show ?case
  proof cases
    case 1
    then have "Suc (unat a) * ?k \<le> unat b * ?k" by (intro mult_right_mono) simp_all
    with 1 bounds Cons.hyps show ?thesis by (simp add: be_nat_Cons word_less_nat_alt)
  next
    case 2
    then have "Suc (unat b) * ?k \<le> unat a * ?k" by (intro mult_right_mono) simp_all
    with 2 bounds Cons.hyps show ?thesis by (auto simp add: be_nat_Cons word_less_nat_alt)
  next
    case 3
    with Cons show ?thesis by (simp add: be_nat_Cons)
  qed
qed

lemma length_to_be_bytes [simp]: "length (to_be_bytes (w :: 'a::len word)) = LENGTH('a) div 8"
  by (simp add: to_be_bytes_def)

lemma be_nat_to_be_bytes:
  assumes "8 dvd LENGTH('a::len)"
  shows "be_nat (to_be_bytes (w :: 'a word)) = unat w"
proof -
  from assms obtain k where k: "LENGTH('a) = 8 * k" by (elim dvdE)
  then have "(256::nat) ^ (LENGTH('a) div 8) = 2 ^ LENGTH('a)"
    by (simp add: power_mult)
  then show ?thesis
    using unsigned_less [of w, where 'a = nat] by (simp add: to_be_bytes_def be_nat_nat_be)
qed

lemma from_be_to_be [simp]:
  "8 dvd LENGTH('a::len) \<Longrightarrow> from_be_bytes (to_be_bytes (w :: 'a word)) = w"
  by (simp add: from_be_bytes_def be_nat_to_be_bytes)

lemma to_be_from_be [simp]:
  assumes "length bs = LENGTH('a::len) div 8" and "8 dvd LENGTH('a)"
  shows "to_be_bytes (from_be_bytes bs :: 'a word) = bs"
proof -
  from assms(2) obtain k where k: "LENGTH('a) = 8 * k" by (elim dvdE)
  then have "be_nat bs < 2 ^ LENGTH('a)"
    using be_nat_less [of bs] assms(1) by (simp add: power_mult)
  then have "unat (from_be_bytes bs :: 'a word) = be_nat bs"
    by (simp add: from_be_bytes_def unat_of_nat)
  then show ?thesis
    using assms(1) nat_be_be_nat [of bs] by (simp add: to_be_bytes_def)
qed

lemma to_be_bytes_inject:
  "8 dvd LENGTH('a::len) \<Longrightarrow> to_be_bytes (v :: 'a word) = to_be_bytes w \<longleftrightarrow> v = w"
  by (metis from_be_to_be)

text \<open>The order of the words is the lexicographic order of the arrays.\<close>

lemma less_iff_lexordp_bytes:
  "8 dvd LENGTH('a::len) \<Longrightarrow>
     (v :: 'a word) < w \<longleftrightarrow> ord_class.lexordp (to_be_bytes v) (to_be_bytes w)"
  by (simp add: word_less_nat_alt be_nat_to_be_bytes flip: be_nat_less_iff)

text \<open>The two nibbles of a byte.\<close>

unbundle bit_operations_syntax

lemma unat_nibbles:
  "unat (drop_bit 4 b) = unat b div 16" "unat (b AND 0x0F) = unat b mod 16" for b :: byte
proof -
  show "unat (drop_bit 4 b) = unat b div 16"
    by (subst unat_drop_bit_eq) (simp add: drop_bit_eq_div)
  have "b AND 0x0F = take_bit 4 b"
    by (simp add: take_bit_eq_mask mask_eq_exp_minus_1)
  then show "unat (b AND 0x0F) = unat b mod 16"
    by (simp only: unsigned_take_bit_eq) (simp add: take_bit_eq_mod)
qed

text \<open>The number of bytes a Rust length cast keeps.\<close>

lemma unat_of_nat16: "n < 65536 \<Longrightarrow> unat (of_nat n :: u16) = n"
  by (simp add: unat_of_nat)

lemma unat_of_nat32: "n < 4294967296 \<Longrightarrow> unat (of_nat n :: u32) = n"
  by (simp add: unat_of_nat)

lemma unat_of_nat64: "n < 18446744073709551616 \<Longrightarrow> unat (of_nat n :: u64) = n"
  by (simp add: unat_of_nat)

lemma unat_less16: "unat (w :: u16) < 65536"
  using unsigned_less [of w, where 'a = nat] by simp

lemma unat_less32: "unat (w :: u32) < 4294967296"
  using unsigned_less [of w, where 'a = nat] by simp

section \<open>Fallible code: the sum type with the error on the left\<close>

definition rbind :: "'e + 'a \<Rightarrow> ('a \<Rightarrow> 'e + 'b) \<Rightarrow> 'e + 'b" where
  "rbind m f = (case m of Inl e \<Rightarrow> Inl e | Inr x \<Rightarrow> f x)"

lemma rbind_simps [simp]:
  "rbind (Inl e) f = Inl e"
  "rbind (Inr x) f = f x"
  by (simp_all add: rbind_def)

lemma rbind_cong [fundef_cong]:
  "m = m' \<Longrightarrow> (\<And>x. m' = Inr x \<Longrightarrow> f x = g x) \<Longrightarrow> rbind m f = rbind m' g"
  by (cases m') simp_all

lemma rbind_eq_Inr: "rbind m f = Inr y \<longleftrightarrow> (\<exists>x. m = Inr x \<and> f x = Inr y)"
  by (cases m) auto

lemma rbind_eq_Inl:
  "rbind m f = Inl e \<longleftrightarrow> m = Inl e \<or> (\<exists>x. m = Inr x \<and> f x = Inl e)"
  by (cases m) auto

lemma rbind_split:
  "P (rbind m f) \<longleftrightarrow> (\<forall>e. m = Inl e \<longrightarrow> P (Inl e)) \<and> (\<forall>x. m = Inr x \<longrightarrow> P (f x))"
  by (cases m) auto

text \<open>The error of a callee seen as an error of the caller.\<close>

definition rlift :: "('e \<Rightarrow> 'f) \<Rightarrow> 'e + 'a \<Rightarrow> 'f + 'a" where
  "rlift g m = (case m of Inl e \<Rightarrow> Inl (g e) | Inr x \<Rightarrow> Inr x)"

lemma rlift_simps [simp]:
  "rlift g (Inl e) = Inl (g e)"
  "rlift g (Inr x) = Inr x"
  "rlift g m = Inr x \<longleftrightarrow> m = Inr x"
  by (simp_all add: rlift_def split: sum.splits)

text \<open>The early return of a failed check.\<close>

definition ensure :: "bool \<Rightarrow> 'e \<Rightarrow> 'e + unit" where
  "ensure b e = (if b then Inr () else Inl e)"

lemma ensure_simps [simp]:
  "ensure True e = Inr ()"
  "ensure False e = Inl e"
  "ensure b e = Inr u \<longleftrightarrow> b"
  "ensure b e = Inl d \<longleftrightarrow> \<not> b \<and> d = e"
  by (auto simp add: ensure_def)

text \<open>A loop over a list whose body may return early, threading a state.\<close>

fun rfold :: "('s \<Rightarrow> 'a \<Rightarrow> 'e + 's) \<Rightarrow> 's \<Rightarrow> 'a list \<Rightarrow> 'e + 's" where
  "rfold f s [] = Inr s"
| "rfold f s (x # xs) = rbind (f s x) (\<lambda>s'. rfold f s' xs)"

text \<open>The collect of an iterator of results.\<close>

fun rmap :: "('a \<Rightarrow> 'e + 'b) \<Rightarrow> 'a list \<Rightarrow> 'e + 'b list" where
  "rmap f [] = Inr []"
| "rmap f (x # xs) = rbind (f x) (\<lambda>y. rbind (rmap f xs) (\<lambda>ys. Inr (y # ys)))"

lemma rfold_append:
  "rfold f s (xs @ ys) = rbind (rfold f s xs) (\<lambda>s'. rfold f s' ys)"
proof (induction xs arbitrary: s)
  case (Cons x xs)
  then show ?case by (cases "f s x") simp_all
qed simp

lemma rfold_cong [fundef_cong]:
  "xs = ys \<Longrightarrow> s = t \<Longrightarrow> (\<And>u x. x \<in> set ys \<Longrightarrow> f u x = g u x) \<Longrightarrow> rfold f s xs = rfold g t ys"
proof (induction ys arbitrary: s t xs)
  case (Cons y ys)
  then show ?case by (cases "g t y") auto
qed simp

lemma rfold_invariant:
  "rfold f s xs = Inr t \<Longrightarrow> P s \<Longrightarrow>
     (\<And>u x v. x \<in> set xs \<Longrightarrow> P u \<Longrightarrow> f u x = Inr v \<Longrightarrow> P v) \<Longrightarrow> P t"
proof (induction xs arbitrary: s)
  case (Cons x xs)
  from Cons.prems(1) obtain u where u: "f s x = Inr u" "rfold f u xs = Inr t"
    by (auto simp add: rbind_eq_Inr)
  from Cons.prems(2,3) u(1) have "P u" by (meson list.set_intros(1))
  with u(2) show ?case using Cons.IH Cons.prems(3) by (meson list.set_intros(2))
qed simp

lemma rmap_length: "rmap f xs = Inr ys \<Longrightarrow> length ys = length xs"
  by (induction xs arbitrary: ys) (auto simp add: rbind_eq_Inr)

lemma rmap_Inr_iff:
  "rmap f xs = Inr ys \<longleftrightarrow> list_all2 (\<lambda>x y. f x = Inr y) xs ys"
proof (induction xs arbitrary: ys)
  case (Cons x xs)
  then show ?case by (cases ys) (auto simp add: rbind_eq_Inr)
qed auto

lemma rmap_total: "(\<And>x. x \<in> set xs \<Longrightarrow> f x = Inr (g x)) \<Longrightarrow> rmap f xs = Inr (map g xs)"
  by (induction xs) auto

lemma rmap_map: "rmap f (map g xs) = rmap (\<lambda>x. f (g x)) xs"
  by (induction xs) simp_all

lemma rmap_defined: "(\<And>x. x \<in> set xs \<Longrightarrow> \<exists>y. f x = Inr y) \<Longrightarrow> \<exists>ys. rmap f xs = Inr ys"
proof (induction xs)
  case (Cons x xs)
  then obtain y ys where "f x = Inr y" "rmap f xs = Inr ys" by fastforce
  then show ?case by simp
qed simp

lemma rmap_undefined: "x \<in> set xs \<Longrightarrow> f x = Inl e \<Longrightarrow> \<exists>e'. rmap f xs = Inl e'"
proof (induction xs)
  case (Cons y xs)
  then show ?case by (cases "f y") auto
qed simp

lemma not_distinct_map_split:
  "\<not> distinct (map f xs) \<Longrightarrow> \<exists>as i bs j cs. xs = as @ [i] @ bs @ [j] @ cs \<and> f i = f j"
proof (induction xs)
  case (Cons x xs)
  show ?case
  proof (cases "f x \<in> f ` set xs")
    case True
    then obtain y where y: "y \<in> set xs" "f x = f y" by auto
    obtain bs cs where "xs = bs @ y # cs" using split_list [OF y(1)] by blast
    with y(2) show ?thesis by (intro exI [of _ "[]"]) auto
  next
    case False
    with Cons.prems have "\<not> distinct (map f xs)" by simp
    then obtain as i bs j cs where "xs = as @ [i] @ bs @ [j] @ cs" "f i = f j"
      using Cons.IH by blast
    then show ?thesis by (intro exI [of _ "x # as"]) auto
  qed
qed simp

section \<open>Parsers: a cursor over the bytes still to be read\<close>

type_synonym ('e, 'a) parser = "byte list \<Rightarrow> 'e + 'a \<times> byte list"

definition pret :: "'a \<Rightarrow> ('e, 'a) parser" where
  "pret x r = Inr (x, r)"

definition pbind :: "('e, 'a) parser \<Rightarrow> ('a \<Rightarrow> ('e, 'b) parser) \<Rightarrow> ('e, 'b) parser" where
  "pbind p f r = (case p r of Inl e \<Rightarrow> Inl e | Inr (x, r') \<Rightarrow> f x r')"

fun read_times :: "nat \<Rightarrow> ('e, 'a) parser \<Rightarrow> ('e, 'a list) parser" where
  "read_times 0 p = pret []"
| "read_times (Suc n) p = pbind p (\<lambda>x. pbind (read_times n p) (\<lambda>xs. pret (x # xs)))"

lemma pret_apply [simp]: "pret x r = Inr (x, r)"
  by (simp add: pret_def)

lemma pbind_Inr [simp]: "p r = Inr (x, r') \<Longrightarrow> pbind p f r = f x r'"
  by (simp add: pbind_def)

lemma pbind_Inl [simp]: "p r = Inl e \<Longrightarrow> pbind p f r = Inl e"
  by (simp add: pbind_def)

lemma pbind_eq_Inr:
  "pbind p f r = Inr z \<longleftrightarrow> (\<exists>x r'. p r = Inr (x, r') \<and> f x r' = Inr z)"
  by (auto simp add: pbind_def split: sum.splits)

lemma pbind_eq_Inl:
  "pbind p f r = Inl e \<longleftrightarrow> p r = Inl e \<or> (\<exists>x r'. p r = Inr (x, r') \<and> f x r' = Inl e)"
  by (auto simp add: pbind_def split: sum.splits)

text \<open>Reading never looks past what it consumes: more input does not change the result.\<close>

definition no_lookahead :: "('e, 'a) parser \<Rightarrow> bool" where
  "no_lookahead p \<longleftrightarrow> (\<forall>b x r s. p b = Inr (x, r) \<longrightarrow> p (b @ s) = Inr (x, r @ s))"

lemma stableD: "no_lookahead p \<Longrightarrow> p b = Inr (x, r) \<Longrightarrow> p (b @ s) = Inr (x, r @ s)"
  by (simp add: no_lookahead_def)

lemma stable_pret [intro]: "no_lookahead (pret x)"
  by (simp add: no_lookahead_def)

definition pfail :: "'e \<Rightarrow> ('e, 'a) parser" where
  "pfail e r = Inl e"

lemma pfail_apply [simp]: "pfail e r = Inl e"
  by (simp add: pfail_def)

lemma stable_pfail [intro]: "no_lookahead (pfail e)"
  by (simp add: no_lookahead_def)

lemma stable_pbind [intro]: "no_lookahead p \<Longrightarrow> (\<And>x. no_lookahead (f x)) \<Longrightarrow> no_lookahead (pbind p f)"
  unfolding no_lookahead_def pbind_eq_Inr by blast

lemma stable_read_times [intro]: "no_lookahead p \<Longrightarrow> no_lookahead (read_times n p)"
  by (induction n) (auto intro!: stable_pbind stable_pret)

lemma stable_if [intro]: "no_lookahead p \<Longrightarrow> no_lookahead q \<Longrightarrow> no_lookahead (if b then p else q)"
  by simp

section \<open>The codec interface\<close>

text \<open>
  What a writer \<open>enc\<close> and a reader \<open>dec\<close> of one record owe each other: reading back what
  was written returns the value in its on-disk form \<open>norm x\<close> (lists sorted) and leaves the
  rest of the input untouched; the reader does not look past what it consumes. The client
  lemmas (self-delimiting encodings, sequences of records, truncation) are proved once here.
\<close>

locale codec =
  fixes enc :: "'a \<Rightarrow> byte list"
    and dec :: "('e, 'a) parser"
    and wf :: "'a \<Rightarrow> bool"
    and norm :: "'a \<Rightarrow> 'a"
  assumes dec_enc: "wf x \<Longrightarrow> dec (enc x @ r) = Inr (norm x, r)"
    and stable_dec: "no_lookahead dec"
begin

lemma enc_unique:
  assumes "wf x" and "wf y" and "enc x @ r = enc y @ s"
  shows "norm x = norm y \<and> r = s"
proof -
  from assms(3) have "dec (enc x @ r) = dec (enc y @ s)" by simp
  with assms(1,2) show ?thesis by (simp add: dec_enc)
qed

lemma times_enc:
  "list_all wf xs \<Longrightarrow>
     read_times (length xs) dec (concat (map enc xs) @ r) = Inr (map norm xs, r)"
  by (induction xs) (simp_all add: dec_enc)

lemma seq_unique:
  assumes "list_all wf xs" and "list_all wf ys" and "length xs = length ys"
    and "concat (map enc xs) @ r = concat (map enc ys) @ s"
  shows "map norm xs = map norm ys \<and> r = s"
proof -
  have "Inr (map norm xs, r) = read_times (length xs) dec (concat (map enc xs) @ r)"
    by (rule times_enc [OF assms(1), symmetric])
  also have "\<dots> = read_times (length ys) dec (concat (map enc ys) @ s)"
    by (simp only: assms(3,4))
  also have "\<dots> = Inr (map norm ys, s)" by (rule times_enc [OF assms(2)])
  finally show ?thesis by simp
qed

text \<open>A truncated record is never read as a record.\<close>

lemma truncated:
  assumes "wf x" and "k < length (enc x)"
  shows "\<exists>e. dec (take k (enc x)) = Inl e"
proof (cases "dec (take k (enc x))")
  case (Inr z)
  obtain y r where z: "z = (y, r)" by (cases z)
  have "dec (take k (enc x) @ drop k (enc x)) = Inr (y, r @ drop k (enc x))"
    using Inr z by (intro stableD [OF stable_dec]) simp
  with dec_enc [OF assms(1), of "[]"] have "drop k (enc x) = []" by simp
  with assms(2) show ?thesis by simp
qed simp

end

text \<open>
  A canonical codec also accepts nothing but what the writer produces: every successful
  read consumed exactly the encoding of the value it returns.
\<close>

locale canonical_codec = codec enc dec wf "\<lambda>x. x"
  for enc :: "'a \<Rightarrow> byte list" and dec :: "('e, 'a) parser" and wf :: "'a \<Rightarrow> bool" +
  assumes enc_dec: "dec b = Inr (x, r) \<Longrightarrow> b = enc x @ r \<and> wf x"
begin

lemma times_dec:
  "read_times n dec b = Inr (xs, r) \<Longrightarrow>
     b = concat (map enc xs) @ r \<and> list_all wf xs \<and> length xs = n"
proof (induction n arbitrary: b xs)
  case (Suc n)
  from Suc.prems obtain x r' ys where x: "dec b = Inr (x, r')"
    and ys: "read_times n dec r' = Inr (ys, r)" and xs: "xs = x # ys"
    by (auto simp add: pbind_eq_Inr)
  from enc_dec [OF x] Suc.IH [OF ys] xs show ?case by simp
qed simp

lemma dec_iff: "dec b = Inr (x, r) \<longleftrightarrow> b = enc x @ r \<and> wf x"
  using enc_dec dec_enc by blast

end

end
