(* ===== verification/Run.thy ===== *)
theory Run
  imports Xrla_Prelude
begin

text \<open>
  Code that may fail and may run forever: None when it does not return, otherwise an error or
  a value. Traversals of a store are of this type, because a corrupt store can hold cycles.
\<close>

type_synonym ('e, 'a) run = "('e + 'a) option"

definition obind :: "('e, 'a) run \<Rightarrow> ('a \<Rightarrow> ('e, 'b) run) \<Rightarrow> ('e, 'b) run" where
  "obind m f = Option.bind m (\<lambda>r. case r of Inl e \<Rightarrow> Some (Inl e) | Inr x \<Rightarrow> f x)"

abbreviation oret :: "'a \<Rightarrow> ('e, 'a) run" where
  "oret x \<equiv> Some (Inr x)"

abbreviation ofail :: "'e \<Rightarrow> ('e, 'a) run" where
  "ofail e \<equiv> Some (Inl e)"

lemma obind_simps [simp]:
  "obind None f = None" "obind (Some (Inl e)) f = Some (Inl e)" "obind (Some (Inr x)) f = f x"
  by (simp_all add: obind_def)

lemma obind_mono [partial_function_mono]:
  assumes "mono_option B" and "\<And>y. mono_option (\<lambda>f. C y f)"
  shows "mono_option (\<lambda>f. obind (B f) (\<lambda>y. C y f))"
  unfolding obind_def
proof (rule bind_mono [OF assms(1)])
  fix r
  show "mono_option (\<lambda>f. case r of Inl e \<Rightarrow> Some (Inl e) | Inr x \<Rightarrow> C x f)"
  proof (cases r)
    case (Inl e)
    then show ?thesis by (simp add: monotone_def flat_ord_def)
  next
    case (Inr x)
    with assms(2) show ?thesis by simp
  qed
qed

lemma obind_eq_Inr:
  "obind m f = Some (Inr y) \<longleftrightarrow> (\<exists>x. m = Some (Inr x) \<and> f x = Some (Inr y))"
  by (cases m; cases "the m") auto

text \<open>The fold of a loop body that may fail or not return.\<close>

fun ofold :: "('s \<Rightarrow> 'a \<Rightarrow> ('e, 's) run) \<Rightarrow> 's \<Rightarrow> 'a list \<Rightarrow> ('e, 's) run" where
  "ofold f s [] = oret s"
| "ofold f s (x # xs) = obind (f s x) (\<lambda>s. ofold f s xs)"

fun omap :: "('a \<Rightarrow> ('e, 'b) run) \<Rightarrow> 'a list \<Rightarrow> ('e, 'b list) run" where
  "omap f [] = oret []"
| "omap f (x # xs) = obind (f x) (\<lambda>y. obind (omap f xs) (\<lambda>ys. oret (y # ys)))"

lemma ofold_mono [partial_function_mono]:
  assumes "\<And>s x. mono_option (\<lambda>f. B f s x)"
  shows "mono_option (\<lambda>f. ofold (B f) s xs)"
proof (induction xs arbitrary: s)
  case Nil
  then show ?case by (simp add: monotone_def flat_ord_def)
next
  case (Cons x xs)
  then show ?case unfolding ofold.simps by (intro obind_mono assms)
qed

text \<open>Errors of one type seen as errors of another.\<close>

definition olift :: "('e \<Rightarrow> 'f) \<Rightarrow> 'e + 'a \<Rightarrow> ('f, 'a) run" where
  "olift g m = Some (case m of Inl e \<Rightarrow> Inl (g e) | Inr x \<Rightarrow> Inr x)"

lemma olift_simps [simp]:
  "olift g (Inl e) = ofail (g e)" "olift g (Inr x) = oret x"
  by (simp_all add: olift_def)

lemma olift_Inr [simp]: "olift g m = Some (Inr x) \<longleftrightarrow> m = Inr x"
  by (cases m) simp_all

end
