(* ===== verification/Nudb_Format.thy ===== *)
theory Nudb_Format
  imports Xrla_Prelude
begin

text \<open>
  The on-disk layout of a NuDB store: the field and bucket writers of
  crates/xrla-nudb/src/writer.rs and the readers of crates/xrla-nudb/src/keyfile.rs
  (read_u48, Shard). A file is the list of its bytes. The hash function xxh64 is the crate
  xxhash_rust, a parameter \<open>X\<close> that takes the key bytes and the seed.
\<close>

type_synonym xxh64 = "byte list \<Rightarrow> u64 \<Rightarrow> u64"

section \<open>Constants and 48-bit fields\<close>

definition dat_magic :: "byte list" where
  "dat_magic = [0x6E, 0x75, 0x64, 0x62, 0x2E, 0x64, 0x61, 0x74]"

definition key_magic :: "byte list" where
  "key_magic = [0x6E, 0x75, 0x64, 0x62, 0x2E, 0x6B, 0x65, 0x79]"

definition key_size :: nat where "key_size = 32"
definition block_size :: nat where "block_size = 4096"
definition entry_size :: nat where "entry_size = 18"
definition bucket_header :: nat where "bucket_header = 8"
definition bucket_capacity :: nat where
  "bucket_capacity = (block_size - bucket_header) div entry_size"
definition dat_header_size :: nat where "dat_header_size = 92"
definition rec_header :: nat where "rec_header = 6 + 32"

lemmas nudb_sizes = key_size_def block_size_def entry_size_def bucket_header_def
  dat_header_size_def rec_header_def

lemma bucket_capacity: "bucket_capacity = 227"
  by (simp add: bucket_capacity_def nudb_sizes)

definition write_u48 :: "u64 \<Rightarrow> byte list" where
  "write_u48 v = drop 2 (to_be_bytes v)"

definition read_u48 :: "byte list \<Rightarrow> u64" where
  "read_u48 b = from_be_bytes ([0, 0] @ take 6 b)"

definition slice :: "byte list \<Rightarrow> nat \<Rightarrow> nat \<Rightarrow> byte list" where
  "slice b i j = take (j - i) (drop i b)"

section \<open>Writing headers and buckets\<close>

type_synonym placed_entry = "u64 \<times> u64 \<times> u64"

definition write_dat_header :: "u16 \<Rightarrow> u64 \<Rightarrow> u64 \<Rightarrow> byte list" where
  "write_dat_header version uid appnum =
     dat_magic @ to_be_bytes version @ to_be_bytes uid @ to_be_bytes appnum
     @ to_be_bytes (of_nat key_size :: u16) @ replicate 64 0"

definition write_key_header :: "xxh64 \<Rightarrow> u16 \<Rightarrow> u64 \<Rightarrow> u64 \<Rightarrow> u64 \<Rightarrow> byte list" where
  "write_key_header X version uid appnum salt =
     (let pepper = X (rev (to_be_bytes salt)) salt in
      key_magic @ to_be_bytes version @ to_be_bytes uid @ to_be_bytes appnum
      @ to_be_bytes (of_nat key_size :: u16) @ to_be_bytes salt @ to_be_bytes pepper
      @ to_be_bytes (of_nat block_size :: u16) @ to_be_bytes (0x8000 :: u16)
      @ replicate (block_size - 48) 0)"

definition entry_bytes :: "placed_entry \<Rightarrow> byte list" where
  "entry_bytes e = (case e of (nhash, off, len) \<Rightarrow> write_u48 off @ write_u48 len @ write_u48 nhash)"

text \<open>The front of \<open>buf\<close> is overwritten, the rest is kept.\<close>

definition write_bucket_into :: "byte list \<Rightarrow> placed_entry list \<Rightarrow> u64 \<Rightarrow> byte list" where
  "write_bucket_into buf entries spill =
     to_be_bytes (of_nat (length entries) :: u16) @ write_u48 spill
     @ concat (map entry_bytes entries)
     @ drop (bucket_header + length entries * entry_size) buf"

definition write_bucket_block :: "placed_entry list \<Rightarrow> u64 \<Rightarrow> byte list" where
  "write_bucket_block entries spill = write_bucket_into (replicate block_size 0) entries spill"

text \<open>\<open>slice.chunks(n)\<close>\<close>

fun chunks :: "nat \<Rightarrow> 'a list \<Rightarrow> 'a list list" where
  "chunks n xs = (if n = 0 \<or> xs = [] then [] else take n xs # chunks n (drop n xs))"

declare chunks.simps [simp del]

definition spill_step ::
  "byte list \<times> u64 \<times> u64 \<Rightarrow> placed_entry list \<Rightarrow> byte list \<times> u64 \<times> u64" where
  "spill_step st chunk =
     (case st of (dat, offset, next_spill) \<Rightarrow>
        let body_len = bucket_header + length chunk * entry_size;
            body_offset = offset + 8;
            body = write_bucket_into (replicate body_len 0) chunk next_spill
        in (dat @ replicate 6 0 @ to_be_bytes (of_nat body_len :: u16) @ body,
            offset + (8 + of_nat body_len), body_offset))"

text \<open>
  The result is the .dat file, the next free offset and the offset of the head block's body.
\<close>

definition write_spill_chain ::
  "byte list \<Rightarrow> u64 \<Rightarrow> placed_entry list \<Rightarrow> byte list \<times> u64 \<times> u64" where
  "write_spill_chain dat offset overflow =
     (if overflow = [] then (dat, offset, 0)
      else foldl spill_step (dat, offset, 0) (rev (chunks bucket_capacity overflow)))"

section \<open>Opening and reading a shard\<close>

datatype shard_error =
    ShardEof
  | ShardBadMagic
  | ShardKeySize u16
  | ShardZeroBlock
  | ShardSliceRange

record shard =
  sh_dat :: "byte list"
  sh_key :: "byte list"
  sh_salt :: u64
  sh_block_size :: u64
  sh_num_buckets :: u64
  sh_modulus :: u64

text \<open>\<open>File::read_exact_at\<close>\<close>

definition read_exact_at :: "byte list \<Rightarrow> nat \<Rightarrow> nat \<Rightarrow> shard_error + byte list" where
  "read_exact_at f offset n =
     (if offset + n \<le> length f then Inr (take n (drop offset f)) else Inl ShardEof)"

text \<open>The loop that finds the modulus; it does not return when no power of two fits.\<close>

partial_function (option) modulus_loop :: "u64 \<Rightarrow> u64 \<Rightarrow> u64 option" where
  "modulus_loop modulus num_buckets =
     (if modulus < num_buckets then modulus_loop (push_bit 1 modulus) num_buckets
      else Some modulus)"

text \<open>Shard::open; None when the modulus loop does not return.\<close>

definition shard_open :: "byte list \<Rightarrow> byte list \<Rightarrow> (shard_error + shard) option" where
  "shard_open dat key =
     (case read_exact_at key 0 64 of
        Inl e \<Rightarrow> Some (Inl e)
      | Inr hdr \<Rightarrow>
          if slice hdr 0 8 \<noteq> key_magic then Some (Inl ShardBadMagic) else
          let ksize = from_be_bytes (slice hdr 26 28) :: u16 in
          if ksize \<noteq> 32 then Some (Inl (ShardKeySize ksize)) else
          let salt = from_be_bytes (slice hdr 28 36);
              bsize = ucast (from_be_bytes (slice hdr 44 46) :: u16) :: u64 in
          if bsize = 0 then Some (Inl ShardZeroBlock) else
          let key_file_size = of_nat (length key) :: u64;
              num_buckets = (key_file_size - bsize) div bsize in
          Option.bind (modulus_loop 1 num_buckets) (\<lambda>modulus.
          Some (Inr \<lparr>sh_dat = dat, sh_key = key, sh_salt = salt, sh_block_size = bsize,
                     sh_num_buckets = num_buckets, sh_modulus = modulus\<rparr>)))"

definition bucket_index :: "u64 \<Rightarrow> u64 \<Rightarrow> u64 \<Rightarrow> u64" where
  "bucket_index num_buckets modulus nhash =
     (let n = nhash mod modulus in if num_buckets \<le> n then n - modulus div 2 else n)"

definition nudb_hash :: "xxh64 \<Rightarrow> u64 \<Rightarrow> hash256 \<Rightarrow> u64" where
  "nudb_hash X salt key = drop_bit 16 (X (to_be_bytes key) salt)"

text \<open>
  The entries of one bucket, in order: None when no entry is the key's record, an error when
  a record lies outside the file or an entry outside the block (a slice panic).
\<close>

fun scan_entries ::
  "byte list \<Rightarrow> hash256 \<Rightarrow> u64 \<Rightarrow> byte list \<Rightarrow> nat list \<Rightarrow> shard_error + byte list option" where
  "scan_entries dat key nhash block [] = Inr None"
| "scan_entries dat key nhash block (i # is) =
     (let b = bucket_header + i * entry_size in
      if length block < b + 18 then Inl ShardSliceRange
      else if read_u48 (slice block (b + 12) (b + 18)) \<noteq> nhash
      then scan_entries dat key nhash block is
      else
        let offset = read_u48 (slice block b (b + 6));
            val_size = unat (read_u48 (slice block (b + 6) (b + 12))) in
        rbind (read_exact_at dat (unat offset) rec_header) (\<lambda>head.
        if slice head 6 38 = to_be_bytes key
        then rbind (read_exact_at dat (unat (offset + of_nat rec_header)) val_size)
               (\<lambda>val. Inr (Some val))
        else scan_entries dat key nhash block is))"

definition read_spill :: "byte list \<Rightarrow> u64 \<Rightarrow> shard_error + byte list" where
  "read_spill dat spill =
     rbind (read_exact_at dat (unat spill) bucket_header) (\<lambda>head.
     let scount = unat (from_be_bytes (slice head 0 2) :: u16) in
     read_exact_at dat (unat spill) (bucket_header + scount * entry_size))"

text \<open>
  The loop over a bucket and its spill chain. A chain that loops in a corrupt file makes the
  code run forever, the value None. A block shorter than its header is a slice panic.
\<close>

partial_function (option) fetch_loop ::
  "byte list \<Rightarrow> hash256 \<Rightarrow> u64 \<Rightarrow> byte list \<Rightarrow> (shard_error + byte list option) option" where
  "fetch_loop dat key nhash block =
     (if length block < bucket_header then Some (Inl ShardSliceRange) else
      (let count = unat (from_be_bytes (slice block 0 2) :: u16);
          spill = read_u48 (slice block 2 8) in
      (case scan_entries dat key nhash block [0..<count] of
         Inl e \<Rightarrow> Some (Inl e)
       | Inr (Some val) \<Rightarrow> Some (Inr (Some val))
       | Inr None \<Rightarrow>
           if spill = 0 then Some (Inr None) else
           (case read_spill dat spill of
              Inl e \<Rightarrow> Some (Inl e)
            | Inr body \<Rightarrow> fetch_loop dat key nhash body))))"

definition fetch :: "xxh64 \<Rightarrow> shard \<Rightarrow> hash256 \<Rightarrow> (shard_error + byte list option) option" where
  "fetch X s key =
     (let nhash = nudb_hash X (sh_salt s) key;
          b = bucket_index (sh_num_buckets s) (sh_modulus s) nhash in
      case read_exact_at (sh_key s) (unat (sh_block_size s * (b + 1))) (unat (sh_block_size s)) of
        Inl e \<Rightarrow> Some (Inl e)
      | Inr block \<Rightarrow> fetch_loop (sh_dat s) key nhash block)"

end
