(* ===== verification/Nudb_Lookup.thy ===== *)
theory Nudb_Lookup
  imports Nudb_Format
begin

text \<open>
  What a lookup sees in a store: buckets and spill chains read back entry by entry. The main
  results are \<open>fetch_loop_chain\<close> (a lookup in a bucket and its spill chain finds the key's
  record when one of the entries is its record, and reports absence otherwise) and
  \<open>write_spill_chain_reads\<close> (the chain the writer appends is one the reader can follow).
\<close>

section \<open>Fields\<close>

abbreviation lim48 :: nat where "lim48 \<equiv> 281474976710656"

lemma nat_be_append: "nat_be (m + n) v = nat_be m (v div 256 ^ n) @ nat_be n v"
proof (induction n arbitrary: v)
  case (Suc n)
  have "v div 256 div 256 ^ n = v div (256 * 256 ^ n)" by (rule div_mult2_eq [symmetric])
  with Suc [of "v div 256"] show ?case by simp
qed simp

lemma write_u48_nat_be: "write_u48 v = nat_be 6 (unat v)"
proof -
  have "nat_be 8 (unat v) = nat_be 2 (unat v div 256 ^ 6) @ nat_be 6 (unat v)"
    using nat_be_append [of 2 6 "unat v"] by simp
  then show ?thesis by (simp add: write_u48_def to_be_bytes_def)
qed

lemma length_write_u48 [simp]: "length (write_u48 v) = 6"
  by (simp add: write_u48_nat_be)

lemma be_nat_zero_append: "be_nat (replicate k 0 @ bs) = be_nat bs"
  by (simp add: be_nat_append)

lemma read_write_u48 [simp]:
  assumes "unat v < lim48"
  shows "read_u48 (write_u48 v) = v"
proof -
  have "be_nat ([0, 0] @ nat_be 6 (unat v)) = unat v"
    using be_nat_zero_append [of 2 "nat_be 6 (unat v)"] assms
    by (simp add: be_nat_nat_be numeral_2_eq_2)
  then show ?thesis
    by (simp add: read_u48_def write_u48_nat_be from_be_bytes_def)
qed

lemma slice_append:
  "length a = i \<Longrightarrow> length b = j - i \<Longrightarrow> i \<le> j \<Longrightarrow> slice (a @ b @ c) i j = b"
  by (simp add: slice_def)

lemma read_exact_at_append:
  "length a = i \<Longrightarrow> length b = n \<Longrightarrow> read_exact_at (a @ b @ c) i n = Inr b"
  by (simp add: read_exact_at_def)

lemma read_exact_at_extend:
  "read_exact_at f i n = Inr b \<Longrightarrow> read_exact_at (f @ g) i n = Inr b"
  by (auto simp add: read_exact_at_def split: if_splits)

lemma length_entry_bytes [simp]: "length (entry_bytes e) = 18"
  by (cases e) (simp add: entry_bytes_def)

lemma length_entries: "length (concat (map entry_bytes es)) = length es * 18"
  by (induction es) simp_all

lemma concat_entries_nth:
  "i < length es \<Longrightarrow>
     \<exists>a c. concat (map entry_bytes es) = a @ entry_bytes (es ! i) @ c \<and> length a = i * 18"
proof (induction es arbitrary: i)
  case (Cons e es)
  show ?case
  proof (cases i)
    case (Suc k)
    then have "k < length es" using Cons.prems by simp
    from Cons.IH [OF this] obtain a c
      where "concat (map entry_bytes es) = a @ entry_bytes (es ! k) @ c"
        and "length a = k * 18" by blast
    with Suc show ?thesis by (intro exI [of _ "entry_bytes e @ a"] exI [of _ c]) simp
  qed simp
qed simp

section \<open>Buckets\<close>

lemma length_write_bucket_into:
  "length (write_bucket_into buf es sp) = max (8 + length es * 18) (length buf)"
  by (simp add: write_bucket_into_def length_entries nudb_sizes)

lemma bucket_count:
  "length es < 65536 \<Longrightarrow>
     unat (from_be_bytes (slice (write_bucket_into buf es sp) 0 2) :: u16) = length es"
  by (simp add: write_bucket_into_def slice_def unat_of_nat16)

lemma bucket_spill:
  "unat sp < lim48 \<Longrightarrow> read_u48 (slice (write_bucket_into buf es sp) 2 8) = sp"
  by (simp add: write_bucket_into_def slice_def)

lemma bucket_entry:
  assumes "i < length es" and "es ! i = (nh, off, sz)"
    and "unat nh < lim48" and "unat off < lim48" and "unat sz < lim48"
  defines "b \<equiv> bucket_header + i * entry_size"
  shows "b + 18 \<le> length (write_bucket_into buf es sp)"
    and "read_u48 (slice (write_bucket_into buf es sp) b (b + 6)) = off"
    and "read_u48 (slice (write_bucket_into buf es sp) (b + 6) (b + 12)) = sz"
    and "read_u48 (slice (write_bucket_into buf es sp) (b + 12) (b + 18)) = nh"
proof -
  obtain a c where ac: "concat (map entry_bytes es) = a @ entry_bytes (es ! i) @ c"
    "length a = i * 18"
    using concat_entries_nth [OF assms(1)] by blast
  define p where "p = to_be_bytes (of_nat (length es) :: u16) @ write_u48 sp @ a"
  define q where "q = c @ drop (bucket_header + length es * entry_size) buf"
  have w: "write_bucket_into buf es sp = p @ write_u48 off @ write_u48 sz @ write_u48 nh @ q"
    using ac assms(2) by (simp add: write_bucket_into_def p_def q_def entry_bytes_def)
  have l: "length p = b" using ac by (simp add: p_def b_def nudb_sizes)
  show "b + 18 \<le> length (write_bucket_into buf es sp)" by (simp add: w l)
  have "slice (write_bucket_into buf es sp) b (b + 6) = write_u48 off"
    unfolding w by (rule slice_append) (simp_all add: l)
  with assms(4) show "read_u48 (slice (write_bucket_into buf es sp) b (b + 6)) = off" by simp
  have "slice (write_bucket_into buf es sp) (b + 6) (b + 12) = write_u48 sz"
    unfolding w using slice_append [of "p @ write_u48 off" "b + 6" "write_u48 sz" "b + 12"]
    by (simp add: l)
  with assms(5) show "read_u48 (slice (write_bucket_into buf es sp) (b + 6) (b + 12)) = sz" by simp
  have "slice (write_bucket_into buf es sp) (b + 12) (b + 18) = write_u48 nh"
    unfolding w using slice_append [of "p @ write_u48 off @ write_u48 sz" "b + 12" "write_u48 nh" "b + 18"]
    by (simp add: l)
  with assms(3) show "read_u48 (slice (write_bucket_into buf es sp) (b + 12) (b + 18)) = nh" by simp
qed

section \<open>Records\<close>

text \<open>
  Entry \<open>e\<close> is the placement of the value \<open>v\<close> of key \<open>h\<close> in the file \<open>D\<close>; \<open>NH\<close> is the
  store's 48-bit hash.
\<close>

definition stored ::
  "(hash256 \<Rightarrow> u64) \<Rightarrow> byte list \<Rightarrow> placed_entry \<Rightarrow> hash256 \<Rightarrow> byte list \<Rightarrow> bool" where
  "stored NH D e h v \<longleftrightarrow>
     (case e of (nh, off, sz) \<Rightarrow>
        nh = NH h \<and> unat nh < lim48 \<and> unat off + 38 + length v < lim48 \<and> unat sz = length v \<and>
        (\<exists>pre post. D = pre @ write_u48 sz @ to_be_bytes h @ v @ post \<and> length pre = unat off))"

lemma stored_extend: "stored NH D e h v \<Longrightarrow> stored NH (D @ x) e h v"
  by (cases e) (fastforce simp add: stored_def)

lemma stored_reads:
  assumes "stored NH D (nh, off, sz) h v"
  shows "\<exists>head. read_exact_at D (unat off) rec_header = Inr head \<and> slice head 6 38 = to_be_bytes h"
    and "read_exact_at D (unat (off + of_nat rec_header)) (unat sz) = Inr v"
proof -
  obtain pre post where D: "D = pre @ write_u48 sz @ to_be_bytes h @ v @ post"
    and l: "length pre = unat off" and b: "unat off + 38 + length v < lim48"
    and sz: "unat sz = length v"
    using assms by (auto simp add: stored_def)
  have "read_exact_at D (unat off) rec_header = Inr (write_u48 sz @ to_be_bytes h)"
    unfolding D using l
    by (intro read_exact_at_append [of pre _ "write_u48 sz @ to_be_bytes h", simplified])
      (simp_all add: nudb_sizes)
  moreover have "slice (write_u48 sz @ to_be_bytes h) 6 38 = to_be_bytes h"
    using slice_append [of "write_u48 sz" 6 "to_be_bytes h" 38 "[]"] by simp
  ultimately show "\<exists>head. read_exact_at D (unat off) rec_header = Inr head
      \<and> slice head 6 38 = to_be_bytes h" by blast
  have "unat (off + of_nat rec_header) = unat off + 38"
    using b by (simp add: unat_word_ariths nudb_sizes)
  then show "read_exact_at D (unat (off + of_nat rec_header)) (unat sz) = Inr v"
    unfolding D sz
    using read_exact_at_append [of "pre @ write_u48 sz @ to_be_bytes h" "unat off + 38" v _ post] l
    by simp
qed

lemma stored_key_unique:
  assumes "stored NH D e h v" and "stored NH D e k w"
  shows "h = k \<and> v = w"
proof -
  obtain nh off sz where e: "e = (nh, off, sz)" by (cases e)
  have "to_be_bytes h = to_be_bytes k" "v = w"
    using stored_reads [OF assms(1) [unfolded e]] stored_reads [OF assms(2) [unfolded e]] by auto
  then show ?thesis by (simp add: to_be_bytes_inject)
qed

section \<open>Scanning a bucket\<close>

text \<open>Every entry of the bucket is the placement of some binding of \<open>M\<close>.\<close>

definition placements ::
  "(hash256 \<Rightarrow> u64) \<Rightarrow> byte list \<Rightarrow> (hash256 \<rightharpoonup> byte list) \<Rightarrow> placed_entry list \<Rightarrow> bool" where
  "placements NH D M es \<longleftrightarrow> (\<forall>e \<in> set es. \<exists>h v. M h = Some v \<and> stored NH D e h v)"

definition holds_key ::
  "(hash256 \<Rightarrow> u64) \<Rightarrow> byte list \<Rightarrow> hash256 \<Rightarrow> placed_entry list \<Rightarrow> bool" where
  "holds_key NH D key es \<longleftrightarrow> (\<exists>e \<in> set es. \<exists>v. stored NH D e key v)"

lemma scan_entries_bucket:
  assumes "placements NH D M es"
  shows "set is \<subseteq> {..<length es} \<Longrightarrow>
    scan_entries D key (NH key) (write_bucket_into buf es sp) is
      = Inr (if holds_key NH D key (map ((!) es) is) then M key else None)"
proof (induction "is")
  case Nil
  then show ?case by (simp add: holds_key_def)
next
  case (Cons i "is")
  then have i: "i < length es" by simp
  then obtain h v where hv: "M h = Some v" "stored NH D (es ! i) h v"
    using assms unfolding placements_def by (meson nth_mem)
  obtain nh off sz where e: "es ! i = (nh, off, sz)" by (cases "es ! i")
  have bounds: "unat nh < lim48" "unat off < lim48" "unat sz < lim48" "nh = NH h"
    using hv(2) by (auto simp add: stored_def e)
  have IH: "scan_entries D key (NH key) (write_bucket_into buf es sp) is
      = Inr (if holds_key NH D key (map ((!) es) is) then M key else None)"
    using Cons by simp
  note b = bucket_entry [OF i e bounds(1-3), of buf sp]
  note r = stored_reads [OF hv(2) [unfolded e]]
  obtain head where head: "read_exact_at D (unat off) rec_header = Inr head"
    "slice head 6 38 = to_be_bytes h"
    using r(1) by blast
  show ?case
  proof (cases "h = key")
    case True
    have "holds_key NH D key (map ((!) es) (i # is))"
      using hv(2) True by (auto simp add: holds_key_def)
    then show ?thesis
      using b head r(2) True hv(1) bounds(4) by (simp add: Let_def)
  next
    case False
    have "\<not> stored NH D (es ! i) key w" for w
      using stored_key_unique [OF hv(2)] False by blast
    then have "holds_key NH D key (map ((!) es) (i # is)) \<longleftrightarrow> holds_key NH D key (map ((!) es) is)"
      by (auto simp add: holds_key_def)
    then show ?thesis
      using b head False IH by (simp add: Let_def to_be_bytes_inject)
  qed
qed

lemma scan_bucket:
  assumes "placements NH D M es"
  shows "scan_entries D key (NH key) (write_bucket_into buf es sp) [0..<length es]
    = Inr (if holds_key NH D key es then M key else None)"
  using scan_entries_bucket [OF assms, of "[0..<length es]" key buf sp]
  by (simp add: map_nth atLeast0LessThan)

section \<open>Spill chains\<close>

text \<open>Following the spill pointer \<open>sp\<close> in \<open>D\<close> visits these groups of entries.\<close>

fun chain :: "byte list \<Rightarrow> u64 \<Rightarrow> placed_entry list list \<Rightarrow> bool" where
  "chain D sp [] \<longleftrightarrow> sp = 0"
| "chain D sp (es # ess) \<longleftrightarrow>
     sp \<noteq> 0 \<and> length es < 65536 \<and>
     (\<exists>next. unat next < lim48 \<and> read_spill D sp = Inr (write_bucket_into [] es next)
        \<and> chain D next ess)"

lemma read_spill_extend: "read_spill D sp = Inr b \<Longrightarrow> read_spill (D @ x) sp = Inr b"
  by (auto simp add: read_spill_def rbind_eq_Inr dest: read_exact_at_extend)

lemma chain_extend: "chain D sp ess \<Longrightarrow> chain (D @ x) sp ess"
  by (induction ess arbitrary: sp) (auto dest: read_spill_extend)

lemma holds_key_found:
  assumes "placements NH D M es" and "holds_key NH D key es"
  shows "\<exists>v. M key = Some v"
  using assms stored_key_unique unfolding placements_def holds_key_def by metis

lemma fetch_loop_chain:
  assumes "placements NH D M (es @ concat ess)" and "length es < 65536" and "unat sp < lim48"
    and "chain D sp ess"
  shows "fetch_loop D key (NH key) (write_bucket_into buf es sp)
    = Some (Inr (if holds_key NH D key (es @ concat ess) then M key else None))"
  using assms
proof (induction ess arbitrary: es sp buf)
  case Nil
  then have "placements NH D M es" by (simp add: placements_def)
  moreover from this have "M key \<noteq> None" if "holds_key NH D key es"
    using holds_key_found that by blast
  ultimately show ?case
    using Nil.prems
    by (subst fetch_loop.simps)
      (auto simp add: length_write_bucket_into bucket_count bucket_spill scan_bucket Let_def
        nudb_sizes max_def split: option.splits)
next
  case (Cons fs ess)
  from Cons.prems obtain next' where n: "unat next' < lim48"
      "read_spill D sp = Inr (write_bucket_into [] fs next')" "chain D next' ess"
      "length fs < 65536" "sp \<noteq> 0"
    by auto
  have p: "placements NH D M es" "placements NH D M (fs @ concat ess)"
    using Cons.prems(1) by (auto simp add: placements_def)
  have IH: "fetch_loop D key (NH key) (write_bucket_into [] fs next')
      = Some (Inr (if holds_key NH D key (fs @ concat ess) then M key else None))"
    by (rule Cons.IH [OF p(2) n(4,1,3)])
  have found: "M key \<noteq> None" if "holds_key NH D key es"
    using holds_key_found [OF p(1) that] by blast
  have split: "holds_key NH D key (es @ concat (fs # ess)) \<longleftrightarrow>
      holds_key NH D key es \<or> holds_key NH D key (fs @ concat ess)"
    by (auto simp add: holds_key_def)
  show ?case
    unfolding split using Cons.prems(2,3) n p(1) IH found
    by (subst fetch_loop.simps)
      (auto simp add: length_write_bucket_into bucket_count bucket_spill scan_bucket Let_def
        nudb_sizes max_def split: option.splits)
qed

section \<open>Writing spill chains\<close>

lemma concat_chunks: "0 < n \<Longrightarrow> concat (chunks n xs) = xs"
proof (induction n xs rule: chunks.induct)
  case (1 n xs)
  then show ?case by (cases "xs = []") (simp_all add: chunks.simps)
qed

lemma chunks_length: "0 < n \<Longrightarrow> c \<in> set (chunks n xs) \<Longrightarrow> length c \<le> n \<and> c \<noteq> []"
proof (induction n xs rule: chunks.induct)
  case (1 n xs)
  then show ?case by (cases "xs = []") (auto simp add: chunks.simps [of n xs] chunks.simps [of n "[]"])
qed

text \<open>The bytes one spill record takes.\<close>

definition spill_bytes :: "placed_entry list \<Rightarrow> nat" where
  "spill_bytes es = 16 + length es * 18"

lemma read_spill_written:
  assumes "length es \<le> bucket_capacity" and "length D = unat sp"
  shows "read_spill (D @ write_bucket_into (replicate (bucket_header + length es * entry_size) 0) es n @ r) sp
    = Inr (write_bucket_into [] es n)"
proof -
  let ?b = "write_bucket_into [] es n"
  have b: "write_bucket_into (replicate (bucket_header + length es * entry_size) 0) es n = ?b"
    by (simp add: write_bucket_into_def)
  have l: "length ?b = 8 + length es * 18" by (simp add: length_write_bucket_into)
  have c: "unat (from_be_bytes (slice (take 8 ?b) 0 2) :: u16) = length es"
    using bucket_count [of es "[]" n] assms(1) by (simp add: slice_def bucket_capacity min_def)
  have "read_exact_at (D @ ?b @ r) (unat sp) bucket_header = Inr (take 8 ?b)"
    using assms(2) l by (simp add: read_exact_at_def nudb_sizes)
  moreover have "read_exact_at (D @ ?b @ r) (unat sp) (bucket_header + length es * entry_size) = Inr ?b"
    using read_exact_at_append [of D "unat sp" ?b _ r] assms(2) l by (simp add: nudb_sizes)
  ultimately show ?thesis by (simp add: read_spill_def b c)
qed

lemma spill_step_chain:
  assumes "spill_step (D, off, next) es = (D', off', next')"
    and "chain D next ess" and "length D = unat off" and "unat next < lim48"
    and "length es \<le> bucket_capacity" and "unat off + spill_bytes es < lim48"
  shows "chain D' next' (es # ess) \<and> length D' = unat off' \<and> unat next' < lim48 \<and>
    unat off' = unat off + spill_bytes es \<and> (\<exists>x. D' = D @ x)"
proof -
  let ?len = "bucket_header + length es * entry_size"
  let ?h = "replicate 6 0 @ to_be_bytes (of_nat ?len :: u16)"
  let ?body = "write_bucket_into (replicate ?len 0) es next"
  have D': "D' = (D @ ?h) @ ?body @ []" "off' = off + (8 + of_nat ?len)" "next' = off + 8"
    using assms(1) by (simp_all add: spill_step_def Let_def)
  have small: "length es \<le> 227" using assms(5) by (simp add: bucket_capacity)
  have n': "unat next' = unat off + 8"
    unfolding D' using assms(6) by (simp add: unat_word_ariths spill_bytes_def)
  have "unat (of_nat ?len :: u64) = ?len"
    using small by (intro unat_of_nat64) (simp add: nudb_sizes)
  then have "unat (8 + of_nat ?len :: u64) = 16 + length es * 18"
    using small by (simp add: unat_word_ariths nudb_sizes del: of_nat_add of_nat_mult)
  then have o': "unat off' = unat off + spill_bytes es"
    unfolding D' using assms(6) by (simp add: unat_word_ariths spill_bytes_def)
  have lh: "length (D @ ?h) = unat next'" using assms(3) n' by simp
  have "read_spill D' next' = Inr (write_bucket_into [] es next)"
    unfolding D'(1) by (rule read_spill_written [OF assms(5) lh])
  moreover have "chain D' next ess"
    using chain_extend [OF assms(2)] by (simp add: D'(1))
  moreover have "next' \<noteq> 0"
    using n' by auto
  moreover have "length D' = unat off'"
    using o' assms(3) small
    by (simp add: D'(1) length_write_bucket_into spill_bytes_def nudb_sizes)
  ultimately show ?thesis
    using o' n' assms(4,6) small D'(1) by (auto simp add: spill_bytes_def)
qed

lemma spill_steps_chain:
  assumes "foldl spill_step (D, off, next) gs = (D', off', next')"
    and "chain D next ess" and "length D = unat off" and "unat next < lim48"
    and "\<forall>g \<in> set gs. length g \<le> bucket_capacity"
    and "unat off + sum_list (map spill_bytes gs) < lim48"
  shows "chain D' next' (rev gs @ ess) \<and> length D' = unat off' \<and> unat next' < lim48 \<and>
    unat off' = unat off + sum_list (map spill_bytes gs) \<and> (\<exists>x. D' = D @ x)"
  using assms
proof (induction gs arbitrary: D off "next" ess)
  case (Cons g gs)
  obtain D1 off1 next1 where s: "spill_step (D, off, next) g = (D1, off1, next1)"
    by (cases "spill_step (D, off, next) g")
  have one: "chain D1 next1 (g # ess) \<and> length D1 = unat off1 \<and> unat next1 < lim48 \<and>
      unat off1 = unat off + spill_bytes g \<and> (\<exists>x. D1 = D @ x)"
    using spill_step_chain [OF s Cons.prems(2-4)] Cons.prems(5,6) by simp
  have "chain D' next' (rev gs @ g # ess) \<and> length D' = unat off' \<and> unat next' < lim48 \<and>
      unat off' = unat off1 + sum_list (map spill_bytes gs) \<and> (\<exists>x. D' = D1 @ x)"
    using Cons.IH [of D1 off1 next1 "g # ess"] Cons.prems(1,5,6) one s by simp
  with one show ?case by (auto simp add: algebra_simps)
qed auto

definition chain_bytes :: "placed_entry list \<Rightarrow> nat" where
  "chain_bytes es = sum_list (map spill_bytes (chunks bucket_capacity es))"

lemma write_spill_chain_reads:
  assumes "write_spill_chain D off es = (D', off', head)" and "length D = unat off"
    and "unat off + chain_bytes es < lim48"
  shows "chain D' head (chunks bucket_capacity es) \<and> length D' = unat off' \<and> unat head < lim48 \<and>
    unat off' = unat off + chain_bytes es \<and> (\<exists>x. D' = D @ x)"
proof (cases "es = []")
  case True
  then show ?thesis
    using assms by (auto simp add: write_spill_chain_def chunks.simps chain_bytes_def)
next
  case False
  have f: "foldl spill_step (D, off, 0) (rev (chunks bucket_capacity es)) = (D', off', head)"
    using assms(1) False by (simp add: write_spill_chain_def)
  have "\<forall>g \<in> set (rev (chunks bucket_capacity es)). length g \<le> bucket_capacity"
    using chunks_length [of bucket_capacity] by (auto simp add: bucket_capacity)
  from spill_steps_chain [OF f _ assms(2) _ this, of "[]"] assms(3)
  show ?thesis by (simp add: chain_bytes_def rev_map [symmetric] sum_list_rev)
qed

end
