(* ===== verification/File_System.thy ===== *)
theory File_System
  imports Xrla_Prelude
begin

text \<open>
  The part of the file system the program uses: paths map to file contents; appending,
  renaming over an existing file, removing. Every operation here succeeds; where the
  source handles a failing operation, the component's step relation says what happens.
\<close>

type_synonym file_system = "string \<rightharpoonup> byte list"

definition file_bytes :: "file_system \<Rightarrow> string \<Rightarrow> byte list" where
  "file_bytes fs p = (case fs p of None \<Rightarrow> [] | Some b \<Rightarrow> b)"

definition append_file :: "file_system \<Rightarrow> string \<Rightarrow> byte list \<Rightarrow> file_system" where
  "append_file fs p buf = fs(p \<mapsto> file_bytes fs p @ buf)"

definition remove_file :: "file_system \<Rightarrow> string \<Rightarrow> file_system" where
  "remove_file fs p = fs(p := None)"

text \<open>\<open>fs::rename\<close>: the target is replaced.\<close>

definition rename_file :: "file_system \<Rightarrow> string \<Rightarrow> string \<Rightarrow> file_system" where
  "rename_file fs p q = fs(q := fs p, p := None)"

definition tmp_path :: "string \<Rightarrow> string" where
  "tmp_path p = p @ ''.tmp''"

lemma tmp_path_neq [simp]: "tmp_path p \<noteq> p" "p \<noteq> tmp_path p"
  by (simp_all add: tmp_path_def)

end
