(* ===== verification/Nudb_Writer.thy ===== *)
theory Nudb_Writer
  imports Nudb_Lookup File_System
begin

text \<open>
  NuDbSink of crates/xrla-nudb/src/writer.rs: nodes are appended to a temporary .dat file one
  at a time; finish sizes the bucket table, appends the spill chains and writes the .key
  file. This theory computes the two file images and proves that every written node is found
  again; the theory Nudb_Swap moves the two files into place.
\<close>

section \<open>The sink\<close>

record nudb_sink =
  sk_dat_tmp :: string
  sk_dat_final :: string
  sk_finished :: bool
  sk_offset :: u64
  sk_salt :: u64
  sk_version :: u16
  sk_uid :: u64
  sk_appnum :: u64
  sk_seen :: "hash256 set"
  sk_placed :: "placed_entry list"

definition sink_create :: "file_system \<Rightarrow> string \<Rightarrow> file_system \<times> nudb_sink" where
  "sink_create fs dat_path =
     (let salt = 0x58524C4158524C41; uid = 1; appnum = 1; version = 2;
          dat_tmp = tmp_path dat_path;
          fs = fs(dat_tmp \<mapsto> []);
          fs = append_file fs dat_tmp (write_dat_header version uid appnum)
      in (fs, \<lparr>sk_dat_tmp = dat_tmp, sk_dat_final = dat_path, sk_finished = False,
               sk_offset = of_nat dat_header_size, sk_salt = salt, sk_version = version,
               sk_uid = uid, sk_appnum = appnum, sk_seen = {}, sk_placed = []\<rparr>))"

definition sink_contains :: "nudb_sink \<Rightarrow> hash256 \<Rightarrow> bool" where
  "sink_contains sk h \<longleftrightarrow> h \<in> sk_seen sk"

definition sink_write_node ::
  "xxh64 \<Rightarrow> file_system \<times> nudb_sink \<Rightarrow> hash256 \<Rightarrow> byte list \<Rightarrow> file_system \<times> nudb_sink" where
  "sink_write_node X st h val =
     (let (fs, sk) = st in
      if h \<in> sk_seen sk then st else
      let val_size = of_nat (length val) :: u64;
          fs = append_file fs (sk_dat_tmp sk) (write_u48 val_size);
          fs = append_file fs (sk_dat_tmp sk) (to_be_bytes h);
          fs = append_file fs (sk_dat_tmp sk) val;
          nhash = nudb_hash X (sk_salt sk) h
      in (fs, sk\<lparr>sk_seen := insert h (sk_seen sk),
                 sk_placed := sk_placed sk @ [(nhash, sk_offset sk, val_size)],
                 sk_offset := sk_offset sk + (6 + of_nat key_size + val_size)\<rparr>))"

definition sink_node_count :: "nudb_sink \<Rightarrow> nat" where
  "sink_node_count sk = length (sk_placed sk)"

definition sink_drop :: "file_system \<times> nudb_sink \<Rightarrow> file_system" where
  "sink_drop st = (let (fs, sk) = st in if \<not> sk_finished sk then remove_file fs (sk_dat_tmp sk) else fs)"

section \<open>The file images finish writes\<close>

text \<open>
  \<open>(n / (227 * 0.5)).ceil()\<close> in f64, at least 1. The integer form is exact for every entry
  count a store with 48-bit offsets can hold.
\<close>

definition bucket_count_for :: "nat \<Rightarrow> u64" where
  "bucket_count_for n = of_nat (max 1 ((2 * n + 226) div 227))"

definition place_buckets :: "u64 \<Rightarrow> u64 \<Rightarrow> placed_entry list \<Rightarrow> placed_entry list list" where
  "place_buckets num_buckets modulus placed =
     foldl (\<lambda>bs e. let n = unat (bucket_index num_buckets modulus (fst e)) in bs[n := bs ! n @ [e]])
       (replicate (unat num_buckets) []) placed"

definition spill_bucket ::
  "byte list \<times> u64 \<times> (placed_entry list \<times> u64) list \<Rightarrow> placed_entry list
     \<Rightarrow> byte list \<times> u64 \<times> (placed_entry list \<times> u64) list" where
  "spill_bucket st b =
     (case st of (dat, offset, blocks) \<Rightarrow>
        let es = sort_key fst b in
        if bucket_capacity < length es then
          (case write_spill_chain dat offset (drop bucket_capacity es) of
             (dat', offset', head) \<Rightarrow> (dat', offset', blocks @ [(take bucket_capacity es, head)]))
        else (dat, offset, blocks @ [(es, 0)]))"

text \<open>The .dat and .key images; None when the modulus loop does not return.\<close>

definition sink_images :: "xxh64 \<Rightarrow> nudb_sink \<Rightarrow> byte list \<Rightarrow> (byte list \<times> byte list) option" where
  "sink_images X sk dat =
     (let num_buckets = bucket_count_for (length (sk_placed sk)) in
      Option.bind (modulus_loop 1 num_buckets) (\<lambda>modulus.
      let buckets = place_buckets num_buckets modulus (sk_placed sk) in
      case foldl spill_bucket (dat, sk_offset sk, []) buckets of (dat', _, blocks) \<Rightarrow>
        Some (dat', write_key_header X (sk_version sk) (sk_uid sk) (sk_appnum sk) (sk_salt sk)
                    @ concat (map (\<lambda>(es, spill). write_bucket_block es spill) blocks))))"

section \<open>The modulus and the bucket of a hash\<close>

lemma modulus_loop_finds:
  "unat m = 2 ^ k \<Longrightarrow> k \<le> 63 \<Longrightarrow> unat n \<le> 2 ^ 63 \<Longrightarrow>
     \<exists>m'. modulus_loop m n = Some m' \<and> unat n \<le> unat m' \<and> (m' = m \<or> unat m' < 2 * unat n)"
proof (induction "63 - k" arbitrary: m k rule: less_induct)
  case less
  show ?case
  proof (cases "m < n")
    case False
    then show ?thesis
      by (subst modulus_loop.simps) (simp add: word_less_nat_alt)
  next
    case True
    then have lt: "2 ^ k < unat n" using less.prems(1) by (simp add: word_less_nat_alt)
    have k: "k < 63"
    proof (rule ccontr)
      assume "\<not> k < 63"
      with less.prems have "k = 63" by simp
      with lt less.prems(3) show False by simp
    qed
    have small: "(2::nat) ^ Suc k \<le> 2 ^ 63"
      by (rule power_increasing) (use k in simp_all)
    then have "(2::nat) ^ Suc k < 2 ^ 64" by simp
    then have u: "unat (push_bit 1 m) = 2 ^ Suc k"
      using less.prems(1) by (simp add: push_bit_eq_mult unat_word_ariths)
    have dec: "63 - Suc k < 63 - k" and le63: "Suc k \<le> 63" using k by simp_all
    obtain m' where m': "modulus_loop (push_bit 1 m) n = Some m'" "unat n \<le> unat m'"
        "m' = push_bit 1 m \<or> unat m' < 2 * unat n"
      using less.hyps [OF dec u le63 less.prems(3)] by blast
    have "unat m' < 2 * unat n"
      using m'(3) lt u by auto
    with m' True show ?thesis by (subst modulus_loop.simps) simp
  qed
qed

lemma modulus_for_buckets:
  assumes "unat nb \<le> 2 ^ 63"
  shows "\<exists>m. modulus_loop 1 nb = Some m \<and> unat nb \<le> unat m \<and> (m = 1 \<or> unat m < 2 * unat nb)"
  using modulus_loop_finds [of 1 0 nb] assms by simp

lemma bucket_index_less:
  assumes "0 < unat nb" and "unat nb \<le> unat m" and "m = 1 \<or> unat m < 2 * unat nb"
  shows "unat (bucket_index nb m h) < unat nb"
proof -
  have mpos: "0 < unat m" using assms by linarith
  let ?n = "unat h mod unat m"
  have n: "unat (h mod m) = ?n" by (simp add: unat_mod_distrib)
  have lt: "?n < unat m" using mpos by simp
  show ?thesis
  proof (cases "nb \<le> h mod m")
    case False
    then show ?thesis by (simp add: bucket_index_def n word_le_nat_alt)
  next
    case True
    then have ge: "unat nb \<le> ?n" by (simp add: word_le_nat_alt n)
    have d: "unat (m div 2) = unat m div 2" by (simp add: unat_div_distrib)
    from assms(3) have "m \<noteq> 1 \<longrightarrow> unat m < 2 * unat nb" by blast
    moreover have "m \<noteq> 1" using ge lt assms(1) by auto
    ultimately have m2: "unat m < 2 * unat nb" by blast
    have le: "unat m div 2 \<le> ?n" using ge m2 by linarith
    then have "unat (h mod m - m div 2) = ?n - unat m div 2"
      using n d by (simp add: unat_sub word_le_nat_alt)
    moreover have "?n - unat m div 2 < unat nb" using lt m2 by linarith
    ultimately show ?thesis using True by (simp add: bucket_index_def Let_def)
  qed
qed

lemma place_buckets_step:
  assumes "\<forall>e \<in> set placed. unat (bucket_index nb m (fst e)) < length bs"
  shows "foldl (\<lambda>bs e. let n = unat (bucket_index nb m (fst e)) in bs[n := bs ! n @ [e]]) bs placed
    = map (\<lambda>i. bs ! i @ filter (\<lambda>e. unat (bucket_index nb m (fst e)) = i) placed) [0..<length bs]"
  using assms
proof (induction placed arbitrary: bs)
  case Nil
  then show ?case by (auto intro!: nth_equalityI)
next
  case (Cons e placed)
  then show ?case by (auto simp add: Let_def nth_list_update intro!: nth_equalityI)
qed

lemma place_buckets_eq:
  assumes "\<forall>e \<in> set placed. unat (bucket_index nb m (fst e)) < unat nb"
  shows "place_buckets nb m placed
    = map (\<lambda>i. filter (\<lambda>e. unat (bucket_index nb m (fst e)) = i) placed) [0..<unat nb]"
  using place_buckets_step [of placed nb m "replicate (unat nb) []"] assms
  by (simp add: place_buckets_def)

section \<open>Spilling the buckets\<close>

definition spill_total :: "placed_entry list list \<Rightarrow> nat" where
  "spill_total bs = sum_list (map (\<lambda>b. chain_bytes (drop bucket_capacity b)) bs)"

text \<open>Block \<open>(es, sp)\<close> of the key file stands for the bucket \<open>b\<close>.\<close>

definition block_for :: "byte list \<Rightarrow> placed_entry list \<Rightarrow> placed_entry list \<times> u64 \<Rightarrow> bool" where
  "block_for D b blk \<longleftrightarrow>
     fst blk = take bucket_capacity (sort_key fst b) \<and> unat (snd blk) < lim48 \<and>
     chain D (snd blk) (chunks bucket_capacity (drop bucket_capacity (sort_key fst b)))"

lemma block_for_extend: "block_for D b blk \<Longrightarrow> block_for (D @ x) b blk"
  by (simp add: block_for_def chain_extend)

lemma chain_bytes_le: "chain_bytes es \<le> 34 * length es"
proof -
  have "sum_list (map spill_bytes gs) \<le> 34 * length (concat gs)" if "\<forall>g \<in> set gs. g \<noteq> []" for gs
    using that
  proof (induction gs)
    case (Cons g gs)
    have "1 \<le> length g" using Cons.prems by (cases g) auto
    then have "spill_bytes g \<le> 34 * length g" by (simp add: spill_bytes_def)
    with Cons show ?case by simp
  qed simp
  moreover have "\<forall>g \<in> set (chunks bucket_capacity es). g \<noteq> []"
    using chunks_length [of bucket_capacity] by (auto simp add: bucket_capacity)
  moreover have "concat (chunks bucket_capacity es) = es"
    by (rule concat_chunks) (simp add: bucket_capacity)
  ultimately show ?thesis unfolding chain_bytes_def by metis
qed

lemma spill_bucket_step:
  assumes "spill_bucket (D, off, blocks) b = (D', off', blocks')"
    and "length D = unat off" and "unat off + 34 * length b < lim48"
  shows "\<exists>blk x. blocks' = blocks @ [blk] \<and> D' = D @ x \<and> block_for D' b blk \<and>
    length D' = unat off' \<and> unat off' \<le> unat off + 34 * length b"
proof (cases "bucket_capacity < length b")
  case False
  then show ?thesis
    using assms by (auto simp add: spill_bucket_def Let_def block_for_def chunks.simps)
next
  case True
  let ?over = "drop bucket_capacity (sort_key fst b)"
  obtain head where w: "write_spill_chain D off ?over = (D', off', head)"
    and bl: "blocks' = blocks @ [(take bucket_capacity (sort_key fst b), head)]"
    using assms(1) True
    by (cases "write_spill_chain D off ?over") (auto simp add: spill_bucket_def Let_def)
  have cb: "chain_bytes ?over \<le> 34 * length b"
    using chain_bytes_le [of ?over] by simp
  then have "unat off + chain_bytes ?over < lim48" using assms(3) by simp
  from write_spill_chain_reads [OF w assms(2) this] cb show ?thesis
    unfolding bl block_for_def by auto
qed

lemma spill_buckets:
  assumes "foldl spill_bucket (D, off, blocks) bs = (D', off', blocks')"
    and "length D = unat off" and "unat off + 34 * length (concat bs) < lim48"
  shows "\<exists>blks x. blocks' = blocks @ blks \<and> D' = D @ x \<and> list_all2 (block_for D') bs blks"
  using assms
proof (induction bs arbitrary: D off blocks)
  case (Cons b bs)
  obtain D1 off1 blocks1 where s: "spill_bucket (D, off, blocks) b = (D1, off1, blocks1)"
    by (cases "spill_bucket (D, off, blocks) b")
  obtain blk x where one: "blocks1 = blocks @ [blk]" "D1 = D @ x" "block_for D1 b blk"
      "length D1 = unat off1" "unat off1 \<le> unat off + 34 * length b"
    using spill_bucket_step [OF s Cons.prems(2)] Cons.prems(3) by auto
  obtain blks y where rest: "blocks' = blocks1 @ blks" "D' = D1 @ y" "list_all2 (block_for D') bs blks"
    using Cons.IH [of D1 off1 blocks1] Cons.prems(1,3) one(4,5) s by auto
  have "block_for D' b blk" using block_for_extend [OF one(3), of y] rest(2) by simp
  then show ?case
    using one rest by (intro exI [of _ "blk # blks"] exI [of _ "x @ y"]) auto
qed auto

section \<open>Every written node is found\<close>

text \<open>The sink's .dat bytes \<open>D\<close> hold exactly the bindings of \<open>M\<close>.\<close>

definition sink_holds ::
  "xxh64 \<Rightarrow> byte list \<Rightarrow> nudb_sink \<Rightarrow> (hash256 \<rightharpoonup> byte list) \<Rightarrow> bool" where
  "sink_holds X D sk M \<longleftrightarrow>
     length D = unat (sk_offset sk) \<and> sk_seen sk = dom M \<and>
     placements (nudb_hash X (sk_salt sk)) D M (sk_placed sk) \<and>
     (\<forall>h v. M h = Some v \<longrightarrow>
        (\<exists>e \<in> set (sk_placed sk). stored (nudb_hash X (sk_salt sk)) D e h v))"

lemma nudb_hash_less: "unat (nudb_hash X salt h) < lim48"
proof -
  have "unat (nudb_hash X salt h) = unat (X (to_be_bytes h) salt) div 65536"
    by (simp only: nudb_hash_def unat_drop_bit_eq) (simp add: drop_bit_eq_div)
  moreover have "unat (X (to_be_bytes h) salt) < 18446744073709551616"
    using unsigned_less [of "X (to_be_bytes h) salt", where 'a = nat] by simp
  ultimately show ?thesis by (simp add: less_mult_imp_div_less)
qed

lemma read_blocks:
  assumes "b < length blks" and "\<forall>blk \<in> set blks. length (f blk) = 4096" and "length hdr = 4096"
  shows "read_exact_at (hdr @ concat (map f blks)) (4096 * (b + 1)) 4096 = Inr (f (blks ! b))"
proof -
  have "length (concat (map f (take b blks))) = b * 4096"
    using assms(1,2)
  proof (induction b)
    case (Suc b)
    then have "length (f (blks ! b)) = 4096" by simp
    with Suc show ?case by (simp add: take_Suc_conv_app_nth)
  qed simp
  moreover have "concat (map f blks)
      = concat (map f (take b blks)) @ f (blks ! b) @ concat (map f (drop (Suc b) blks))"
    using assms(1) id_take_nth_drop [of b blks] by (metis concat.simps(2) concat_append list.simps(9) map_append)
  ultimately show ?thesis
    using assms read_exact_at_append [of "hdr @ concat (map f (take b blks))" "4096 * (b + 1)"
        "f (blks ! b)" 4096]
    by simp
qed

lemma length_key_header [simp]: "length (write_key_header X v u a s) = 4096"
  by (simp add: write_key_header_def Let_def key_magic_def nudb_sizes)

lemma key_header_fields:
  fixes v :: u16 and u a s :: u64
  assumes "hdr = take 64 (write_key_header X v u a s @ r)"
  shows "slice hdr 0 8 = key_magic" "(from_be_bytes (slice hdr 26 28) :: u16) = 32"
    "(from_be_bytes (slice hdr 28 36) :: u64) = s"
    "(ucast (from_be_bytes (slice hdr 44 46) :: u16) :: u64) = 4096"
proof -
  have hdr: "hdr = key_magic @ to_be_bytes v @ to_be_bytes u @ to_be_bytes a
      @ to_be_bytes (of_nat key_size :: u16) @ to_be_bytes s
      @ to_be_bytes (X (rev (to_be_bytes s)) s) @ to_be_bytes (of_nat block_size :: u16)
      @ to_be_bytes (0x8000 :: u16) @ replicate 16 0"
    by (simp add: assms write_key_header_def Let_def key_magic_def block_size_def)
  show "slice hdr 0 8 = key_magic" unfolding hdr by (simp add: slice_def key_magic_def)
  show "(from_be_bytes (slice hdr 26 28) :: u16) = 32"
    unfolding hdr by (simp add: slice_def key_magic_def key_size_def)
  show "(from_be_bytes (slice hdr 28 36) :: u64) = s"
    unfolding hdr by (simp add: slice_def key_magic_def)
  show "(ucast (from_be_bytes (slice hdr 44 46) :: u16) :: u64) = 4096"
    unfolding hdr by (simp add: slice_def key_magic_def block_size_def)
qed

lemma length_concat_filter:
  assumes "\<forall>e \<in> set es. f e < n"
  shows "length (concat (map (\<lambda>i. filter (\<lambda>e. f e = i) es) [0..<n])) = length es"
  using assms
proof (induction es)
  case Nil
  then show ?case by (simp add: length_concat o_def)
next
  case (Cons e es)
  have "(\<Sum>i\<leftarrow>[0..<n]. length (filter (\<lambda>x. f x = i) (e # es)))
      = (\<Sum>i\<leftarrow>[0..<n]. (if i = f e then 1 else 0) + length (filter (\<lambda>x. f x = i) es))"
    by (rule arg_cong [where f = sum_list], rule map_cong) auto
  also have "\<dots> = (\<Sum>i\<leftarrow>[0..<n]. if i = f e then 1 else 0)
      + (\<Sum>i\<leftarrow>[0..<n]. length (filter (\<lambda>x. f x = i) es))"
    by (simp add: sum_list_addf)
  also have "(\<Sum>i\<leftarrow>[0..<n]. if i = f e then 1 else 0) = (1::nat)"
    using Cons.prems by (simp add: sum_list_distinct_conv_sum_set)
  finally show ?case using Cons by (simp add: length_concat o_def)
qed

lemma sink_images_open:
  assumes "length (sk_placed sk) < 2 ^ 43" and "length D = unat (sk_offset sk)"
    and "unat (sk_offset sk) + 34 * length (sk_placed sk) < lim48"
  obtains D' key s nb m blks x where
    "sink_images X sk D = Some (D', key)" and "shard_open D' key = Some (Inr s)"
    and "D' = D @ x" and "s = \<lparr>sh_dat = D', sh_key = key, sh_salt = sk_salt sk,
      sh_block_size = 4096, sh_num_buckets = nb, sh_modulus = m\<rparr>"
    and "\<And>h. unat (bucket_index nb m h) < unat nb"
    and "unat nb < 2 ^ 43"
    and "key = write_key_header X (sk_version sk) (sk_uid sk) (sk_appnum sk) (sk_salt sk)
      @ concat (map (\<lambda>(es, spill). write_bucket_block es spill) blks)"
    and "list_all2 (block_for D')
      (map (\<lambda>i. filter (\<lambda>e. unat (bucket_index nb m (fst e)) = i) (sk_placed sk)) [0..<unat nb]) blks"
proof -
  let ?n = "length (sk_placed sk)"
  define nb where "nb = bucket_count_for ?n"
  have le: "max 1 ((2 * ?n + 226) div 227) < 2 ^ 43"
    using assms(1) by simp
  then have nb: "unat nb = max 1 ((2 * ?n + 226) div 227)"
    unfolding nb_def bucket_count_for_def by (intro unat_of_nat64) simp
  have nb43: "unat nb < 2 ^ 43" and nb0: "0 < unat nb" unfolding nb using le by simp_all
  have "unat nb \<le> 2 ^ 63" using nb43 by simp
  from modulus_for_buckets [OF this] obtain m where m: "modulus_loop 1 nb = Some m"
      "unat nb \<le> unat m" "m = 1 \<or> unat m < 2 * unat nb" by blast
  have idx: "unat (bucket_index nb m h) < unat nb" for h
    by (rule bucket_index_less [OF nb0 m(2,3)])
  define bs where "bs = map (\<lambda>i. filter (\<lambda>e. unat (bucket_index nb m (fst e)) = i) (sk_placed sk)) [0..<unat nb]"
  have pb: "place_buckets nb m (sk_placed sk) = bs"
    unfolding bs_def by (rule place_buckets_eq) (simp add: idx)
  have total: "length (concat bs) = ?n"
    unfolding bs_def by (rule length_concat_filter) (simp add: idx)
  obtain D' off' blks where sp: "foldl spill_bucket (D, sk_offset sk, []) bs = (D', off', blks)"
    by (cases "foldl spill_bucket (D, sk_offset sk, []) bs")
  obtain x where blks: "D' = D @ x" "list_all2 (block_for D') bs blks"
    using spill_buckets [OF sp assms(2)] assms(3) total by auto
  define key where "key = write_key_header X (sk_version sk) (sk_uid sk) (sk_appnum sk) (sk_salt sk)
      @ concat (map (\<lambda>(es, spill). write_bucket_block es spill) blks)"
  have img: "sink_images X sk D = Some (D', key)"
    using m(1) pb sp by (simp add: sink_images_def Let_def key_def flip: nb_def)
  have "length (fst blk) \<le> 227" if "blk \<in> set blks" for blk
    using blks(2) that by (auto simp add: block_for_def bucket_capacity list_all2_conv_all_nth in_set_conv_nth)
  then have "length (write_bucket_block es sp) = 4096" if "(es, sp) \<in> set blks" for es sp
    using that by (fastforce simp add: write_bucket_block_def length_write_bucket_into nudb_sizes)
  then have "length (concat (map (\<lambda>(es, spill). write_bucket_block es spill) blks)) = length blks * 4096"
    by (induction blks) (auto split: prod.splits)
  moreover have "length blks = unat nb"
    using list_all2_lengthD [OF blks(2)] by (simp add: bs_def)
  ultimately have lk: "length key = 4096 + unat nb * 4096" by (simp add: key_def)
  have "(of_nat (length key) :: u64) - 4096 = of_nat (unat nb * 4096)" by (simp add: lk)
  moreover have "unat (of_nat (unat nb * 4096) :: u64) = unat nb * 4096"
    using nb43 by (intro unat_of_nat64) simp
  ultimately have "unat (((of_nat (length key) :: u64) - 4096) div 4096) = unat nb"
    by (simp add: unat_div_distrib del: of_nat_mult)
  then have count: "((of_nat (length key) :: u64) - 4096) div 4096 = nb"
    by (rule word_unat_eq_iff [THEN iffD2])
  define s where "s = \<lparr>sh_dat = D', sh_key = key, sh_salt = sk_salt sk,
      sh_block_size = 4096, sh_num_buckets = nb, sh_modulus = m\<rparr>"
  have rd: "read_exact_at key 0 64 = Inr (take 64 key)"
    by (simp add: read_exact_at_def lk)
  have "take 64 key = take 64 (write_key_header X (sk_version sk) (sk_uid sk) (sk_appnum sk) (sk_salt sk)
      @ concat (map (\<lambda>(es, spill). write_bucket_block es spill) blks))"
    by (simp only: key_def)
  note fields = key_header_fields [OF this]
  have op: "shard_open D' key = Some (Inr s)"
    using m(1) count by (simp add: shard_open_def rd Let_def s_def fields)
  show thesis
    by (rule that [OF img op blks(1) s_def idx nb43 key_def blks(2) [unfolded bs_def]])
qed

lemma sink_lookup:
  assumes "sink_holds X D sk M" and "length (sk_placed sk) < 2 ^ 43"
    and "unat (sk_offset sk) + 34 * length (sk_placed sk) < lim48"
  shows "\<exists>D' key s. sink_images X sk D = Some (D', key) \<and> shard_open D' key = Some (Inr s)
    \<and> (\<forall>k. fetch X s k = Some (Inr (M k)))"
proof -
  let ?NH = "nudb_hash X (sk_salt sk)"
  have len: "length D = unat (sk_offset sk)" using assms(1) by (simp add: sink_holds_def)
  obtain D' key s nb m blks x where img: "sink_images X sk D = Some (D', key)"
    and op: "shard_open D' key = Some (Inr s)" and D': "D' = D @ x"
    and s: "s = \<lparr>sh_dat = D', sh_key = key, sh_salt = sk_salt sk,
      sh_block_size = 4096, sh_num_buckets = nb, sh_modulus = m\<rparr>"
    and idx: "\<And>h. unat (bucket_index nb m h) < unat nb" and nb: "unat nb < 2 ^ 43"
    and key: "key = write_key_header X (sk_version sk) (sk_uid sk) (sk_appnum sk) (sk_salt sk)
      @ concat (map (\<lambda>(es, spill). write_bucket_block es spill) blks)"
    and blks: "list_all2 (block_for D')
      (map (\<lambda>i. filter (\<lambda>e. unat (bucket_index nb m (fst e)) = i) (sk_placed sk)) [0..<unat nb]) blks"
    by (rule sink_images_open [OF assms(2) len assms(3), where X = X], rule that)
  have pl: "placements ?NH D' M (sk_placed sk)"
    using assms(1) stored_extend unfolding sink_holds_def placements_def D' by blast
  have st: "\<exists>e \<in> set (sk_placed sk). stored ?NH D' e h v" if "M h = Some v" for h v
    using assms(1) that stored_extend unfolding sink_holds_def D' by blast
  have "fetch X s k = Some (Inr (M k))" for k
  proof -
    let ?i = "unat (bucket_index nb m (?NH k))"
    define b where "b = filter (\<lambda>e. unat (bucket_index nb m (fst e)) = ?i) (sk_placed sk)"
    have lb: "length blks = unat nb" using list_all2_lengthD [OF blks] by simp
    have blk: "block_for D' b (blks ! ?i)"
      using list_all2_nthD [OF blks, of ?i] idx [of "?NH k"] by (simp add: b_def)
    obtain es sp where e: "blks ! ?i = (es, sp)" by (cases "blks ! ?i")
    have es: "es = take bucket_capacity (sort_key fst b)" and sp: "unat sp < lim48"
      and ch: "chain D' sp (chunks bucket_capacity (drop bucket_capacity (sort_key fst b)))"
      using blk by (simp_all add: block_for_def e)
    have all: "es @ concat (chunks bucket_capacity (drop bucket_capacity (sort_key fst b))) = sort_key fst b"
      unfolding es by (simp add: concat_chunks bucket_capacity)
    have lens: "\<forall>blk \<in> set blks. length (case blk of (es, spill) \<Rightarrow> write_bucket_block es spill) = 4096"
    proof
      fix blk assume "blk \<in> set blks"
      then obtain j where "j < length blks" "blks ! j = blk" by (auto simp add: in_set_conv_nth)
      then have "length (fst blk) \<le> 227"
        using list_all2_nthD2 [OF blks, of j] by (auto simp add: block_for_def bucket_capacity)
      then show "length (case blk of (es, spill) \<Rightarrow> write_bucket_block es spill) = 4096"
        by (cases blk) (simp add: write_bucket_block_def length_write_bucket_into nudb_sizes)
    qed
    have rd: "read_exact_at key (4096 * (?i + 1)) 4096 = Inr (write_bucket_block es sp)"
      using read_blocks [of ?i blks "\<lambda>(es, spill). write_bucket_block es spill"] lens idx [of "?NH k"] lb
      by (simp add: key e)
    have "unat (4096 * (bucket_index nb m (?NH k) + 1)) = 4096 * (?i + 1)"
      using idx [of "?NH k"] nb by (simp add: unat_word_ariths)
    then have f: "fetch X s k = fetch_loop D' k (?NH k) (write_bucket_block es sp)"
      using rd by (simp add: fetch_def s Let_def)
    have set_b: "set (sort_key fst b) \<subseteq> set (sk_placed sk)" by (auto simp add: b_def)
    have p: "placements ?NH D' M
        (es @ concat (chunks bucket_capacity (drop bucket_capacity (sort_key fst b))))"
      using pl set_b unfolding all placements_def by blast
    have small: "length es < 65536" by (simp add: es bucket_capacity)
    have "fetch X s k = Some (Inr (if holds_key ?NH D' k (sort_key fst b) then M k else None))"
      using fetch_loop_chain [OF p small sp ch, of k "replicate block_size 0"]
      unfolding all f write_bucket_block_def by simp
    moreover have "M k = None" if "\<not> holds_key ?NH D' k (sort_key fst b)"
    proof (rule ccontr)
      assume "M k \<noteq> None"
      then obtain v e where v: "e \<in> set (sk_placed sk)" "stored ?NH D' e k v" using st by blast
      then have "fst e = ?NH k" by (auto simp add: stored_def split: prod.splits)
      then have "e \<in> set b" using v(1) by (simp add: b_def)
      with v(2) that show False by (auto simp add: holds_key_def)
    qed
    ultimately show ?thesis by simp
  qed
  with img op show ?thesis by blast
qed

end
