(* ===== verification/Nudb_Swap.thy ===== *)
theory Nudb_Swap
  imports Nudb_Writer
begin

text \<open>
  Writing a store and moving it into place: the sink's invariant over a sequence of
  write_node calls, NuDbSink::finish with the order of its file operations as a step relation
  in which each fallible operation may fail or the process may stop, and write_nudb_store.
\<close>

section \<open>The sink while it is written\<close>

definition sink_inv ::
  "xxh64 \<Rightarrow> file_system \<Rightarrow> string \<Rightarrow> (hash256 \<rightharpoonup> byte list) \<Rightarrow> file_system \<times> nudb_sink \<Rightarrow> bool" where
  "sink_inv X fs0 p M st \<longleftrightarrow>
     (let (fs, sk) = st in
        sk_dat_tmp sk = tmp_path p \<and> sk_dat_final sk = p \<and> \<not> sk_finished sk \<and>
        (\<exists>D. fs = fs0(tmp_path p \<mapsto> D) \<and> sink_holds X D sk M))"

lemma length_dat_header [simp]: "length (write_dat_header v u a) = 92"
  by (simp add: write_dat_header_def dat_magic_def)

lemma sink_create_inv: "sink_inv X fs p Map.empty (sink_create fs p)"
  by (auto simp add: sink_inv_def sink_create_def Let_def append_file_def file_bytes_def
      sink_holds_def placements_def dat_header_size_def intro!: exI [of _ "write_dat_header 2 1 1"])

definition record_bytes :: "hash256 \<times> byte list \<Rightarrow> nat" where
  "record_bytes e = 38 + length (snd e)"

lemma sink_write_node_inv:
  assumes "sink_inv X fs0 p M st" and "unat (sk_offset (snd st)) + record_bytes (h, val) < lim48"
  shows "sink_inv X fs0 p (if h \<in> dom M then M else M(h \<mapsto> val)) (sink_write_node X st h val) \<and>
    unat (sk_offset (snd (sink_write_node X st h val))) \<le> unat (sk_offset (snd st)) + record_bytes (h, val) \<and>
    length (sk_placed (snd (sink_write_node X st h val))) \<le> Suc (length (sk_placed (snd st))) \<and>
    sk_salt (snd (sink_write_node X st h val)) = sk_salt (snd st)"
proof (cases "h \<in> dom M")
  case True
  then have "sink_write_node X st h val = st"
    using assms(1) by (auto simp add: sink_inv_def sink_holds_def sink_write_node_def Let_def split: prod.splits)
  with True assms(1) show ?thesis by simp
next
  case False
  obtain fs sk where st: "st = (fs, sk)" by (cases st)
  obtain D where D: "fs = fs0(tmp_path p \<mapsto> D)" "sink_holds X D sk M"
      "sk_dat_tmp sk = tmp_path p" "sk_dat_final sk = p" "\<not> sk_finished sk"
    using assms(1) by (auto simp add: sink_inv_def st)
  let ?NH = "nudb_hash X (sk_salt sk)" and ?sz = "of_nat (length val) :: u64"
  let ?D = "D @ write_u48 ?sz @ to_be_bytes h @ val"
  let ?e = "(?NH h, sk_offset sk, ?sz)"
  have len: "length D = unat (sk_offset sk)" and seen: "sk_seen sk = dom M"
    and pl: "placements ?NH D M (sk_placed sk)"
    and st': "\<And>h v. M h = Some v \<Longrightarrow> \<exists>e \<in> set (sk_placed sk). stored ?NH D e h v"
    using D(2) by (simp_all add: sink_holds_def)
  have bound: "unat (sk_offset sk) + 38 + length val < lim48"
    using assms(2) by (simp add: st record_bytes_def)
  have sz: "unat ?sz = length val" using bound by (intro unat_of_nat64) simp
  have off: "unat (sk_offset sk + (6 + of_nat key_size + ?sz)) = unat (sk_offset sk) + 38 + length val"
    using bound sz by (simp add: unat_word_ariths key_size_def)
  have w: "sink_write_node X st h val =
      (fs0(tmp_path p \<mapsto> ?D), sk\<lparr>sk_seen := insert h (dom M), sk_placed := sk_placed sk @ [?e],
         sk_offset := sk_offset sk + (6 + of_nat key_size + ?sz)\<rparr>)"
    using False D seen
    by (simp add: sink_write_node_def st Let_def append_file_def file_bytes_def)
  have new: "stored ?NH ?D ?e h val"
    unfolding stored_def prod.case
    by (intro conjI exI [of _ D] exI [of _ "[]"]) (use nudb_hash_less bound sz len in simp_all)
  have old: "stored ?NH ?D e k v" if "stored ?NH D e k v" for e k v
    using stored_extend [OF that] by simp
  have "placements ?NH ?D (M(h \<mapsto> val)) (sk_placed sk @ [?e])"
    unfolding placements_def
  proof
    fix e assume "e \<in> set (sk_placed sk @ [?e])"
    then consider "e = ?e" | "e \<in> set (sk_placed sk)" by auto
    then show "\<exists>k v. (M(h \<mapsto> val)) k = Some v \<and> stored ?NH ?D e k v"
    proof cases
      case 1
      with new show ?thesis by (intro exI [of _ h] exI [of _ val]) simp
    next
      case 2
      then obtain k v where "M k = Some v" "stored ?NH D e k v"
        using pl unfolding placements_def by blast
      with False old show ?thesis by (intro exI [of _ k] exI [of _ v]) auto
    qed
  qed
  moreover have "\<exists>e \<in> set (sk_placed sk @ [?e]). stored ?NH ?D e k v"
    if kv: "(M(h \<mapsto> val)) k = Some v" for k v
  proof (cases "k = h")
    case True
    with kv new show ?thesis by (intro bexI [of _ ?e]) simp_all
  next
    case False
    with kv st' old show ?thesis by (metis UnI1 fun_upd_apply set_append)
  qed
  ultimately have "sink_holds X ?D (sk\<lparr>sk_seen := insert h (dom M),
      sk_placed := sk_placed sk @ [?e], sk_offset := sk_offset sk + (6 + of_nat key_size + ?sz)\<rparr>)
      (M(h \<mapsto> val))"
    using off len by (simp add: sink_holds_def)
  then show ?thesis
    unfolding w using False D(3-5) off
    by (auto simp add: st sink_inv_def record_bytes_def intro!: exI [of _ ?D])
qed

definition sink_write_all ::
  "xxh64 \<Rightarrow> file_system \<times> nudb_sink \<Rightarrow> (hash256 \<times> byte list) list \<Rightarrow> file_system \<times> nudb_sink" where
  "sink_write_all X st entries = foldl (\<lambda>st (h, v). sink_write_node X st h v) st entries"

lemma sink_write_all_inv:
  "sink_inv X fs0 p M st \<Longrightarrow>
   unat (sk_offset (snd st)) + sum_list (map record_bytes es) < lim48 \<Longrightarrow>
     sink_inv X fs0 p (map_of es ++ M) (sink_write_all X st es) \<and>
     unat (sk_offset (snd (sink_write_all X st es)))
       \<le> unat (sk_offset (snd st)) + sum_list (map record_bytes es) \<and>
     length (sk_placed (snd (sink_write_all X st es))) \<le> length es + length (sk_placed (snd st))"
proof (induction es arbitrary: M st)
  case Nil
  then show ?case by (simp add: sink_write_all_def)
next
  case (Cons e es)
  obtain h v where e: "e = (h, v)" by (cases e)
  let ?st = "sink_write_node X st h v" and ?M = "if h \<in> dom M then M else M(h \<mapsto> v)"
  have b: "unat (sk_offset (snd st)) + record_bytes (h, v) < lim48" using Cons.prems(2) e by simp
  note one = sink_write_node_inv [OF Cons.prems(1) b]
  have all: "sink_write_all X st (e # es) = sink_write_all X ?st es"
    by (simp add: sink_write_all_def e)
  have m: "map_of (e # es) ++ M = map_of es ++ ?M"
    by (auto simp add: e map_add_def fun_eq_iff split: option.splits)
  have "unat (sk_offset (snd ?st)) + sum_list (map record_bytes es) < lim48"
    using one Cons.prems(2) e by simp
  from Cons.IH [OF conjunct1 [OF one] this] show ?case
    unfolding all m using one e by auto
qed

section \<open>Moving the files into place\<close>

text \<open>
  The file operations of finish once the .dat image is flushed to its temporary file, one per
  step. \<open>FinishFailed\<close> is the state after the error path (old key put back, temporary key
  removed); a process that stops anywhere is simply a state that takes no further step.
\<close>

record swap_paths =
  sp_dat_tmp :: string
  sp_dat_final :: string
  sp_key_tmp :: string
  sp_key :: string
  sp_key_bak :: string

definition swap_paths_for :: "nudb_sink \<Rightarrow> string \<Rightarrow> swap_paths" where
  "swap_paths_for sk key_path =
     \<lparr>sp_dat_tmp = sk_dat_tmp sk, sp_dat_final = sk_dat_final sk, sp_key_tmp = tmp_path key_path,
      sp_key = key_path, sp_key_bak = key_path @ ''.bak''\<rparr>"

datatype swap_pc =
    WriteKey
  | MoveKeyAside
  | SwapDat bool
  | SwapKey bool
  | RemoveBak bool
  | FinishDone
  | FinishFailed

text \<open>\<open>if had_old_key && !key_path.exists() { let _ = fs::rename(&key_bak, key_path); }\<close>\<close>

definition put_back :: "swap_paths \<Rightarrow> bool \<Rightarrow> file_system \<Rightarrow> file_system" where
  "put_back P had_old_key fs =
     (if had_old_key \<and> fs (sp_key P) = None then rename_file fs (sp_key_bak P) (sp_key P) else fs)"

text \<open>The failing alternatives leave the files of the failing operation unchanged.\<close>

inductive swap_step ::
  "swap_paths \<Rightarrow> byte list \<Rightarrow> file_system \<times> swap_pc \<Rightarrow> file_system \<times> swap_pc \<Rightarrow> bool"
  for P :: swap_paths and key :: "byte list" where
  key_written: "swap_step P key (fs, WriteKey) (fs(sp_key_tmp P \<mapsto> key), MoveKeyAside)"
| key_not_written: "swap_step P key (fs, WriteKey) (remove_file fs (sp_key_tmp P), FinishFailed)"
| key_moved: "fs (sp_key P) \<noteq> None \<Longrightarrow>
    swap_step P key (fs, MoveKeyAside) (rename_file fs (sp_key P) (sp_key_bak P), SwapDat True)"
| no_old_key: "fs (sp_key P) = None \<Longrightarrow>
    swap_step P key (fs, MoveKeyAside) (fs, SwapDat False)"
| key_not_moved: "fs (sp_key P) \<noteq> None \<Longrightarrow>
    swap_step P key (fs, MoveKeyAside) (remove_file fs (sp_key_tmp P), FinishFailed)"
| dat_renamed:
    "swap_step P key (fs, SwapDat had)
       (rename_file fs (sp_dat_tmp P) (sp_dat_final P), SwapKey had)"
| dat_not_renamed:
    "swap_step P key (fs, SwapDat had)
       (remove_file (put_back P had fs) (sp_key_tmp P), FinishFailed)"
| key_renamed:
    "swap_step P key (fs, SwapKey had) (rename_file fs (sp_key_tmp P) (sp_key P), RemoveBak had)"
| key_not_renamed:
    "swap_step P key (fs, SwapKey had)
       (remove_file (put_back P had fs) (sp_key_tmp P), FinishFailed)"
| bak_removed:
    "swap_step P key (fs, RemoveBak had)
       (if had then remove_file fs (sp_key_bak P) else fs, FinishDone)"

inductive_cases swap_write_keyE: "swap_step P key (fs, WriteKey) t"
inductive_cases swap_move_asideE: "swap_step P key (fs, MoveKeyAside) t"
inductive_cases swap_datE: "swap_step P key (fs, SwapDat had) t"
inductive_cases swap_keyE: "swap_step P key (fs, SwapKey had) t"
inductive_cases swap_bakE: "swap_step P key (fs, RemoveBak had) t"
inductive_simps swap_done_simp [simp]: "swap_step P key (fs, FinishDone) t"
inductive_simps swap_failed_simp [simp]: "swap_step P key (fs, FinishFailed) t"

definition distinct_paths :: "swap_paths \<Rightarrow> bool" where
  "distinct_paths P \<longleftrightarrow>
     distinct [sp_dat_tmp P, sp_dat_final P, sp_key_tmp P, sp_key P, sp_key_bak P]"

text \<open>
  What the two final paths hold at each point, for a store that was there before
  (\<open>od\<close>, \<open>ok\<close>, None when there was none) and the new image \<open>nd\<close>, \<open>key\<close>.
\<close>

fun swap_at ::
  "swap_paths \<Rightarrow> byte list option \<Rightarrow> byte list option \<Rightarrow> byte list \<Rightarrow> byte list
     \<Rightarrow> file_system \<times> swap_pc \<Rightarrow> bool" where
  "swap_at P od ok nd key (fs, WriteKey) \<longleftrightarrow>
     fs (sp_dat_tmp P) = Some nd \<and> fs (sp_dat_final P) = od \<and> fs (sp_key P) = ok"
| "swap_at P od ok nd key (fs, MoveKeyAside) \<longleftrightarrow>
     fs (sp_dat_tmp P) = Some nd \<and> fs (sp_dat_final P) = od \<and> fs (sp_key P) = ok \<and>
     fs (sp_key_tmp P) = Some key"
| "swap_at P od ok nd key (fs, SwapDat had) \<longleftrightarrow>
     fs (sp_dat_tmp P) = Some nd \<and> fs (sp_dat_final P) = od \<and> fs (sp_key P) = None \<and>
     fs (sp_key_tmp P) = Some key \<and> had = (ok \<noteq> None) \<and> (had \<longrightarrow> fs (sp_key_bak P) = ok)"
| "swap_at P od ok nd key (fs, SwapKey had) \<longleftrightarrow>
     fs (sp_dat_final P) = Some nd \<and> fs (sp_key P) = None \<and>
     fs (sp_key_tmp P) = Some key \<and> had = (ok \<noteq> None) \<and> (had \<longrightarrow> fs (sp_key_bak P) = ok)"
| "swap_at P od ok nd key (fs, RemoveBak had) \<longleftrightarrow>
     fs (sp_dat_final P) = Some nd \<and> fs (sp_key P) = Some key"
| "swap_at P od ok nd key (fs, FinishDone) \<longleftrightarrow>
     fs (sp_dat_final P) = Some nd \<and> fs (sp_key P) = Some key"
| "swap_at P od ok nd key (fs, FinishFailed) \<longleftrightarrow>
     fs (sp_dat_final P) \<in> {od, Some nd} \<and> fs (sp_key P) = ok"

lemma swap_step_at:
  assumes "swap_step P key st st'" and "distinct_paths P" and "swap_at P od ok nd key st"
  shows "swap_at P od ok nd key st'"
  using assms
  by (induction rule: swap_step.induct)
    (auto simp add: distinct_paths_def rename_file_def remove_file_def put_back_def)

lemma swap_steps_at:
  assumes "(swap_step P key)\<^sup>*\<^sup>* st st'" and "distinct_paths P" and "swap_at P od ok nd key st"
  shows "swap_at P od ok nd key st'"
  using assms by (induction rule: rtranclp_induct) (auto intro: swap_step_at)

text \<open>No stop in the middle leaves the new .dat beside the old key.\<close>

lemma swap_at_not_mixed:
  assumes "swap_at P od ok nd key (fs, pc)" and "pc \<noteq> FinishFailed"
  shows "(fs (sp_dat_final P), fs (sp_key P)) \<in>
    {(od, ok), (od, None), (Some nd, None), (Some nd, Some key)}"
  using assms by (cases pc) auto

text \<open>finish with every file operation succeeding.\<close>

definition swap_run :: "swap_paths \<Rightarrow> byte list \<Rightarrow> file_system \<Rightarrow> file_system" where
  "swap_run P key fs =
     (let fs = fs(sp_key_tmp P \<mapsto> key);
          had_old_key = (fs (sp_key P) \<noteq> None);
          fs = (if had_old_key then rename_file fs (sp_key P) (sp_key_bak P) else fs);
          fs = rename_file fs (sp_dat_tmp P) (sp_dat_final P);
          fs = rename_file fs (sp_key_tmp P) (sp_key P)
      in if had_old_key then remove_file fs (sp_key_bak P) else fs)"

lemma swap_run_reaches:
  assumes "distinct_paths P"
  shows "(swap_step P key)\<^sup>*\<^sup>* (fs, WriteKey) (swap_run P key fs, FinishDone)"
proof -
  let ?fs1 = "fs(sp_key_tmp P \<mapsto> key)"
  let ?had = "?fs1 (sp_key P) \<noteq> None"
  let ?fs2 = "if ?had then rename_file ?fs1 (sp_key P) (sp_key_bak P) else ?fs1"
  let ?fs3 = "rename_file ?fs2 (sp_dat_tmp P) (sp_dat_final P)"
  let ?fs4 = "rename_file ?fs3 (sp_key_tmp P) (sp_key P)"
  have "swap_step P key (fs, WriteKey) (?fs1, MoveKeyAside)" by (rule key_written)
  moreover have "swap_step P key (?fs1, MoveKeyAside) (?fs2, SwapDat ?had)"
  proof (cases ?had)
    case True
    then show ?thesis using key_moved [of ?fs1 P key] by simp
  next
    case False
    then have "?fs1 (sp_key P) = None" by simp
    with no_old_key [of ?fs1 P key] show ?thesis by simp
  qed
  moreover have "swap_step P key (?fs2, SwapDat ?had) (?fs3, SwapKey ?had)" by (rule dat_renamed)
  moreover have "swap_step P key (?fs3, SwapKey ?had) (?fs4, RemoveBak ?had)" by (rule key_renamed)
  moreover have "swap_step P key (?fs4, RemoveBak ?had) (swap_run P key fs, FinishDone)"
    unfolding swap_run_def Let_def by (rule bak_removed)
  ultimately show ?thesis
    by (meson rtranclp.rtrancl_into_rtrancl rtranclp.rtrancl_refl)
qed

text \<open>
  The whole of finish: the images, the flushed .dat, the files moved; None when the modulus
  loop does not return.
\<close>

definition sink_finish ::
  "xxh64 \<Rightarrow> file_system \<times> nudb_sink \<Rightarrow> string \<Rightarrow> (file_system \<times> nudb_sink) option" where
  "sink_finish X st key_path =
     (let (fs, sk) = st in
      Option.bind (sink_images X sk (file_bytes fs (sk_dat_tmp sk))) (\<lambda>(dat, key).
      let fs = fs(sk_dat_tmp sk \<mapsto> dat) in
      Some (swap_run (swap_paths_for sk key_path) key fs,
            sk\<lparr>sk_finished := True, sk_placed := []\<rparr>)))"

definition write_nudb_store ::
  "xxh64 \<Rightarrow> file_system \<Rightarrow> (hash256 \<times> byte list) list \<Rightarrow> string \<Rightarrow> string \<Rightarrow> file_system option" where
  "write_nudb_store X fs entries dat_path key_path =
     Option.bind (sink_finish X (sink_write_all X (sink_create fs dat_path) entries) key_path)
       (\<lambda>st. Some (sink_drop st))"

definition store_fits :: "(hash256 \<times> byte list) list \<Rightarrow> bool" where
  "store_fits es \<longleftrightarrow> 92 + sum_list (map record_bytes es) + 34 * length es < lim48"

definition store_paths_ok :: "string \<Rightarrow> string \<Rightarrow> bool" where
  "store_paths_ok dat_path key_path \<longleftrightarrow>
     distinct [tmp_path dat_path, dat_path, tmp_path key_path, key_path, key_path @ ''.bak'']"

lemma sink_finish_store:
  assumes inv: "sink_inv X fs0 p M (fs, sk)" and "store_paths_ok p k"
    and "length (sk_placed sk) < 2 ^ 43"
    and "unat (sk_offset sk) + 34 * length (sk_placed sk) < lim48"
  shows "\<exists>fs' sk' D' key s. sink_finish X (fs, sk) k = Some (fs', sk') \<and> sk_finished sk' \<and>
    fs' p = Some D' \<and> fs' k = Some key \<and> fs' (tmp_path p) = None \<and> fs' (tmp_path k) = None \<and>
    shard_open D' key = Some (Inr s) \<and> (\<forall>h. fetch X s h = Some (Inr (M h)))"
proof -
  obtain D where D: "fs = fs0(tmp_path p \<mapsto> D)" "sink_holds X D sk M"
      "sk_dat_tmp sk = tmp_path p" "sk_dat_final sk = p"
    using inv by (auto simp add: sink_inv_def)
  obtain D' key s where img: "sink_images X sk D = Some (D', key)"
    and s: "shard_open D' key = Some (Inr s)" "\<And>h. fetch X s h = Some (Inr (M h))"
    using sink_lookup [OF D(2) assms(3,4)] by blast
  let ?P = "swap_paths_for sk k"
  have P: "distinct_paths ?P"
    using assms(2) D(3,4)
    by (simp add: distinct_paths_def swap_paths_for_def store_paths_ok_def eq_commute)
  let ?fs = "fs0(tmp_path p \<mapsto> D')"
  have fin: "sink_finish X (fs, sk) k = Some (swap_run ?P key ?fs, sk\<lparr>sk_finished := True, sk_placed := []\<rparr>)"
    using D(1,3) img by (simp add: sink_finish_def file_bytes_def)
  have "swap_at ?P (?fs p) (?fs k) D' key (?fs, WriteKey)"
    using D(3,4) by (simp add: swap_paths_for_def)
  from swap_steps_at [OF swap_run_reaches [OF P] P this]
  have "swap_run ?P key ?fs p = Some D'" "swap_run ?P key ?fs k = Some key"
    using D(3,4) by (simp_all add: swap_paths_for_def)
  moreover have "swap_run ?P key ?fs (tmp_path p) = None" "swap_run ?P key ?fs (tmp_path k) = None"
    using P D(3,4)
    by (auto simp add: swap_run_def swap_paths_for_def distinct_paths_def rename_file_def
        remove_file_def Let_def)
  ultimately show ?thesis using fin s by (auto intro!: exI)
qed

lemma write_nudb_store_serves:
  assumes "store_fits es" and "store_paths_ok p k"
  shows "\<exists>fs' D' key s. write_nudb_store X fs es p k = Some fs' \<and> fs' p = Some D' \<and> fs' k = Some key \<and>
    fs' (tmp_path p) = None \<and> fs' (tmp_path k) = None \<and>
    shard_open D' key = Some (Inr s) \<and> (\<forall>h. fetch X s h = Some (Inr (map_of es h)))"
proof -
  let ?st0 = "sink_create fs p"
  have o0: "unat (sk_offset (snd ?st0)) = 92" "sk_placed (snd ?st0) = []"
    by (simp_all add: sink_create_def Let_def dat_header_size_def)
  obtain fs1 sk where st: "sink_write_all X ?st0 es = (fs1, sk)"
    by (cases "sink_write_all X ?st0 es")
  have b: "unat (sk_offset (snd ?st0)) + sum_list (map record_bytes es) < lim48"
    using assms(1) by (simp add: o0 store_fits_def)
  from sink_write_all_inv [OF sink_create_inv [of X] b]
  have inv: "sink_inv X fs p (map_of es) (fs1, sk)"
    and off: "unat (sk_offset sk) \<le> 92 + sum_list (map record_bytes es)"
    and n: "length (sk_placed sk) \<le> length es"
    by (simp_all add: st o0)
  have "34 * length es < lim48" using assms(1) by (simp add: store_fits_def)
  then have n43: "length (sk_placed sk) < 2 ^ 43" using n by simp
  have tot: "unat (sk_offset sk) + 34 * length (sk_placed sk) < lim48"
    using off n assms(1) unfolding store_fits_def by linarith
  from sink_finish_store [OF inv assms(2) n43 tot] show ?thesis
    by (auto simp add: write_nudb_store_def st sink_drop_def)
qed

text \<open>The failing second rename: the .dat is new, the old key is put back beside it.\<close>

lemma swap_key_failure_mixes:
  assumes "distinct_paths P" and "fs (sp_dat_tmp P) = Some nd" and "fs (sp_key P) = Some ok"
  shows "\<exists>fs'. (swap_step P key)\<^sup>*\<^sup>* (fs, WriteKey) (fs', FinishFailed) \<and>
    fs' (sp_dat_final P) = Some nd \<and> fs' (sp_key P) = Some ok"
proof -
  let ?fs1 = "fs(sp_key_tmp P \<mapsto> key)"
  let ?fs2 = "rename_file ?fs1 (sp_key P) (sp_key_bak P)"
  let ?fs3 = "rename_file ?fs2 (sp_dat_tmp P) (sp_dat_final P)"
  let ?fs4 = "remove_file (put_back P True ?fs3) (sp_key_tmp P)"
  have "swap_step P key (fs, WriteKey) (?fs1, MoveKeyAside)" by (rule key_written)
  moreover have "?fs1 (sp_key P) \<noteq> None" using assms by simp
  then have "swap_step P key (?fs1, MoveKeyAside) (?fs2, SwapDat True)"
    using key_moved [of ?fs1 P key] by simp
  moreover have "swap_step P key (?fs2, SwapDat True) (?fs3, SwapKey True)" by (rule dat_renamed)
  moreover have "swap_step P key (?fs3, SwapKey True) (?fs4, FinishFailed)" by (rule key_not_renamed)
  ultimately have "(swap_step P key)\<^sup>*\<^sup>* (fs, WriteKey) (?fs4, FinishFailed)"
    by (meson rtranclp.rtrancl_into_rtrancl rtranclp.rtrancl_refl)
  moreover have "?fs4 (sp_dat_final P) = Some nd" "?fs4 (sp_key P) = Some ok"
    using assms by (auto simp add: distinct_paths_def rename_file_def remove_file_def put_back_def)
  ultimately show ?thesis by blast
qed

section \<open>Properties\<close>

text \<open>
  C27: A store written by write_nudb_store and opened again serves exactly what was written:
  for every key the value of its first entry, and None for a key that was not written. It
  holds for every number of entries (bucket overflow into spill chains included), for every
  hash function, as long as all offsets fit the 48 bits of the format.
\<close>

theorem nudb_store_serves_what_was_written:
  assumes "store_fits es" and "store_paths_ok p k"
  shows "\<exists>fs' D' key s. write_nudb_store X fs es p k = Some fs' \<and> fs' p = Some D' \<and> fs' k = Some key \<and>
    shard_open D' key = Some (Inr s) \<and> (\<forall>h. fetch X s h = Some (Inr (map_of es h)))"
  using write_nudb_store_serves [OF assms] by blast

lemma nudb_store_serves_what_was_written_witness:
  "\<exists>fs' D' key s. write_nudb_store (\<lambda>_ _. 77) Map.empty [(5, [1, 2]), (6, []), (5, [3])] ''a.dat'' ''a.key'' = Some fs'
     \<and> fs' ''a.dat'' = Some D' \<and> fs' ''a.key'' = Some key \<and> shard_open D' key = Some (Inr s)
     \<and> (\<forall>h. fetch (\<lambda>_ _. 77) s h = Some (Inr (map_of [(5, [1, 2]), (6, []), (5, [3])] h)))"
  by (rule nudb_store_serves_what_was_written)
    (simp_all add: store_fits_def record_bytes_def store_paths_ok_def tmp_path_def)

text \<open>
  C28: If finish stops anywhere (a crash between two file operations), or runs to its end, the
  final paths never hold the new .dat beside the old key: they hold the old pair, a .dat with
  no key, or the new pair.
\<close>

theorem finish_crash_safe:
  assumes "distinct_paths P" and "fs (sp_dat_tmp P) = Some nd"
    and "(swap_step P key)\<^sup>*\<^sup>* (fs, WriteKey) (fs', pc)" and "pc \<noteq> FinishFailed"
  shows "(fs' (sp_dat_final P), fs' (sp_key P)) \<in>
    {(fs (sp_dat_final P), fs (sp_key P)), (fs (sp_dat_final P), None),
     (Some nd, None), (Some nd, Some key)}"
proof (rule swap_at_not_mixed [OF _ assms(4)])
  show "swap_at P (fs (sp_dat_final P)) (fs (sp_key P)) nd key (fs', pc)"
    by (rule swap_steps_at [OF assms(3,1)]) (simp add: assms(2))
qed

definition sample_paths :: swap_paths where
  "sample_paths =
     \<lparr>sp_dat_tmp = ''a.dat.tmp'', sp_dat_final = ''a.dat'', sp_key_tmp = ''a.key.tmp'',
      sp_key = ''a.key'', sp_key_bak = ''a.key.bak''\<rparr>"

definition sample_files :: file_system where
  "sample_files = [''a.dat.tmp'' \<mapsto> [2], ''a.dat'' \<mapsto> [1], ''a.key'' \<mapsto> [11]]"

lemma finish_crash_safe_witness:
  "(swap_run sample_paths [22] sample_files ''a.dat'', swap_run sample_paths [22] sample_files ''a.key'')
     \<in> {(Some [1], Some [11]), (Some [1], None), (Some [2], None), (Some [2], Some [22])}"
proof -
  have P: "distinct_paths sample_paths"
    by (simp add: distinct_paths_def sample_paths_def)
  show ?thesis
    using finish_crash_safe [OF P _ swap_run_reaches [OF P, of "[22]" sample_files], of "[2]"]
    by (simp add: sample_paths_def sample_files_def)
qed

text \<open>
  C35: The error path of finish breaks the pairing finish is written to keep: when the last
  rename (of the key) fails after the .dat was renamed, the old key is put back, and the final
  paths hold the new .dat beside the old key.
\<close>

theorem finish_key_rename_failure_mixes_pair:
  assumes "distinct_paths P" and "fs (sp_dat_tmp P) = Some nd" and "fs (sp_key P) = Some ok"
  shows "\<exists>fs'. (swap_step P key)\<^sup>*\<^sup>* (fs, WriteKey) (fs', FinishFailed) \<and>
    fs' (sp_dat_final P) = Some nd \<and> fs' (sp_key P) = Some ok"
  using swap_key_failure_mixes [OF assms] .

lemma finish_key_rename_failure_mixes_pair_witness:
  "\<exists>fs'. (swap_step sample_paths [22])\<^sup>*\<^sup>* (sample_files, WriteKey) (fs', FinishFailed) \<and>
     fs' ''a.dat'' = Some [2] \<and> fs' ''a.key'' = Some [11]"
  using finish_key_rename_failure_mixes_pair [of sample_paths sample_files "[2]" "[11]" "[22]"]
  by (simp add: distinct_paths_def sample_paths_def sample_files_def)

end
