(* ===== verification/Ledger_Hash.thy ===== *)
theory Ledger_Hash
  imports Xrla_Prelude
begin

text \<open>
  The hash functions of crates/xrla-common/src/serialize.rs and the ledger header they are
  applied to. SHA-512 itself is the crate sha2, a parameter \<open>H\<close> of every definition that
  hashes; \<open>sha512half\<close> keeps its first 32 bytes as the source does. Statements about
  tampering are collision statements: two different inputs with one hash exhibit a collision
  of \<open>H\<close>, nothing is assumed about it.
\<close>

type_synonym sha512 = "byte list \<Rightarrow> 512 word"

definition sha512half :: "sha512 \<Rightarrow> byte list \<Rightarrow> hash256" where
  "sha512half H d = from_be_bytes (take 32 (to_be_bytes (H d)))"

definition collision :: "sha512 \<Rightarrow> byte list \<Rightarrow> byte list \<Rightarrow> bool" where
  "collision H x y \<longleftrightarrow> x \<noteq> y \<and> sha512half H x = sha512half H y"

lemma sha512half_zero: "sha512half (\<lambda>_. 0) d = 0"
  by (simp add: sha512half_def to_be_bytes_def from_be_bytes_def)

record ledger_hash_input =
  lh_seq :: u32
  lh_drops :: u64
  lh_parent_hash :: hash256
  lh_tx_hash :: hash256
  lh_account_hash :: hash256
  lh_parent_close_time :: u32
  lh_close_time :: u32
  lh_close_time_resolution :: byte
  lh_close_flags :: byte

definition ledger_header_object :: "ledger_hash_input \<Rightarrow> byte list" where
  "ledger_header_object h =
     [0x4C, 0x57, 0x52, 0x00]
     @ to_be_bytes (lh_seq h)
     @ to_be_bytes (lh_drops h)
     @ to_be_bytes (lh_parent_hash h)
     @ to_be_bytes (lh_tx_hash h)
     @ to_be_bytes (lh_account_hash h)
     @ to_be_bytes (lh_parent_close_time h)
     @ to_be_bytes (lh_close_time h)
     @ [lh_close_time_resolution h]
     @ [lh_close_flags h]"

definition calculate_ledger_hash :: "sha512 \<Rightarrow> ledger_hash_input \<Rightarrow> hash256" where
  "calculate_ledger_hash H h = sha512half H (ledger_header_object h)"

lemma length_ledger_header_object [simp]: "length (ledger_header_object h) = 122"
  by (simp add: ledger_header_object_def)

text \<open>Every field of the header can be read back from its bytes.\<close>

lemma ledger_header_object_inject:
  "ledger_header_object a = ledger_header_object b \<longleftrightarrow> a = b"
proof
  assume "ledger_header_object a = ledger_header_object b"
  then show "a = b"
    by (cases a; cases b) (simp add: ledger_header_object_def to_be_bytes_inject)
qed simp

lemma calculate_ledger_hash_binding:
  "calculate_ledger_hash H a = calculate_ledger_hash H b \<Longrightarrow>
     a = b \<or> collision H (ledger_header_object a) (ledger_header_object b)"
  by (auto simp add: calculate_ledger_hash_def collision_def ledger_header_object_inject)

section \<open>Properties\<close>

text \<open>
  C26: The hash of a ledger header commits to every field of the header: two headers with the
  same LedgerHash are equal, or their 122-byte serializations exhibit a SHA-512Half collision.
\<close>

theorem ledger_hash_binds_header:
  assumes "calculate_ledger_hash H a = calculate_ledger_hash H b"
  shows "a = b \<or> collision H (ledger_header_object a) (ledger_header_object b)"
  using calculate_ledger_hash_binding [OF assms] .

definition sample_header :: ledger_hash_input where
  "sample_header =
     \<lparr>lh_seq = 101, lh_drops = 100000005000, lh_parent_hash = 7, lh_tx_hash = 8,
      lh_account_hash = 9, lh_parent_close_time = 1010, lh_close_time = 1020,
      lh_close_time_resolution = 10, lh_close_flags = 0\<rparr>"

lemma ledger_hash_binds_header_witness:
  "collision (\<lambda>_. 5) (ledger_header_object sample_header)
     (ledger_header_object (sample_header\<lparr>lh_close_time := 1021\<rparr>))"
  using ledger_hash_binds_header
      [of "\<lambda>_. 5" sample_header "sample_header\<lparr>lh_close_time := 1021\<rparr>"]
  by (simp add: calculate_ledger_hash_def sha512half_def sample_header_def)

end
