(* ===== verification/Shamap.thy ===== *)
theory Shamap
  imports Ledger_Hash
begin

text \<open>
  SHAMap nodes: crates/xrla-common/src/shamap.rs (wire types, nodes, inner nodes, diffs) and
  crates/xrla-common/src/state_tree.rs (a node's hash recomputed from its content). The
  messages of \<open>SHAMapError::InvalidEncoding\<close> are constructors that carry the values printed.
\<close>

section \<open>Node types\<close>

datatype node_type = Transaction | AccountState | Inner | CompressedInner | TransactionWithMeta

datatype encoding_problem =
    EmptyWireBytes
  | FullInnerLength nat
  | CompressedInnerLength nat
  | CompressedInnerPosition nat
  | NotAnInnerNode

datatype shamap_error =
    UnknownNodeType byte
  | InvalidEncoding encoding_problem
  | NodeNotFound string

fun is_inner :: "node_type \<Rightarrow> bool" where
  "is_inner Inner = True"
| "is_inner CompressedInner = True"
| "is_inner _ = False"

definition is_leaf :: "node_type \<Rightarrow> bool" where
  "is_leaf t \<longleftrightarrow> \<not> is_inner t"

definition node_type_try_from :: "byte \<Rightarrow> shamap_error + node_type" where
  "node_type_try_from v =
     (if v = 0 then Inr Transaction
      else if v = 1 then Inr AccountState
      else if v = 2 then Inr Inner
      else if v = 3 then Inr CompressedInner
      else if v = 4 then Inr TransactionWithMeta
      else Inl (UnknownNodeType v))"

fun u8_from_node_type :: "node_type \<Rightarrow> byte" where
  "u8_from_node_type Transaction = 0"
| "u8_from_node_type AccountState = 1"
| "u8_from_node_type Inner = 2"
| "u8_from_node_type CompressedInner = 3"
| "u8_from_node_type TransactionWithMeta = 4"

lemma node_type_try_from_u8 [simp]: "node_type_try_from (u8_from_node_type t) = Inr t"
  by (cases t) (simp_all add: node_type_try_from_def)

lemma node_type_try_from_Inr [simp]: "node_type_try_from v = Inr t \<longleftrightarrow> v = u8_from_node_type t"
  by (cases t) (auto simp add: node_type_try_from_def)

lemma node_type_try_from_Inl:
  "node_type_try_from v = Inl e \<longleftrightarrow> 4 < v \<and> e = UnknownNodeType v"
proof -
  have "4 < v \<longleftrightarrow> v \<notin> {0, 1, 2, 3, 4}"
  proof -
    have "unat v \<le> 4 \<longleftrightarrow> unat v \<in> {0, 1, 2, 3, 4}" by auto
    then show ?thesis
      by (auto simp add: word_less_nat_alt word_unat_eq_iff)
  qed
  then show ?thesis by (auto simp add: node_type_try_from_def)
qed

section \<open>Nodes and their wire form\<close>

record shamap_node =
  node_hash :: hash256
  node_type :: node_type
  node_content :: "byte list"

definition to_wire_bytes :: "shamap_node \<Rightarrow> byte list" where
  "to_wire_bytes n = node_content n @ [u8_from_node_type (node_type n)]"

definition from_wire_bytes :: "hash256 \<Rightarrow> byte list \<Rightarrow> shamap_error + shamap_node" where
  "from_wire_bytes h wire =
     (if wire = [] then Inl (InvalidEncoding EmptyWireBytes)
      else rbind (node_type_try_from (wire ! (length wire - 1)))
        (\<lambda>t. Inr \<lparr>node_hash = h, node_type = t, node_content = take (length wire - 1) wire\<rparr>))"

lemma from_wire_bytes_to_wire: "from_wire_bytes (node_hash n) (to_wire_bytes n) = Inr n"
  by (simp add: from_wire_bytes_def to_wire_bytes_def nth_append)

lemma from_wire_bytes_snoc:
  "from_wire_bytes h (c @ [u8_from_node_type t]) =
     Inr \<lparr>node_hash = h, node_type = t, node_content = c\<rparr>"
  by (simp add: from_wire_bytes_def nth_append)

lemma from_wire_bytes_Inr:
  "from_wire_bytes h wire = Inr n \<longleftrightarrow> node_hash n = h \<and> wire = to_wire_bytes n"
proof (cases wire rule: rev_cases)
  case Nil
  then show ?thesis by (simp add: from_wire_bytes_def to_wire_bytes_def)
next
  case (snoc c b)
  then show ?thesis
    by (cases n) (auto simp add: from_wire_bytes_def to_wire_bytes_def rbind_eq_Inr nth_append)
qed

section \<open>Inner nodes\<close>

record inner_node =
  children :: "hash256 option list"

definition opt_hash :: "hash256 \<Rightarrow> hash256 option" where
  "opt_hash h = (if h \<noteq> 0 then Some h else None)"

definition hash_at :: "byte list \<Rightarrow> nat \<Rightarrow> hash256" where
  "hash_at content offset = from_be_bytes (take 32 (drop offset content))"

definition from_full_bytes :: "byte list \<Rightarrow> shamap_error + inner_node" where
  "from_full_bytes content =
     (if length content \<noteq> 16 * 32 then Inl (InvalidEncoding (FullInnerLength (length content)))
      else Inr \<lparr>children = map (\<lambda>i. opt_hash (hash_at content (i * 32))) [0..<16]\<rparr>)"

text \<open>
  The while loop of from_compressed_bytes: one 33-byte entry per iteration. The length check
  before the loop makes every entry complete.
\<close>

fun compressed_entries ::
  "byte list \<Rightarrow> hash256 option list \<Rightarrow> shamap_error + hash256 option list" where
  "compressed_entries content cs =
     (if content = [] then Inr cs
      else
        let h = hash_at content 0; pos = unat (content ! 32)
        in if 16 \<le> pos then Inl (InvalidEncoding (CompressedInnerPosition pos))
           else compressed_entries (drop 33 content) (if h \<noteq> 0 then cs[pos := Some h] else cs))"

declare compressed_entries.simps [simp del]

definition from_compressed_bytes :: "byte list \<Rightarrow> shamap_error + inner_node" where
  "from_compressed_bytes content =
     (if length content mod 33 \<noteq> 0 \<or> length content > 33 * 16
      then Inl (InvalidEncoding (CompressedInnerLength (length content)))
      else rbind (compressed_entries content (replicate 16 None))
        (\<lambda>cs. Inr \<lparr>children = cs\<rparr>))"

definition inner_from_node :: "shamap_node \<Rightarrow> shamap_error + inner_node" where
  "inner_from_node n =
     (case node_type n of
        Inner \<Rightarrow> from_full_bytes (node_content n)
      | CompressedInner \<Rightarrow> from_compressed_bytes (node_content n)
      | _ \<Rightarrow> Inl (InvalidEncoding NotAnInnerNode))"

definition child_hashes :: "inner_node \<Rightarrow> hash256 list" where
  "child_hashes inner = List.map_filter (\<lambda>c. c) (children inner)"

record shamap_diff =
  diff_added :: "shamap_node list"
  diff_deleted :: "hash256 list"

lemma set_child_hashes: "h \<in> set (child_hashes inner) \<longleftrightarrow> Some h \<in> set (children inner)"
  by (force simp add: child_hashes_def List.map_filter_def)

lemma opt_hash_simps [simp]:
  "opt_hash h = None \<longleftrightarrow> h = 0"
  "opt_hash h = Some k \<longleftrightarrow> h = k \<and> k \<noteq> 0"
  "Some k = opt_hash h \<longleftrightarrow> h = k \<and> k \<noteq> 0"
  by (auto simp add: opt_hash_def)

text \<open>The content of an inner node: its sixteen child hashes, zero for an empty slot.\<close>

definition full_content :: "hash256 list \<Rightarrow> byte list" where
  "full_content hs = concat (map to_be_bytes hs)"

lemma length_full_content [simp]: "length (full_content hs) = 32 * length hs"
  by (induction hs) (simp_all add: full_content_def)

lemma hash_at_full_content:
  "i < length hs \<Longrightarrow> hash_at (full_content hs) (i * 32) = hs ! i"
proof (induction hs arbitrary: i)
  case (Cons h hs)
  then show ?case
    by (cases i) (simp_all add: full_content_def hash_at_def)
qed simp

lemma from_full_bytes_full_content:
  "length hs = 16 \<Longrightarrow> from_full_bytes (full_content hs) = Inr \<lparr>children = map opt_hash hs\<rparr>"
  by (auto simp add: from_full_bytes_def hash_at_full_content intro!: nth_equalityI)

lemma from_full_bytes_Inr_length:
  "from_full_bytes c = Inr inner \<Longrightarrow> length c = 512 \<and> length (children inner) = 16"
  by (auto simp add: from_full_bytes_def split: if_splits)

text \<open>The children of a parsed full inner node are never the zero hash.\<close>

lemma from_full_bytes_nonzero:
  "from_full_bytes c = Inr inner \<Longrightarrow> h \<in> set (child_hashes inner) \<Longrightarrow> h \<noteq> 0"
  by (auto simp add: from_full_bytes_def set_child_hashes split: if_splits)

lemma compressed_entries_nonzero:
  "compressed_entries c cs = Inr ds \<Longrightarrow> Some h \<in> set ds \<Longrightarrow> Some h \<in> set cs \<or> h \<noteq> 0"
proof (induction c cs arbitrary: ds rule: compressed_entries.induct)
  case (1 content cs)
  show ?case
  proof (cases "content = []")
    case True
    with 1 show ?thesis by (simp add: compressed_entries.simps)
  next
    case False
    let ?h = "hash_at content 0" and ?p = "unat (content ! 32)"
    let ?cs = "if ?h \<noteq> 0 then cs[?p := Some ?h] else cs"
    from False "1.prems"(1) have p: "\<not> 16 \<le> ?p"
      and r: "compressed_entries (drop 33 content) ?cs = Inr ds"
      by (subst (asm) compressed_entries.simps; simp add: Let_def split: if_splits)+
    from "1.IH" [OF False refl refl p r "1.prems"(2)]
    have "Some h \<in> set ?cs \<or> h \<noteq> 0" .
    then show ?thesis by (auto split: if_splits dest: set_update_subset_insert [THEN subsetD])
  qed
qed

lemma inner_from_node_nonzero:
  assumes "inner_from_node n = Inr inner" and "h \<in> set (child_hashes inner)"
  shows "h \<noteq> 0"
proof (cases "node_type n")
  case Inner
  with assms show ?thesis
    by (auto simp add: inner_from_node_def dest: from_full_bytes_nonzero)
next
  case CompressedInner
  with assms show ?thesis
    by (auto simp add: inner_from_node_def from_compressed_bytes_def rbind_eq_Inr set_child_hashes
        split: if_splits dest: compressed_entries_nonzero)
qed (use assms in \<open>simp_all add: inner_from_node_def\<close>)

text \<open>
  The compressed form lists only the occupied slots, each hash followed by its slot number.
  Parsing it gives the same children as parsing the full form.
\<close>

fun compressed_content :: "nat \<Rightarrow> hash256 list \<Rightarrow> byte list" where
  "compressed_content i [] = []"
| "compressed_content i (h # hs) =
     (if h \<noteq> 0 then to_be_bytes h @ [of_nat i] else []) @ compressed_content (Suc i) hs"

lemma length_compressed_content:
  "length (compressed_content i hs) = 33 * length (filter (\<lambda>h. h \<noteq> 0) hs)"
  by (induction hs arbitrary: i) auto

lemma compressed_entries_content:
  "length cs = 16 \<Longrightarrow> i + length hs \<le> 16 \<Longrightarrow> \<forall>j. i \<le> j \<and> j < 16 \<longrightarrow> cs ! j = None \<Longrightarrow>
     compressed_entries (compressed_content i hs) cs
       = Inr (take i cs @ map opt_hash hs @ drop (i + length hs) cs)"
proof (induction hs arbitrary: i cs)
  case Nil
  then show ?case by (simp add: compressed_entries.simps)
next
  case (Cons h hs)
  have i: "unat (of_nat i :: byte) = i" "i < 16"
    using Cons.prems(2) by (simp_all add: unat_of_nat_byte)
  show ?case
  proof (cases "h = 0")
    case True
    have "compressed_entries (compressed_content (Suc i) hs) cs
        = Inr (take (Suc i) cs @ map opt_hash hs @ drop (Suc i + length hs) cs)"
      using Cons.prems by (intro Cons.IH) auto
    moreover have "take (Suc i) cs = take i cs @ [None]"
      using Cons.prems(1,3) i(2) by (simp add: take_Suc_conv_app_nth)
    ultimately show ?thesis using True by (simp add: opt_hash_def)
  next
    case False
    have "compressed_entries (compressed_content (Suc i) hs) (cs[i := Some h])
        = Inr (take (Suc i) (cs[i := Some h]) @ map opt_hash hs
               @ drop (Suc i + length hs) (cs[i := Some h]))"
      using Cons.prems by (intro Cons.IH) auto
    moreover have "take (Suc i) (cs[i := Some h]) = take i cs @ [Some h]"
      using Cons.prems(1) i(2) by (simp add: take_Suc_conv_app_nth)
    moreover have "drop (Suc i + length hs) (cs[i := Some h]) = drop (Suc i + length hs) cs"
      by simp
    ultimately show ?thesis using False i
      by (subst compressed_entries.simps)
        (simp add: Let_def hash_at_def nth_append opt_hash_def)
  qed
qed

lemma from_compressed_bytes_eq_full:
  assumes "length hs = 16"
  shows "from_compressed_bytes (compressed_content 0 hs) = from_full_bytes (full_content hs)"
proof -
  have "length (filter (\<lambda>h. h \<noteq> 0) hs) \<le> 16"
    using assms length_filter_le [of "\<lambda>h. h \<noteq> 0" hs] by simp
  moreover have "compressed_entries (compressed_content 0 hs) (replicate 16 None)
      = Inr (map opt_hash hs)"
    using assms compressed_entries_content [of "replicate 16 None" 0 hs] by simp
  ultimately show ?thesis
    using assms by (simp add: from_compressed_bytes_def from_full_bytes_full_content
        length_compressed_content)
qed

section \<open>Recomputing a node's hash\<close>

definition hash_prefix_inner_node :: "byte list" where
  "hash_prefix_inner_node = [0x4D, 0x49, 0x4E, 0]"

definition recompute_node_hash :: "sha512 \<Rightarrow> shamap_node \<Rightarrow> hash256" where
  "recompute_node_hash H n =
     (if is_inner (node_type n) then sha512half H (hash_prefix_inner_node @ node_content n)
      else sha512half H (node_content n))"

lemma recompute_node_hash_zero: "recompute_node_hash (\<lambda>_. 0) n = 0"
  by (cases "is_inner (node_type n)") (simp_all add: recompute_node_hash_def sha512half_zero)

fun verify_state_nodes :: "sha512 \<Rightarrow> shamap_node list \<Rightarrow> hash256 + unit" where
  "verify_state_nodes H [] = Inr ()"
| "verify_state_nodes H (n # ns) =
     (if recompute_node_hash H n \<noteq> node_hash n then Inl (node_hash n)
      else verify_state_nodes H ns)"

lemma verify_state_nodes_Inr [simp]:
  "verify_state_nodes H ns = Inr u \<longleftrightarrow>
     (\<forall>n \<in> set ns. recompute_node_hash H n = node_hash n)"
  by (induction ns) auto

lemma verify_state_nodes_find:
  "verify_state_nodes H ns =
     (case find (\<lambda>n. recompute_node_hash H n \<noteq> node_hash n) ns of
        None \<Rightarrow> Inr ()
      | Some n \<Rightarrow> Inl (node_hash n))"
  by (induction ns) auto

section \<open>Properties\<close>

text \<open>
  The compressed form of an inner node (only the occupied slots, each with its position)
  parses to the same inner node as the full form, for every choice of the sixteen children.
\<close>

theorem compressed_inner_parses_as_full:
  assumes "length hs = 16"
  shows "from_compressed_bytes (compressed_content 0 hs) = from_full_bytes (full_content hs)"
  using from_compressed_bytes_eq_full [OF assms] .

lemma compressed_inner_parses_as_full_witness:
  "from_compressed_bytes (compressed_content 0 ([0, 11] @ replicate 13 0 @ [12]))
     = from_full_bytes (full_content ([0, 11] @ replicate 13 0 @ [12]))"
  by (rule compressed_inner_parses_as_full) simp

text \<open>
  verify_state_nodes accepts a list of nodes exactly when every node hashes to its own
  hash, and otherwise names the first node of the list that does not.
\<close>

theorem verify_state_nodes_decides:
  "verify_state_nodes H ns =
     (case find (\<lambda>n. recompute_node_hash H n \<noteq> node_hash n) ns of
        None \<Rightarrow> Inr ()
      | Some n \<Rightarrow> Inl (node_hash n))"
  by (rule verify_state_nodes_find)

end
