(* ===== verification/Nudb_Codec.thy ===== *)
theory Nudb_Codec
  imports Nudb_Writer Shamap
begin

text \<open>
  The values of a NuDB store: crates/xrla-nudb/src/dat.rs. Decoding of the four value codecs
  to wire bytes, the encoder of the importer, and the sequential scan of a .dat file. LZ4
  (the crate lz4_flex) is a parameter \<open>L\<close>: compressed bytes and original size to decoded
  bytes or failure. Messages on stderr are not modelled.
\<close>

unbundle bit_operations_syntax

section \<open>Constants\<close>

definition codec_raw :: byte where "codec_raw = 0"
definition codec_lz4 :: byte where "codec_lz4 = 1"
definition codec_sparse_inner :: byte where "codec_sparse_inner = 2"
definition codec_full_inner :: byte where "codec_full_inner = 3"

definition notype_unknown :: byte where "notype_unknown = 0"
definition notype_ledger :: byte where "notype_ledger = 1"
definition notype_account :: byte where "notype_account = 3"
definition notype_transaction :: byte where "notype_transaction = 4"

lemmas codec_bytes = codec_raw_def codec_lz4_def codec_sparse_inner_def codec_full_inner_def
lemmas notype_bytes = notype_unknown_def notype_ledger_def notype_account_def notype_transaction_def

section \<open>Decoding\<close>

definition encoded_blob_to_wire :: "byte list \<Rightarrow> byte list option" where
  "encoded_blob_to_wire d =
     (if length d < 9 then None else
      let notype = d ! 8 in
      if notype = notype_unknown then
        (if length d < 525 then None
         else Some (slice d 13 525 @ [u8_from_node_type Inner]))
      else if notype = notype_account then Some (drop 9 d @ [u8_from_node_type AccountState])
      else if notype = notype_transaction then
        Some (drop 9 d @ [u8_from_node_type TransactionWithMeta])
      else None)"

text \<open>The loop of read_varint over the bytes with their index.\<close>

fun varint_loop :: "byte list \<Rightarrow> nat \<Rightarrow> u64 \<Rightarrow> nat \<Rightarrow> (u64 \<times> nat) option" where
  "varint_loop [] i result shift = None"
| "varint_loop (b # bs) i result shift =
     (let result = result OR push_bit shift (ucast (b AND 0x7F)); shift = shift + 7 in
      if b AND 0x80 = 0 then Some (result, i + 1)
      else if 64 \<le> shift then None
      else varint_loop bs (i + 1) result shift)"

definition read_varint :: "byte list \<Rightarrow> (u64 \<times> nat) option" where
  "read_varint d = varint_loop d 0 0 0"

definition decode_full_inner :: "byte list \<Rightarrow> byte list option" where
  "decode_full_inner val =
     (if length val \<noteq> 1 + 512 then None else Some (drop 1 val @ [u8_from_node_type Inner]))"

definition count_ones :: "u16 \<Rightarrow> nat" where
  "count_ones bmask = length (filter (bit bmask) [0..<16])"

text \<open>The slots in order, each 32 bytes: the next packed hash where the mask has the bit.\<close>

fun sparse_slots :: "u16 \<Rightarrow> byte list \<Rightarrow> nat list \<Rightarrow> nat \<Rightarrow> byte list" where
  "sparse_slots bmask val [] src = []"
| "sparse_slots bmask val (slot # slots) src =
     (if bmask AND drop_bit slot 0x8000 \<noteq> 0
      then slice val (3 + src * 32) (3 + src * 32 + 32) @ sparse_slots bmask val slots (src + 1)
      else replicate 32 0 @ sparse_slots bmask val slots src)"

definition decode_sparse_inner :: "byte list \<Rightarrow> byte list option" where
  "decode_sparse_inner val =
     (if length val < 3 then None else
      let bmask = from_be_bytes (slice val 1 3); n_children = count_ones bmask in
      if length val \<noteq> 3 + n_children * 32 then None
      else Some (sparse_slots bmask val [0..<16] 0 @ [u8_from_node_type Inner]))"

type_synonym lz4 = "byte list \<Rightarrow> nat \<Rightarrow> byte list option"

definition decode_lz4 :: "lz4 \<Rightarrow> byte list \<Rightarrow> byte list option" where
  "decode_lz4 L val =
     Option.bind (read_varint (drop 1 val)) (\<lambda>(orig_size, vlen).
     Option.bind (L (drop (1 + vlen) val) (unat orig_size)) encoded_blob_to_wire)"

definition decode_raw :: "byte list \<Rightarrow> byte list option" where
  "decode_raw val = encoded_blob_to_wire (drop 1 val)"

definition decode_value_to_wire :: "lz4 \<Rightarrow> byte list \<Rightarrow> byte list option" where
  "decode_value_to_wire L val =
     (case val of
        [] \<Rightarrow> None
      | c # _ \<Rightarrow>
          if c = codec_full_inner then decode_full_inner val
          else if c = codec_sparse_inner then decode_sparse_inner val
          else if c = codec_lz4 then decode_lz4 L val
          else if c = codec_raw then decode_raw val
          else None)"

section \<open>Encoding\<close>

definition encode_object_to_value :: "byte \<Rightarrow> byte list \<Rightarrow> byte list" where
  "encode_object_to_value object_type d = [codec_raw] @ replicate 8 0 @ [object_type] @ d"

definition encode_wire_to_value :: "byte list \<Rightarrow> node_type \<Rightarrow> byte list" where
  "encode_wire_to_value content t =
     [codec_raw] @ replicate 8 0 @
     (if is_inner t then [notype_unknown] @ hash_prefix_inner_node @ content
      else [case t of AccountState \<Rightarrow> notype_account | _ \<Rightarrow> notype_transaction] @ content)"

section \<open>The sequential scan\<close>

datatype scan_error =
    ScanEof
  | ScanBadMagic "byte list"
  | ScanKeySize u16

function scan_loop ::
  "lz4 \<Rightarrow> byte list \<Rightarrow> (hash256 \<rightharpoonup> byte list) \<Rightarrow> (hash256 \<rightharpoonup> byte list)" where
  "scan_loop L r m =
     (if length r < 6 then m else
      let val_size = unat (read_u48 (take 6 r)) in
      if val_size = 0 then m
      else if val_size > 65536 then m
      else if length r < 6 + key_size + val_size then m
      else
        let key = from_be_bytes (slice r 6 (6 + key_size));
            val = slice r (6 + key_size) (6 + key_size + val_size)
        in scan_loop L (drop (6 + key_size + val_size) r)
             (case decode_value_to_wire L val of Some wire \<Rightarrow> m(key \<mapsto> wire) | None \<Rightarrow> m))"
  by pat_completeness auto
termination
  by (relation "measure (\<lambda>(_, r, _). length r)") (auto simp add: key_size_def)

declare scan_loop.simps [simp del]

definition scan_dat :: "lz4 \<Rightarrow> byte list \<Rightarrow> scan_error + (hash256 \<rightharpoonup> byte list)" where
  "scan_dat L file =
     (if length file < 8 then Inl ScanEof
      else if take 8 file \<noteq> dat_magic then Inl (ScanBadMagic (take 8 file))
      else if length file < 92 then Inl ScanEof
      else
        let hdr = slice file 8 92; ksize = from_be_bytes (slice hdr 18 20) :: u16 in
        if ksize \<noteq> 32 then Inl (ScanKeySize ksize)
        else Inr (scan_loop L (drop dat_header_size file) Map.empty))"

section \<open>What the importer writes is read back\<close>

lemma decode_raw_value: "decode_value_to_wire L (codec_raw # d) = encoded_blob_to_wire d"
  by (simp add: decode_value_to_wire_def codec_bytes decode_raw_def)

lemma encoded_blob_object:
  "encoded_blob_to_wire (replicate 8 0 @ t # d) =
     (if t = notype_unknown then
        (if length d < 516 then None else Some (slice d 4 516 @ [u8_from_node_type Inner]))
      else if t = notype_account then Some (d @ [u8_from_node_type AccountState])
      else if t = notype_transaction then Some (d @ [u8_from_node_type TransactionWithMeta])
      else None)"
  by (simp add: encoded_blob_to_wire_def nth_append Let_def slice_def)

lemma decode_encode:
  "decode_value_to_wire L (encode_wire_to_value content t) =
     (case t of
        AccountState \<Rightarrow> Some (content @ [u8_from_node_type AccountState])
      | Transaction \<Rightarrow> Some (content @ [u8_from_node_type TransactionWithMeta])
      | TransactionWithMeta \<Rightarrow> Some (content @ [u8_from_node_type TransactionWithMeta])
      | _ \<Rightarrow> if length content < 512 then None
             else Some (take 512 content @ [u8_from_node_type Inner]))"
  by (cases t)
    (auto simp add: encode_wire_to_value_def decode_raw_value encoded_blob_object notype_bytes
      hash_prefix_inner_node_def slice_def)

lemma decode_object_ledger:
  "decode_value_to_wire L (encode_object_to_value notype_ledger d) = None"
  by (simp add: encode_object_to_value_def decode_raw_value encoded_blob_object notype_bytes)

text \<open>Nodes the store returns as they were: every type the replay writes.\<close>

definition storable :: "shamap_node \<Rightarrow> bool" where
  "storable n \<longleftrightarrow>
     (case node_type n of
        Inner \<Rightarrow> length (node_content n) = 512
      | AccountState \<Rightarrow> True
      | TransactionWithMeta \<Rightarrow> True
      | _ \<Rightarrow> False)"

lemma decode_encode_storable:
  "storable n \<Longrightarrow>
     decode_value_to_wire L (encode_wire_to_value (node_content n) (node_type n)) = Some (to_wire_bytes n)"
  by (cases "node_type n") (simp_all add: storable_def decode_encode to_wire_bytes_def)

section \<open>The sparse inner form\<close>

text \<open>
  The form xrpld stores: a mask with bit 15 - s for slot s, then the hashes of the occupied
  slots in order.
\<close>

fun slot_mask :: "nat \<Rightarrow> hash256 list \<Rightarrow> u16" where
  "slot_mask s [] = 0"
| "slot_mask s (h # hs) = (if h \<noteq> 0 then drop_bit s 0x8000 else 0) OR slot_mask (Suc s) hs"

definition sparse_value :: "hash256 list \<Rightarrow> byte list" where
  "sparse_value hs =
     [codec_sparse_inner] @ to_be_bytes (slot_mask 0 hs)
     @ full_content (filter (\<lambda>h. h \<noteq> 0) hs)"

definition full_value :: "hash256 list \<Rightarrow> byte list" where
  "full_value hs = [codec_full_inner] @ full_content hs"

lemma bit_8000: "bit (drop_bit s 0x8000 :: u16) n \<longleftrightarrow> s + n = 15"
proof -
  have "(0x8000 :: u16) = push_bit 15 1" by simp
  then show ?thesis by (auto simp only: bit_drop_bit_eq bit_push_bit_iff bit_1_iff o_def) auto
qed

lemma bit_slot_mask:
  "bit (slot_mask s hs) n \<longleftrightarrow> (\<exists>i < length hs. hs ! i \<noteq> 0 \<and> s + i + n = 15)"
proof (induction hs arbitrary: s)
  case (Cons h hs)
  have "(\<exists>i < length (h # hs). (h # hs) ! i \<noteq> 0 \<and> s + i + n = 15) \<longleftrightarrow>
      (h \<noteq> 0 \<and> s + n = 15) \<or> (\<exists>i < length hs. hs ! i \<noteq> 0 \<and> Suc s + i + n = 15)"
    by (auto simp add: less_Suc_eq_0_disj)
  then show ?case by (simp add: Cons bit_or_iff bit_8000)
qed simp

lemma word_nonzero_bit: "x \<noteq> 0 \<longleftrightarrow> (\<exists>n. bit x n)" for x :: "'a::len word"
proof
  assume "x \<noteq> 0"
  then show "\<exists>n. bit x n" by (metis bit_0_eq bot_apply bot_bool_def bit_eqI)
qed auto

lemma word_and_nonzero: "x AND y \<noteq> 0 \<longleftrightarrow> (\<exists>n. bit x n \<and> bit y n)" for x y :: "'a::len word"
proof
  assume "x AND y \<noteq> 0"
  then obtain n where "bit (x AND y) n" unfolding word_nonzero_bit by blast
  then show "\<exists>n. bit x n \<and> bit y n" by (auto simp only: bit_and_iff)
next
  assume "\<exists>n. bit x n \<and> bit y n"
  then obtain n where "bit (x AND y) n" by (auto simp only: bit_and_iff)
  then show "x AND y \<noteq> 0" unfolding word_nonzero_bit by blast
qed

lemma slot_bit: "s < 16 \<Longrightarrow> bmask AND drop_bit s 0x8000 \<noteq> 0 \<longleftrightarrow> bit (bmask :: u16) (15 - s)"
proof -
  assume s: "s < 16"
  have "bmask AND drop_bit s 0x8000 \<noteq> 0 \<longleftrightarrow> (\<exists>n. bit bmask n \<and> bit (drop_bit s 0x8000 :: u16) n)"
    by (rule word_and_nonzero)
  moreover have "s + n = 15 \<longleftrightarrow> n = 15 - s" for n using s by arith
  ultimately show ?thesis by (simp add: bit_8000)
qed

lemma count_ones_slots: "count_ones bmask = length (filter (\<lambda>s. bmask AND drop_bit s 0x8000 \<noteq> 0) [0..<16])"
proof -
  have up: "[0..<16] = rev (map (\<lambda>i. 15 - i) [0..<16::nat])" by (simp add: upt_rec)
  have "count_ones bmask = length (filter (bit bmask) (rev (map (\<lambda>i. 15 - i) [0..<16])))"
    unfolding count_ones_def by (subst up) (rule refl)
  also have "\<dots> = length (filter (\<lambda>i. bit bmask (15 - i)) [0..<16])"
    by (simp only: length_rev filter_map length_map o_def flip: rev_filter)
  also have "filter (\<lambda>i. bit bmask (15 - i)) [0..<16] = filter (\<lambda>s. bmask AND drop_bit s 0x8000 \<noteq> 0) [0..<16]"
    by (intro filter_cong) (simp_all add: slot_bit)
  finally show ?thesis .
qed

lemma bit_slot:
  assumes "length hs = 16" and "i < 16"
  shows "bit (slot_mask 0 hs) (15 - i) \<longleftrightarrow> hs ! i \<noteq> 0"
proof -
  have "j + (15 - i) = 15 \<longleftrightarrow> j = i" for j using assms(2) by arith
  then show ?thesis using assms by (auto simp add: bit_slot_mask)
qed

lemma mask_has_slot:
  "length hs = 16 \<Longrightarrow> s < 16 \<Longrightarrow>
     (slot_mask 0 hs AND drop_bit s 0x8000 \<noteq> 0) \<longleftrightarrow> hs ! s \<noteq> 0"
  by (simp add: slot_bit bit_slot)

lemma count_ones_slot_mask:
  assumes "length hs = 16"
  shows "count_ones (slot_mask 0 hs) = length (filter (\<lambda>h. h \<noteq> 0) hs)"
proof -
  have "filter (\<lambda>s. slot_mask 0 hs AND drop_bit s 0x8000 \<noteq> 0) [0..<16] = filter (\<lambda>i. hs ! i \<noteq> 0) [0..<16]"
    using assms by (intro filter_cong) (simp_all add: mask_has_slot)
  moreover have "length (filter (\<lambda>i. hs ! i \<noteq> 0) [0..<16])
      = length (filter (\<lambda>h. h \<noteq> 0) (map ((!) hs) [0..<16]))"
    by (simp only: filter_map length_map o_def)
  moreover have "map ((!) hs) [0..<16] = hs" using assms map_nth [of hs] by simp
  ultimately show ?thesis by (simp only: count_ones_slots)
qed

lemma full_content_Cons: "full_content (h # hs) = to_be_bytes h @ full_content hs"
  by (simp add: full_content_def)

lemma sparse_slots_unpack:
  "length gs + s = 16 \<Longrightarrow> (\<And>i. i < length gs \<Longrightarrow> bmask AND drop_bit (s + i) 0x8000 \<noteq> 0 \<longleftrightarrow> gs ! i \<noteq> 0) \<Longrightarrow>
   length pre = 3 + src * 32 \<Longrightarrow>
     sparse_slots bmask (pre @ full_content (filter (\<lambda>h. h \<noteq> 0) gs)) [s..<16] src = full_content gs"
proof (induction gs arbitrary: s src pre)
  case Nil
  then show ?case by (simp add: full_content_def)
next
  case (Cons g gs)
  have up: "[s..<16] = s # [Suc s..<16]" using Cons.prems(1) by (simp add: upt_conv_Cons)
  have bits: "bmask AND drop_bit (Suc s + i) 0x8000 \<noteq> 0 \<longleftrightarrow> gs ! i \<noteq> 0" if "i < length gs" for i
    using Cons.prems(2) [of "Suc i"] that by simp
  have hd: "bmask AND drop_bit s 0x8000 \<noteq> 0 \<longleftrightarrow> g \<noteq> 0" using Cons.prems(2) [of 0] by simp
  show ?case
  proof (cases "g = 0")
    case True
    have "(replicate 32 0 :: byte list) = to_be_bytes (0 :: hash256)" by (simp add: to_be_bytes_def)
    moreover have "sparse_slots bmask (pre @ full_content (filter (\<lambda>h. h \<noteq> 0) gs)) [Suc s..<16] src
        = full_content gs"
      using Cons.prems(1,3) bits by (intro Cons.IH) simp_all
    ultimately show ?thesis using True hd up by (simp add: full_content_Cons)
  next
    case False
    have "sparse_slots bmask ((pre @ to_be_bytes g) @ full_content (filter (\<lambda>h. h \<noteq> 0) gs)) [Suc s..<16] (src + 1)
        = full_content gs"
      using Cons.prems(1,3) bits by (intro Cons.IH) simp_all
    moreover have "slice (pre @ to_be_bytes g @ full_content (filter (\<lambda>h. h \<noteq> 0) gs))
        (3 + src * 32) (3 + src * 32 + 32) = to_be_bytes g"
      using Cons.prems(3) by (intro slice_append) simp_all
    ultimately show ?thesis using False hd up by (simp add: full_content_Cons)
  qed
qed

lemma decode_sparse_value:
  assumes "length hs = 16"
  shows "decode_value_to_wire L (sparse_value hs) = Some (full_content hs @ [u8_from_node_type Inner])"
proof -
  let ?m = "slot_mask 0 hs"
  let ?pre = "codec_sparse_inner # to_be_bytes ?m"
  have v: "sparse_value hs = ?pre @ full_content (filter (\<lambda>h. h \<noteq> 0) hs)"
    by (simp add: sparse_value_def)
  have m: "slice (sparse_value hs) 1 3 = to_be_bytes ?m" by (simp add: v slice_def)
  have "sparse_slots ?m (sparse_value hs) [0..<16] 0 = full_content hs"
    unfolding v using assms mask_has_slot [OF assms]
    by (intro sparse_slots_unpack) simp_all
  moreover have "length (sparse_value hs) = 3 + count_ones ?m * 32"
    using count_ones_slot_mask [OF assms] by (simp add: v)
  ultimately have "decode_sparse_inner (sparse_value hs)
      = Some (full_content hs @ [u8_from_node_type Inner])"
    by (simp add: decode_sparse_inner_def m [unfolded One_nat_def] Let_def)
  moreover have "decode_value_to_wire L (sparse_value hs) = decode_sparse_inner (sparse_value hs)"
    by (simp add: decode_value_to_wire_def sparse_value_def codec_bytes)
  ultimately show ?thesis by simp
qed

lemma decode_full_value:
  "length hs = 16 \<Longrightarrow>
     decode_value_to_wire L (full_value hs) = Some (full_content hs @ [u8_from_node_type Inner])"
  by (simp add: decode_value_to_wire_def full_value_def decode_full_inner_def codec_bytes)

section \<open>Scanning a store\<close>

definition file_record :: "hash256 \<times> byte list \<Rightarrow> byte list" where
  "file_record e = write_u48 (of_nat (length (snd e))) @ to_be_bytes (fst e) @ snd e"

definition scan_value :: "lz4 \<Rightarrow> (hash256 \<rightharpoonup> byte list) \<Rightarrow> hash256 \<times> byte list \<Rightarrow> (hash256 \<rightharpoonup> byte list)" where
  "scan_value L m e =
     (case decode_value_to_wire L (snd e) of Some wire \<Rightarrow> m(fst e \<mapsto> wire) | None \<Rightarrow> m)"

definition scannable :: "hash256 \<times> byte list \<Rightarrow> bool" where
  "scannable e \<longleftrightarrow> 0 < length (snd e) \<and> length (snd e) \<le> 65536"

lemma scan_loop_records:
  "list_all scannable es \<Longrightarrow>
     scan_loop L (concat (map file_record es) @ r) m = scan_loop L r (foldl (scan_value L) m es)"
proof (induction es arbitrary: m)
  case (Cons e es)
  obtain h v where e: "e = (h, v)" by (cases e)
  have sz: "0 < length v" "length v \<le> 65536" using Cons.prems e by (simp_all add: scannable_def)
  let ?rest = "concat (map file_record es) @ r"
  let ?sz = "of_nat (length v) :: u64"
  have u: "unat ?sz = length v" using sz by (intro unat_of_nat64) simp
  then have rd: "read_u48 (write_u48 ?sz) = ?sz" using sz by (intro read_write_u48) simp
  have fr: "concat (map file_record (e # es)) @ r = write_u48 ?sz @ to_be_bytes h @ v @ ?rest"
    by (simp add: file_record_def e)
  have "scan_loop L (write_u48 ?sz @ to_be_bytes h @ v @ ?rest) m = scan_loop L ?rest (scan_value L m e)"
    using sz u rd
    by (subst scan_loop.simps) (simp add: Let_def key_size_def slice_def scan_value_def e cong: option.case_cong)
  then show ?case unfolding fr using Cons by simp
qed simp

text \<open>A spill record starts with a zero size, where the scan stops.\<close>

lemma scan_loop_stops: "length z = 6 \<Longrightarrow> z = replicate 6 0 \<Longrightarrow> scan_loop L (z @ r) m = m"
proof -
  assume "length z = 6" "z = replicate 6 0"
  moreover have "read_u48 (replicate 6 0) = 0"
    using read_write_u48 [of 0] by (simp add: write_u48_nat_be)
  ultimately show ?thesis by (subst scan_loop.simps) (simp add: Let_def)
qed

lemma scan_loop_end: "length r < 6 \<Longrightarrow> scan_loop L r m = m"
  by (subst scan_loop.simps) simp

lemma scan_dat_header:
  "scan_dat L (write_dat_header v u a @ r) = Inr (scan_loop L r Map.empty)"
  by (simp add: scan_dat_def write_dat_header_def dat_magic_def slice_def Let_def
      dat_header_size_def key_size_def)

section \<open>What is decoded can be stored again\<close>

lemma length_sparse_slots:
  "3 + (src + length (filter (\<lambda>s. bmask AND drop_bit s 0x8000 \<noteq> 0) slots)) * 32 \<le> length val \<Longrightarrow>
     length (sparse_slots bmask val slots src) = 32 * length slots"
  by (induction slots arbitrary: src) (auto simp add: slice_def)

lemma decoded_wire:
  assumes "decode_value_to_wire L val = Some wire"
  shows "\<exists>c t. wire = c @ [u8_from_node_type t] \<and>
    (t = Inner \<and> length c = 512 \<or> t = AccountState \<or> t = TransactionWithMeta)"
proof -
  note [simp del] = u8_from_node_type.simps
  have blob: "\<exists>c t. w = c @ [u8_from_node_type t] \<and> (t = Inner \<and> length c = 512 \<or> t = AccountState \<or> t = TransactionWithMeta)"
    if "encoded_blob_to_wire d = Some w" for d w
    using that by (auto simp add: encoded_blob_to_wire_def Let_def slice_def split: if_splits)
  have sparse: "length (sparse_slots m val [0..<16] 0) = 512" if "length val = 3 + count_ones m * 32" for m
    using that length_sparse_slots [of 0 m "[0..<16]" val] by (simp add: count_ones_slots del: upt_rec_numeral)
  from assms consider "decode_full_inner val = Some wire" | "decode_sparse_inner val = Some wire"
    | d where "encoded_blob_to_wire d = Some wire"
    by (auto simp add: decode_value_to_wire_def decode_lz4_def decode_raw_def bind_eq_Some_conv split: list.splits if_splits)
  then show ?thesis
  proof cases
    case 1
    then show ?thesis by (auto simp add: decode_full_inner_def split: if_splits)
  next
    case 2
    then show ?thesis using sparse by (auto simp add: decode_sparse_inner_def Let_def split: if_splits)
  next
    case (3 d)
    then show ?thesis by (rule blob)
  qed
qed

lemma decoded_storable:
  assumes "decode_value_to_wire L val = Some wire" and "from_wire_bytes h wire = Inr n"
  shows "storable n"
  using decoded_wire [OF assms(1)] assms(2)
  by (auto simp add: from_wire_bytes_snoc storable_def simp del: u8_from_node_type.simps)

section \<open>Properties\<close>

text \<open>
  C34: What the store returns for a value the importer encoded, for every node type: account
  leaves, transaction leaves and full inner nodes come back as they were; a plain transaction
  leaf comes back with the type of a transaction with metadata; an inner node is cut to its
  first 512 bytes, and lost when its content is shorter (a compressed inner node).
\<close>

theorem nudb_value_decode_encode:
  "decode_value_to_wire L (encode_wire_to_value content t) =
     (case t of
        AccountState \<Rightarrow> Some (content @ [u8_from_node_type AccountState])
      | Transaction \<Rightarrow> Some (content @ [u8_from_node_type TransactionWithMeta])
      | TransactionWithMeta \<Rightarrow> Some (content @ [u8_from_node_type TransactionWithMeta])
      | _ \<Rightarrow> if length content < 512 then None
             else Some (take 512 content @ [u8_from_node_type Inner]))"
  by (rule decode_encode)

text \<open>
  The three stored forms of an inner node, sparse (mask and packed hashes), full, and raw
  (as the importer writes it), decode to the same wire bytes for every choice of children.
\<close>

theorem inner_node_codecs_agree:
  assumes "length hs = 16"
  shows "decode_value_to_wire L (sparse_value hs) = Some (full_content hs @ [u8_from_node_type Inner]) \<and>
    decode_value_to_wire L (full_value hs) = Some (full_content hs @ [u8_from_node_type Inner]) \<and>
    decode_value_to_wire L (encode_wire_to_value (full_content hs) Inner)
      = Some (full_content hs @ [u8_from_node_type Inner])"
  using assms by (simp add: decode_sparse_value decode_full_value decode_encode)

lemma inner_node_codecs_agree_witness:
  "decode_value_to_wire (\<lambda>_ _. None) (sparse_value ([3, 0] @ replicate 14 0))
     = decode_value_to_wire (\<lambda>_ _. None) (full_value ([3, 0] @ replicate 14 0))"
  using inner_node_codecs_agree [of "[3, 0] @ replicate 14 0" "\<lambda>_ _. None"] by simp

text \<open>
  Scanning a .dat file reads every record up to the end of the file or the first spill
  record, in order, with the last decodable value of a key winning.
\<close>

theorem scan_dat_reads_records:
  assumes "list_all scannable es" and "r = [] \<or> (\<exists>t. r = replicate 6 0 @ t)"
  shows "scan_dat L (write_dat_header v u a @ concat (map file_record es) @ r)
    = Inr (foldl (scan_value L) Map.empty es)"
proof -
  have "scan_loop L r m = m" for m
    using assms(2) scan_loop_stops [of "replicate 6 0" L] scan_loop_end [of "[]" L m] by auto
  then show ?thesis by (simp add: scan_dat_header scan_loop_records [OF assms(1)])
qed

lemma scan_dat_reads_records_witness:
  "scan_dat (\<lambda>_ _. None) (write_dat_header 2 1 1 @ concat (map file_record
       [(7, encode_wire_to_value [1] AccountState), (8, [9])]))
     = Inr [7 \<mapsto> [1, 1]]"
proof -
  let ?v = "encode_wire_to_value [1] AccountState"
  have "decode_value_to_wire (\<lambda>_ _. None) [9] = None"
    by (simp add: decode_value_to_wire_def codec_bytes)
  moreover have "length ?v = 11" by (simp add: encode_wire_to_value_def)
  moreover from this have "?v \<noteq> []" by auto
  ultimately show ?thesis
    using scan_dat_reads_records [of "[(7, ?v), (8, [9])]" "[]" "\<lambda>_ _. None" 2 1 1]
    by (simp add: scannable_def scan_value_def decode_encode)
qed

end
