(* ===== verification/Chunk_Format.thy ===== *)
theory Chunk_Format
  imports Shamap "HOL-Library.Multiset"
begin

text \<open>
  The chunk file format: the data types of crates/xrla-common/src/chunk.rs and the writers
  and readers of crates/xrla-common/src/serialize.rs. A writer returns the bytes it appends,
  a reader is a parser over the bytes that are left. Lengths are cast to the width of their
  field as the source casts them (as u16, as u32), so an oversized list is written with a
  truncated count; the well-formedness predicates below say when the cast is exact.
\<close>

section \<open>Data types and constants\<close>

definition magic_header :: "byte list" where
  "magic_header = [0x58, 0x52, 0x4C, 0x41]"

definition magic_footer :: "byte list" where
  "magic_footer = [0x45, 0x4E, 0x44, 0x58]"

definition format_version :: byte where "format_version = 2"

definition format_version_streamed :: byte where "format_version_streamed = 3"

record tx_record =
  tx_hash :: hash256
  tx_blob :: "byte list"
  meta_blob :: "byte list"

record tx_map =
  tm_ledger_seq :: u32
  tm_ledger_hash :: hash256
  tm_account_hash :: hash256
  tm_drops :: u64
  tm_parent_close_time :: u32
  tm_close_time :: u32
  tm_close_time_resolution :: byte
  tm_close_flags :: byte
  tm_txns :: "tx_record list"

record ledger_delta =
  ld_ledger_seq :: u32
  ld_diff :: shamap_diff

record chunk =
  ck_network_id :: u32
  ck_start_ledger :: u32
  ck_end_ledger :: u32
  ck_checkpoint_hash :: hash256
  ck_chunk_hash :: hash256
  ck_checkpoint :: "shamap_node list"
  ck_deltas :: "ledger_delta list"
  ck_tx_maps :: "tx_map list"

definition ledger_count :: "chunk \<Rightarrow> u32" where
  "ledger_count c = ck_end_ledger c - ck_start_ledger c + 1"

datatype chunk_error =
    InvalidMagic
  | UnsupportedVersion byte
  | HashMismatch hash256 hash256
  | LedgerHashMismatch u32
  | Io
  | UnexpectedEof

section \<open>File names\<close>

text \<open>Rust's decimal Display of an integer and its zero-padded form {:010}.\<close>

fun dec_digits :: "nat \<Rightarrow> string" where
  "dec_digits n =
     (if n < 10 then [char_of (48 + n)] else dec_digits (n div 10) @ [char_of (48 + n mod 10)])"

declare dec_digits.simps [simp del]

definition pad10 :: "nat \<Rightarrow> string" where
  "pad10 n = replicate (10 - length (dec_digits n)) (CHR ''0'') @ dec_digits n"

definition chunk_filename :: "u32 \<Rightarrow> u32 \<Rightarrow> u32 \<Rightarrow> string" where
  "chunk_filename network_id start end =
     ''xrla_'' @ dec_digits (unat network_id) @ ''_'' @ pad10 (unat start) @ ''_''
     @ pad10 (unat end) @ ''.xrla''"

section \<open>Writers\<close>

definition write_u8 :: "byte \<Rightarrow> byte list" where "write_u8 v = [v]"

definition write_u16be :: "u16 \<Rightarrow> byte list" where "write_u16be v = to_be_bytes v"

definition write_u32be :: "u32 \<Rightarrow> byte list" where "write_u32be v = to_be_bytes v"

definition write_u64be :: "u64 \<Rightarrow> byte list" where "write_u64be v = to_be_bytes v"

definition write_hash :: "hash256 \<Rightarrow> byte list" where "write_hash h = to_be_bytes h"

lemmas write_defs = write_u8_def write_u16be_def write_u32be_def write_u64be_def write_hash_def

definition write_node :: "shamap_node \<Rightarrow> byte list" where
  "write_node n =
     write_hash (node_hash n)
     @ write_u8 (u8_from_node_type (node_type n))
     @ write_u16be (of_nat (length (node_content n)))
     @ node_content n"

definition write_node_list :: "shamap_node list \<Rightarrow> byte list" where
  "write_node_list nodes =
     (let ns = sort_key node_hash nodes
      in write_u32be (of_nat (length ns)) @ concat (map write_node ns))"

definition write_delta :: "ledger_delta \<Rightarrow> byte list" where
  "write_delta d =
     (let added = sort_key node_hash (diff_added (ld_diff d));
          deleted = sort (diff_deleted (ld_diff d))
      in write_u32be (ld_ledger_seq d)
         @ write_u32be (of_nat (length added)) @ concat (map write_node added)
         @ write_u32be (of_nat (length deleted)) @ concat (map write_hash deleted))"

definition write_tx :: "tx_record \<Rightarrow> byte list" where
  "write_tx t =
     write_hash (tx_hash t)
     @ write_u32be (of_nat (length (tx_blob t))) @ tx_blob t
     @ write_u32be (of_nat (length (meta_blob t))) @ meta_blob t"

definition write_tx_map :: "tx_map \<Rightarrow> byte list" where
  "write_tx_map m =
     write_u32be (tm_ledger_seq m)
     @ write_hash (tm_ledger_hash m)
     @ write_hash (tm_account_hash m)
     @ write_u64be (tm_drops m)
     @ write_u32be (tm_parent_close_time m)
     @ write_u32be (tm_close_time m)
     @ write_u8 (tm_close_time_resolution m)
     @ write_u8 (tm_close_flags m)
     @ write_u16be (of_nat (length (tm_txns m)))
     @ concat (map write_tx (sort_key tx_hash (tm_txns m)))"

definition serialize_body :: "chunk \<Rightarrow> byte list" where
  "serialize_body c =
     write_node_list (ck_checkpoint c)
     @ concat (map write_delta (ck_deltas c))
     @ concat (map write_tx_map (ck_tx_maps c))
     @ magic_footer"

definition serialize_chunk :: "sha512 \<Rightarrow> chunk \<Rightarrow> byte list" where
  "serialize_chunk H c =
     (let body = serialize_body c; chunk_hash = sha512half H body
      in magic_header
         @ write_u8 format_version
         @ write_u32be (ck_network_id c)
         @ write_u32be (ck_start_ledger c)
         @ write_u32be (ck_end_ledger c)
         @ write_hash (ck_checkpoint_hash c)
         @ write_hash chunk_hash
         @ body)"

section \<open>Readers\<close>

definition read_exact :: "nat \<Rightarrow> (chunk_error, byte list) parser" where
  "read_exact n r = (if length r < n then Inl UnexpectedEof else Inr (take n r, drop n r))"

definition read_u8 :: "(chunk_error, byte) parser" where
  "read_u8 = pbind (read_exact 1) (\<lambda>b. pret (b ! 0))"

definition read_u16be :: "(chunk_error, u16) parser" where
  "read_u16be = pbind (read_exact 2) (\<lambda>b. pret (from_be_bytes b))"

definition read_u32be :: "(chunk_error, u32) parser" where
  "read_u32be = pbind (read_exact 4) (\<lambda>b. pret (from_be_bytes b))"

definition read_u64be :: "(chunk_error, u64) parser" where
  "read_u64be = pbind (read_exact 8) (\<lambda>b. pret (from_be_bytes b))"

definition read_hash :: "(chunk_error, hash256) parser" where
  "read_hash = pbind (read_exact 32) (\<lambda>b. pret (from_be_bytes b))"

definition read_node :: "(chunk_error, shamap_node) parser" where
  "read_node =
     pbind read_hash (\<lambda>h.
     pbind read_u8 (\<lambda>type_byte.
     case node_type_try_from type_byte of
       Inl _ \<Rightarrow> pfail (UnsupportedVersion type_byte)
     | Inr t \<Rightarrow>
         pbind read_u16be (\<lambda>len.
         pbind (read_exact (unat len)) (\<lambda>content.
         pret \<lparr>node_hash = h, node_type = t, node_content = content\<rparr>))))"

definition read_node_list :: "(chunk_error, shamap_node list) parser" where
  "read_node_list = pbind read_u32be (\<lambda>count. read_times (unat count) read_node)"

definition read_delta :: "(chunk_error, ledger_delta) parser" where
  "read_delta =
     pbind read_u32be (\<lambda>ledger_seq.
     pbind read_u32be (\<lambda>added_count.
     pbind (read_times (unat added_count) read_node) (\<lambda>added.
     pbind read_u32be (\<lambda>deleted_count.
     pbind (read_times (unat deleted_count) read_hash) (\<lambda>deleted.
     pret \<lparr>ld_ledger_seq = ledger_seq,
           ld_diff = \<lparr>diff_added = added, diff_deleted = deleted\<rparr>\<rparr>)))))"

definition read_tx :: "(chunk_error, tx_record) parser" where
  "read_tx =
     pbind read_hash (\<lambda>h.
     pbind read_u32be (\<lambda>tx_len.
     pbind (read_exact (unat tx_len)) (\<lambda>blob.
     pbind read_u32be (\<lambda>meta_len.
     pbind (read_exact (unat meta_len)) (\<lambda>meta.
     pret \<lparr>tx_hash = h, tx_blob = blob, meta_blob = meta\<rparr>)))))"

definition read_tx_map :: "(chunk_error, tx_map) parser" where
  "read_tx_map =
     pbind read_u32be (\<lambda>ledger_seq.
     pbind read_hash (\<lambda>ledger_hash.
     pbind read_hash (\<lambda>account_hash.
     pbind read_u64be (\<lambda>drops.
     pbind read_u32be (\<lambda>parent_close_time.
     pbind read_u32be (\<lambda>close_time.
     pbind read_u8 (\<lambda>close_time_resolution.
     pbind read_u8 (\<lambda>close_flags.
     pbind read_u16be (\<lambda>tx_count.
     pbind (read_times (unat tx_count) read_tx) (\<lambda>txns.
     pret \<lparr>tm_ledger_seq = ledger_seq, tm_ledger_hash = ledger_hash,
           tm_account_hash = account_hash, tm_drops = drops,
           tm_parent_close_time = parent_close_time, tm_close_time = close_time,
           tm_close_time_resolution = close_time_resolution, tm_close_flags = close_flags,
           tm_txns = txns\<rparr>))))))))))"

text \<open>A ledger of a streamed chunk: its delta, then its transactions.\<close>

definition read_ledger :: "(chunk_error, ledger_delta \<times> tx_map) parser" where
  "read_ledger = pbind read_delta (\<lambda>d. pbind read_tx_map (\<lambda>m. pret (d, m)))"

text \<open>The unread input, for the hash check before the body is parsed.\<close>

definition remaining :: "(chunk_error, byte list) parser" where
  "remaining r = Inr (r, r)"

text \<open>
  The body after the checkpoint, in the order of each version. \<open>n\<close> is delta_count, the
  difference of two u32 values in wrapping arithmetic (a release build).
\<close>

definition read_body_streamed ::
  "nat \<Rightarrow> (chunk_error, ledger_delta list \<times> tx_map list) parser" where
  "read_body_streamed n =
     pbind read_tx_map (\<lambda>m0.
     pbind (read_times n read_ledger) (\<lambda>ls.
     pret (map fst ls, m0 # map snd ls)))"

definition read_body_blocks ::
  "nat \<Rightarrow> (chunk_error, ledger_delta list \<times> tx_map list) parser" where
  "read_body_blocks n =
     pbind (read_times n read_delta) (\<lambda>deltas.
     pbind (read_times (n + 1) read_tx_map) (\<lambda>tx_maps.
     pret (deltas, tx_maps)))"

definition parse_chunk :: "sha512 \<Rightarrow> (chunk_error, chunk) parser" where
  "parse_chunk H =
     pbind (read_exact 4) (\<lambda>magic.
     if magic \<noteq> magic_header then pfail InvalidMagic else
     pbind read_u8 (\<lambda>version.
     if version \<noteq> format_version \<and> version \<noteq> format_version_streamed
     then pfail (UnsupportedVersion version) else
     pbind read_u32be (\<lambda>network_id.
     pbind read_u32be (\<lambda>start_ledger.
     pbind read_u32be (\<lambda>end_ledger.
     pbind read_hash (\<lambda>checkpoint_hash.
     pbind read_hash (\<lambda>stored_chunk_hash.
     pbind remaining (\<lambda>body.
     let actual_hash = sha512half H body in
     if actual_hash \<noteq> stored_chunk_hash
     then pfail (HashMismatch stored_chunk_hash actual_hash) else
     pbind read_node_list (\<lambda>checkpoint.
     pbind (if version = format_version_streamed
            then read_body_streamed (unat (end_ledger - start_ledger))
            else read_body_blocks (unat (end_ledger - start_ledger))) (\<lambda>(deltas, tx_maps).
     pbind (read_exact 4) (\<lambda>footer.
     if footer \<noteq> magic_footer then pfail InvalidMagic else
     pret \<lparr>ck_network_id = network_id, ck_start_ledger = start_ledger,
           ck_end_ledger = end_ledger, ck_checkpoint_hash = checkpoint_hash,
           ck_chunk_hash = stored_chunk_hash, ck_checkpoint = checkpoint,
           ck_deltas = deltas, ck_tx_maps = tx_maps\<rparr>)))))))))))"

definition deserialize_chunk :: "sha512 \<Rightarrow> byte list \<Rightarrow> chunk_error + chunk" where
  "deserialize_chunk H data = rbind (parse_chunk H data) (\<lambda>(c, _). Inr c)"

end
