(* ===== verification/Tx_Tree.thy ===== *)
theory Tx_Tree
  imports Chunk_Format
begin

text \<open>
  crates/xrla-common/src/tx_tree.rs: transaction IDs, the variable-length prefix, and the
  transaction SHAMap rebuilt from the records of a ledger. An index out of bounds, where the
  source panics, is the value \<open>IndexOutOfBounds\<close> of the error type.
\<close>

unbundle bit_operations_syntax

section \<open>Transaction IDs and variable-length fields\<close>

definition hash_prefix_tx_node :: "byte list" where
  "hash_prefix_tx_node = [0x53, 0x4E, 0x44, 0]"

definition hash_prefix_transaction_id :: "byte list" where
  "hash_prefix_transaction_id = [0x54, 0x58, 0x4E, 0]"

definition calculate_tx_id :: "sha512 \<Rightarrow> byte list \<Rightarrow> hash256" where
  "calculate_tx_id H blob = sha512half H (hash_prefix_transaction_id @ blob)"

definition write_vl :: "byte list \<Rightarrow> byte list" where
  "write_vl d =
     (let len = length d in
      (if len \<le> 192 then [of_nat len]
       else if len \<le> 12480 then
         let n = len - 193 in [of_nat (193 + n div 256), of_nat (n mod 256)]
       else
         let n = len - 12481 in
         [of_nat (241 + n div 65536), of_nat ((n div 256) mod 256), of_nat (n mod 256)])
      @ d)"

section \<open>Building the tree\<close>

datatype panic = IndexOutOfBounds

record item =
  item_key :: hash256
  item_leaf_hash :: hash256
  item_node :: shamap_node

definition nibble :: "hash256 \<Rightarrow> nat \<Rightarrow> panic + nat" where
  "nibble key depth =
     (let k = to_be_bytes key in
      if length k \<le> depth div 2 then Inl IndexOutOfBounds
      else let byte = k ! (depth div 2) in
        Inr (if even depth then unat (drop_bit 4 byte) else unat (byte AND 0x0F)))"

definition tx_leaf_content :: "tx_record \<Rightarrow> byte list" where
  "tx_leaf_content t =
     hash_prefix_tx_node @ write_vl (tx_blob t) @ write_vl (meta_blob t) @ to_be_bytes (tx_hash t)"

definition tx_item :: "sha512 \<Rightarrow> tx_record \<Rightarrow> item" where
  "tx_item H t =
     (let content = tx_leaf_content t; leaf_hash = sha512half H content
      in \<lparr>item_key = tx_hash t, item_leaf_hash = leaf_hash,
          item_node = \<lparr>node_hash = leaf_hash, node_type = TransactionWithMeta,
                       node_content = content\<rparr>\<rparr>)"

text \<open>The first loop of build_level: every item is pushed to the bucket of its nibble.\<close>

definition distribute :: "item list \<Rightarrow> nat \<Rightarrow> panic + item list list" where
  "distribute items depth =
     rfold (\<lambda>buckets i. rbind (nibble (item_key i) depth)
              (\<lambda>n. Inr (buckets[n := buckets ! n @ [i]])))
       (replicate 16 []) items"

definition bucket :: "item list \<Rightarrow> nat \<Rightarrow> nat \<Rightarrow> item list" where
  "bucket items depth s = filter (\<lambda>i. nibble (item_key i) depth = Inr s) items"

lemma nibble_eq:
  "depth < 64 \<Longrightarrow> nibble key depth =
     Inr (if even depth then unat (to_be_bytes key ! (depth div 2)) div 16
          else unat (to_be_bytes key ! (depth div 2)) mod 16)"
  by (simp add: nibble_def Let_def unat_nibbles)

lemma nibble_in_range: "depth < 64 \<Longrightarrow> \<exists>n < 16. nibble key depth = Inr n"
  using unat_byte_less [of "to_be_bytes key ! (depth div 2)"] by (auto simp add: nibble_eq less_mult_imp_div_less)

lemma nibble_panics: "64 \<le> depth \<Longrightarrow> nibble key depth = Inl IndexOutOfBounds"
  by (simp add: nibble_def Let_def div_le_mono [of 64 depth 2, simplified])

lemma distribute_step:
  assumes "depth < 64" and "length bs = 16"
  shows "rfold (\<lambda>buckets i. rbind (nibble (item_key i) depth)
      (\<lambda>n. Inr (buckets[n := buckets ! n @ [i]]))) bs items
    = Inr (map (\<lambda>s. bs ! s @ bucket items depth s) [0..<16])"
  using assms(2)
proof (induction items arbitrary: bs)
  case Nil
  then show ?case by (auto simp add: bucket_def intro!: nth_equalityI)
next
  case (Cons i items)
  obtain n where n: "n < 16" "nibble (item_key i) depth = Inr n"
    using nibble_in_range [OF assms(1)] by blast
  show ?case
    using Cons n by (auto simp add: bucket_def nth_list_update intro!: nth_equalityI)
qed

lemma distribute_eq:
  "distribute items depth =
     (if items = [] \<or> depth < 64 then Inr (map (bucket items depth) [0..<16])
      else Inl IndexOutOfBounds)"
proof (cases "depth < 64")
  case True
  then show ?thesis
    using distribute_step [OF True, of "replicate 16 []" items]
    by (auto simp add: distribute_def intro!: nth_equalityI)
next
  case False
  then show ?thesis
    by (cases items) (auto simp add: distribute_def nibble_panics bucket_def intro!: nth_equalityI)
qed

lemma distribute_nonempty:
  "distribute items depth = Inr bs \<Longrightarrow> b \<in> set bs \<Longrightarrow> b \<noteq> [] \<Longrightarrow> depth < 64"
  by (auto simp add: distribute_eq bucket_def split: if_splits)

function build_level ::
  "sha512 \<Rightarrow> item list \<Rightarrow> nat \<Rightarrow> shamap_node list \<Rightarrow> panic + hash256 \<times> shamap_node list" where
  "build_level H items depth all_nodes =
     rbind (distribute items depth) (\<lambda>buckets.
     rbind
       (rfold (\<lambda>st b. case st of (hs, nodes) \<Rightarrow>
            (case b of
               [] \<Rightarrow> Inr (hs @ [0], nodes)
             | [i] \<Rightarrow> Inr (hs @ [item_leaf_hash i], nodes)
             | _ \<Rightarrow> rbind (build_level H b (depth + 1) nodes)
                     (\<lambda>(h, nodes). Inr (hs @ [h], nodes))))
          ([], all_nodes) buckets)
       (\<lambda>(hs, nodes).
          let content = full_content hs;
              h = sha512half H (hash_prefix_inner_node @ content)
          in Inr (h, nodes @ [\<lparr>node_hash = h, node_type = Inner, node_content = content\<rparr>])))"
  by pat_completeness auto
termination
  by (relation "measure (\<lambda>(_, _, depth, _). 64 - depth)")
    (auto dest: distribute_nonempty)

declare build_level.simps [simp del]

definition build_tx_tree :: "sha512 \<Rightarrow> tx_record list \<Rightarrow> panic + hash256 \<times> shamap_node list" where
  "build_tx_tree H txns =
     (if txns = [] then Inr (0, [])
      else let items = map (tx_item H) txns
           in build_level H items 0 (map item_node items))"

section \<open>The shape of the result\<close>

text \<open>
  One level without the accumulator: every slot yields a child hash and the nodes below it,
  the level adds its own inner node last.
\<close>

definition slot_result :: "sha512 \<Rightarrow> nat \<Rightarrow> item list \<Rightarrow> panic + hash256 \<times> shamap_node list" where
  "slot_result H depth b =
     (case b of
        [] \<Rightarrow> Inr (0, [])
      | [i] \<Rightarrow> Inr (item_leaf_hash i, [])
      | _ \<Rightarrow> build_level H b (depth + 1) [])"

definition inner_of :: "sha512 \<Rightarrow> hash256 list \<Rightarrow> shamap_node" where
  "inner_of H hs =
     \<lparr>node_hash = sha512half H (hash_prefix_inner_node @ full_content hs), node_type = Inner,
      node_content = full_content hs\<rparr>"

definition level_of :: "sha512 \<Rightarrow> item list \<Rightarrow> nat \<Rightarrow> panic + hash256 \<times> shamap_node list" where
  "level_of H items depth =
     rbind (distribute items depth) (\<lambda>buckets.
     rbind (rmap (slot_result H depth) buckets) (\<lambda>rs.
     Inr (node_hash (inner_of H (map fst rs)), concat (map snd rs) @ [inner_of H (map fst rs)])))"

lemma build_level_acc:
  "build_level H items depth nodes =
     rbind (level_of H items depth) (\<lambda>(h, ex). Inr (h, nodes @ ex))"
proof (induction "64 - depth" arbitrary: items depth nodes rule: less_induct)
  case less
  have slots: "rfold (\<lambda>st b. case st of (hs, nodes) \<Rightarrow>
          (case b of
             [] \<Rightarrow> Inr (hs @ [0], nodes)
           | [i] \<Rightarrow> Inr (hs @ [item_leaf_hash i], nodes)
           | _ \<Rightarrow> rbind (build_level H b (depth + 1) nodes)
                   (\<lambda>(h, nodes). Inr (hs @ [h], nodes)))) (hs, nodes) bs
      = rbind (rmap (slot_result H depth) bs)
          (\<lambda>rs. Inr (hs @ map fst rs, nodes @ concat (map snd rs)))"
    if "depth < 64 \<or> (\<forall>b \<in> set bs. b = [])" for hs nodes bs
    using that
  proof (induction bs arbitrary: hs nodes)
    case (Cons b bs)
    consider "b = []" | i where "b = [i]" | i j k where "b = i # j # k" "depth < 64"
      using Cons.prems by (cases b; cases "tl b") auto
    then show ?case
    proof cases
      case 3
      have "build_level H b (depth + 1) nodes =
          rbind (level_of H b (depth + 1)) (\<lambda>(h, ex). Inr (h, nodes @ ex))" for nodes
        using less [of "depth + 1"] 3(2) by simp
      moreover have "slot_result H depth b = build_level H b (depth + 1) []"
        by (simp add: slot_result_def 3(1))
      ultimately show ?thesis
        using 3 Cons.IH Cons.prems
        by (cases "level_of H b (depth + 1)"; cases "rmap (slot_result H depth) bs") auto
    next
      case 1
      then have "slot_result H depth b = Inr (0, [])" by (simp add: slot_result_def)
      with 1 Cons.IH Cons.prems show ?thesis by (cases "rmap (slot_result H depth) bs") auto
    next
      case 2
      then have "slot_result H depth b = Inr (item_leaf_hash i, [])" by (simp add: slot_result_def)
      with 2 Cons.IH Cons.prems show ?thesis by (cases "rmap (slot_result H depth) bs") auto
    qed
  qed simp
  show ?case
  proof (cases "distribute items depth")
    case (Inl e)
    then show ?thesis by (simp add: build_level.simps level_of_def)
  next
    case (Inr bs)
    have c: "depth < 64 \<or> (\<forall>b \<in> set bs. b = [])"
      using distribute_nonempty [OF Inr] by blast
    show ?thesis
      unfolding build_level.simps [of H items depth nodes] Inr rbind_simps slots [OF c]
      by (cases "rmap (slot_result H depth) bs")
        (simp_all add: level_of_def Inr inner_of_def Let_def)
  qed
qed

lemma build_level_level_of: "build_level H items depth [] = level_of H items depth"
  by (cases "level_of H items depth") (auto simp add: build_level_acc)

lemma slot_result_simps [simp]:
  "slot_result H depth [] = Inr (0, [])"
  "slot_result H depth [i] = Inr (item_leaf_hash i, [])"
  "slot_result H depth (i # j # k) = level_of H (i # j # k) (depth + 1)"
  by (simp_all add: slot_result_def build_level_level_of)

lemma build_tx_tree_level:
  "txns \<noteq> [] \<Longrightarrow> build_tx_tree H txns =
     rbind (level_of H (map (tx_item H) txns) 0)
       (\<lambda>(h, ex). Inr (h, map (item_node \<circ> tx_item H) txns @ ex))"
  by (simp add: build_tx_tree_def build_level_acc)

end
