(* ===== verification/Meta_Decode.thy ===== *)
theory Meta_Decode
  imports Xrla_Prelude
begin

unbundle bit_operations_syntax

text \<open>
  The decoder of crates/xrla-common/src/meta_decode.rs for xrpld's binary object format, and
  the transaction names of crates/xrla-common/src/tx_types.rs. A cursor is the list of bytes
  still to be read; the offsets the code keeps only for its messages are dropped.
\<close>

datatype meta_error =
    UnexpectedEnd nat
  | AccountLength nat
  | UnhandledType nat
  | NotAnObject nat
  | NoAffectedNodes nat
  | TxEnded
  | FieldsNotFound nat

type_synonym 'a cursor = "(meta_error, 'a) parser"

section \<open>Type and field codes\<close>

definition type_uint16 :: nat where "type_uint16 = 1"
definition type_uint32 :: nat where "type_uint32 = 2"
definition type_uint64 :: nat where "type_uint64 = 3"
definition type_uint128 :: nat where "type_uint128 = 4"
definition type_uint256 :: nat where "type_uint256 = 5"
definition type_amount :: nat where "type_amount = 6"
definition type_vl :: nat where "type_vl = 7"
definition type_account :: nat where "type_account = 8"
definition type_number :: nat where "type_number = 9"
definition type_int32 :: nat where "type_int32 = 10"
definition type_int64 :: nat where "type_int64 = 11"
definition type_object :: nat where "type_object = 14"
definition type_array :: nat where "type_array = 15"
definition type_uint8 :: nat where "type_uint8 = 16"
definition type_uint160 :: nat where "type_uint160 = 17"
definition type_vector256 :: nat where "type_vector256 = 19"
definition type_uint96 :: nat where "type_uint96 = 20"
definition type_uint192 :: nat where "type_uint192 = 21"
definition type_uint384 :: nat where "type_uint384 = 22"
definition type_uint512 :: nat where "type_uint512 = 23"
definition type_issue :: nat where "type_issue = 24"
definition type_currency :: nat where "type_currency = 26"

lemmas type_codes = type_uint16_def type_uint32_def type_uint64_def type_uint128_def type_uint256_def
  type_amount_def type_vl_def type_account_def type_number_def type_int32_def type_int64_def
  type_object_def type_array_def type_uint8_def type_uint160_def type_vector256_def type_uint96_def
  type_uint192_def type_uint384_def type_uint512_def type_issue_def type_currency_def

definition f_affected_nodes :: nat where "f_affected_nodes = 8"
definition f_created_node :: nat where "f_created_node = 3"
definition f_final_fields :: nat where "f_final_fields = 7"
definition f_new_fields :: nat where "f_new_fields = 8"
definition f_taker_pays :: nat where "f_taker_pays = 4"
definition f_taker_gets :: nat where "f_taker_gets = 5"
definition f_low_limit :: nat where "f_low_limit = 6"
definition f_high_limit :: nat where "f_high_limit = 7"
definition f_mpt_issuance_id :: nat where "f_mpt_issuance_id = 1"
definition f_transaction_index :: nat where "f_transaction_index = 28"

lemmas field_codes = f_affected_nodes_def f_created_node_def f_final_fields_def f_new_fields_def
  f_taker_pays_def f_taker_gets_def f_low_limit_def f_high_limit_def f_mpt_issuance_id_def
  f_transaction_index_def

definition amount_issued_currency :: byte where "amount_issued_currency = 0x80"
definition amount_mpt :: byte where "amount_mpt = 0x20"

definition no_account :: account_id where "no_account = 1"

section \<open>The cursor\<close>

definition take_bytes :: "nat \<Rightarrow> byte list cursor" where
  "take_bytes n r = (if length r < n then Inl (UnexpectedEnd n) else Inr (take n r, drop n r))"

definition take_byte :: "byte cursor" where
  "take_byte = pbind (take_bytes 1) (\<lambda>b. pret (b ! 0))"

definition peek :: "byte cursor" where
  "peek r = (case r of [] \<Rightarrow> Inl (UnexpectedEnd 1) | b # _ \<Rightarrow> Inr (b, r))"

definition read_vl_len :: "nat cursor" where
  "read_vl_len =
     pbind take_byte (\<lambda>b1. let b1 = unat b1 in
     if b1 \<le> 192 then pret b1
     else if b1 \<le> 240 then pbind take_byte (\<lambda>b2. pret (193 + (b1 - 193) * 256 + unat b2))
     else pbind take_byte (\<lambda>b2. pbind take_byte (\<lambda>b3.
            pret (12481 + (b1 - 241) * 65536 + unat b2 * 256 + unat b3))))"

definition read_field_header :: "(nat \<times> nat) cursor" where
  "read_field_header =
     pbind take_byte (\<lambda>b1.
     pbind (if drop_bit 4 b1 = 0 then pbind take_byte (\<lambda>b. pret (unat b)) else pret (unat (drop_bit 4 b1))) (\<lambda>type_code.
     pbind (if b1 AND 0x0F = 0 then pbind take_byte (\<lambda>b. pret (unat b)) else pret (unat (b1 AND 0x0F))) (\<lambda>field_code.
     pret (type_code, field_code))))"

section \<open>Values\<close>

text \<open>Only slices of twenty bytes are passed to \<open>nonzero\<close> and read as accounts.\<close>

definition nonzero :: "byte list \<Rightarrow> account_id option" where
  "nonzero b =
     (if length b \<noteq> 20 then None
      else let a = from_be_bytes b in if a = 0 then None else Some a)"

definition read_account :: "account_id option cursor" where
  "read_account =
     pbind read_vl_len (\<lambda>n.
     if n = 0 then pret None
     else if n = 20 then pbind (take_bytes 20) (\<lambda>b. pret (Some (from_be_bytes b)))
     else pfail (AccountLength n))"

definition read_amount :: "account_id option cursor" where
  "read_amount =
     pbind peek (\<lambda>first.
     if first AND amount_issued_currency \<noteq> 0 then
       pbind (take_bytes 8) (\<lambda>_. pbind (take_bytes 20) (\<lambda>_. pbind (take_bytes 20) (\<lambda>b. pret (nonzero b))))
     else if first AND amount_mpt \<noteq> 0 then
       pbind (take_bytes 8) (\<lambda>_. pbind (take_bytes 1) (\<lambda>_. pbind (take_bytes 24) (\<lambda>i.
       pret (nonzero (take 20 (drop 4 i))))))
     else pbind (take_bytes 8) (\<lambda>_. pret None))"

definition skip_issue :: "unit cursor" where
  "skip_issue =
     pbind (take_bytes 20) (\<lambda>first.
     if list_all (\<lambda>b. b = 0) first then pret ()
     else pbind (take_bytes 20) (\<lambda>second.
       if from_be_bytes second = no_account then pbind (take_bytes 4) (\<lambda>_. pret ()) else pret ()))"

definition skip_bytes :: "nat \<Rightarrow> unit cursor" where
  "skip_bytes n = pbind (take_bytes n) (\<lambda>_. pret ())"

text \<open>The arms of skip_value that do not open a container.\<close>

definition skip_scalar :: "nat \<Rightarrow> unit cursor" where
  "skip_scalar t =
     (if t = type_uint8 then skip_bytes 1
      else if t = type_uint16 then skip_bytes 2
      else if t = type_uint32 \<or> t = type_int32 then skip_bytes 4
      else if t = type_uint64 \<or> t = type_int64 then skip_bytes 8
      else if t = type_number then skip_bytes 12
      else if t = type_uint96 then skip_bytes 12
      else if t = type_uint128 then skip_bytes 16
      else if t = type_uint160 \<or> t = type_currency then skip_bytes 20
      else if t = type_uint192 then skip_bytes 24
      else if t = type_uint256 then skip_bytes 32
      else if t = type_uint384 then skip_bytes 48
      else if t = type_uint512 then skip_bytes 64
      else if t = type_amount then pbind read_amount (\<lambda>_. pret ())
      else if t = type_vl \<or> t = type_vector256 \<or> t = type_account then pbind read_vl_len skip_bytes
      else if t = type_issue then skip_issue
      else pfail (UnhandledType t))"

text \<open>A parser that never gives back more than it was given.\<close>

definition shrinks :: "'a cursor \<Rightarrow> bool" where
  "shrinks p \<longleftrightarrow> (\<forall>r x r'. p r = Inr (x, r') \<longrightarrow> length r' \<le> length r)"

lemma shrinksD: "shrinks p \<Longrightarrow> p r = Inr (x, r') \<Longrightarrow> length r' \<le> length r"
  by (simp add: shrinks_def)

lemma shrinks_basic [intro]: "shrinks (pret x)" "shrinks (pfail e)" "shrinks (take_bytes n)" "shrinks peek"
  by (auto simp add: shrinks_def take_bytes_def peek_def split: if_splits list.splits)

lemma shrinks_pbind [intro]:
  assumes "shrinks p" and "\<And>x. shrinks (f x)"
  shows "shrinks (pbind p f)"
  unfolding shrinks_def pbind_eq_Inr using assms shrinksD by (metis le_trans)

lemma shrinks_if [intro]: "shrinks p \<Longrightarrow> shrinks q \<Longrightarrow> shrinks (if b then p else q)"
  by simp

lemma shrinks_values [intro]:
  "shrinks take_byte" "shrinks read_vl_len" "shrinks read_field_header" "shrinks read_account"
  "shrinks read_amount" "shrinks skip_issue" "shrinks (skip_bytes n)" "shrinks (skip_scalar t)"
proof -
  show byte: "shrinks take_byte" unfolding take_byte_def by (intro shrinks_pbind shrinks_basic)
  show vl: "shrinks read_vl_len"
    unfolding read_vl_len_def Let_def by (intro shrinks_pbind shrinks_if shrinks_basic byte)
  show "shrinks read_field_header"
    unfolding read_field_header_def by (intro shrinks_pbind shrinks_if shrinks_basic byte)
  show "shrinks read_account"
    unfolding read_account_def by (intro shrinks_pbind shrinks_if shrinks_basic vl)
  show amount: "shrinks read_amount"
    unfolding read_amount_def by (intro shrinks_pbind shrinks_if shrinks_basic)
  show issue: "shrinks skip_issue"
    unfolding skip_issue_def by (intro shrinks_pbind shrinks_if shrinks_basic)
  show bytes: "shrinks (skip_bytes n)" for n
    unfolding skip_bytes_def by (intro shrinks_pbind shrinks_basic)
  show "shrinks (skip_scalar t)"
    unfolding skip_scalar_def by (intro shrinks_pbind shrinks_if shrinks_basic bytes issue amount vl)
qed

lemma take_byte_shrinks: "take_byte r = Inr (b, r') \<Longrightarrow> length r' < length r"
  by (auto simp add: take_byte_def pbind_eq_Inr take_bytes_def split: if_splits)

lemma byte_first_shrinks:
  "(\<And>b. shrinks (f b)) \<Longrightarrow> pbind take_byte f r = Inr (x, r') \<Longrightarrow> length r' < length r"
  unfolding pbind_eq_Inr using take_byte_shrinks shrinksD by (metis le_less_trans)

lemma read_field_header_shrinks: "read_field_header r = Inr (h, r') \<Longrightarrow> length r' < length r"
  unfolding read_field_header_def
  by (erule byte_first_shrinks [rotated]) (intro shrinks_pbind shrinks_if shrinks_basic shrinks_values)

section \<open>Containers\<close>

text \<open>
  The two container arms of skip_value differ only in the type of their end marker, which is
  the type of the container itself.
\<close>

definition is_container :: "nat \<Rightarrow> bool" where
  "is_container t \<longleftrightarrow> t = type_object \<or> t = type_array"

function skip_container :: "nat \<Rightarrow> unit cursor" where
  "skip_container t r =
     rbind (read_field_header r) (\<lambda>st. case st of (h, r1) \<Rightarrow>
     if h = (t, 1) then Inr ((), r1)
     else rbind (if is_container (fst h) then skip_container (fst h) r1 else skip_scalar (fst h) r1)
            (\<lambda>st. case st of (_, r2) \<Rightarrow> skip_container t r2))"
  by pat_completeness auto

lemma skip_container_shrinks_dom:
  "skip_container_dom (t, r) \<Longrightarrow> skip_container t r = Inr (u, r') \<Longrightarrow> length r' < length r"
proof (induction t r arbitrary: u r' rule: skip_container.pinduct)
  case (1 t r)
  from "1.prems" obtain h r1 where h: "read_field_header r = Inr (h, r1)"
    by (auto simp add: skip_container.psimps [OF "1.hyps"] rbind_eq_Inr)
  note less = read_field_header_shrinks [OF h]
  show ?case
  proof (cases "h = (t, 1)")
    case True
    with "1.prems" h less show ?thesis by (simp add: skip_container.psimps [OF "1.hyps"])
  next
    case False
    then obtain v r2 where v: "(if is_container (fst h) then skip_container (fst h) r1 else skip_scalar (fst h) r1) = Inr (v, r2)"
      and rest: "skip_container t r2 = Inr (u, r')"
      using "1.prems" h by (auto simp add: skip_container.psimps [OF "1.hyps"] rbind_eq_Inr)
    have "length r2 \<le> length r1"
    proof (cases "is_container (fst h)")
      case True
      with v "1.IH"(1) [OF h refl False True] show ?thesis by (simp add: less_imp_le)
    next
      case scalar: False
      with v shrinksD [OF shrinks_values(8)] show ?thesis by simp
    qed
    moreover have "length r' < length r2" using "1.IH"(2) [OF h refl False v refl rest] .
    ultimately show ?thesis using less by simp
  qed
qed

lemma header_shrinks: "read_field_header r = Inr st \<Longrightarrow> (h, r1) = st \<Longrightarrow> length r1 < length r"
  using read_field_header_shrinks [of r h r1] by simp

lemma element_shrinks:
  assumes "(if is_container t then skip_container t r else skip_scalar t r) = Inr st" and "(u, r') = st"
    and "is_container t \<Longrightarrow> skip_container_dom (t, r)"
  shows "length r' \<le> length r"
proof (cases "is_container t")
  case True
  with assms skip_container_shrinks_dom [OF assms(3) [OF True], of u r'] show ?thesis by simp
next
  case False
  with assms shrinksD [OF shrinks_values(8), of t r u r'] show ?thesis by simp
qed

lemma skip_container_terminates: "All skip_container_dom"
  apply (relation "measure (\<lambda>(t, r). length r)")
    apply simp
  subgoal for t r st h r1
    using header_shrinks [of r st h r1] by simp
  subgoal for t r st h r1 st2 u r2
    using header_shrinks [of r st h r1] element_shrinks [of "fst h" r1 st2 u r2] by simp
  done

lemma skip_container_shrinks: "skip_container t r = Inr (u, r') \<Longrightarrow> length r' < length r"
  using skip_container_shrinks_dom skip_container_terminates by blast

termination skip_container
  by (rule skip_container_terminates)

declare skip_container.simps [simp del]

definition skip_value :: "nat \<Rightarrow> unit cursor" where
  "skip_value t = (if is_container t then skip_container t else skip_scalar t)"

lemma shrinks_skip [intro]: "shrinks (skip_value t)"
  unfolding shrinks_def skip_value_def
  using skip_container_shrinks shrinksD [OF shrinks_values(8)]
  by (auto intro: less_imp_le split: if_splits)

section \<open>Affected accounts\<close>

text \<open>One field of NewFields or FinalFields: the accounts it adds to the set.\<close>

definition inner_field :: "nat \<times> nat \<Rightarrow> account_id option cursor" where
  "inner_field h =
     (let (t, f) = h in
      if t = type_account then read_account
      else if t = type_amount \<and> f \<in> {f_taker_pays, f_taker_gets, f_low_limit, f_high_limit} then read_amount
      else if t = type_uint192 \<and> f = f_mpt_issuance_id then
        pbind (take_bytes 24) (\<lambda>i. pret (nonzero (take 20 (drop 4 i))))
      else pbind (skip_value t) (\<lambda>_. pret None))"

lemma shrinks_inner_field [intro]: "shrinks (inner_field h)"
  unfolding inner_field_def Let_def
  by (cases h) (auto intro!: shrinks_pbind shrinks_if shrinks_basic shrinks_values shrinks_skip)

definition insert_opt :: "'a option \<Rightarrow> 'a set \<Rightarrow> 'a set" where
  "insert_opt m s = (case m of None \<Rightarrow> s | Some a \<Rightarrow> insert a s)"

lemma field_loop_shrinks:
  assumes "read_field_header r = Inr st" "(h, r1) = st" and "shrinks p" and "p r1 = Inr st2" "(a, r2) = st2"
  shows "length r2 < length r"
  using header_shrinks [OF assms(1,2)] shrinksD [OF assms(3), of r1 a r2] assms(4,5) by simp

function collect_inner :: "account_id set \<Rightarrow> account_id set cursor" where
  "collect_inner out r =
     rbind (read_field_header r) (\<lambda>st. case st of (h, r1) \<Rightarrow>
     if h = (type_object, 1) then Inr (out, r1)
     else rbind (inner_field h r1) (\<lambda>st. case st of (a, r2) \<Rightarrow>
       collect_inner (insert_opt a out) r2))"
  by pat_completeness auto
termination
  apply (relation "measure (\<lambda>(out, r). length r)")
   apply simp
  subgoal for out r st h r1 st2 a r2
    using field_loop_shrinks [OF _ _ shrinks_inner_field, of r st h r1 h st2 a r2] by simp
  done

declare collect_inner.simps [simp del]

lemma shrinks_collect_inner [intro]: "shrinks (collect_inner out)"
proof -
  have "length r' \<le> length r" if "collect_inner out r = Inr (s, r')" for r r' s
    using that
  proof (induction out r rule: collect_inner.induct)
    case (1 out r)
    from "1.prems" obtain h r1 where h: "read_field_header r = Inr (h, r1)"
      by (subst (asm) collect_inner.simps) (auto simp add: rbind_eq_Inr)
    note less = read_field_header_shrinks [OF h]
    show ?case
    proof (cases "h = (type_object, 1)")
      case True
      with "1.prems" h less show ?thesis by (subst (asm) collect_inner.simps) simp
    next
      case False
      with "1.prems" h obtain a r2 where a: "inner_field h r1 = Inr (a, r2)"
        "collect_inner (insert_opt a out) r2 = Inr (s, r')"
        by (subst (asm) collect_inner.simps) (auto simp add: rbind_eq_Inr)
      with "1.IH" [OF h refl False a(1) refl a(2)] less shrinksD [OF shrinks_inner_field a(1)]
      show ?thesis by simp
    qed
  qed
  then show ?thesis by (auto simp add: shrinks_def)
qed

text \<open>One field of an affected node: the wanted object is read, every other field is skipped.\<close>

definition node_field :: "nat \<Rightarrow> nat \<times> nat \<Rightarrow> account_id set \<Rightarrow> account_id set cursor" where
  "node_field wanted h out =
     (if h = (type_object, wanted) then collect_inner out
      else pbind (skip_value (fst h)) (\<lambda>_. pret out))"

lemma shrinks_node_field [intro]: "shrinks (node_field wanted h out)"
  unfolding node_field_def
  by (intro shrinks_if shrinks_pbind shrinks_collect_inner shrinks_skip shrinks_basic)

function collect_node :: "nat \<Rightarrow> account_id set \<Rightarrow> account_id set cursor" where
  "collect_node wanted out r =
     rbind (read_field_header r) (\<lambda>st. case st of (h, r1) \<Rightarrow>
     if h = (type_object, 1) then Inr (out, r1)
     else rbind (node_field wanted h out r1) (\<lambda>st. case st of (out, r2) \<Rightarrow> collect_node wanted out r2))"
  by pat_completeness auto
termination
  apply (relation "measure (\<lambda>(wanted, out, r). length r)")
   apply simp
  subgoal for wanted out r st h r1 st2 s r2
    using field_loop_shrinks [OF _ _ shrinks_node_field, of r st h r1 wanted h out st2 s r2] by auto
  done

declare collect_node.simps [simp del]

lemma shrinks_collect_node [intro]: "shrinks (collect_node wanted out)"
proof -
  have "length r' \<le> length r" if "collect_node wanted out r = Inr (s, r')" for r r' s
    using that
  proof (induction wanted out r rule: collect_node.induct)
    case (1 wanted out r)
    from "1.prems" obtain h r1 where h: "read_field_header r = Inr (h, r1)"
      by (subst (asm) collect_node.simps) (auto simp add: rbind_eq_Inr)
    note less = read_field_header_shrinks [OF h]
    show ?case
    proof (cases "h = (type_object, 1)")
      case True
      with "1.prems" h less show ?thesis by (subst (asm) collect_node.simps) simp
    next
      case False
      with "1.prems" h obtain a r2 where a: "node_field wanted h out r1 = Inr (a, r2)"
        "collect_node wanted a r2 = Inr (s, r')"
        by (subst (asm) collect_node.simps) (auto simp add: rbind_eq_Inr)
      with "1.IH" [OF h refl False a(1) refl a(2)] less shrinksD [OF shrinks_node_field a(1)]
      show ?thesis by simp
    qed
  qed
  then show ?thesis by (auto simp add: shrinks_def)
qed

text \<open>One element of AffectedNodes: CreatedNode reads NewFields, the others FinalFields.\<close>

definition affected_element :: "nat \<times> nat \<Rightarrow> account_id set \<Rightarrow> account_id set cursor" where
  "affected_element h out =
     (if fst h \<noteq> type_object then pfail (NotAnObject (fst h))
      else collect_node (if snd h = f_created_node then f_new_fields else f_final_fields) out)"

lemma shrinks_affected_element [intro]: "shrinks (affected_element h out)"
  unfolding affected_element_def by (intro shrinks_if shrinks_collect_node shrinks_basic)

function collect_affected_nodes :: "account_id set \<Rightarrow> account_id set cursor" where
  "collect_affected_nodes out r =
     rbind (read_field_header r) (\<lambda>st. case st of (h, r1) \<Rightarrow>
     if h = (type_array, 1) then Inr (out, r1)
     else rbind (affected_element h out r1) (\<lambda>st. case st of (out, r2) \<Rightarrow> collect_affected_nodes out r2))"
  by pat_completeness auto
termination
  apply (relation "measure (\<lambda>(out, r). length r)")
   apply simp
  subgoal for out r st h r1 st2 s r2
    using field_loop_shrinks [OF _ _ shrinks_affected_element, of r st h r1 h out st2 s r2] by auto
  done

declare collect_affected_nodes.simps [simp del]

lemma shrinks_affected_nodes [intro]: "shrinks (collect_affected_nodes out)"
proof -
  have "length r' \<le> length r" if "collect_affected_nodes out r = Inr (s, r')" for r r' s
    using that
  proof (induction out r rule: collect_affected_nodes.induct)
    case (1 out r)
    from "1.prems" obtain h r1 where h: "read_field_header r = Inr (h, r1)"
      by (subst (asm) collect_affected_nodes.simps) (auto simp add: rbind_eq_Inr)
    note less = read_field_header_shrinks [OF h]
    show ?case
    proof (cases "h = (type_array, 1)")
      case True
      with "1.prems" h less show ?thesis by (subst (asm) collect_affected_nodes.simps) simp
    next
      case False
      with "1.prems" h obtain a r2 where a: "affected_element h out r1 = Inr (a, r2)"
        "collect_affected_nodes a r2 = Inr (s, r')"
        by (subst (asm) collect_affected_nodes.simps) (auto simp add: rbind_eq_Inr)
      with "1.IH" [OF h refl False a(1) refl a(2)] less shrinksD [OF shrinks_affected_element a(1)]
      show ?thesis by simp
    qed
  qed
  then show ?thesis by (auto simp add: shrinks_def)
qed

section \<open>The summary of a transaction's metadata\<close>

record meta_summary =
  ms_affected_accounts :: "account_id list"
  ms_transaction_index :: "u32 option"

record summary_state =
  su_accounts :: "account_id set"
  su_index :: "u32 option"
  su_saw_affected_nodes :: bool

definition summary_field :: "nat \<times> nat \<Rightarrow> summary_state \<Rightarrow> summary_state cursor" where
  "summary_field h s =
     (if h = (type_array, f_affected_nodes) then
        pbind (collect_affected_nodes (su_accounts s)) (\<lambda>out.
        pret (s\<lparr>su_accounts := out, su_saw_affected_nodes := True\<rparr>))
      else if h = (type_uint32, f_transaction_index) then
        pbind (take_bytes 4) (\<lambda>b. pret (s\<lparr>su_index := Some (from_be_bytes b)\<rparr>))
      else pbind (skip_value (fst h)) (\<lambda>_. pret s))"

lemma shrinks_summary_field [intro]: "shrinks (summary_field h s)"
  unfolding summary_field_def
  by (intro shrinks_if shrinks_pbind shrinks_affected_nodes shrinks_skip shrinks_basic)

text \<open>The top-level object ends with the buffer, or with an end marker.\<close>

function summarize_loop :: "summary_state \<Rightarrow> byte list \<Rightarrow> meta_error + summary_state" where
  "summarize_loop s r =
     (if r = [] then Inr s else
      rbind (read_field_header r) (\<lambda>st. case st of (h, r1) \<Rightarrow>
      if h = (type_object, 1) then Inr s
      else rbind (summary_field h s r1) (\<lambda>st. case st of (s, r2) \<Rightarrow> summarize_loop s r2)))"
  by pat_completeness auto
termination
  apply (relation "measure (\<lambda>(s, r). length r)")
   apply simp
  subgoal for s r st h r1 st2 s2 r2
    using field_loop_shrinks [OF _ _ shrinks_summary_field, of r st h r1 h s st2 s2 r2] by auto
  done

declare summarize_loop.simps [simp del]

definition summarize_meta :: "byte list \<Rightarrow> meta_error + meta_summary" where
  "summarize_meta meta_blob =
     rbind (summarize_loop \<lparr>su_accounts = {}, su_index = None, su_saw_affected_nodes = False\<rparr> meta_blob) (\<lambda>s.
     if \<not> su_saw_affected_nodes s then Inl (NoAffectedNodes (length meta_blob))
     else Inr \<lparr>ms_affected_accounts = sorted_list_of_set (su_accounts s), ms_transaction_index = su_index s\<rparr>)"

definition affected_accounts :: "byte list \<Rightarrow> meta_error + account_id list" where
  "affected_accounts meta_blob = rbind (summarize_meta meta_blob) (\<lambda>s. Inr (ms_affected_accounts s))"

section \<open>The fields of a transaction\<close>

record tx_fields =
  tf_tx_type :: u16
  tf_account :: account_id
  tf_sequence :: u32

record tx_found =
  found_type :: "u16 option"
  found_sequence :: "u32 option"
  found_account :: "account_id option"

definition tx_field :: "nat \<times> nat \<Rightarrow> tx_found \<Rightarrow> tx_found cursor" where
  "tx_field h s =
     (if h = (type_uint16, 2) then
        pbind (take_bytes 2) (\<lambda>b. pret (s\<lparr>found_type := Some (from_be_bytes b)\<rparr>))
      else if h = (type_uint32, 4) then
        pbind (take_bytes 4) (\<lambda>b. pret (s\<lparr>found_sequence := Some (from_be_bytes b)\<rparr>))
      else if h = (type_account, 1) then
        pbind read_account (\<lambda>a. pret (s\<lparr>found_account := Some (case a of None \<Rightarrow> 0 | Some a \<Rightarrow> a)\<rparr>))
      else if type_account < fst h then pfail (FieldsNotFound (fst h))
      else pbind (skip_value (fst h)) (\<lambda>_. pret s))"

lemma shrinks_tx_field [intro]: "shrinks (tx_field h s)"
  unfolding tx_field_def by (intro shrinks_if shrinks_pbind shrinks_values shrinks_skip shrinks_basic)

definition found_all :: "tx_found \<Rightarrow> tx_fields option" where
  "found_all s =
     (case (found_type s, found_sequence s, found_account s) of
        (Some t, Some q, Some a) \<Rightarrow> Some \<lparr>tf_tx_type = t, tf_account = a, tf_sequence = q\<rparr>
      | _ \<Rightarrow> None)"

function tx_fields_loop :: "tx_found \<Rightarrow> byte list \<Rightarrow> meta_error + tx_fields" where
  "tx_fields_loop s r =
     (case found_all s of
        Some found \<Rightarrow> Inr found
      | None \<Rightarrow>
          if r = [] then Inl TxEnded else
          rbind (read_field_header r) (\<lambda>st. case st of (h, r1) \<Rightarrow>
          rbind (tx_field h s r1) (\<lambda>st. case st of (s, r2) \<Rightarrow> tx_fields_loop s r2)))"
  by pat_completeness auto
termination
  apply (relation "measure (\<lambda>(s, r). length r)")
   apply simp
  subgoal for s r st h r1 st2 s2 r2
    using field_loop_shrinks [OF _ _ shrinks_tx_field, of r st h r1 h s st2 s2 r2] by auto
  done

declare tx_fields_loop.simps [simp del]

definition parse_tx_fields :: "byte list \<Rightarrow> meta_error + tx_fields" where
  "parse_tx_fields tx_blob =
     tx_fields_loop \<lparr>found_type = None, found_sequence = None, found_account = None\<rparr> tx_blob"

section \<open>Transaction names\<close>

definition tx_type_table :: "(nat \<times> string) list" where
  "tx_type_table =
     [(0, ''Payment''), (1, ''EscrowCreate''), (2, ''EscrowFinish''),
      (3, ''AccountSet''), (4, ''EscrowCancel''), (5, ''SetRegularKey''),
      (7, ''OfferCreate''), (8, ''OfferCancel''), (10, ''TicketCreate''),
      (12, ''SignerListSet''), (13, ''PaymentChannelCreate''), (14, ''PaymentChannelFund''),
      (15, ''PaymentChannelClaim''), (16, ''CheckCreate''), (17, ''CheckCash''),
      (18, ''CheckCancel''), (19, ''DepositPreauth''), (20, ''TrustSet''),
      (21, ''AccountDelete''), (25, ''NFTokenMint''), (26, ''NFTokenBurn''),
      (27, ''NFTokenCreateOffer''), (28, ''NFTokenCancelOffer''), (29, ''NFTokenAcceptOffer''),
      (30, ''Clawback''), (31, ''AMMClawback''), (35, ''AMMCreate''),
      (36, ''AMMDeposit''), (37, ''AMMWithdraw''), (38, ''AMMVote''),
      (39, ''AMMBid''), (40, ''AMMDelete''), (41, ''XChainCreateClaimID''),
      (42, ''XChainCommit''), (43, ''XChainClaim''), (44, ''XChainAccountCreateCommit''),
      (45, ''XChainAddClaimAttestation''), (46, ''XChainAddAccountCreateAttestation''), (47, ''XChainModifyBridge''),
      (48, ''XChainCreateBridge''), (49, ''DIDSet''), (50, ''DIDDelete''),
      (51, ''OracleSet''), (52, ''OracleDelete''), (53, ''LedgerStateFix''),
      (54, ''MPTokenIssuanceCreate''), (55, ''MPTokenIssuanceDestroy''), (56, ''MPTokenIssuanceSet''),
      (57, ''MPTokenAuthorize''), (58, ''CredentialCreate''), (59, ''CredentialAccept''),
      (60, ''CredentialDelete''), (61, ''NFTokenModify''), (62, ''PermissionedDomainSet''),
      (63, ''PermissionedDomainDelete''), (64, ''DelegateSet''), (65, ''VaultCreate''),
      (66, ''VaultSet''), (67, ''VaultDelete''), (68, ''VaultDeposit''),
      (69, ''VaultWithdraw''), (70, ''VaultClawback''), (71, ''Batch''),
      (74, ''LoanBrokerSet''), (75, ''LoanBrokerDelete''), (76, ''LoanBrokerCoverDeposit''),
      (77, ''LoanBrokerCoverWithdraw''), (78, ''LoanBrokerCoverClawback''), (80, ''LoanSet''),
      (81, ''LoanDelete''), (82, ''LoanManage''), (84, ''LoanPay''),
      (85, ''ConfidentialMPTConvert''), (86, ''ConfidentialMPTMergeInbox''), (87, ''ConfidentialMPTConvertBack''),
      (88, ''ConfidentialMPTSend''), (89, ''ConfidentialMPTClawback''), (90, ''SponsorshipTransfer''),
      (91, ''SponsorshipSet''), (92, ''ConfidentialMPTMirrorUpdate''), (100, ''EnableAmendment''),
      (101, ''SetFee''), (102, ''UNLModify'')]"

definition tx_type_name :: "u16 \<Rightarrow> string option" where
  "tx_type_name code = map_of tx_type_table (unat code)"

end
