(* ===== verification/Meta_Spec.thy ===== *)
theory Meta_Spec
  imports Meta_Decode
begin

text \<open>
  What the metadata decoder is for: an abstract syntax of xrpld's serialized objects, the
  bytes of such an object, the rule that says which accounts it affects, and the proof that
  the decoder computes the rule on the bytes of every object.
\<close>

section \<open>Objects and their bytes\<close>

datatype st_amount =
    Native "byte list"
  | Issued "byte list" "byte list" account_id
  | MptAmount "byte list" byte "byte list" account_id

datatype st_field =
    Account nat "account_id option"
  | Amount nat st_amount
  | MptId nat "byte list" account_id
  | Plain nat nat "byte list"
  | Nested nat nat "st_field list"

definition header :: "nat \<Rightarrow> nat \<Rightarrow> byte list" where
  "header t f =
     (if t < 16 then (if f < 16 then [of_nat (16 * t + f)] else [of_nat (16 * t), of_nat f])
      else (if f < 16 then [of_nat f, of_nat t] else [0, of_nat t, of_nat f]))"

fun amount_bytes :: "st_amount \<Rightarrow> byte list" where
  "amount_bytes (Native v) = v"
| "amount_bytes (Issued v currency issuer) = v @ currency @ to_be_bytes issuer"
| "amount_bytes (MptAmount v b seq issuer) = v @ [b] @ seq @ to_be_bytes issuer"

fun field_type :: "st_field \<Rightarrow> nat" where
  "field_type (Account f a) = type_account"
| "field_type (Amount f a) = type_amount"
| "field_type (MptId f s i) = type_uint192"
| "field_type (Plain t f v) = t"
| "field_type (Nested t f fs) = t"

fun field_code :: "st_field \<Rightarrow> nat" where
  "field_code (Account f a) = f"
| "field_code (Amount f a) = f"
| "field_code (MptId f s i) = f"
| "field_code (Plain t f v) = f"
| "field_code (Nested t f fs) = f"

fun field_body :: "st_field \<Rightarrow> byte list" where
  "field_body (Account f None) = [0]"
| "field_body (Account f (Some a)) = 20 # to_be_bytes a"
| "field_body (Amount f a) = amount_bytes a"
| "field_body (MptId f seq issuer) = seq @ to_be_bytes issuer"
| "field_body (Plain t f v) = v"
| "field_body (Nested t f fs) =
     concat (map (\<lambda>x. header (field_type x) (field_code x) @ field_body x) fs) @ header t 1"

definition field_bytes :: "st_field \<Rightarrow> byte list" where
  "field_bytes x = header (field_type x) (field_code x) @ field_body x"

definition object_bytes :: "st_field list \<Rightarrow> byte list" where
  "object_bytes fs = concat (map field_bytes fs)"

text \<open>The shapes the wire format allows.\<close>

fun wf_amount :: "st_amount \<Rightarrow> bool" where
  "wf_amount (Native v) \<longleftrightarrow>
     length v = 8 \<and> v ! 0 AND amount_issued_currency = 0 \<and> v ! 0 AND amount_mpt = 0"
| "wf_amount (Issued v currency issuer) \<longleftrightarrow>
     length v = 8 \<and> length currency = 20 \<and> v ! 0 AND amount_issued_currency \<noteq> 0"
| "wf_amount (MptAmount v b seq issuer) \<longleftrightarrow>
     length v = 8 \<and> length seq = 4 \<and> v ! 0 AND amount_issued_currency = 0 \<and> v ! 0 AND amount_mpt \<noteq> 0"

definition code_ok :: "nat \<Rightarrow> bool" where
  "code_ok c \<longleftrightarrow> 0 < c \<and> c < 256"

fun wf_field :: "st_field \<Rightarrow> bool" where
  "wf_field (Account f a) \<longleftrightarrow> code_ok f"
| "wf_field (Amount f a) \<longleftrightarrow> code_ok f \<and> wf_amount a"
| "wf_field (MptId f seq issuer) \<longleftrightarrow> code_ok f \<and> length seq = 4"
| "wf_field (Plain t f v) \<longleftrightarrow> code_ok t \<and> code_ok f \<and>
     t \<notin> {type_account, type_amount, type_uint192} \<and> \<not> is_container t \<and> skip_scalar t v = Inr ((), [])"
| "wf_field (Nested t f fs) \<longleftrightarrow> is_container t \<and> code_ok f \<and> f \<noteq> 1 \<and> list_all wf_field fs"

section \<open>The rule\<close>

text \<open>The accounts one first-level field of NewFields or FinalFields contributes.\<close>

definition nonzero_account :: "account_id \<Rightarrow> account_id set" where
  "nonzero_account a = (if a = 0 then {} else {a})"

fun field_accounts :: "st_field \<Rightarrow> account_id set" where
  "field_accounts (Account f a) = set_option a"
| "field_accounts (Amount f (Issued v c issuer)) = (if f \<in> {4, 5, 6, 7} then nonzero_account issuer else {})"
| "field_accounts (Amount f (MptAmount v b s issuer)) = (if f \<in> {4, 5, 6, 7} then nonzero_account issuer else {})"
| "field_accounts (MptId f s issuer) = (if f = 1 then nonzero_account issuer else {})"
| "field_accounts _ = {}"

text \<open>The fields of the objects with a given code among the fields of a node, one level only.\<close>

fun object_fields :: "nat \<Rightarrow> st_field \<Rightarrow> st_field list" where
  "object_fields wanted (Nested t f fs) = (if t = type_object \<and> f = wanted then fs else [])"
| "object_fields wanted _ = []"

fun node_accounts :: "st_field \<Rightarrow> account_id set" where
  "node_accounts (Nested t f fs) =
     \<Union> (field_accounts ` set (concat (map (object_fields (if f = f_created_node then f_new_fields else f_final_fields)) fs)))"
| "node_accounts _ = {}"

fun affected_nodes :: "st_field \<Rightarrow> st_field list" where
  "affected_nodes (Nested t f fs) = (if t = type_array \<and> f = f_affected_nodes then fs else [])"
| "affected_nodes _ = []"

definition affected :: "st_field list \<Rightarrow> account_id set" where
  "affected m = \<Union> (node_accounts ` set (concat (map affected_nodes m)))"

fun is_affected_nodes :: "st_field \<Rightarrow> bool" where
  "is_affected_nodes (Nested t f fs) \<longleftrightarrow> t = type_array \<and> f = f_affected_nodes"
| "is_affected_nodes _ \<longleftrightarrow> False"

fun index_of_field :: "st_field \<Rightarrow> u32 option" where
  "index_of_field (Plain t f v) =
     (if t = type_uint32 \<and> f = f_transaction_index then Some (from_be_bytes v) else None)"
| "index_of_field _ = None"

text \<open>The last TransactionIndex wins.\<close>

definition last_index :: "st_field list \<Rightarrow> u32 option" where
  "last_index m = foldl (\<lambda>i x. case index_of_field x of None \<Rightarrow> i | Some k \<Rightarrow> Some k) None m"

text \<open>Metadata: the elements of AffectedNodes are objects.\<close>

definition wf_meta :: "st_field list \<Rightarrow> bool" where
  "wf_meta m \<longleftrightarrow>
     list_all wf_field m \<and> list_all (\<lambda>x. field_type x = type_object) (concat (map affected_nodes m))"

section \<open>Reading back fields\<close>

lemma read_header:
  assumes "code_ok t" and "code_ok f"
  shows "read_field_header (header t f @ r) = Inr ((t, f), r)"
proof -
  have zero: "drop_bit 4 b = 0 \<longleftrightarrow> unat b div 16 = 0" "b AND 0x0F = 0 \<longleftrightarrow> unat b mod 16 = 0" for b :: byte
    by (metis unat_eq_0 unat_nibbles(1), metis unat_eq_0 unat_nibbles(2))
  have small: "unat (of_nat n :: byte) = n" if "n < 256" for n using that by (simp add: unat_of_nat)
  consider "t < 16" "f < 16" | "t < 16" "\<not> f < 16" | "\<not> t < 16" "f < 16" | "\<not> t < 16" "\<not> f < 16" by blast
  then show ?thesis
  proof cases
    case 1
    then have "16 * t + f < 256" by simp
    with 1 assms show ?thesis
      by (simp add: header_def read_field_header_def take_byte_def take_bytes_def pbind_def zero
          unat_nibbles small code_ok_def del: of_nat_add of_nat_mult)
  next
    case 2
    then have "16 * t < 256" by simp
    with 2 assms show ?thesis
      by (simp add: header_def read_field_header_def take_byte_def take_bytes_def pbind_def zero
          unat_nibbles small code_ok_def del: of_nat_add of_nat_mult)
  next
    case 3
    with assms show ?thesis
      by (simp add: header_def read_field_header_def take_byte_def take_bytes_def pbind_def zero
          unat_nibbles small code_ok_def)
  next
    case 4
    with assms show ?thesis
      by (simp add: header_def read_field_header_def take_byte_def take_bytes_def pbind_def zero
          unat_nibbles small code_ok_def)
  qed
qed

lemma take_bytes_exact: "length v = n \<Longrightarrow> take_bytes n (v @ r) = Inr (v, r)"
  by (simp add: take_bytes_def)

lemma take_byte_Cons [simp]: "take_byte (b # r) = Inr (b, r)"
  by (simp add: take_byte_def take_bytes_def pbind_def)

lemma stable_take_bytes [intro]: "no_lookahead (take_bytes n)"
  by (auto simp add: no_lookahead_def take_bytes_def split: if_splits)

lemma stable_take_byte [intro]: "no_lookahead take_byte"
  unfolding take_byte_def by (intro stable_pbind stable_take_bytes stable_pret)

lemma stable_peek [intro]: "no_lookahead peek"
  by (auto simp add: no_lookahead_def peek_def split: list.splits)

lemma stable_values [intro]:
  "no_lookahead read_vl_len" "no_lookahead read_amount" "no_lookahead skip_issue" "no_lookahead (skip_bytes n)"
  "no_lookahead (skip_scalar t)"
proof -
  show vl: "no_lookahead read_vl_len"
    unfolding read_vl_len_def Let_def by (intro stable_pbind stable_if stable_take_byte stable_pret)
  show amount: "no_lookahead read_amount"
    unfolding read_amount_def by (intro stable_pbind stable_if stable_take_bytes stable_peek stable_pret)
  show issue: "no_lookahead skip_issue"
    unfolding skip_issue_def by (intro stable_pbind stable_if stable_take_bytes stable_pret)
  show bytes: "no_lookahead (skip_bytes n)" for n
    unfolding skip_bytes_def by (intro stable_pbind stable_take_bytes stable_pret)
  show "no_lookahead (skip_scalar t)"
    unfolding skip_scalar_def
    by (intro stable_pbind stable_if bytes issue amount vl stable_pret stable_pfail)
qed

lemma skip_plain: "skip_scalar t v = Inr ((), []) \<Longrightarrow> skip_scalar t (v @ r) = Inr ((), r)"
  using stableD [OF stable_values(5), of t v "()" "[]" r] by simp

lemma to_be_account [simp]: "length (to_be_bytes (a :: account_id)) = 20"
  by simp

definition opt_nonzero :: "account_id \<Rightarrow> account_id option" where
  "opt_nonzero a = (if a = 0 then None else Some a)"

lemma nonzero_to_be: "nonzero (to_be_bytes a) = opt_nonzero a"
  by (simp add: nonzero_def opt_nonzero_def Let_def)

fun amount_issuer :: "st_amount \<Rightarrow> account_id option" where
  "amount_issuer (Native v) = None"
| "amount_issuer (Issued v c issuer) = opt_nonzero issuer"
| "amount_issuer (MptAmount v b s issuer) = opt_nonzero issuer"

lemma read_amount_bytes:
  assumes "wf_amount a"
  shows "read_amount (amount_bytes a @ r) = Inr (amount_issuer a, r)"
proof (cases a)
  case (Native v)
  with assms obtain b w where "v = b # w" by (cases v) auto
  with Native assms show ?thesis
    by (simp add: read_amount_def peek_def pbind_def take_bytes_def)
next
  case (Issued v c i)
  with assms obtain b w where "v = b # w" by (cases v) auto
  with Issued assms show ?thesis
    by (simp add: read_amount_def peek_def pbind_def take_bytes_def nonzero_to_be)
next
  case (MptAmount v x s i)
  with assms obtain b w where "v = b # w" by (cases v) auto
  with MptAmount assms show ?thesis
    by (simp add: read_amount_def peek_def pbind_def take_bytes_def nonzero_to_be)
qed

lemma read_account_bytes:
  "read_account (field_body (Account f a) @ r) = Inr (a, r)"
  by (cases a)
    (simp_all add: read_account_def read_vl_len_def pbind_def take_bytes_def)

section \<open>Skipping\<close>

lemma is_container_codes [simp]: "is_container 14" "is_container 15" "\<not> is_container 8" "\<not> is_container 6" "\<not> is_container 21"
  by (simp_all add: is_container_def type_object_def type_array_def)

lemma wf_field_codes: "wf_field x \<Longrightarrow> code_ok (field_type x) \<and> code_ok (field_code x)"
  by (cases x) (auto simp add: code_ok_def is_container_def type_codes)

lemma wf_field_not_end: "wf_field x \<Longrightarrow> is_container t \<Longrightarrow> (field_type x, field_code x) \<noteq> (t, 1)"
  by (cases x) (auto simp add: is_container_def type_codes)

lemma skip_value_container: "is_container t \<Longrightarrow> skip_value t = skip_container t"
  and skip_value_scalar: "\<not> is_container t \<Longrightarrow> skip_value t = skip_scalar t"
  by (simp_all add: skip_value_def)

lemma skip_container_step:
  "read_field_header r = Inr (h, r1) \<Longrightarrow> h \<noteq> (t, 1) \<Longrightarrow> skip_value (fst h) r1 = Inr ((), r2) \<Longrightarrow>
     skip_container t r = skip_container t r2"
  by (subst skip_container.simps) (auto simp add: skip_value_def split: if_splits)

lemma skip_container_end: "read_field_header r = Inr ((t, 1), r1) \<Longrightarrow> skip_container t r = Inr ((), r1)"
  by (subst skip_container.simps) simp

lemma skip_fields:
  assumes "is_container t"
    and "\<And>x r. x \<in> set fs \<Longrightarrow> wf_field x \<and> skip_value (field_type x) (field_body x @ r) = Inr ((), r)"
  shows "skip_container t (object_bytes fs @ header t 1 @ r) = Inr ((), r)"
  using assms(2)
proof (induction fs)
  case Nil
  have "code_ok t" using assms(1) by (auto simp add: is_container_def code_ok_def type_codes)
  then show ?case using read_header [of t 1 r] by (simp add: object_bytes_def skip_container_end code_ok_def)
next
  case (Cons x fs)
  then have x: "wf_field x" by simp
  have "skip_container t (object_bytes (x # fs) @ header t 1 @ r)
      = skip_container t (object_bytes fs @ header t 1 @ r)"
  proof (rule skip_container_step)
    show "read_field_header (object_bytes (x # fs) @ header t 1 @ r)
        = Inr ((field_type x, field_code x), field_body x @ object_bytes fs @ header t 1 @ r)"
      using wf_field_codes [OF x] by (simp add: object_bytes_def field_bytes_def read_header)
    show "(field_type x, field_code x) \<noteq> (t, 1)" by (rule wf_field_not_end [OF x assms(1)])
    show "skip_value (fst (field_type x, field_code x)) (field_body x @ object_bytes fs @ header t 1 @ r)
        = Inr ((), object_bytes fs @ header t 1 @ r)"
      using Cons.prems [of x] by simp
  qed
  with Cons show ?case by simp
qed

lemma field_body_Nested: "field_body (Nested t f fs) = object_bytes fs @ header t 1"
  by (simp add: object_bytes_def field_bytes_def [abs_def])

lemma skip_field: "wf_field x \<Longrightarrow> skip_value (field_type x) (field_body x @ r) = Inr ((), r)"
proof (induction x arbitrary: r)
  case (Account f a)
  then show ?case
    by (cases a) (simp_all add: skip_value_scalar type_codes skip_scalar_def read_vl_len_def
        skip_bytes_def pbind_def take_bytes_def)
next
  case (Amount f a)
  then show ?case
    using read_amount_bytes [of a r]
    by (simp add: skip_value_scalar type_codes skip_scalar_def pbind_def)
next
  case (MptId f s i)
  then show ?case
    by (simp add: skip_value_scalar type_codes skip_scalar_def skip_bytes_def pbind_def take_bytes_def)
next
  case (Plain t f v)
  then show ?case by (simp add: skip_value_scalar skip_plain)
next
  case (Nested t f fs)
  then have t: "is_container t" "list_all wf_field fs" by simp_all
  have "skip_container t (object_bytes fs @ header t 1 @ r) = Inr ((), r)"
    by (rule skip_fields [OF t(1)]) (use Nested.IH t(2) in \<open>auto simp add: list_all_iff\<close>)
  with t(1) show ?case by (simp add: skip_value_container field_body_Nested del: field_body.simps)
qed

section \<open>Collecting\<close>

text \<open>Reading the header of an encoded field, and the end marker.\<close>

lemma read_field_bytes:
  "wf_field x \<Longrightarrow> read_field_header (field_bytes x @ r) = Inr ((field_type x, field_code x), field_body x @ r)"
  using wf_field_codes [of x] by (simp add: field_bytes_def read_header)

lemma read_end:
  "read_field_header (header type_object 1 @ r) = Inr ((type_object, 1), r)"
  "read_field_header (header type_array 1 @ r) = Inr ((type_array, 1), r)"
  by (simp_all add: read_header code_ok_def type_codes)

lemma object_bytes_simps [simp]:
  "object_bytes [] = []" "object_bytes (x # fs) = field_bytes x @ object_bytes fs"
  by (simp_all add: object_bytes_def)

lemma insert_opt_None [simp]: "insert_opt None s = s"
  by (simp add: insert_opt_def)

lemma insert_opt_nonzero: "insert_opt (opt_nonzero a) s = s \<union> nonzero_account a"
  by (simp add: insert_opt_def opt_nonzero_def nonzero_account_def)

lemma insert_amount_issuer:
  "f \<in> {4, 5, 6, 7} \<Longrightarrow> insert_opt (amount_issuer a) s = s \<union> field_accounts (Amount f a)"
  by (cases a) (simp_all add: insert_opt_nonzero)

lemma inner_field_bytes:
  assumes "wf_field x"
  shows "\<exists>a. inner_field (field_type x, field_code x) (field_body x @ r) = Inr (a, r) \<and>
    (\<forall>s. insert_opt a s = s \<union> field_accounts x)"
proof (cases x)
  case (Account f a)
  then show ?thesis
    using read_account_bytes [of f a r]
    by (cases a) (auto simp add: inner_field_def type_codes insert_opt_def)
next
  case (Amount f a)
  show ?thesis
  proof (cases "f \<in> {4, 5, 6, 7}")
    case True
    have "inner_field (field_type x, field_code x) = read_amount"
      using Amount True by (auto simp add: inner_field_def type_codes field_codes)
    with Amount assms read_amount_bytes [of a r] insert_amount_issuer [OF True, of a] show ?thesis
      by simp
  next
    case False
    moreover from this have "field_accounts x = {}" using Amount by (cases a) auto
    ultimately show ?thesis
      using Amount skip_field [OF assms, of r]
      by (simp add: inner_field_def type_codes field_codes pbind_def)
  qed
next
  case (MptId f s i)
  show ?thesis
  proof (cases "f = 1")
    case True
    with MptId assms show ?thesis
      by (simp add: inner_field_def type_codes field_codes pbind_def take_bytes_def nonzero_to_be
          insert_opt_nonzero)
  next
    case False
    with MptId assms skip_field [OF assms, of r] show ?thesis
      by (simp add: inner_field_def type_codes field_codes pbind_def)
  qed
next
  case (Plain t f v)
  with assms skip_field [OF assms, of r] show ?thesis
    by (simp add: inner_field_def pbind_def)
next
  case (Nested t f fs)
  with assms skip_field [OF assms, of r] show ?thesis
    by (auto simp add: inner_field_def pbind_def is_container_def type_codes
        simp del: field_body.simps)
qed

lemma collect_inner_bytes:
  "list_all wf_field fs \<Longrightarrow>
     collect_inner out (object_bytes fs @ header type_object 1 @ r)
       = Inr (out \<union> \<Union> (field_accounts ` set fs), r)"
proof (induction fs arbitrary: out)
  case Nil
  then show ?case by (subst collect_inner.simps) (simp add: read_end del: One_nat_def)
next
  case (Cons x fs)
  then have x: "wf_field x" by simp
  let ?rest = "object_bytes fs @ header type_object 1 @ r"
  obtain a where a: "inner_field (field_type x, field_code x) (field_body x @ ?rest) = Inr (a, ?rest)"
    "\<And>s. insert_opt a s = s \<union> field_accounts x"
    using inner_field_bytes [OF x, of ?rest] by blast
  have "(field_type x, field_code x) \<noteq> (type_object, 1)"
    by (rule wf_field_not_end [OF x]) (simp add: is_container_def)
  then have "collect_inner out (object_bytes (x # fs) @ header type_object 1 @ r)
      = collect_inner (out \<union> field_accounts x) ?rest"
    by (subst collect_inner.simps) (auto simp add: read_field_bytes [OF x] a simp del: One_nat_def)
  with Cons show ?case by (simp add: Un_assoc)
qed

lemma node_field_bytes:
  assumes "wf_field x"
  shows "node_field wanted (field_type x, field_code x) out (field_body x @ r)
    = Inr (out \<union> \<Union> (field_accounts ` set (object_fields wanted x)), r)"
proof (cases "(field_type x, field_code x) = (type_object, wanted)")
  case False
  then have "object_fields wanted x = []" by (cases x) auto
  with False skip_field [OF assms, of r] show ?thesis by (auto simp add: node_field_def pbind_def)
next
  case True
  then obtain fs where "x = Nested type_object wanted fs"
    using assms by (cases x) (auto simp add: is_container_def type_codes)
  with assms collect_inner_bytes [of fs out r] show ?thesis
    by (simp add: node_field_def field_body_Nested del: field_body.simps)
qed

lemma collect_node_bytes:
  "list_all wf_field fs \<Longrightarrow>
     collect_node wanted out (object_bytes fs @ header type_object 1 @ r)
       = Inr (out \<union> \<Union> (field_accounts ` set (concat (map (object_fields wanted) fs))), r)"
proof (induction fs arbitrary: out)
  case Nil
  then show ?case by (subst collect_node.simps) (simp add: read_end del: One_nat_def)
next
  case (Cons x fs)
  then have x: "wf_field x" by simp
  let ?rest = "object_bytes fs @ header type_object 1 @ r"
  have "(field_type x, field_code x) \<noteq> (type_object, 1)"
    by (rule wf_field_not_end [OF x]) (simp add: is_container_def)
  then have "collect_node wanted out (object_bytes (x # fs) @ header type_object 1 @ r)
      = collect_node wanted (out \<union> \<Union> (field_accounts ` set (object_fields wanted x))) ?rest"
    by (subst collect_node.simps) (auto simp add: read_field_bytes [OF x] node_field_bytes [OF x] simp del: One_nat_def)
  with Cons show ?case by (simp add: Un_assoc)
qed

lemma collect_affected_bytes:
  "list_all wf_field fs \<Longrightarrow> list_all (\<lambda>x. field_type x = type_object) fs \<Longrightarrow>
     collect_affected_nodes out (object_bytes fs @ header type_array 1 @ r)
       = Inr (out \<union> \<Union> (node_accounts ` set fs), r)"
proof (induction fs arbitrary: out)
  case Nil
  then show ?case by (subst collect_affected_nodes.simps) (simp add: read_end del: One_nat_def)
next
  case (Cons x fs)
  then have x: "wf_field x" by simp
  then obtain f gs where n: "x = Nested type_object f gs" "list_all wf_field gs"
    using Cons.prems(2) by (cases x) (auto simp add: is_container_def type_codes)
  let ?rest = "object_bytes fs @ header type_array 1 @ r"
  have "affected_element (field_type x, field_code x) out (field_body x @ ?rest)
      = Inr (out \<union> node_accounts x, ?rest)"
    using collect_node_bytes [OF n(2)]
    by (simp add: affected_element_def n(1) field_body_Nested del: field_body.simps)
  moreover have "(field_type x, field_code x) \<noteq> (type_array, 1)"
    by (simp add: n(1) type_codes)
  ultimately have "collect_affected_nodes out (object_bytes (x # fs) @ header type_array 1 @ r)
      = collect_affected_nodes (out \<union> node_accounts x) ?rest"
    by (subst collect_affected_nodes.simps) (auto simp add: read_field_bytes [OF x] simp del: One_nat_def)
  with Cons show ?case by (simp add: Un_assoc)
qed

section \<open>The summary\<close>

definition summary_step :: "summary_state \<Rightarrow> st_field \<Rightarrow> summary_state" where
  "summary_step s x =
     s\<lparr>su_accounts := su_accounts s \<union> \<Union> (node_accounts ` set (affected_nodes x)),
       su_index := (case index_of_field x of None \<Rightarrow> su_index s | Some k \<Rightarrow> Some k),
       su_saw_affected_nodes := su_saw_affected_nodes s \<or> is_affected_nodes x\<rparr>"

lemma summary_field_bytes:
  assumes "wf_field x" and "list_all (\<lambda>x. field_type x = type_object) (affected_nodes x)"
  shows "summary_field (field_type x, field_code x) s (field_body x @ r) = Inr (summary_step s x, r)"
proof -
  let ?h = "(field_type x, field_code x)"
  consider "?h = (type_array, f_affected_nodes)" | "?h = (type_uint32, f_transaction_index)"
    | "?h \<noteq> (type_array, f_affected_nodes)" "?h \<noteq> (type_uint32, f_transaction_index)" by blast
  then show ?thesis
  proof cases
    case 1
    then obtain fs where x: "x = Nested type_array f_affected_nodes fs" "list_all wf_field fs"
      using assms(1) by (cases x) (auto simp add: is_container_def type_codes)
    have "list_all (\<lambda>x. field_type x = type_object) fs" using assms(2) by (simp add: x(1))
    from collect_affected_bytes [OF x(2) this] show ?thesis
      by (simp add: summary_field_def x(1) field_body_Nested pbind_def summary_step_def
          del: field_body.simps)
  next
    case 2
    then obtain v where x: "x = Plain type_uint32 f_transaction_index v"
      using assms(1) by (cases x) (auto simp add: is_container_def type_codes)
    then have "length v = 4"
      using assms(1) by (auto simp add: type_codes skip_scalar_def skip_bytes_def pbind_eq_Inr take_bytes_def split: if_splits)
    then show ?thesis
      by (simp add: summary_field_def x pbind_def take_bytes_def summary_step_def type_codes)
  next
    case 3
    then have "affected_nodes x = []" "index_of_field x = None" "\<not> is_affected_nodes x"
      by (cases x; auto)+
    moreover from this have "summary_step s x = s" by (simp add: summary_step_def)
    ultimately show ?thesis
      using 3 skip_field [OF assms(1), of r] by (auto simp add: summary_field_def pbind_def)
  qed
qed

lemma header_nonempty: "header t f \<noteq> []"
  by (simp add: header_def)

lemma summarize_loop_bytes:
  "list_all wf_field m \<Longrightarrow> list_all (\<lambda>x. field_type x = type_object) (concat (map affected_nodes m)) \<Longrightarrow>
     summarize_loop s (object_bytes m) = Inr (foldl summary_step s m)"
proof (induction m arbitrary: s)
  case Nil
  then show ?case by (subst summarize_loop.simps) simp
next
  case (Cons x m)
  then have x: "wf_field x" by simp
  have "(field_type x, field_code x) \<noteq> (type_object, 1)"
    by (rule wf_field_not_end [OF x]) (simp add: is_container_def)
  moreover have "field_bytes x \<noteq> []" by (simp add: field_bytes_def header_nonempty)
  moreover have "list_all (\<lambda>x. field_type x = type_object) (affected_nodes x)" using Cons.prems(2) by simp
  ultimately have "summarize_loop s (object_bytes (x # m)) = summarize_loop (summary_step s x) (object_bytes m)"
    by (subst summarize_loop.simps)
      (auto simp add: read_field_bytes [OF x] summary_field_bytes [OF x] simp del: One_nat_def)
  with Cons show ?case by simp
qed

lemma foldl_summary:
  "foldl summary_step s m =
     \<lparr>su_accounts = su_accounts s \<union> affected m,
      su_index = foldl (\<lambda>i x. case index_of_field x of None \<Rightarrow> i | Some k \<Rightarrow> Some k) (su_index s) m,
      su_saw_affected_nodes = su_saw_affected_nodes s \<or> list_ex is_affected_nodes m\<rparr>"
  by (induction m arbitrary: s) (auto simp add: summary_step_def affected_def)

lemma summarize_meta_bytes:
  assumes "wf_meta m"
  shows "summarize_meta (object_bytes m) =
    (if list_ex is_affected_nodes m
     then Inr \<lparr>ms_affected_accounts = sorted_list_of_set (affected m), ms_transaction_index = last_index m\<rparr>
     else Inl (NoAffectedNodes (length (object_bytes m))))"
  using assms summarize_loop_bytes [of m]
  by (simp add: summarize_meta_def wf_meta_def foldl_summary last_index_def)

section \<open>The fields of a transaction\<close>

text \<open>What one field below the accounts tells.\<close>

definition tx_step :: "tx_found \<Rightarrow> st_field \<Rightarrow> tx_found" where
  "tx_step s x =
     (case x of
        Plain t f v \<Rightarrow>
          if t = type_uint16 \<and> f = 2 then s\<lparr>found_type := Some (from_be_bytes v)\<rparr>
          else if t = type_uint32 \<and> f = 4 then s\<lparr>found_sequence := Some (from_be_bytes v)\<rparr>
          else s
      | _ \<Rightarrow> s)"

lemma plain_length:
  "skip_scalar 1 v = Inr ((), []) \<Longrightarrow> length v = 2"
  "skip_scalar (Suc 0) v = Inr ((), []) \<Longrightarrow> length v = 2"
  "skip_scalar 2 v = Inr ((), []) \<Longrightarrow> length v = 4"
  by (auto simp add: skip_scalar_def type_codes skip_bytes_def pbind_eq_Inr take_bytes_def split: if_splits)

lemma tx_field_bytes:
  assumes "wf_field x" and "field_type x < 8"
  shows "tx_field (field_type x, field_code x) s (field_body x @ r) = Inr (tx_step s x, r)"
proof (cases x)
  case (Plain t f v)
  consider "t = 1" "f = 2" | "t = 2" "f = 4" | "\<not> (t = 1 \<and> f = 2)" "\<not> (t = 2 \<and> f = 4)" by blast
  then show ?thesis
  proof cases
    case 1
    with Plain assms plain_length show ?thesis
      by (simp add: tx_field_def type_codes tx_step_def pbind_def take_bytes_def)
  next
    case 2
    with Plain assms plain_length show ?thesis
      by (simp add: tx_field_def type_codes tx_step_def pbind_def take_bytes_def)
  next
    case 3
    with Plain assms skip_field [OF assms(1), of r] show ?thesis
      by (auto simp add: tx_field_def type_codes tx_step_def pbind_def)
  qed
next
  case (Amount f a)
  with assms skip_field [OF assms(1), of r] show ?thesis
    by (simp add: tx_field_def type_codes tx_step_def pbind_def)
qed (use assms in \<open>auto simp add: type_codes is_container_def\<close>)

lemma tx_step_account: "found_account (foldl tx_step s fs) = found_account s"
  by (induction fs arbitrary: s) (simp_all add: tx_step_def split: st_field.splits)

lemma tx_fields_loop_bytes:
  "list_all wf_field fs \<Longrightarrow> list_all (\<lambda>x. field_type x < 8) fs \<Longrightarrow> found_account s = None \<Longrightarrow>
     tx_fields_loop s (object_bytes fs @ r) = tx_fields_loop (foldl tx_step s fs) r"
proof (induction fs arbitrary: s)
  case (Cons x fs)
  then have x: "wf_field x" "field_type x < 8" by simp_all
  have "found_all s = None" using Cons.prems(3) by (simp add: found_all_def split: option.splits)
  moreover have "field_bytes x \<noteq> []" by (simp add: field_bytes_def header_nonempty)
  ultimately have "tx_fields_loop s (object_bytes (x # fs) @ r) = tx_fields_loop (tx_step s x) (object_bytes fs @ r)"
    by (subst tx_fields_loop.simps) (simp add: read_field_bytes [OF x(1)] tx_field_bytes [OF x])
  moreover have "found_account (tx_step s x) = None"
    using tx_step_account [of s "[x]"] Cons.prems(3) by simp
  ultimately show ?case using Cons by simp
qed simp

lemma parse_tx_fields_bytes:
  assumes "list_all wf_field fs" and "list_all (\<lambda>x. field_type x < 8) fs"
    and "foldl tx_step \<lparr>found_type = None, found_sequence = None, found_account = None\<rparr> fs
      = \<lparr>found_type = Some t, found_sequence = Some q, found_account = None\<rparr>"
  shows "parse_tx_fields (object_bytes fs @ field_bytes (Account 1 a) @ r)
    = Inr \<lparr>tf_tx_type = t, tf_account = (case a of None \<Rightarrow> 0 | Some a \<Rightarrow> a), tf_sequence = q\<rparr>"
proof -
  have wf: "wf_field (Account 1 a)" by (simp add: code_ok_def)
  have ne: "field_bytes (Account 1 a) \<noteq> []" by (simp add: field_bytes_def header_nonempty)
  let ?s = "\<lparr>found_type = Some t, found_sequence = Some q, found_account = None\<rparr>"
  have "parse_tx_fields (object_bytes fs @ field_bytes (Account 1 a) @ r)
      = tx_fields_loop ?s (field_bytes (Account 1 a) @ r)"
    unfolding parse_tx_fields_def using tx_fields_loop_bytes [OF assms(1,2)] assms(3) by simp
  also have "\<dots> = tx_fields_loop (?s\<lparr>found_account := Some (case a of None \<Rightarrow> 0 | Some a \<Rightarrow> a)\<rparr>) r"
    using read_field_bytes [OF wf] read_account_bytes [of 1 a r] ne
    by (subst tx_fields_loop.simps)
      (simp add: found_all_def tx_field_def type_codes pbind_def del: field_body.simps)
  also have "\<dots> = Inr \<lparr>tf_tx_type = t, tf_account = (case a of None \<Rightarrow> 0 | Some a \<Rightarrow> a), tf_sequence = q\<rparr>"
    by (subst tx_fields_loop.simps) (simp add: found_all_def)
  finally show ?thesis .
qed

section \<open>Properties\<close>

text \<open>
  C30: The metadata decoder computes xrpld's rule: on the bytes of every well-formed metadata
  object it returns exactly the accounts the rule names, sorted and without duplicates, and
  the last TransactionIndex; metadata without an AffectedNodes field is an error, never an
  empty answer.
\<close>

theorem summary_follows_the_rule:
  assumes "wf_meta m"
  shows "summarize_meta (object_bytes m) =
    (if list_ex is_affected_nodes m
     then Inr \<lparr>ms_affected_accounts = sorted_list_of_set (affected m), ms_transaction_index = last_index m\<rparr>
     else Inl (NoAffectedNodes (length (object_bytes m))))"
  by (rule summarize_meta_bytes [OF assms])

text \<open>
  A trustline (issuers of the two limits), an offer whose TakerGets is native, previous fields
  that do not count, and a second array that is skipped.
\<close>

definition sample_meta :: "st_field list" where
  "sample_meta =
     [Plain 2 28 [0, 0, 0, 7],
      Nested 15 8
        [Nested 14 5 [Plain 1 1 [0, 114],
           Nested 14 6 [Account 1 (Some 99)],
           Nested 14 7 [Amount 6 (Issued (0xC0 # replicate 7 0) (replicate 20 9) 12),
                        Amount 7 (Issued (0xC0 # replicate 7 0) (replicate 20 9) 11),
                        Amount 2 (Issued (0xC0 # replicate 7 0) (replicate 20 9) 98)]],
         Nested 14 3 [Nested 14 8 [Account 2 (Some 11), Amount 5 (Native (0x40 # replicate 7 0)),
                                   MptId 1 [0, 0, 0, 1] 13]]],
      Plain 16 3 [0]]"

lemma summary_follows_the_rule_witness:
  "summarize_meta (object_bytes sample_meta)
     = Inr \<lparr>ms_affected_accounts = [11, 12, 13], ms_transaction_index = Some 7\<rparr>"
proof -
  have skip: "skip_scalar 2 [0, 0, 0, 7] = Inr ((), [])" "skip_scalar (Suc 0) [0, 114] = Inr ((), [])"
    "skip_scalar 16 [0] = Inr ((), [])"
    by (simp_all add: skip_scalar_def type_codes skip_bytes_def pbind_def take_bytes_def)
  have wf: "wf_meta sample_meta"
    by (simp add: wf_meta_def sample_meta_def code_ok_def skip is_container_def type_codes field_codes
        amount_issued_currency_def amount_mpt_def)
  have aff: "affected sample_meta = {11, 12, 13}"
    by (auto simp add: affected_def sample_meta_def type_codes field_codes nonzero_account_def)
  have ex: "list_ex is_affected_nodes sample_meta"
    by (simp add: sample_meta_def type_codes field_codes)
  have idx: "last_index sample_meta = Some 7"
    by (simp add: last_index_def sample_meta_def type_codes field_codes from_be_bytes_def be_nat_def)
  have "sorted_list_of_set {11, 12, 13 :: account_id} = [11, 12, 13]" by simp
  with summary_follows_the_rule [OF wf] aff ex idx show ?thesis by simp
qed

text \<open>
  The fields of a transaction's row: in a transaction whose fields below the sender's
  account include a TransactionType and a Sequence, parse_tx_fields returns their last values
  and the account (zero for the empty encoding), whatever bytes follow the account.
\<close>

theorem tx_fields_stop_at_account:
  assumes "list_all wf_field fs" and "list_all (\<lambda>x. field_type x < 8) fs"
    and "foldl tx_step \<lparr>found_type = None, found_sequence = None, found_account = None\<rparr> fs
      = \<lparr>found_type = Some t, found_sequence = Some q, found_account = None\<rparr>"
  shows "parse_tx_fields (object_bytes fs @ field_bytes (Account 1 a) @ r)
    = Inr \<lparr>tf_tx_type = t, tf_account = (case a of None \<Rightarrow> 0 | Some a \<Rightarrow> a), tf_sequence = q\<rparr>"
  by (rule parse_tx_fields_bytes [OF assms])

lemma tx_fields_stop_at_account_witness:
  "parse_tx_fields (object_bytes [Plain 1 2 [0, 7], Plain 2 4 [0, 0, 0, 9], Amount 8 (Native (replicate 8 0))]
       @ field_bytes (Account 1 (Some 5)) @ [0xFF, 0xFF])
     = Inr \<lparr>tf_tx_type = 7, tf_account = 5, tf_sequence = 9\<rparr>"
proof -
  let ?fs = "[Plain 1 2 [0, 7], Plain 2 4 [0, 0, 0, 9], Amount 8 (Native (replicate 8 0))]"
  have skip: "skip_scalar 2 [0, 0, 0, 9] = Inr ((), [])" "skip_scalar (Suc 0) [0, 7] = Inr ((), [])"
    by (simp_all add: skip_scalar_def type_codes skip_bytes_def pbind_def take_bytes_def)
  have "list_all wf_field ?fs"
    by (simp add: code_ok_def skip is_container_def type_codes)
  moreover have "list_all (\<lambda>x. field_type x < 8) ?fs" by (simp add: type_codes)
  moreover have "foldl tx_step \<lparr>found_type = None, found_sequence = None, found_account = None\<rparr> ?fs
      = \<lparr>found_type = Some 7, found_sequence = Some 9, found_account = None\<rparr>"
    by (simp add: tx_step_def type_codes from_be_bytes_def be_nat_def)
  ultimately show ?thesis using tx_fields_stop_at_account [of ?fs 7 9 "Some 5" "[0xFF, 0xFF]"] by simp
qed

end
