(* ===== verification/Address_Codec.thy ===== *)
theory Address_Codec
  imports Xrla_Prelude
begin

text \<open>
  The classic addresses of crates/xrla-common/src/meta_decode.rs: base58 with XRPL's alphabet
  over a version byte, the account id and a four-byte checksum. SHA-256 is the crate sha2, a
  parameter. The digit arithmetic of the code runs in u32 on digits below 256 and carries
  below 58 or 256, so no product exceeds 16 bits and natural numbers model it exactly.
\<close>

type_synonym sha256_fn = "byte list \<Rightarrow> 256 word"

definition sha256 :: "sha256_fn \<Rightarrow> byte list \<Rightarrow> byte list" where
  "sha256 S d = to_be_bytes (S d)"

lemma length_sha256 [simp]: "length (sha256 S d) = 32"
  by (simp add: sha256_def)

datatype address_error =
    InvalidCharacter char
  | PayloadLength nat
  | NotClassic byte
  | ChecksumMismatch

definition alphabet :: string where
  "alphabet = ''rpshnaf39wBUDNEGHJKLM4PQRST7VWXYZ2bcdeCg65jkm8oFqi1tuvAxyz''"

lemma alphabet_props: "length alphabet = 58" "distinct alphabet"
  by (simp_all add: alphabet_def)

section \<open>Digits\<close>

text \<open>
  The inner loop of both directions: the digits, least significant first, are multiplied in
  place and the carry runs through; what is left of it is pushed.
\<close>

fun scale_digits :: "nat \<Rightarrow> nat \<Rightarrow> nat list \<Rightarrow> nat \<Rightarrow> nat list \<times> nat" where
  "scale_digits m b [] carry = ([], carry)"
| "scale_digits m b (d # ds) carry =
     (let v = d * m + carry; (ds', c) = scale_digits m b ds (v div b) in (v mod b # ds', c))"

fun push_carry :: "nat \<Rightarrow> nat \<Rightarrow> nat list" where
  "push_carry b carry = (if carry = 0 \<or> b < 2 then [] else carry mod b # push_carry b (carry div b))"

declare push_carry.simps [simp del]

definition mul_add :: "nat \<Rightarrow> nat \<Rightarrow> nat list \<Rightarrow> nat \<Rightarrow> nat list" where
  "mul_add m b digits v =
     (case scale_digits m b digits v of (ds, carry) \<Rightarrow> ds @ push_carry b carry)"

text \<open>The position of a character in the alphabet.\<close>

fun position :: "'a \<Rightarrow> 'a list \<Rightarrow> nat option" where
  "position x [] = None"
| "position x (y # ys) = (if x = y then Some 0 else map_option Suc (position x ys))"

section \<open>The two directions\<close>

definition address_payload :: "sha256_fn \<Rightarrow> account_id \<Rightarrow> byte list" where
  "address_payload S a =
     (let payload = 0 # to_be_bytes a
      in payload @ take 4 (sha256 S (sha256 S payload)))"

definition account_id_to_classic_address :: "sha256_fn \<Rightarrow> account_id \<Rightarrow> string" where
  "account_id_to_classic_address S a =
     (let payload = address_payload S a;
          digits = foldl (\<lambda>ds byte. mul_add 256 58 ds (unat byte)) [0] payload;
          leading_zeros = length (takeWhile (\<lambda>b. b = 0) payload)
      in replicate leading_zeros (alphabet ! 0) @ map (\<lambda>d. alphabet ! d) (rev digits))"

definition base58_digits :: "string \<Rightarrow> address_error + nat list" where
  "base58_digits address =
     rfold (\<lambda>digits ch.
       case position ch alphabet of
         None \<Rightarrow> Inl (InvalidCharacter ch)
       | Some v \<Rightarrow> Inr (mul_add 58 256 digits v)) [] address"

definition classic_address_to_account_id :: "sha256_fn \<Rightarrow> string \<Rightarrow> address_error + account_id" where
  "classic_address_to_account_id S address =
     rbind (base58_digits address) (\<lambda>digits.
     let leading_zeros = length (takeWhile (\<lambda>c. c = alphabet ! 0) address);
         payload = replicate leading_zeros (0 :: byte) @ map of_nat (rev digits) in
     if length payload \<noteq> 25 then Inl (PayloadLength (length payload))
     else if payload ! 0 \<noteq> 0 then Inl (NotClassic (payload ! 0))
     else if drop 21 payload \<noteq> take 4 (sha256 S (sha256 S (take 21 payload))) then Inl ChecksumMismatch
     else Inr (from_be_bytes (take 20 (drop 1 payload))))"

section \<open>Canonical digits\<close>

fun digits_val :: "nat \<Rightarrow> nat list \<Rightarrow> nat" where
  "digits_val b [] = 0"
| "digits_val b (d # ds) = d + b * digits_val b ds"

definition canonical :: "nat \<Rightarrow> nat list \<Rightarrow> bool" where
  "canonical b ds \<longleftrightarrow> list_all (\<lambda>d. d < b) ds \<and> (ds \<noteq> [] \<longrightarrow> last ds \<noteq> 0)"

lemma digits_val_append: "digits_val b (ds @ es) = digits_val b ds + b ^ length ds * digits_val b es"
  by (induction ds) (simp_all add: algebra_simps)

lemma canonical_Cons: "canonical b (d # ds) \<longleftrightarrow> d < b \<and> canonical b ds \<and> (ds = [] \<longrightarrow> d \<noteq> 0)"
  by (auto simp add: canonical_def)

lemma canonical_zero: "canonical b ds \<Longrightarrow> digits_val b ds = 0 \<longleftrightarrow> ds = []"
proof (induction ds)
  case (Cons d ds)
  then show ?case by (cases "ds = []") (auto simp add: canonical_Cons)
qed simp

lemma canonical_unique:
  "canonical b ds \<Longrightarrow> canonical b es \<Longrightarrow> digits_val b ds = digits_val b es \<Longrightarrow> ds = es"
proof (induction ds arbitrary: es)
  case Nil
  then show ?case using canonical_zero [of b es] by simp
next
  case (Cons d ds)
  then have "es \<noteq> []" using canonical_zero [of b "d # ds"] by auto
  then obtain e es' where es: "es = e # es'" by (cases es) auto
  with Cons.prems have d: "d < b" "e < b" "canonical b ds" "canonical b es'"
    and v: "d + b * digits_val b ds = e + b * digits_val b es'"
    by (simp_all add: canonical_Cons)
  from v have "(d + b * digits_val b ds) mod b = (e + b * digits_val b es') mod b" by simp
  with d have "d = e" by simp
  with v d have "digits_val b ds = digits_val b es'" by simp
  with Cons.IH [OF d(3,4)] \<open>d = e\<close> es show ?case by simp
qed

lemma scale_digits_spec:
  "scale_digits m b ds c = (es, c') \<Longrightarrow> 0 < b \<Longrightarrow>
     length es = length ds \<and> list_all (\<lambda>d. d < b) es \<and>
     digits_val b es + b ^ length ds * c' = m * digits_val b ds + c"
proof (induction m b ds c arbitrary: es c' rule: scale_digits.induct)
  case (2 m b d ds carry)
  let ?v = "d * m + carry"
  obtain fs where fs: "scale_digits m b ds (?v div b) = (fs, c')" "es = ?v mod b # fs"
    using "2.prems" by (auto simp add: Let_def split: prod.splits)
  have IH: "length fs = length ds" "list_all (\<lambda>d. d < b) fs"
    "digits_val b fs + b ^ length ds * c' = m * digits_val b ds + ?v div b"
    using "2.IH" [OF refl fs(1) "2.prems"(2)] by auto
  have "digits_val b es + b ^ length (d # ds) * c' = ?v mod b + b * (digits_val b fs + b ^ length ds * c')"
    by (simp add: fs(2) algebra_simps)
  also have "\<dots> = ?v mod b + b * (?v div b) + b * (m * digits_val b ds)"
    unfolding IH(3) by (simp only: distrib_left ac_simps)
  also have "\<dots> = m * digits_val b (d # ds) + carry" by (simp add: algebra_simps)
  finally have "digits_val b es + b ^ length (d # ds) * c' = m * digits_val b (d # ds) + carry" .
  moreover have "length es = length (d # ds)" "list_all (\<lambda>d. d < b) es"
    using IH(1,2) "2.prems"(2) fs(2) by simp_all
  ultimately show ?case by blast
qed simp

lemma push_carry_spec:
  "2 \<le> b \<Longrightarrow> canonical b (push_carry b c) \<and> digits_val b (push_carry b c) = c \<and>
     (push_carry b c = [] \<longleftrightarrow> c = 0)"
proof (induction b c rule: push_carry.induct)
  case (1 b carry)
  show ?case
  proof (cases "carry = 0")
    case True
    then show ?thesis by (simp add: push_carry.simps canonical_def)
  next
    case False
    with "1.IH" "1.prems" have IH: "canonical b (push_carry b (carry div b))"
      "digits_val b (push_carry b (carry div b)) = carry div b"
      "push_carry b (carry div b) = [] \<longleftrightarrow> carry div b = 0"
      by auto
    have "push_carry b carry = carry mod b # push_carry b (carry div b)"
      using False "1.prems" by (subst push_carry.simps) simp
    with IH False "1.prems" show ?thesis
      by (auto simp add: canonical_Cons div_eq_0_iff)
  qed
qed

lemma digits_val_less: "list_all (\<lambda>d. d < b) ds \<Longrightarrow> digits_val b ds < b ^ length ds"
proof (induction ds)
  case (Cons d ds)
  then have "d + b * digits_val b ds < b * Suc (digits_val b ds)" by simp
  also have "\<dots> \<le> b * b ^ length ds" using Cons by (intro mult_le_mono2) (simp add: Suc_le_eq)
  finally show ?case by simp
qed simp

lemma digits_val_top:
  assumes "list_all (\<lambda>d. d < b) ds" and "ds \<noteq> []"
  shows "last ds \<noteq> 0 \<longleftrightarrow> b ^ (length ds - 1) \<le> digits_val b ds"
proof -
  have split: "digits_val b ds = digits_val b (butlast ds) + b ^ (length ds - 1) * last ds"
    using digits_val_append [of b "butlast ds" "[last ds]"] assms(2) by simp
  have "list_all (\<lambda>d. d < b) (butlast ds)" using assms(1) by (auto simp add: list_all_iff dest: in_set_butlastD)
  then have "digits_val b (butlast ds) < b ^ (length ds - 1)" using digits_val_less [of b "butlast ds"] by simp
  with split show ?thesis by (cases "last ds") auto
qed

lemma mul_add_canonical:
  assumes "canonical b ds" and "2 \<le> b" and "1 \<le> m"
  shows "canonical b (mul_add m b ds v) \<and> digits_val b (mul_add m b ds v) = m * digits_val b ds + v"
proof -
  obtain es c where es: "scale_digits m b ds v = (es, c)" by (cases "scale_digits m b ds v")
  have s: "length es = length ds" "list_all (\<lambda>d. d < b) es"
    "digits_val b es + b ^ length ds * c = m * digits_val b ds + v"
    using scale_digits_spec [OF es] assms(2) by simp_all
  have p: "canonical b (push_carry b c)" "digits_val b (push_carry b c) = c" "push_carry b c = [] \<longleftrightarrow> c = 0"
    using push_carry_spec [OF assms(2)] by blast+
  have r: "mul_add m b ds v = es @ push_carry b c" by (simp add: mul_add_def es)
  have "canonical b (es @ push_carry b c)"
  proof (cases "c = 0")
    case False
    with p s(2) show ?thesis by (auto simp add: canonical_def)
  next
    case True
    have "last es \<noteq> 0" if "es \<noteq> []"
    proof -
      have ds: "ds \<noteq> []" "list_all (\<lambda>d. d < b) ds" "last ds \<noteq> 0"
        using that s(1) assms(1) by (auto simp add: canonical_def)
      have "b ^ (length es - 1) \<le> digits_val b ds" using digits_val_top [OF ds(2,1)] ds(3) s(1) by simp
      also have "\<dots> \<le> digits_val b es" using s(3) True assms(3) by (cases m) auto
      finally show ?thesis using digits_val_top [OF s(2) that] by simp
    qed
    with True p s(2) show ?thesis by (auto simp add: canonical_def)
  qed
  moreover have "digits_val b (es @ push_carry b c) = m * digits_val b ds + v"
    using s p by (simp add: digits_val_append)
  ultimately show ?thesis by (simp add: r)
qed

lemma mul_add_zero:
  assumes "2 \<le> b"
  shows "mul_add m b [0] v = (if v = 0 then [0] else mul_add m b [] v)"
proof (cases "v = 0")
  case True
  then show ?thesis by (simp add: mul_add_def push_carry.simps)
next
  case False
  then show ?thesis using assms push_carry.simps [of b v] by (simp add: mul_add_def)
qed

lemma fold_mul_add:
  assumes "2 \<le> b" and "1 \<le> m" and "canonical b ds"
  shows "canonical b (foldl (\<lambda>ds v. mul_add m b ds v) ds vs) \<and>
    digits_val b (foldl (\<lambda>ds v. mul_add m b ds v) ds vs)
      = foldl (\<lambda>n v. m * n + v) (digits_val b ds) vs"
  using assms(3)
proof (induction vs arbitrary: ds)
  case (Cons v vs)
  have "canonical b (mul_add m b ds v)" "digits_val b (mul_add m b ds v) = m * digits_val b ds + v"
    using mul_add_canonical [OF Cons.prems assms(1,2)] by blast+
  with Cons.IH [of "mul_add m b ds v"] show ?case by simp
qed simp

text \<open>Folding from \<open>[0]\<close>, as the encoder does, differs only when every digit is zero.\<close>

lemma fold_mul_add_zero:
  assumes "2 \<le> b"
  shows "foldl (\<lambda>ds v. mul_add m b ds v) [0] vs =
    (if list_all (\<lambda>v. v = 0) vs then [0] else foldl (\<lambda>ds v. mul_add m b ds v) [] vs)"
proof (induction vs)
  case (Cons v vs)
  have "mul_add m b [] 0 = []" by (simp add: mul_add_def push_carry.simps)
  with Cons show ?case by (simp add: mul_add_zero [OF assms])
qed simp

text \<open>The number a list of digits spells, most significant first.\<close>

definition spelled :: "nat \<Rightarrow> nat list \<Rightarrow> nat" where
  "spelled m vs = foldl (\<lambda>n v. m * n + v) 0 vs"

lemma spelled_rev: "spelled b vs = digits_val b (rev vs)"
proof (induction vs rule: rev_induct)
  case (snoc v vs)
  have "spelled b (vs @ [v]) = b * spelled b vs + v" by (simp add: spelled_def)
  with snoc show ?case by simp
qed (simp add: spelled_def)

text \<open>The canonical digits of a spelled number; leading zeros do not count.\<close>

definition digits_of :: "nat \<Rightarrow> nat \<Rightarrow> nat list \<Rightarrow> nat list" where
  "digits_of m b vs = foldl (\<lambda>ds v. mul_add m b ds v) [] vs"

lemma digits_of_spec:
  "2 \<le> b \<Longrightarrow> 1 \<le> m \<Longrightarrow> canonical b (digits_of m b vs) \<and> digits_val b (digits_of m b vs) = spelled m vs"
  using fold_mul_add [of b m "[]" vs] by (simp add: digits_of_def spelled_def canonical_def)

lemma digits_of_inverse:
  assumes "2 \<le> b" and "2 \<le> m" and "list_all (\<lambda>v. v < m) vs"
  shows "replicate (length (takeWhile (\<lambda>v. v = 0) vs)) 0 @ rev (digits_of b m (rev (digits_of m b vs))) = vs"
proof -
  let ?z = "takeWhile (\<lambda>v. v = 0) vs" and ?s = "dropWhile (\<lambda>v. v = 0) vs"
  have z: "?z = replicate (length ?z) 0"
    by (metis (mono_tags, lifting) replicate_length_same set_takeWhileD)
  have can: "canonical m (rev ?s)"
  proof -
    have "list_all (\<lambda>v. v < m) ?s" using assms(3) by (auto simp add: list_all_iff dest: set_dropWhileD)
    moreover have "?s \<noteq> [] \<Longrightarrow> hd ?s \<noteq> 0" by (rule hd_dropWhile)
    ultimately show ?thesis by (simp add: canonical_def last_rev)
  qed
  have "spelled m vs = digits_val m (rev ?s)"
  proof -
    have "digits_val m (rev vs) = digits_val m (rev ?s @ rev ?z)"
      by (simp add: takeWhile_dropWhile_id flip: rev_append)
    also have "\<dots> = digits_val m (rev ?s)"
    proof -
      have "digits_val m (replicate k 0) = 0" for k by (induction k) simp_all
      then have "digits_val m (rev ?z) = 0" by (subst z) simp
      then show ?thesis by (simp add: digits_val_append)
    qed
    finally show ?thesis by (simp add: spelled_rev)
  qed
  moreover have "digits_val m (digits_of b m (rev (digits_of m b vs))) = spelled m vs"
    using digits_of_spec [of m b "rev (digits_of m b vs)"] digits_of_spec [of b m vs] assms
    by (simp add: spelled_rev)
  moreover have "canonical m (digits_of b m (rev (digits_of m b vs)))"
    using digits_of_spec [of m b "rev (digits_of m b vs)"] assms by simp
  ultimately have "digits_of b m (rev (digits_of m b vs)) = rev ?s"
    using can by (intro canonical_unique [of m]) simp_all
  then show ?thesis using z by (metis rev_rev_ident takeWhile_dropWhile_id)
qed

lemma digits_of_zeros: "digits_of m b (replicate k 0 @ vs) = digits_of m b vs"
proof -
  have "mul_add m b [] 0 = []" by (simp add: mul_add_def push_carry.simps)
  then show ?thesis unfolding digits_of_def by (induction k) simp_all
qed

section \<open>Characters\<close>

lemma position_nth: "distinct xs \<Longrightarrow> i < length xs \<Longrightarrow> position (xs ! i) xs = Some i"
proof (induction xs arbitrary: i)
  case (Cons x xs)
  then show ?case by (cases i) auto
qed simp

lemma position_Some: "position x xs = Some i \<Longrightarrow> i < length xs \<and> xs ! i = x"
proof (induction xs arbitrary: i)
  case (Cons y ys)
  then show ?case by (auto split: if_splits)
qed simp

definition spell :: "nat list \<Rightarrow> string" where
  "spell vs = map (\<lambda>d. alphabet ! d) vs"

lemma alphabet_nth_inject: "v < 58 \<Longrightarrow> w < 58 \<Longrightarrow> alphabet ! v = alphabet ! w \<longleftrightarrow> v = w"
  using nth_eq_iff_index_eq [OF alphabet_props(2)] alphabet_props(1) by simp

lemma spell_inject:
  assumes "list_all (\<lambda>v. v < 58) vs" and "list_all (\<lambda>v. v < 58) ws" and "spell vs = spell ws"
  shows "vs = ws"
  using assms(3) unfolding spell_def
  by (rule map_inj_on) (use assms(1,2) alphabet_nth_inject in \<open>auto intro!: inj_onI simp add: list_all_iff\<close>)

lemma position_alphabet: "position c alphabet = Some v \<longleftrightarrow> v < 58 \<and> c = alphabet ! v"
  using position_nth [OF alphabet_props(2), of v] position_Some [of c alphabet v] alphabet_props(1) by auto

lemma spell_Cons_eq:
  "(\<exists>vs. list_all (\<lambda>v. v < 58) vs \<and> c # s = spell vs \<and> P vs) \<longleftrightarrow>
     (\<exists>v ws. position c alphabet = Some v \<and> list_all (\<lambda>v. v < 58) ws \<and> s = spell ws \<and> P (v # ws))"
  unfolding position_alphabet
proof
  assume "\<exists>vs. list_all (\<lambda>v. v < 58) vs \<and> c # s = spell vs \<and> P vs"
  then obtain vs where vs: "list_all (\<lambda>v. v < 58) vs" "c # s = spell vs" "P vs" by blast
  then obtain v ws where "vs = v # ws" by (cases vs) (simp_all add: spell_def)
  with vs show "\<exists>v ws. (v < 58 \<and> c = alphabet ! v) \<and> list_all (\<lambda>v. v < 58) ws \<and> s = spell ws \<and> P (v # ws)"
    by (auto simp add: spell_def)
next
  assume "\<exists>v ws. (v < 58 \<and> c = alphabet ! v) \<and> list_all (\<lambda>v. v < 58) ws \<and> s = spell ws \<and> P (v # ws)"
  then obtain v ws where "v < 58" "c = alphabet ! v" "list_all (\<lambda>v. v < 58) ws" "s = spell ws" "P (v # ws)" by blast
  then show "\<exists>vs. list_all (\<lambda>v. v < 58) vs \<and> c # s = spell vs \<and> P vs"
    by (intro exI [of _ "v # ws"]) (simp add: spell_def)
qed

lemma base58_digits_iff:
  "base58_digits s = Inr ds \<longleftrightarrow> (\<exists>vs. list_all (\<lambda>v. v < 58) vs \<and> s = spell vs \<and> ds = digits_of 58 256 vs)"
proof -
  let ?f = "\<lambda>digits ch. case position ch alphabet of
      None \<Rightarrow> Inl (InvalidCharacter ch) | Some v \<Rightarrow> Inr (mul_add 58 256 digits v)"
  have "rfold ?f es s = Inr ds \<longleftrightarrow>
      (\<exists>vs. list_all (\<lambda>v. v < 58) vs \<and> s = spell vs \<and> ds = foldl (\<lambda>ds v. mul_add 58 256 ds v) es vs)" for es
  proof (induction s arbitrary: es)
    case Nil
    then show ?case by (auto simp add: spell_def)
  next
    case (Cons c s)
    show ?case unfolding spell_Cons_eq
      using Cons.IH by (cases "position c alphabet") auto
  qed
  from this [of "[]"] show ?thesis by (simp add: base58_digits_def digits_of_def)
qed

lemma leading_characters:
  "list_all (\<lambda>v. v < 58) vs \<Longrightarrow>
     length (takeWhile (\<lambda>c. c = alphabet ! 0) (spell vs)) = length (takeWhile (\<lambda>v. v = 0) vs)"
proof (induction vs)
  case (Cons v vs)
  have "alphabet ! v = alphabet ! 0 \<longleftrightarrow> v = 0"
    using Cons.prems alphabet_nth_inject [of v 0] by simp
  with Cons show ?case by (simp add: spell_def)
qed (simp add: spell_def)

section \<open>The round trip\<close>

lemma encoded_address:
  assumes "\<not> list_all (\<lambda>b. b = 0) (address_payload S a)"
  shows "account_id_to_classic_address S a =
    spell (replicate (length (takeWhile (\<lambda>v. v = 0) (map unat (address_payload S a)))) 0
      @ rev (digits_of 256 58 (map unat (address_payload S a))))"
proof -
  have "foldl (\<lambda>ds byte. mul_add 256 58 ds (unat byte)) [0] (address_payload S a)
      = foldl (\<lambda>ds v. mul_add 256 58 ds v) [0] (map unat (address_payload S a))"
    by (simp add: foldl_map)
  moreover have "\<not> list_all (\<lambda>v. v = 0) (map unat (address_payload S a))"
    using assms by (simp add: list_all_iff unat_eq_0)
  moreover have "takeWhile (\<lambda>v. v = 0) (map unat (address_payload S a))
      = map unat (takeWhile (\<lambda>b. b = 0) (address_payload S a))"
    by (simp add: takeWhile_map comp_def unat_eq_0)
  ultimately show ?thesis
    by (simp add: account_id_to_classic_address_def Let_def fold_mul_add_zero digits_of_def spell_def map_replicate_const)
qed

lemma length_address_payload [simp]: "length (address_payload S a) = 25"
  by (simp add: address_payload_def Let_def)

text \<open>The payload the decoder reassembles from the characters.\<close>

definition decoded_payload :: "nat list \<Rightarrow> byte list" where
  "decoded_payload vs =
     replicate (length (takeWhile (\<lambda>v. v = 0) vs)) 0 @ map of_nat (rev (digits_of 58 256 vs))"

lemma map_unat_decoded:
  "map unat (decoded_payload vs) =
     replicate (length (takeWhile (\<lambda>v. v = 0) vs)) 0 @ rev (digits_of 58 256 vs)"
proof -
  have "list_all (\<lambda>d. d < 256) (digits_of 58 256 vs)"
    using digits_of_spec [of 256 58 vs] by (simp add: canonical_def)
  then have "map (\<lambda>d. unat (of_nat d :: byte)) (rev (digits_of 58 256 vs)) = rev (digits_of 58 256 vs)"
    by (intro map_idI) (auto simp add: list_all_iff unat_of_nat)
  then show ?thesis by (simp add: decoded_payload_def comp_def)
qed

lemma decode_spelled:
  assumes "list_all (\<lambda>v. v < 58) vs"
  shows "classic_address_to_account_id S (spell vs) =
    (let payload = decoded_payload vs in
     if length payload \<noteq> 25 then Inl (PayloadLength (length payload))
     else if payload ! 0 \<noteq> 0 then Inl (NotClassic (payload ! 0))
     else if drop 21 payload \<noteq> take 4 (sha256 S (sha256 S (take 21 payload))) then Inl ChecksumMismatch
     else Inr (from_be_bytes (take 20 (drop 1 payload))))"
proof -
  have "base58_digits (spell vs) = Inr (digits_of 58 256 vs)" using assms base58_digits_iff by blast
  then show ?thesis
    by (simp add: classic_address_to_account_id_def leading_characters [OF assms] decoded_payload_def Let_def)
qed

text \<open>Leading zeros and digits determine each other in both directions.\<close>

definition base_change :: "nat \<Rightarrow> nat \<Rightarrow> nat list \<Rightarrow> nat list" where
  "base_change m b vs = replicate (length (takeWhile (\<lambda>v. v = 0) vs)) 0 @ rev (digits_of m b vs)"

lemma base_change_zeros:
  assumes "2 \<le> b" and "1 \<le> m"
  shows "length (takeWhile (\<lambda>v. v = 0) (base_change m b vs)) = length (takeWhile (\<lambda>v. v = 0) vs)"
proof -
  have "canonical b (digits_of m b vs)" using digits_of_spec [OF assms] by blast
  then have "takeWhile (\<lambda>v. v = 0) (rev (digits_of m b vs)) = []"
    by (cases "digits_of m b vs" rule: rev_cases) (auto simp add: canonical_def)
  then show ?thesis by (simp add: base_change_def takeWhile_append)
qed

lemma base_change_inverse:
  assumes "2 \<le> b" and "2 \<le> m" and "list_all (\<lambda>v. v < m) vs"
  shows "base_change b m (base_change m b vs) = vs"
proof -
  have "digits_of b m (base_change m b vs) = digits_of b m (rev (digits_of m b vs))"
    by (simp add: base_change_def digits_of_zeros)
  then show ?thesis
    using digits_of_inverse [OF assms] base_change_zeros [of b m vs] assms
    by (simp add: base_change_def [of b m])
qed

lemma base_change_digits:
  assumes "2 \<le> b" and "1 \<le> m"
  shows "list_all (\<lambda>v. v < b) (base_change m b vs)"
  using digits_of_spec [OF assms, of vs] assms(1)
  by (auto simp add: base_change_def canonical_def list_all_iff)

lemma bytes_below_256: "list_all (\<lambda>v. v < 256) (map unat (bs :: byte list))"
  by (simp add: list_all_iff)

lemma address_decodes_iff:
  assumes "\<not> list_all (\<lambda>b. b = 0) (address_payload S a)"
  shows "classic_address_to_account_id S s = Inr a \<longleftrightarrow> s = account_id_to_classic_address S a"
proof
  let ?p = "address_payload S a"
  assume s: "s = account_id_to_classic_address S a"
  have vs: "s = spell (base_change 256 58 (map unat ?p))"
    unfolding s base_change_def by (rule encoded_address [OF assms])
  have "map unat (decoded_payload (base_change 256 58 (map unat ?p))) = map unat ?p"
    unfolding map_unat_decoded base_change_def [of 58 256, symmetric]
    by (rule base_change_inverse) (simp_all add: bytes_below_256)
  then have "decoded_payload (base_change 256 58 (map unat ?p)) = ?p"
    by (rule map_injective) (use word_unat_eq_iff in \<open>blast intro: injI\<close>)
  then show "classic_address_to_account_id S s = Inr a"
    unfolding vs
    by (subst decode_spelled [OF base_change_digits]) (simp_all add: Let_def address_payload_def)
next
  assume d: "classic_address_to_account_id S s = Inr a"
  then obtain ds where "base58_digits s = Inr ds"
    by (auto simp add: classic_address_to_account_id_def rbind_eq_Inr)
  then obtain vs where vs: "list_all (\<lambda>v. v < 58) vs" "s = spell vs" unfolding base58_digits_iff by blast
  let ?p = "decoded_payload vs"
  have p: "length ?p = 25" "?p ! 0 = 0" "drop 21 ?p = take 4 (sha256 S (sha256 S (take 21 ?p)))"
    "a = from_be_bytes (take 20 (drop 1 ?p))"
    using d unfolding vs(2) decode_spelled [OF vs(1)] by (auto simp add: Let_def split: if_splits)
  have "take 21 ?p = 0 # to_be_bytes a"
  proof -
    obtain b q where q: "?p = b # q" using p(1) by (cases ?p) auto
    have "length (take 20 q) = LENGTH(160) div 8" using p(1) q by simp
    then have "to_be_bytes (from_be_bytes (take 20 q) :: account_id) = take 20 q"
      by (rule to_be_from_be) simp
    moreover have "take 21 (b # q) = b # take 20 q" by simp
    ultimately show ?thesis using p(2,4) unfolding q by simp
  qed
  then have "?p = address_payload S a"
    using p(3) append_take_drop_id [of 21 ?p] by (simp add: address_payload_def Let_def)
  then have "map unat (address_payload S a) = base_change 58 256 vs"
    using map_unat_decoded [of vs] by (simp add: base_change_def)
  then have "account_id_to_classic_address S a = spell (base_change 256 58 (base_change 58 256 vs))"
    using encoded_address [OF assms] by (simp add: base_change_def [of 256 58])
  also have "base_change 256 58 (base_change 58 256 vs) = vs"
    by (rule base_change_inverse) (use vs(1) in simp_all)
  finally show "s = account_id_to_classic_address S a" by (simp add: vs(2))
qed

lemma nonzero_payload: "a \<noteq> 0 \<Longrightarrow> \<not> list_all (\<lambda>b. b = 0) (address_payload S a)"
proof
  assume "a \<noteq> 0" and "list_all (\<lambda>b. b = 0) (address_payload S a)"
  then have "\<forall>b \<in> set (to_be_bytes a). b = 0" by (simp add: address_payload_def Let_def list_all_iff)
  then have "to_be_bytes a = replicate 20 0" by (simp add: replicate_eqI)
  then have "from_be_bytes (to_be_bytes a) = (0 :: account_id)" by (simp add: from_be_bytes_def)
  with \<open>a \<noteq> 0\<close> show False by simp
qed

section \<open>Properties\<close>

text \<open>
  C32: An address decodes to an account id exactly when it is the address the encoder prints
  for that id: decoding inverts encoding, every other string is refused, and no id has two
  spellings. The one payload excluded is the 25 zero bytes (a zero id whose checksum is zero).
\<close>

theorem address_decodes_iff_encoded:
  assumes "\<not> list_all (\<lambda>b. b = 0) (address_payload S a)"
  shows "classic_address_to_account_id S s = Inr a \<longleftrightarrow> s = account_id_to_classic_address S a"
  by (rule address_decodes_iff [OF assms])

lemma address_decodes_iff_encoded_witness:
  "classic_address_to_account_id (\<lambda>_. 9) (account_id_to_classic_address (\<lambda>_. 9) 5) = Inr 5"
proof -
  have "\<not> list_all (\<lambda>b. b = 0) (address_payload (\<lambda>_. 9) 5)" by (rule nonzero_payload) simp
  from address_decodes_iff_encoded [OF this] show ?thesis by blast
qed

end
