(* ===== verification/Tx_Db.thy ===== *)
theory Tx_Db
  imports Meta_Spec Address_Codec File_System Chunk_Format
begin

text \<open>
  The writer of the transaction database: crates/xrla-import/src/txdb.rs. The connection is
  the two tables its statements build: \<open>INSERT OR REPLACE\<close> on the primary key TransID is an
  update of a map, a plain \<open>INSERT\<close> appends a row. The text of TransID is the hexadecimal
  printing of the hash and is represented by the hash; NULL is None. How SQLite lays tables
  out in a file is the parameter \<open>F\<close>. The statements themselves do not fail here.
\<close>

section \<open>Tables and sink\<close>

record tx_row =
  tr_trans_type :: string
  tr_from_acct :: string
  tr_from_seq :: u32
  tr_ledger_seq :: u32
  tr_status :: string
  tr_raw_txn :: "byte list"
  tr_txn_meta :: "byte list"

record acct_row =
  ar_trans_id :: hash256
  ar_account :: string
  ar_ledger_seq :: u32
  ar_txn_seq :: "u32 option"

record tx_tables =
  tt_transactions :: "hash256 \<rightharpoonup> tx_row"
  tt_account_transactions :: "acct_row list"

type_synonym table_file = "tx_tables \<Rightarrow> byte list"

definition schema_tables :: tx_tables where
  "schema_tables = \<lparr>tt_transactions = Map.empty, tt_account_transactions = []\<rparr>"

record txdb_sink =
  td_conn :: "tx_tables option"
  td_tmp :: string
  td_dest :: string
  td_rows_tx :: u64
  td_rows_acct :: u64

datatype txdb_error =
    DestinationExists
  | WriteAfterFinish
  | UndecodableFields u32 hash256 meta_error
  | UnknownTxType u32 hash256 u16
  | UndecodableMeta u32 hash256 meta_error

section \<open>Operations\<close>

definition txdb_create ::
  "table_file \<Rightarrow> file_system \<Rightarrow> string \<Rightarrow> txdb_error + file_system \<times> txdb_sink" where
  "txdb_create F fs dest =
     (if fs dest \<noteq> None then Inl DestinationExists else
      let tmp = tmp_path dest;
          fs = remove_file fs tmp;
          fs = fs(tmp \<mapsto> F schema_tables)
      in Inr (fs, \<lparr>td_conn = Some schema_tables, td_tmp = tmp, td_dest = dest,
                   td_rows_tx = 0, td_rows_acct = 0\<rparr>))"

text \<open>\<open>ins_tx.execute\<close> and \<open>ins_acct.execute\<close>, each with its row count.\<close>

definition insert_transaction :: "hash256 \<Rightarrow> tx_row \<Rightarrow> tx_tables \<Rightarrow> tx_tables" where
  "insert_transaction trans_id row t = t\<lparr>tt_transactions := (tt_transactions t)(trans_id \<mapsto> row)\<rparr>"

definition insert_account_row :: "acct_row \<Rightarrow> tx_tables \<Rightarrow> tx_tables" where
  "insert_account_row row t = t\<lparr>tt_account_transactions := tt_account_transactions t @ [row]\<rparr>"

definition txdb_account ::
  "sha256_fn \<Rightarrow> tx_map \<Rightarrow> hash256 \<Rightarrow> meta_summary \<Rightarrow> txdb_sink \<Rightarrow> account_id \<Rightarrow> txdb_sink" where
  "txdb_account S m trans_id s sk a =
     sk\<lparr>td_conn := map_option (insert_account_row
            \<lparr>ar_trans_id = trans_id, ar_account = account_id_to_classic_address S a,
             ar_ledger_seq = tm_ledger_seq m, ar_txn_seq = ms_transaction_index s\<rparr>) (td_conn sk),
        td_rows_acct := td_rows_acct sk + 1\<rparr>"

definition txdb_transaction ::
  "sha256_fn \<Rightarrow> tx_map \<Rightarrow> txdb_sink \<Rightarrow> tx_record \<Rightarrow> txdb_error + txdb_sink" where
  "txdb_transaction S m sk tx =
     (let trans_id = tx_hash tx in
      rbind (rlift (UndecodableFields (tm_ledger_seq m) trans_id) (parse_tx_fields (tx_blob tx))) (\<lambda>f.
      case tx_type_name (tf_tx_type f) of
        None \<Rightarrow> Inl (UnknownTxType (tm_ledger_seq m) trans_id (tf_tx_type f))
      | Some name \<Rightarrow>
        rbind (rlift (UndecodableMeta (tm_ledger_seq m) trans_id) (summarize_meta (meta_blob tx))) (\<lambda>s.
        let sk = sk\<lparr>td_conn := map_option (insert_transaction trans_id
                      \<lparr>tr_trans_type = name,
                       tr_from_acct = account_id_to_classic_address S (tf_account f),
                       tr_from_seq = tf_sequence f, tr_ledger_seq = tm_ledger_seq m,
                       tr_status = ''V'', tr_raw_txn = tx_blob tx, tr_txn_meta = meta_blob tx\<rparr>)
                      (td_conn sk),
                    td_rows_tx := td_rows_tx sk + 1\<rparr>
        in Inr (foldl (txdb_account S m trans_id s) sk (ms_affected_accounts s)))))"

definition txdb_write_ledger :: "sha256_fn \<Rightarrow> txdb_sink \<Rightarrow> tx_map \<Rightarrow> txdb_error + txdb_sink" where
  "txdb_write_ledger S sk m =
     (if td_conn sk = None then Inl WriteAfterFinish
      else rfold (txdb_transaction S m) sk (tm_txns m))"

definition txdb_counts :: "txdb_sink \<Rightarrow> u64 \<times> u64" where
  "txdb_counts sk = (td_rows_tx sk, td_rows_acct sk)"

text \<open>COMMIT writes the tables to the temporary file, which is then renamed.\<close>

definition txdb_finish ::
  "table_file \<Rightarrow> file_system \<times> txdb_sink \<Rightarrow> txdb_error + file_system \<times> txdb_sink" where
  "txdb_finish F st =
     (let (fs, sk) = st in
      case td_conn sk of
        None \<Rightarrow> Inl WriteAfterFinish
      | Some t \<Rightarrow> Inr (rename_file (fs(td_tmp sk \<mapsto> F t)) (td_tmp sk) (td_dest sk), sk\<lparr>td_conn := None\<rparr>))"

definition txdb_drop :: "file_system \<times> txdb_sink \<Rightarrow> file_system" where
  "txdb_drop st = (let (fs, sk) = st in if td_conn sk \<noteq> None then remove_file fs (td_tmp sk) else fs)"

text \<open>
  The life of a sink in the importer: created, written ledger by ledger, and finished, or
  dropped at the first error (a sink that a failed write left half changed is only dropped,
  so its tables are not kept). The file system left and the counts or the error.
\<close>

definition txdb_session ::
  "sha256_fn \<Rightarrow> table_file \<Rightarrow> file_system \<Rightarrow> string \<Rightarrow> tx_map list
     \<Rightarrow> file_system \<times> (txdb_error + u64 \<times> u64)" where
  "txdb_session S F fs dest ms =
     (case txdb_create F fs dest of
        Inl e \<Rightarrow> (fs, Inl e)
      | Inr (fs, sk) \<Rightarrow>
          (case rfold (txdb_write_ledger S) sk ms of
             Inl e \<Rightarrow> (txdb_drop (fs, sk), Inl e)
           | Inr sk' \<Rightarrow>
               (case txdb_finish F (fs, sk') of
                  Inl e \<Rightarrow> (txdb_drop (fs, sk'), Inl e)
                | Inr st \<Rightarrow> (txdb_drop st, Inr (txdb_counts sk')))))"

section \<open>The rows of a transaction\<close>

definition decodes :: "tx_record \<Rightarrow> bool" where
  "decodes tx \<longleftrightarrow>
     (\<exists>f name s. parse_tx_fields (tx_blob tx) = Inr f \<and> tx_type_name (tf_tx_type f) = Some name \<and>
        summarize_meta (meta_blob tx) = Inr s)"

definition transaction_row :: "sha256_fn \<Rightarrow> tx_map \<Rightarrow> tx_record \<Rightarrow> hash256 \<times> tx_row" where
  "transaction_row S m tx =
     (let f = projr (parse_tx_fields (tx_blob tx)) in
      (tx_hash tx,
       \<lparr>tr_trans_type = the (tx_type_name (tf_tx_type f)),
        tr_from_acct = account_id_to_classic_address S (tf_account f), tr_from_seq = tf_sequence f,
        tr_ledger_seq = tm_ledger_seq m, tr_status = ''V'', tr_raw_txn = tx_blob tx,
        tr_txn_meta = meta_blob tx\<rparr>))"

definition account_rows :: "sha256_fn \<Rightarrow> tx_map \<Rightarrow> tx_record \<Rightarrow> acct_row list" where
  "account_rows S m tx =
     (let s = projr (summarize_meta (meta_blob tx)) in
      map (\<lambda>a. \<lparr>ar_trans_id = tx_hash tx, ar_account = account_id_to_classic_address S a,
                ar_ledger_seq = tm_ledger_seq m, ar_txn_seq = ms_transaction_index s\<rparr>)
        (ms_affected_accounts s))"

definition ledger_transactions :: "tx_map list \<Rightarrow> (tx_map \<times> tx_record) list" where
  "ledger_transactions ms = concat (map (\<lambda>m. map (Pair m) (tm_txns m)) ms)"

text \<open>What a sink holds after some transactions, in the order they were written.\<close>

definition wrote :: "sha256_fn \<Rightarrow> txdb_sink \<Rightarrow> (tx_map \<times> tx_record) list \<Rightarrow> txdb_sink" where
  "wrote S sk ps =
     sk\<lparr>td_conn := map_option (\<lambda>t. \<lparr>tt_transactions = tt_transactions t ++ map_of (rev (map (\<lambda>(m, tx). transaction_row S m tx) ps)),
          tt_account_transactions = tt_account_transactions t @ concat (map (\<lambda>(m, tx). account_rows S m tx) ps)\<rparr>) (td_conn sk),
        td_rows_tx := td_rows_tx sk + of_nat (length ps),
        td_rows_acct := td_rows_acct sk + of_nat (length (concat (map (\<lambda>(m, tx). account_rows S m tx) ps)))\<rparr>"

lemma wrote_simps [simp]: "td_conn (wrote S sk ps) = None \<longleftrightarrow> td_conn sk = None"
  "td_tmp (wrote S sk ps) = td_tmp sk" "td_dest (wrote S sk ps) = td_dest sk"
  by (simp_all add: wrote_def)

lemma wrote_Nil: "wrote S sk [] = sk"
  by (cases sk; cases "td_conn sk") (simp_all add: wrote_def)

lemma wrote_append: "wrote S (wrote S sk ps) qs = wrote S sk (ps @ qs)"
  by (cases "td_conn sk") (simp_all add: wrote_def map_add_assoc)

lemma fold_accounts:
  "foldl (txdb_account S m i s) sk as =
     sk\<lparr>td_conn := map_option (\<lambda>t. t\<lparr>tt_account_transactions := tt_account_transactions t
            @ map (\<lambda>a. \<lparr>ar_trans_id = i, ar_account = account_id_to_classic_address S a,
                ar_ledger_seq = tm_ledger_seq m, ar_txn_seq = ms_transaction_index s\<rparr>) as\<rparr>) (td_conn sk),
        td_rows_acct := td_rows_acct sk + of_nat (length as)\<rparr>"
proof (induction as arbitrary: sk)
  case Nil
  then show ?case by (cases sk; cases "td_conn sk") simp_all
next
  case (Cons a as)
  then show ?case
    by (cases "td_conn sk") (simp_all add: txdb_account_def insert_account_row_def)
qed

lemma txdb_transaction_wrote:
  "decodes tx \<Longrightarrow> txdb_transaction S m sk tx = Inr (wrote S sk [(m, tx)])"
  "\<not> decodes tx \<Longrightarrow> \<exists>e. txdb_transaction S m sk tx = Inl e"
proof -
  assume "decodes tx"
  then show "txdb_transaction S m sk tx = Inr (wrote S sk [(m, tx)])"
    by (cases "td_conn sk")
      (auto simp add: decodes_def txdb_transaction_def fold_accounts wrote_def transaction_row_def
        account_rows_def insert_transaction_def Let_def)
next
  assume "\<not> decodes tx"
  then show "\<exists>e. txdb_transaction S m sk tx = Inl e"
    by (cases "parse_tx_fields (tx_blob tx)"; cases "summarize_meta (meta_blob tx)")
      (auto simp add: decodes_def txdb_transaction_def Let_def split: option.splits)
qed

lemma txdb_transactions_wrote:
  "rfold (txdb_transaction S m) sk txns = Inr (wrote S sk (map (Pair m) txns))
     \<or> (\<exists>e. rfold (txdb_transaction S m) sk txns = Inl e) \<and> \<not> list_all decodes txns"
proof (induction txns arbitrary: sk)
  case Nil
  then show ?case by (simp add: wrote_Nil)
next
  case (Cons tx txns)
  show ?case
  proof (cases "decodes tx")
    case True
    with Cons [of "wrote S sk [(m, tx)]"] show ?thesis
      by (auto simp add: txdb_transaction_wrote wrote_append)
  next
    case False
    with txdb_transaction_wrote(2) [OF False, of S m sk] show ?thesis by auto
  qed
qed

lemma txdb_transactions_decode:
  "rfold (txdb_transaction S m) sk txns = Inr sk' \<Longrightarrow> list_all decodes txns"
proof (induction txns arbitrary: sk)
  case (Cons tx txns)
  then obtain u where u: "txdb_transaction S m sk tx = Inr u" "rfold (txdb_transaction S m) u txns = Inr sk'"
    by (auto simp add: rbind_eq_Inr)
  have "decodes tx" using u(1) txdb_transaction_wrote(2) [of tx S m sk] by force
  with Cons.IH [OF u(2)] show ?case by simp
qed simp

lemma txdb_ledgers_wrote:
  "td_conn sk \<noteq> None \<Longrightarrow>
     (if \<forall>(m, tx) \<in> set (ledger_transactions ms). decodes tx
      then rfold (txdb_write_ledger S) sk ms = Inr (wrote S sk (ledger_transactions ms))
      else \<exists>e. rfold (txdb_write_ledger S) sk ms = Inl e)"
proof (induction ms arbitrary: sk)
  case Nil
  then show ?case by (simp add: ledger_transactions_def wrote_Nil)
next
  case (Cons m ms)
  note split = Cons.IH [of "wrote S sk (map (Pair m) (tm_txns m))"]
  have all: "(\<forall>(m, tx) \<in> set (ledger_transactions (m # ms)). decodes tx) \<longleftrightarrow>
      list_all decodes (tm_txns m) \<and> (\<forall>(m, tx) \<in> set (ledger_transactions ms). decodes tx)"
    by (auto simp add: ledger_transactions_def list_all_iff)
  have cons: "ledger_transactions (m # ms) = map (Pair m) (tm_txns m) @ ledger_transactions ms"
    by (simp add: ledger_transactions_def)
  show ?case
  proof (cases "list_all decodes (tm_txns m)")
    case True
    then have "txdb_write_ledger S sk m = Inr (wrote S sk (map (Pair m) (tm_txns m)))"
      using Cons.prems txdb_transactions_wrote [of S m sk "tm_txns m"]
      by (auto simp add: txdb_write_ledger_def)
    moreover have "(\<forall>(m, tx) \<in> set (ledger_transactions (m # ms)). decodes tx) \<longleftrightarrow>
        (\<forall>(m, tx) \<in> set (ledger_transactions ms). decodes tx)" using all True by blast
    ultimately show ?thesis using split Cons.prems by (simp only: rfold.simps rbind_simps) (simp add: cons wrote_append)
  next
    case False
    then have "\<exists>e. txdb_write_ledger S sk m = Inl e"
      using txdb_transactions_decode [of S m sk "tm_txns m"]
      by (cases "txdb_write_ledger S sk m") (auto simp add: txdb_write_ledger_def split: if_splits)
    with False show ?thesis unfolding all by auto
  qed
qed

section \<open>Properties\<close>

text \<open>
  C40: The transaction database is complete or absent. If every transaction of every ledger
  decodes, the published file holds for each transaction hash the row of its last record, and
  the account rows of all records in order, as many as counted; if one transaction does not
  decode, an error is returned and nothing is published. The temporary file is gone either
  way and no other file changed.
\<close>

theorem transaction_db_complete_or_absent:
  assumes "fs dest = None"
  shows "if \<forall>(m, tx) \<in> set (ledger_transactions ms). decodes tx
    then \<exists>rows accts. rows = map (\<lambda>(m, tx). transaction_row S m tx) (ledger_transactions ms) \<and>
      accts = concat (map (\<lambda>(m, tx). account_rows S m tx) (ledger_transactions ms)) \<and>
      txdb_session S F fs dest ms =
        (fs(tmp_path dest := None,
            dest \<mapsto> F \<lparr>tt_transactions = map_of (rev rows), tt_account_transactions = accts\<rparr>),
         Inr (of_nat (length rows), of_nat (length accts)))
    else \<exists>e. txdb_session S F fs dest ms = (fs(tmp_path dest := None), Inl e)"
proof -
  let ?sk = "\<lparr>td_conn = Some schema_tables, td_tmp = tmp_path dest, td_dest = dest,
      td_rows_tx = 0, td_rows_acct = 0\<rparr>"
  have create: "txdb_create F fs dest = Inr (fs(tmp_path dest \<mapsto> F schema_tables), ?sk)"
    using assms by (simp add: txdb_create_def remove_file_def Let_def)
  have conn: "td_conn ?sk \<noteq> None" by simp
  from txdb_ledgers_wrote [OF conn, of ms S] show ?thesis
    by (auto simp add: txdb_session_def create txdb_drop_def txdb_finish_def txdb_counts_def wrote_def
        schema_tables_def remove_file_def rename_file_def fun_upd_twist fun_eq_iff split: if_splits)
qed

text \<open>A payment with any bytes after its fields.\<close>

definition payment_blob :: "byte list \<Rightarrow> byte list" where
  "payment_blob rest = object_bytes [Plain 1 2 [0, 0], Plain 2 4 [0, 0, 0, 9]] @ field_bytes (Account 1 (Some 5)) @ rest"

lemma payment_fields:
  "parse_tx_fields (payment_blob rest) = Inr \<lparr>tf_tx_type = 0, tf_account = 5, tf_sequence = 9\<rparr>"
  "tx_type_name 0 = Some ''Payment''"
proof -
  let ?fs = "[Plain 1 2 [0, 0], Plain 2 4 [0, 0, 0, 9]]"
  have skip: "skip_scalar 2 [0, 0, 0, 9] = Inr ((), [])" "skip_scalar (Suc 0) [0, 0] = Inr ((), [])"
    by (simp_all add: skip_scalar_def type_codes skip_bytes_def pbind_def take_bytes_def)
  have "list_all wf_field ?fs" "list_all (\<lambda>x. field_type x < 8) ?fs"
    by (simp_all add: code_ok_def skip is_container_def type_codes)
  moreover have "foldl tx_step \<lparr>found_type = None, found_sequence = None, found_account = None\<rparr> ?fs
      = \<lparr>found_type = Some 0, found_sequence = Some 9, found_account = None\<rparr>"
    by (simp add: tx_step_def type_codes from_be_bytes_def be_nat_def)
  ultimately show "parse_tx_fields (payment_blob rest) = Inr \<lparr>tf_tx_type = 0, tf_account = 5, tf_sequence = 9\<rparr>"
    using parse_tx_fields_bytes [of ?fs 0 9 "Some 5" rest] by (simp add: payment_blob_def)
  show "tx_type_name 0 = Some ''Payment''" by (simp add: tx_type_name_def tx_type_table_def)
qed

definition sample_payment :: tx_record where
  "sample_payment =
     \<lparr>tx_hash = 21, tx_blob = payment_blob [0xFF], meta_blob = object_bytes [Plain 2 28 [0, 0, 0, 7], Nested 15 8 []]\<rparr>"

lemma sample_payment_decodes: "decodes sample_payment"
proof -
  have skip: "skip_scalar 2 [0, 0, 0, 7] = Inr ((), [])"
    by (simp add: skip_scalar_def type_codes skip_bytes_def pbind_def take_bytes_def)
  have "wf_meta [Plain 2 28 [0, 0, 0, 7], Nested 15 8 []]"
    by (simp add: wf_meta_def code_ok_def skip is_container_def type_codes field_codes)
  then have "\<exists>s. summarize_meta (meta_blob sample_payment) = Inr s"
    using summarize_meta_bytes [of "[Plain 2 28 [0, 0, 0, 7], Nested 15 8 []]"]
    by (simp add: sample_payment_def type_codes field_codes del: object_bytes_simps)
  then show ?thesis by (simp add: decodes_def payment_fields sample_payment_def)
qed

lemma garbage_fails: "\<not> decodes (sample_payment\<lparr>tx_blob := [0xFF]\<rparr>)"
proof -
  have "read_field_header [0xFF] = Inr ((15, 15), [])"
    by (simp add: read_field_header_def pbind_def take_byte_def take_bytes_def)
  then have "parse_tx_fields [0xFF] = Inl (FieldsNotFound 15)"
    by (simp add: parse_tx_fields_def tx_fields_loop.simps found_all_def tx_field_def type_codes)
  then show ?thesis by (simp add: decodes_def)
qed

definition sample_ledger :: "tx_record list \<Rightarrow> tx_map" where
  "sample_ledger txns =
     \<lparr>tm_ledger_seq = 100, tm_ledger_hash = 7, tm_account_hash = 8, tm_drops = 9, tm_parent_close_time = 1,
      tm_close_time = 2, tm_close_time_resolution = 10, tm_close_flags = 0, tm_txns = txns\<rparr>"

lemma transaction_db_complete_or_absent_witness:
  "\<exists>counts e.
     txdb_session (\<lambda>_. 0) (\<lambda>_. [1]) Map.empty ''t'' [sample_ledger [sample_payment]]
       = (Map.empty(''t'' \<mapsto> [1]), Inr counts) \<and>
     txdb_session (\<lambda>_. 0) (\<lambda>_. [1]) Map.empty ''t''
         [sample_ledger [sample_payment, sample_payment\<lparr>tx_blob := [0xFF]\<rparr>]]
       = (Map.empty, Inl e)"
  using transaction_db_complete_or_absent [of Map.empty "''t''" "[sample_ledger [sample_payment]]" "\<lambda>_. 0" "\<lambda>_. [1]"]
    transaction_db_complete_or_absent [of Map.empty "''t''"
      "[sample_ledger [sample_payment, sample_payment\<lparr>tx_blob := [0xFF]\<rparr>]]" "\<lambda>_. 0" "\<lambda>_. [1]"]
    sample_payment_decodes garbage_fails
  by (simp add: ledger_transactions_def sample_ledger_def fun_upd_idem)

end
