(* ===== verification/Chunk_Codec.thy ===== *)
theory Chunk_Codec
  imports Chunk_Format
begin

text \<open>
  Every record of the chunk format is a codec: its reader undoes its writer. The primitive
  fields and the node, transaction, delta and ledger records interpret the locales
  \<open>codec\<close> and \<open>canonical_codec\<close>; the round trips of whole chunks follow by composition.
\<close>

section \<open>Primitive fields\<close>

lemma read_exact_append [simp]: "length bs = n \<Longrightarrow> read_exact n (bs @ r) = Inr (bs, r)"
  by (auto simp add: read_exact_def)

lemma read_exact_Inr: "read_exact n b = Inr (x, r) \<longleftrightarrow> b = x @ r \<and> length x = n"
  by (auto simp add: read_exact_def)

lemma stable_read_exact [intro]: "no_lookahead (read_exact n)"
  by (auto simp add: no_lookahead_def read_exact_Inr)

lemma be_field_canonical:
  assumes n: "LENGTH('a::len) div 8 = n" and d: "8 dvd LENGTH('a)"
  shows "canonical_codec (to_be_bytes :: 'a word \<Rightarrow> _)
           (pbind (read_exact n) (\<lambda>b. pret (from_be_bytes b))) (\<lambda>_. True)"
proof
  fix w :: "'a word" and r
  show "pbind (read_exact n) (\<lambda>b. pret (from_be_bytes b)) (to_be_bytes w @ r) = Inr (w, r)"
    using n d by (simp add: pbind_def)
  show "no_lookahead (pbind (read_exact n) (\<lambda>b. pret (from_be_bytes b)) :: (chunk_error, 'a word) parser)"
    by (intro stable_pbind stable_read_exact stable_pret)
  fix b
  assume "pbind (read_exact n) (\<lambda>b. pret (from_be_bytes b)) b = Inr (w, r)"
  then show "b = to_be_bytes w @ r \<and> True"
    using n d by (auto simp add: pbind_eq_Inr read_exact_Inr)
qed

interpretation u8c: canonical_codec write_u8 read_u8 "\<lambda>_. True"
proof
  fix w r
  show "read_u8 (write_u8 w @ r) = Inr (w, r)"
    using read_exact_append [of "[w]" 1 r] by (simp add: read_u8_def write_u8_def)
  show "no_lookahead read_u8"
    unfolding read_u8_def by (intro stable_pbind stable_read_exact stable_pret)
  fix b
  assume "read_u8 b = Inr (w, r)"
  then show "b = write_u8 w @ r \<and> True"
    by (auto simp add: read_u8_def write_u8_def pbind_eq_Inr read_exact_Inr length_Suc_conv)
qed

interpretation u16c: canonical_codec write_u16be read_u16be "\<lambda>_. True"
  unfolding write_u16be_def [abs_def] read_u16be_def by (rule be_field_canonical) simp_all

interpretation u32c: canonical_codec write_u32be read_u32be "\<lambda>_. True"
  unfolding write_u32be_def [abs_def] read_u32be_def by (rule be_field_canonical) simp_all

interpretation u64c: canonical_codec write_u64be read_u64be "\<lambda>_. True"
  unfolding write_u64be_def [abs_def] read_u64be_def by (rule be_field_canonical) simp_all

interpretation hashc: canonical_codec write_hash read_hash "\<lambda>_. True"
  unfolding write_hash_def [abs_def] read_hash_def by (rule be_field_canonical) simp_all

lemmas field_reads [codec_simps] =
  u8c.dec_enc [OF TrueI] u16c.dec_enc [OF TrueI] u32c.dec_enc [OF TrueI]
  u64c.dec_enc [OF TrueI] hashc.dec_enc [OF TrueI]

lemmas field_inverts = u8c.dec_iff u16c.dec_iff u32c.dec_iff u64c.dec_iff hashc.dec_iff

lemmas field_stable [intro] =
  u8c.stable_dec u16c.stable_dec u32c.stable_dec u64c.stable_dec hashc.stable_dec

lemma read_exact_field [codec_simps]:
  "unat (of_nat (length bs) :: 'a::len word) = length bs \<Longrightarrow>
     read_exact (unat (of_nat (length bs) :: 'a word)) (bs @ r) = Inr (bs, r)"
  by simp

lemma pbind_reads [codec_simps]:
  "p r = Inr (x, r') \<Longrightarrow> pbind p f r = f x r'"
  by (rule pbind_Inr)

section \<open>Nodes\<close>

definition wf_node :: "shamap_node \<Rightarrow> bool" where
  "wf_node n \<longleftrightarrow> length (node_content n) < 65536"

interpretation nodec: canonical_codec write_node read_node wf_node
proof
  fix n r
  assume "wf_node n"
  then show "read_node (write_node n @ r) = Inr (n, r)"
    by (simp add: read_node_def write_node_def wf_node_def codec_simps unat_of_nat16)
next
  show "no_lookahead read_node"
    unfolding read_node_def
    by (auto intro!: stable_pbind field_stable stable_read_exact stable_pret stable_pfail
        split: sum.splits)
next
  fix b n r
  assume "read_node b = Inr (n, r)"
  then obtain h r1 v r2 where b: "b = write_hash h @ r1" "r1 = write_u8 v @ r2"
    and rest: "(case node_type_try_from v of Inl _ \<Rightarrow> pfail (UnsupportedVersion v)
       | Inr t \<Rightarrow> pbind read_u16be (\<lambda>len. pbind (read_exact (unat len)) (\<lambda>content.
           pret \<lparr>node_hash = h, node_type = t, node_content = content\<rparr>))) r2 = Inr (n, r)"
    by (auto simp add: read_node_def pbind_eq_Inr field_inverts)
  show "b = write_node n @ r \<and> wf_node n"
  proof (cases "node_type_try_from v")
    case (Inr t)
    with rest b show ?thesis
      by (auto simp add: write_node_def wf_node_def pbind_eq_Inr field_inverts
          read_exact_Inr unat_less16)
  qed (use rest in simp)
qed

section \<open>Transactions\<close>

definition wf_tx :: "tx_record \<Rightarrow> bool" where
  "wf_tx t \<longleftrightarrow> length (tx_blob t) < 4294967296 \<and> length (meta_blob t) < 4294967296"

interpretation txc: canonical_codec write_tx read_tx wf_tx
proof
  fix t r
  assume "wf_tx t"
  then show "read_tx (write_tx t @ r) = Inr (t, r)"
    by (simp add: read_tx_def write_tx_def wf_tx_def codec_simps unat_of_nat32)
next
  show "no_lookahead read_tx"
    unfolding read_tx_def
    by (intro stable_pbind field_stable stable_read_exact stable_pret)
next
  fix b t r
  assume "read_tx b = Inr (t, r)"
  then show "b = write_tx t @ r \<and> wf_tx t"
    by (auto simp add: read_tx_def write_tx_def wf_tx_def pbind_eq_Inr field_inverts
        read_exact_Inr unat_less32)
qed

section \<open>Deltas and transaction maps\<close>

text \<open>The order a writer puts on disk.\<close>

definition canon_delta :: "ledger_delta \<Rightarrow> ledger_delta" where
  "canon_delta d =
     d\<lparr>ld_diff := \<lparr>diff_added = sort_key node_hash (diff_added (ld_diff d)),
                  diff_deleted = sort (diff_deleted (ld_diff d))\<rparr>\<rparr>"

definition canon_tx_map :: "tx_map \<Rightarrow> tx_map" where
  "canon_tx_map m = m\<lparr>tm_txns := sort_key tx_hash (tm_txns m)\<rparr>"

definition wf_delta :: "ledger_delta \<Rightarrow> bool" where
  "wf_delta d \<longleftrightarrow>
     list_all wf_node (diff_added (ld_diff d)) \<and>
     length (diff_added (ld_diff d)) < 4294967296 \<and>
     length (diff_deleted (ld_diff d)) < 4294967296"

definition wf_tx_map :: "tx_map \<Rightarrow> bool" where
  "wf_tx_map m \<longleftrightarrow> list_all wf_tx (tm_txns m) \<and> length (tm_txns m) < 65536"

lemma list_all_sort_key [simp]: "list_all P (sort_key f xs) \<longleftrightarrow> list_all P xs"
  by (simp add: list_all_iff)

lemma read_nodes [codec_simps]:
  "length ns = k \<Longrightarrow> list_all wf_node ns \<Longrightarrow>
     read_times k read_node (concat (map write_node ns) @ r) = Inr (ns, r)"
  using nodec.times_enc [of ns r] by simp

lemma read_hashes [codec_simps]:
  "length hs = k \<Longrightarrow> read_times k read_hash (concat (map write_hash hs) @ r) = Inr (hs, r)"
  using hashc.times_enc [of hs r] by (simp add: list_all_iff)

lemma read_txs [codec_simps]:
  "length ts = k \<Longrightarrow> list_all wf_tx ts \<Longrightarrow>
     read_times k read_tx (concat (map write_tx ts) @ r) = Inr (ts, r)"
  using txc.times_enc [of ts r] by simp

interpretation deltac: codec write_delta read_delta wf_delta canon_delta
proof
  fix d r
  assume "wf_delta d"
  then show "read_delta (write_delta d @ r) = Inr (canon_delta d, r)"
    by (simp add: read_delta_def write_delta_def wf_delta_def canon_delta_def Let_def
        codec_simps unat_of_nat32)
next
  show "no_lookahead read_delta"
    unfolding read_delta_def
    by (intro stable_pbind field_stable stable_read_times nodec.stable_dec stable_pret)
qed

interpretation txmapc: codec write_tx_map read_tx_map wf_tx_map canon_tx_map
proof
  fix m r
  assume "wf_tx_map m"
  then show "read_tx_map (write_tx_map m @ r) = Inr (canon_tx_map m, r)"
    by (simp add: read_tx_map_def write_tx_map_def wf_tx_map_def canon_tx_map_def
        codec_simps unat_of_nat16)
next
  show "no_lookahead read_tx_map"
    unfolding read_tx_map_def
    by (intro stable_pbind field_stable stable_read_times txc.stable_dec stable_pret)
qed

text \<open>One ledger of the streamed layout: its delta followed by its transactions.\<close>

interpretation ledgerc: codec "\<lambda>(d, m). write_delta d @ write_tx_map m" read_ledger
  "\<lambda>(d, m). wf_delta d \<and> wf_tx_map m" "map_prod canon_delta canon_tx_map"
proof
  fix x :: "ledger_delta \<times> tx_map" and r
  obtain d m where x: "x = (d, m)" by (cases x)
  assume "case x of (d, m) \<Rightarrow> wf_delta d \<and> wf_tx_map m"
  with x show "read_ledger ((case x of (d, m) \<Rightarrow> write_delta d @ write_tx_map m) @ r)
      = Inr (map_prod canon_delta canon_tx_map x, r)"
    by (simp add: read_ledger_def pbind_def deltac.dec_enc txmapc.dec_enc)
next
  show "no_lookahead read_ledger"
    unfolding read_ledger_def
    by (intro stable_pbind deltac.stable_dec txmapc.stable_dec stable_pret)
qed

text \<open>
  The interface of a list with a 32-bit count: whatever record it holds, the counted list
  is a codec again. The checkpoint is the instance for nodes.
\<close>

locale counted_codec = codec enc dec wf norm
  for enc :: "'a \<Rightarrow> byte list" and dec :: "(chunk_error, 'a) parser"
    and wf :: "'a \<Rightarrow> bool" and norm :: "'a \<Rightarrow> 'a" +
  fixes order :: "'a list \<Rightarrow> 'a list"
  assumes order_mset: "mset (order xs) = mset xs"
begin

lemma order_facts: "length (order xs) = length xs" "list_all wf (order xs) = list_all wf xs"
  by (metis order_mset size_mset) (metis order_mset list_all_iff set_mset_mset)

lemma counted_read:
  assumes "length xs < 4294967296" and "list_all wf xs"
  shows "pbind read_u32be (\<lambda>n. read_times (unat n) dec)
           (write_u32be (of_nat (length (order xs))) @ concat (map enc (order xs)) @ r)
         = Inr (map norm (order xs), r)"
  using assms times_enc [of "order xs" r]
  by (simp add: codec_simps unat_of_nat32 order_facts)

end

sublocale counted_codec \<subseteq> counted:
  codec "\<lambda>xs. write_u32be (of_nat (length (order xs))) @ concat (map enc (order xs))"
    "pbind read_u32be (\<lambda>n. read_times (unat n) dec)"
    "\<lambda>xs. length xs < 4294967296 \<and> list_all wf xs" "\<lambda>xs. map norm (order xs)"
  by unfold_locales
    (simp_all add: counted_read stable_pbind stable_read_times stable_dec u32c.stable_dec)

interpretation nodesc: counted_codec write_node read_node wf_node "\<lambda>n. n" "sort_key node_hash"
  by unfold_locales simp

lemma read_node_list_write:
  assumes "length ns < 4294967296" and "list_all wf_node ns"
  shows "read_node_list (write_node_list ns @ r) = Inr (sort_key node_hash ns, r)"
  using assms nodesc.counted.dec_enc [of ns r]
  by (simp add: read_node_list_def write_node_list_def Let_def)

lemma stable_read_node_list [intro]: "no_lookahead read_node_list"
  using nodesc.counted.stable_dec by (simp add: read_node_list_def)

end
