(* ===== verification/Chunk_Roundtrip.thy ===== *)
theory Chunk_Roundtrip
  imports Chunk_Codec
begin

text \<open>
  Whole chunk files: the round trip of the block layout (version 2), the hash check of
  deserialize_chunk, the independence of the bytes from the order in which a caller holds
  its nodes and transactions, and the names of chunk files.
\<close>

section \<open>The block layout round trip\<close>

definition canon_chunk :: "chunk \<Rightarrow> chunk" where
  "canon_chunk c =
     c\<lparr>ck_checkpoint := sort_key node_hash (ck_checkpoint c),
       ck_deltas := map canon_delta (ck_deltas c),
       ck_tx_maps := map canon_tx_map (ck_tx_maps c)\<rparr>"

definition wf_chunk :: "chunk \<Rightarrow> bool" where
  "wf_chunk c \<longleftrightarrow>
     length (ck_checkpoint c) < 4294967296 \<and>
     list_all wf_node (ck_checkpoint c) \<and>
     list_all wf_delta (ck_deltas c) \<and>
     list_all wf_tx_map (ck_tx_maps c) \<and>
     length (ck_deltas c) = unat (ck_end_ledger c - ck_start_ledger c) \<and>
     length (ck_tx_maps c) = length (ck_deltas c) + 1"

lemma magic_lengths [simp]: "length magic_header = 4" "length magic_footer = 4"
  by (simp_all add: magic_header_def magic_footer_def)

lemma versions_differ [simp]:
  "format_version \<noteq> format_version_streamed" "format_version_streamed \<noteq> format_version"
  by (simp_all add: format_version_def format_version_streamed_def)

lemma remaining_apply [simp]: "remaining r = Inr (r, r)"
  by (simp add: remaining_def)

lemma read_body_blocks_write:
  assumes "list_all wf_delta ds" and "list_all wf_tx_map ms" and "length ms = length ds + 1"
  shows "read_body_blocks (length ds) (concat (map write_delta ds) @ concat (map write_tx_map ms) @ r)
    = Inr ((map canon_delta ds, map canon_tx_map ms), r)"
proof -
  have "read_times (length ds + 1) read_tx_map (concat (map write_tx_map ms) @ r)
      = Inr (map canon_tx_map ms, r)"
    using txmapc.times_enc [OF assms(2), of r] assms(3) by simp
  then show ?thesis
    using deltac.times_enc [OF assms(1)]
    by (simp add: read_body_blocks_def pbind_def del: read_times.simps)
qed

text \<open>What parse_chunk does once the fixed-size header fields are known.\<close>

definition header_bytes ::
  "byte \<Rightarrow> u32 \<Rightarrow> u32 \<Rightarrow> u32 \<Rightarrow> hash256 \<Rightarrow> hash256 \<Rightarrow> byte list" where
  "header_bytes v net s e cp h =
     magic_header @ write_u8 v @ write_u32be net @ write_u32be s @ write_u32be e
     @ write_hash cp @ write_hash h"

lemma length_header_bytes [simp]: "length (header_bytes v net s e cp h) = 81"
  by (simp add: header_bytes_def write_defs)

lemma parse_chunk_header:
  assumes "v = format_version \<or> v = format_version_streamed"
  shows "parse_chunk H (header_bytes v net s e cp h @ body) =
    (if sha512half H body \<noteq> h then Inl (HashMismatch h (sha512half H body)) else
     pbind read_node_list (\<lambda>checkpoint.
     pbind (if v = format_version_streamed then read_body_streamed (unat (e - s))
            else read_body_blocks (unat (e - s))) (\<lambda>(deltas, tx_maps).
     pbind (read_exact 4) (\<lambda>footer.
     if footer \<noteq> magic_footer then pfail InvalidMagic else
     pret \<lparr>ck_network_id = net, ck_start_ledger = s, ck_end_ledger = e,
           ck_checkpoint_hash = cp, ck_chunk_hash = h, ck_checkpoint = checkpoint,
           ck_deltas = deltas, ck_tx_maps = tx_maps\<rparr>))) body)"
  using assms by (auto simp add: parse_chunk_def header_bytes_def codec_simps Let_def)

lemma deserialize_serialize:
  assumes "wf_chunk c"
  shows "deserialize_chunk H (serialize_chunk H c) =
    Inr (canon_chunk c\<lparr>ck_chunk_hash := sha512half H (serialize_body c)\<rparr>)"
proof -
  have cp: "read_node_list (serialize_body c) =
      Inr (sort_key node_hash (ck_checkpoint c), concat (map write_delta (ck_deltas c))
        @ concat (map write_tx_map (ck_tx_maps c)) @ magic_footer)"
    using assms by (simp add: serialize_body_def wf_chunk_def read_node_list_write)
  have body: "read_body_blocks (unat (ck_end_ledger c - ck_start_ledger c))
      (concat (map write_delta (ck_deltas c)) @ concat (map write_tx_map (ck_tx_maps c))
        @ magic_footer)
      = Inr ((map canon_delta (ck_deltas c), map canon_tx_map (ck_tx_maps c)), magic_footer)"
    using assms read_body_blocks_write [of "ck_deltas c" "ck_tx_maps c" magic_footer]
    by (simp add: wf_chunk_def)
  have footer: "read_exact 4 magic_footer = Inr (magic_footer, [])"
    using read_exact_append [of magic_footer 4 "[]"] by simp
  have "serialize_chunk H c = header_bytes format_version (ck_network_id c) (ck_start_ledger c)
      (ck_end_ledger c) (ck_checkpoint_hash c) (sha512half H (serialize_body c)) @ serialize_body c"
    by (simp add: serialize_chunk_def header_bytes_def Let_def)
  then show ?thesis
    by (simp add: deserialize_chunk_def parse_chunk_header canon_chunk_def pbind_def
        cp body footer)
qed

section \<open>The hash check\<close>

text \<open>A successful parse consumed an 81-byte header whose hash field is the hash of the rest.\<close>

lemma parse_chunk_InrD:
  assumes "parse_chunk H data = Inr z"
  shows "\<exists>v net s e cp h body. (v = format_version \<or> v = format_version_streamed) \<and>
    data = header_bytes v net s e cp h @ body"
  using assms unfolding parse_chunk_def header_bytes_def append_assoc
  by (clarsimp simp add: pbind_eq_Inr read_exact_Inr field_inverts Let_def
      split: if_split_asm simp del: ex_simps)
    ((rule exI)+, rule conjI [rotated], rule refl, simp)+

lemma deserialize_InrD:
  assumes "deserialize_chunk H data = Inr c"
  obtains v body where "v = format_version \<or> v = format_version_streamed"
    and "data = header_bytes v (ck_network_id c) (ck_start_ledger c) (ck_end_ledger c)
           (ck_checkpoint_hash c) (ck_chunk_hash c) @ body"
    and "ck_chunk_hash c = sha512half H body"
proof -
  from assms obtain r where p: "parse_chunk H data = Inr (c, r)"
    by (auto simp add: deserialize_chunk_def rbind_eq_Inr)
  then obtain v net s e cp h body
    where hv: "v = format_version \<or> v = format_version_streamed"
      and d: "data = header_bytes v net s e cp h @ body"
    using parse_chunk_InrD by metis
  have p': "parse_chunk H (header_bytes v net s e cp h @ body) = Inr (c, r)"
    using p d by simp
  have h: "sha512half H body = h"
    using p' unfolding parse_chunk_header [OF hv] by (simp split: if_split_asm)
  have f: "ck_network_id c = net \<and> ck_start_ledger c = s \<and> ck_end_ledger c = e
      \<and> ck_checkpoint_hash c = cp \<and> ck_chunk_hash c = h"
    using p' unfolding parse_chunk_header [OF hv] pbind_eq_Inr case_prod_beta
    by (clarsimp simp add: h pbind_eq_Inr split: if_split_asm)
  show thesis
  proof (rule that [OF hv])
    show "data = header_bytes v (ck_network_id c) (ck_start_ledger c) (ck_end_ledger c)
        (ck_checkpoint_hash c) (ck_chunk_hash c) @ body"
      using d f by simp
    show "ck_chunk_hash c = sha512half H body" using h f by simp
  qed
qed

lemma deserialize_hash_checked:
  assumes "deserialize_chunk H data = Inr c"
  shows "ck_chunk_hash c = sha512half H (drop 81 data)"
  using deserialize_InrD [OF assms] by fastforce

lemma deserialize_tampered:
  assumes "deserialize_chunk H data = Inr c" and "deserialize_chunk H data' = Inr c'"
    and "take 81 data = take 81 data'" and "data \<noteq> data'"
  shows "collision H (drop 81 data) (drop 81 data')"
proof -
  obtain v b where d: "data = header_bytes v (ck_network_id c) (ck_start_ledger c)
      (ck_end_ledger c) (ck_checkpoint_hash c) (ck_chunk_hash c) @ b"
    and h: "ck_chunk_hash c = sha512half H b"
    using deserialize_InrD [OF assms(1)] by metis
  obtain v' b' where d': "data' = header_bytes v' (ck_network_id c') (ck_start_ledger c')
      (ck_end_ledger c') (ck_checkpoint_hash c') (ck_chunk_hash c') @ b'"
    and h': "ck_chunk_hash c' = sha512half H b'"
    using deserialize_InrD [OF assms(2)] by metis
  have "take 81 data = header_bytes v (ck_network_id c) (ck_start_ledger c)
      (ck_end_ledger c) (ck_checkpoint_hash c) (ck_chunk_hash c)"
    unfolding d by simp
  moreover have "take 81 data' = header_bytes v' (ck_network_id c') (ck_start_ledger c')
      (ck_end_ledger c') (ck_checkpoint_hash c') (ck_chunk_hash c')"
    unfolding d' by simp
  ultimately have "ck_chunk_hash c = ck_chunk_hash c'" and "b \<noteq> b'"
    using assms(3,4) d d'
    by (auto simp add: header_bytes_def write_defs to_be_bytes_inject)
  with h h' show ?thesis unfolding collision_def by (simp add: d d')
qed

section \<open>Determinism\<close>

text \<open>
  Two collections with the same elements are written to the same bytes, in whatever order
  the caller holds them (a HashMap gives no order), provided no two elements share a key.
\<close>

lemma sort_key_perm:
  assumes "mset xs = mset ys" and "inj_on f (set xs)"
  shows "sort_key f xs = sort_key f ys"
proof -
  have "set xs = set ys" using assms(1) by (metis set_mset_mset)
  with assms show ?thesis
    by (intro sort_key_inj_key_eq) simp_all
qed

lemma write_node_list_perm:
  "mset ns = mset ms \<Longrightarrow> inj_on node_hash (set ns) \<Longrightarrow> write_node_list ns = write_node_list ms"
  by (simp add: write_node_list_def sort_key_perm [of ns ms])

definition same_delta :: "ledger_delta \<Rightarrow> ledger_delta \<Rightarrow> bool" where
  "same_delta d e \<longleftrightarrow>
     ld_ledger_seq d = ld_ledger_seq e \<and>
     mset (diff_added (ld_diff d)) = mset (diff_added (ld_diff e)) \<and>
     inj_on node_hash (set (diff_added (ld_diff d))) \<and>
     mset (diff_deleted (ld_diff d)) = mset (diff_deleted (ld_diff e))"

definition same_tx_map :: "tx_map \<Rightarrow> tx_map \<Rightarrow> bool" where
  "same_tx_map m k \<longleftrightarrow>
     m\<lparr>tm_txns := []\<rparr> = k\<lparr>tm_txns := []\<rparr> \<and>
     mset (tm_txns m) = mset (tm_txns k) \<and> inj_on tx_hash (set (tm_txns m))"

definition same_chunk :: "chunk \<Rightarrow> chunk \<Rightarrow> bool" where
  "same_chunk c k \<longleftrightarrow>
     ck_network_id c = ck_network_id k \<and> ck_start_ledger c = ck_start_ledger k \<and>
     ck_end_ledger c = ck_end_ledger k \<and> ck_checkpoint_hash c = ck_checkpoint_hash k \<and>
     mset (ck_checkpoint c) = mset (ck_checkpoint k) \<and>
     inj_on node_hash (set (ck_checkpoint c)) \<and>
     list_all2 same_delta (ck_deltas c) (ck_deltas k) \<and>
     list_all2 same_tx_map (ck_tx_maps c) (ck_tx_maps k)"

lemma write_delta_perm:
  assumes "same_delta d e"
  shows "write_delta d = write_delta e"
proof -
  have "sort_key node_hash (diff_added (ld_diff d)) = sort_key node_hash (diff_added (ld_diff e))"
    using assms by (intro sort_key_perm) (simp_all add: same_delta_def)
  moreover have "sort (diff_deleted (ld_diff d)) = sort (diff_deleted (ld_diff e))"
    using assms by (intro sort_key_perm) (simp_all add: same_delta_def)
  ultimately show ?thesis
    using assms by (simp add: write_delta_def same_delta_def Let_def del: length_sort)
qed

lemma write_tx_map_perm:
  assumes "same_tx_map m k"
  shows "write_tx_map m = write_tx_map k"
proof -
  have "sort_key tx_hash (tm_txns m) = sort_key tx_hash (tm_txns k)"
    using assms by (intro sort_key_perm) (simp_all add: same_tx_map_def)
  moreover have "length (tm_txns m) = length (tm_txns k)"
    using assms by (metis same_tx_map_def size_mset)
  ultimately show ?thesis
    using assms by (cases m; cases k) (simp add: write_tx_map_def same_tx_map_def)
qed

lemma map_all2_eq: "list_all2 R xs ys \<Longrightarrow> (\<And>x y. R x y \<Longrightarrow> f x = f y) \<Longrightarrow> map f xs = map f ys"
  by (induction rule: list_all2_induct) auto

lemma serialize_body_perm:
  assumes "same_chunk c k"
  shows "serialize_body c = serialize_body k"
proof -
  have "map write_delta (ck_deltas c) = map write_delta (ck_deltas k)"
    using assms by (intro map_all2_eq [where R = same_delta] write_delta_perm)
      (simp_all add: same_chunk_def)
  moreover have "map write_tx_map (ck_tx_maps c) = map write_tx_map (ck_tx_maps k)"
    using assms by (intro map_all2_eq [where R = same_tx_map] write_tx_map_perm)
      (simp_all add: same_chunk_def)
  moreover have "write_node_list (ck_checkpoint c) = write_node_list (ck_checkpoint k)"
    using assms by (intro write_node_list_perm) (simp_all add: same_chunk_def)
  ultimately show ?thesis by (simp add: serialize_body_def)
qed

lemma serialize_chunk_perm: "same_chunk c k \<Longrightarrow> serialize_chunk H c = serialize_chunk H k"
  using serialize_body_perm [of c k] by (simp add: serialize_chunk_def same_chunk_def)

section \<open>Properties\<close>

text \<open>
  C18: Reading back a serialized chunk returns the chunk with its lists in the order of the
  file (sorted by hash) and its chunk hash set, whenever every list and blob fits the width of
  its length field and the ledgers match the range of the header.
\<close>

theorem chunk_round_trip:
  assumes "wf_chunk c"
  shows "deserialize_chunk H (serialize_chunk H c) =
    Inr (canon_chunk c\<lparr>ck_chunk_hash := sha512half H (serialize_body c)\<rparr>)"
  using deserialize_serialize [OF assms] .

definition sample_tx_map :: "u32 \<Rightarrow> tx_record list \<Rightarrow> tx_map" where
  "sample_tx_map seq txns =
     \<lparr>tm_ledger_seq = seq, tm_ledger_hash = 5, tm_account_hash = 6, tm_drops = 1000,
      tm_parent_close_time = 10, tm_close_time = 20, tm_close_time_resolution = 10,
      tm_close_flags = 0, tm_txns = txns\<rparr>"

definition sample_chunk :: chunk where
  "sample_chunk =
     \<lparr>ck_network_id = 1, ck_start_ledger = 100, ck_end_ledger = 101, ck_checkpoint_hash = 9,
      ck_chunk_hash = 0,
      ck_checkpoint = [\<lparr>node_hash = 4, node_type = AccountState, node_content = [1, 2]\<rparr>,
                       \<lparr>node_hash = 3, node_type = Inner, node_content = [7]\<rparr>],
      ck_deltas = [\<lparr>ld_ledger_seq = 101, ld_diff = \<lparr>diff_added = [], diff_deleted = [4, 3]\<rparr>\<rparr>],
      ck_tx_maps = [sample_tx_map 100 [],
                    sample_tx_map 101 [\<lparr>tx_hash = 2, tx_blob = [1], meta_blob = []\<rparr>]]\<rparr>"

lemma chunk_round_trip_witness:
  "deserialize_chunk (\<lambda>b. of_nat (length b)) (serialize_chunk (\<lambda>b. of_nat (length b)) sample_chunk) =
    Inr (canon_chunk sample_chunk\<lparr>ck_chunk_hash :=
      sha512half (\<lambda>b. of_nat (length b)) (serialize_body sample_chunk)\<rparr>)"
  by (rule chunk_round_trip)
    (simp add: wf_chunk_def sample_chunk_def sample_tx_map_def wf_node_def wf_delta_def
      wf_tx_map_def wf_tx_def)

text \<open>
  C24: Two different chunk files with the same 81-byte header are never both accepted, unless
  their bodies are a SHA-512Half collision: any change after the header is detected.
\<close>

theorem chunk_tampering_detected:
  assumes "deserialize_chunk H data = Inr c" and "deserialize_chunk H data' = Inr c'"
    and "take 81 data = take 81 data'" and "data \<noteq> data'"
  shows "collision H (drop 81 data) (drop 81 data')"
  using deserialize_tampered [OF assms] .

lemma chunk_tampering_detected_witness:
  "collision (\<lambda>_. 0) (drop 81 (serialize_chunk (\<lambda>_. 0) sample_chunk))
     (drop 81 (serialize_chunk (\<lambda>_. 0) (sample_chunk\<lparr>ck_checkpoint := []\<rparr>)))"
proof (rule chunk_tampering_detected)
  have "wf_chunk sample_chunk" "wf_chunk (sample_chunk\<lparr>ck_checkpoint := []\<rparr>)"
    by (simp_all add: wf_chunk_def sample_chunk_def sample_tx_map_def wf_node_def wf_delta_def
        wf_tx_map_def wf_tx_def)
  then show "deserialize_chunk (\<lambda>_. 0) (serialize_chunk (\<lambda>_. 0) sample_chunk)
      = Inr (canon_chunk sample_chunk\<lparr>ck_chunk_hash := sha512half (\<lambda>_. 0) (serialize_body sample_chunk)\<rparr>)"
    and "deserialize_chunk (\<lambda>_. 0) (serialize_chunk (\<lambda>_. 0) (sample_chunk\<lparr>ck_checkpoint := []\<rparr>))
      = Inr (canon_chunk (sample_chunk\<lparr>ck_checkpoint := []\<rparr>)\<lparr>ck_chunk_hash :=
          sha512half (\<lambda>_. 0) (serialize_body (sample_chunk\<lparr>ck_checkpoint := []\<rparr>))\<rparr>)"
    by (simp_all only: deserialize_serialize)
  show "take 81 (serialize_chunk (\<lambda>_. 0) sample_chunk)
      = take 81 (serialize_chunk (\<lambda>_. 0) (sample_chunk\<lparr>ck_checkpoint := []\<rparr>))"
    by (simp add: serialize_chunk_def sample_chunk_def write_defs sha512half_def Let_def)
  show "serialize_chunk (\<lambda>_. 0) sample_chunk
      \<noteq> serialize_chunk (\<lambda>_. 0) (sample_chunk\<lparr>ck_checkpoint := []\<rparr>)"
    by (simp add: serialize_chunk_def sample_chunk_def serialize_body_def write_node_list_def
        write_defs sha512half_def Let_def to_be_bytes_inject)
qed

text \<open>
  The bytes of a chunk do not depend on the order in which the exporter holds its nodes,
  deleted hashes and transactions: chunks with the same contents (and no two elements with one
  key) serialize to the same file, hence to the same chunk hash.
\<close>

theorem chunk_bytes_deterministic:
  assumes "same_chunk c k"
  shows "serialize_chunk H c = serialize_chunk H k"
  using serialize_chunk_perm [OF assms] .

lemma chunk_bytes_deterministic_witness:
  "serialize_chunk (\<lambda>_. 3) sample_chunk
     = serialize_chunk (\<lambda>_. 3) (sample_chunk\<lparr>ck_checkpoint := rev (ck_checkpoint sample_chunk)\<rparr>)"
  by (rule chunk_bytes_deterministic)
    (simp add: same_chunk_def same_delta_def same_tx_map_def sample_chunk_def sample_tx_map_def)

end
