(* ===== verification/Chunk_Stream.thy ===== *)
theory Chunk_Stream
  imports Chunk_Roundtrip File_System
begin

text \<open>
  The streaming writer and reader of crates/xrla-common/src/serialize.rs (ChunkWriter,
  HashingReader, ChunkReader; format version 3). The file system is a map from paths to file
  contents; the running Sha512 is the list of bytes fed to it, and its digest the hash of
  that list. Reads and writes that fail in the operating system are not modelled.
\<close>

section \<open>The streaming writer\<close>

record chunk_writer =
  cw_tmp_path :: string
  cw_final_path :: string
  cw_hasher :: "byte list option"
  cw_chunk_hash_offset :: nat
  cw_finished :: bool

definition writer_create ::
  "file_system \<Rightarrow> string \<Rightarrow> u32 \<Rightarrow> u32 \<Rightarrow> u32 \<Rightarrow> hash256 \<Rightarrow> file_system \<times> chunk_writer" where
  "writer_create fs final_path network_id start_ledger end_ledger checkpoint_hash =
     (let tmp_path = final_path @ ''.tmp'';
          fs = fs(tmp_path \<mapsto> []);
          fs = append_file fs tmp_path magic_header;
          fs = append_file fs tmp_path (write_u8 format_version_streamed);
          fs = append_file fs tmp_path (write_u32be network_id);
          fs = append_file fs tmp_path (write_u32be start_ledger);
          fs = append_file fs tmp_path (write_u32be end_ledger);
          fs = append_file fs tmp_path (write_hash checkpoint_hash);
          chunk_hash_offset = length (file_bytes fs tmp_path);
          fs = append_file fs tmp_path (replicate 32 0)
      in (fs, \<lparr>cw_tmp_path = tmp_path, cw_final_path = final_path, cw_hasher = Some [],
               cw_chunk_hash_offset = chunk_hash_offset, cw_finished = False\<rparr>))"

definition writer_body ::
  "file_system \<times> chunk_writer \<Rightarrow> byte list \<Rightarrow> file_system \<times> chunk_writer" where
  "writer_body st buf =
     (let (fs, w) = st
      in (append_file fs (cw_tmp_path w) buf,
          w\<lparr>cw_hasher := map_option (\<lambda>h. h @ buf) (cw_hasher w)\<rparr>))"

definition writer_checkpoint ::
  "file_system \<times> chunk_writer \<Rightarrow> shamap_node list \<Rightarrow> file_system \<times> chunk_writer" where
  "writer_checkpoint st nodes =
     (let nodes = sort_key node_hash nodes;
          st = writer_body st (write_u32be (of_nat (length nodes)))
      in foldl (\<lambda>st n. writer_body st (write_node n)) st nodes)"

definition writer_delta ::
  "file_system \<times> chunk_writer \<Rightarrow> ledger_delta \<Rightarrow> file_system \<times> chunk_writer" where
  "writer_delta st d = writer_body st (write_delta d)"

definition writer_tx_map ::
  "file_system \<times> chunk_writer \<Rightarrow> tx_map \<Rightarrow> file_system \<times> chunk_writer" where
  "writer_tx_map st m = writer_body st (write_tx_map m)"

text \<open>Footer, digest, the hash patched in at its offset, rename; the digest is returned.\<close>

definition writer_finish ::
  "sha512 \<Rightarrow> file_system \<times> chunk_writer \<Rightarrow> (file_system \<times> chunk_writer) \<times> hash256" where
  "writer_finish H st =
     (let (fs, w) = writer_body st magic_footer;
          chunk_hash = sha512half H (the (cw_hasher w));
          file = file_bytes fs (cw_tmp_path w);
          offset = cw_chunk_hash_offset w;
          patched = take offset file @ to_be_bytes chunk_hash @ drop (offset + 32) file;
          fs = fs(cw_final_path w \<mapsto> patched, cw_tmp_path w := None)
      in ((fs, w\<lparr>cw_hasher := None, cw_finished := True\<rparr>), chunk_hash))"

definition writer_drop :: "file_system \<times> chunk_writer \<Rightarrow> file_system" where
  "writer_drop st =
     (let (fs, w) = st in if \<not> cw_finished w then fs(cw_tmp_path w := None) else fs)"

text \<open>The calls a client may make between create and finish.\<close>

datatype writer_op =
    WCheckpoint "shamap_node list"
  | WDelta ledger_delta
  | WTxMap tx_map

fun writer_step :: "file_system \<times> chunk_writer \<Rightarrow> writer_op \<Rightarrow> file_system \<times> chunk_writer" where
  "writer_step st (WCheckpoint ns) = writer_checkpoint st ns"
| "writer_step st (WDelta d) = writer_delta st d"
| "writer_step st (WTxMap m) = writer_tx_map st m"

fun op_bytes :: "writer_op \<Rightarrow> byte list" where
  "op_bytes (WCheckpoint ns) = write_node_list ns"
| "op_bytes (WDelta d) = write_delta d"
| "op_bytes (WTxMap m) = write_tx_map m"

text \<open>
  The invariant of an open writer over the file system \<open>fs0\<close> it was created in: only the
  temporary file differs, it holds the header with a zero hash followed by exactly the bytes
  hashed so far.
\<close>

definition writer_inv ::
  "file_system \<Rightarrow> string \<Rightarrow> byte list \<Rightarrow> byte list \<Rightarrow> file_system \<times> chunk_writer \<Rightarrow> bool" where
  "writer_inv fs0 final_path header body st \<longleftrightarrow>
     (let (fs, w) = st in
        cw_tmp_path w = final_path @ ''.tmp'' \<and> cw_final_path w = final_path \<and>
        cw_hasher w = Some body \<and> cw_chunk_hash_offset w = 49 \<and> \<not> cw_finished w \<and>
        length header = 49 \<and>
        fs = fs0(final_path @ ''.tmp'' \<mapsto> header @ replicate 32 0 @ body))"

definition stream_header :: "u32 \<Rightarrow> u32 \<Rightarrow> u32 \<Rightarrow> hash256 \<Rightarrow> byte list" where
  "stream_header net s e cp =
     magic_header @ write_u8 format_version_streamed @ write_u32be net @ write_u32be s
     @ write_u32be e @ write_hash cp"

lemma writer_create_inv:
  "writer_inv fs p (stream_header net s e cp) [] (writer_create fs p net s e cp)"
  by (simp add: writer_inv_def writer_create_def stream_header_def append_file_def
      file_bytes_def Let_def write_defs)

lemma writer_body_inv:
  "writer_inv fs0 p hdr b st \<Longrightarrow> writer_inv fs0 p hdr (b @ buf) (writer_body st buf)"
  by (cases st) (simp add: writer_inv_def writer_body_def append_file_def file_bytes_def)

lemma writer_bodies_inv:
  "writer_inv fs0 p hdr b st \<Longrightarrow>
     writer_inv fs0 p hdr (b @ concat (map f xs)) (foldl (\<lambda>st x. writer_body st (f x)) st xs)"
proof (induction xs arbitrary: b st)
  case (Cons x xs)
  have "writer_inv fs0 p hdr (b @ f x) (writer_body st (f x))"
    by (rule writer_body_inv [OF Cons.prems])
  from Cons.IH [OF this] show ?case by simp
qed simp

lemma writer_step_inv:
  assumes "writer_inv fs0 p hdr b st"
  shows "writer_inv fs0 p hdr (b @ op_bytes op) (writer_step st op)"
proof (cases op)
  case (WCheckpoint ns)
  let ?ns = "sort_key node_hash ns"
  have "writer_inv fs0 p hdr (b @ write_u32be (of_nat (length ?ns)))
      (writer_body st (write_u32be (of_nat (length ?ns))))"
    by (rule writer_body_inv [OF assms])
  from writer_bodies_inv [OF this, of write_node ?ns] WCheckpoint show ?thesis
    by (simp add: writer_checkpoint_def write_node_list_def Let_def)
qed (simp_all add: writer_delta_def writer_tx_map_def writer_body_inv [OF assms])

lemma writer_run_inv:
  "writer_inv fs0 p hdr b st \<Longrightarrow>
     writer_inv fs0 p hdr (b @ concat (map op_bytes ops)) (foldl writer_step st ops)"
proof (induction ops arbitrary: b st)
  case (Cons op ops)
  have "writer_inv fs0 p hdr (b @ op_bytes op) (writer_step st op)"
    by (rule writer_step_inv [OF Cons.prems])
  from Cons.IH [OF this] show ?case by simp
qed simp

text \<open>Dropping an unfinished writer leaves the file system as it was, less the temporary.\<close>

lemma writer_drop_unfinished:
  "writer_inv fs0 p hdr b st \<Longrightarrow> writer_drop st = fs0(p @ ''.tmp'' := None)"
  by (cases st) (auto simp add: writer_inv_def writer_drop_def)

lemma writer_finish_file:
  assumes "writer_inv fs0 p hdr b st"
  shows "writer_finish H st =
    ((fs0(p \<mapsto> hdr @ to_be_bytes (sha512half H (b @ magic_footer)) @ b @ magic_footer,
          p @ ''.tmp'' := None),
      \<lparr>cw_tmp_path = p @ ''.tmp'', cw_final_path = p, cw_hasher = None,
       cw_chunk_hash_offset = 49, cw_finished = True\<rparr>),
     sha512half H (b @ magic_footer))"
proof -
  have "writer_inv fs0 p hdr (b @ magic_footer) (writer_body st magic_footer)"
    by (rule writer_body_inv [OF assms])
  then show ?thesis
    by (cases "writer_body st magic_footer"; cases "snd (writer_body st magic_footer)")
      (auto simp add: writer_inv_def writer_finish_def file_bytes_def Let_def)
qed

text \<open>The order in which the exporter writes a chunk.\<close>

definition stream_ops :: "shamap_node list \<Rightarrow> tx_map \<Rightarrow> (ledger_delta \<times> tx_map) list \<Rightarrow> writer_op list" where
  "stream_ops cp m0 ls = WCheckpoint cp # WTxMap m0 # concat (map (\<lambda>(d, m). [WDelta d, WTxMap m]) ls)"

definition stream_file ::
  "sha512 \<Rightarrow> file_system \<Rightarrow> string \<Rightarrow> u32 \<Rightarrow> u32 \<Rightarrow> u32 \<Rightarrow> hash256 \<Rightarrow> writer_op list \<Rightarrow> file_system" where
  "stream_file H fs p net s e cp ops =
     writer_drop (fst (writer_finish H (foldl writer_step (writer_create fs p net s e cp) ops)))"

definition stream_body :: "shamap_node list \<Rightarrow> tx_map \<Rightarrow> (ledger_delta \<times> tx_map) list \<Rightarrow> byte list" where
  "stream_body cp m0 ls =
     write_node_list cp @ write_tx_map m0
     @ concat (map (\<lambda>(d, m). write_delta d @ write_tx_map m) ls) @ magic_footer"

lemma stream_ops_bytes:
  "concat (map op_bytes (stream_ops cp m0 ls)) @ magic_footer = stream_body cp m0 ls"
proof -
  have "concat (map op_bytes (concat (map (\<lambda>(d, m). [WDelta d, WTxMap m]) ls)))
      = concat (map (\<lambda>(d, m). write_delta d @ write_tx_map m) ls)"
    by (induction ls) auto
  then show ?thesis by (simp add: stream_ops_def stream_body_def)
qed

lemma stream_header_hash:
  "stream_header net s e cp @ to_be_bytes h = header_bytes format_version_streamed net s e cp h"
  by (simp add: stream_header_def header_bytes_def write_defs)

lemma stream_file_eq:
  "stream_file H fs p net s e cp (stream_ops ns m0 ls) =
     fs(p \<mapsto> header_bytes format_version_streamed net s e cp
               (sha512half H (stream_body ns m0 ls)) @ stream_body ns m0 ls,
        p @ ''.tmp'' := None)"
proof -
  have "writer_inv fs p (stream_header net s e cp) (concat (map op_bytes (stream_ops ns m0 ls)))
      (foldl writer_step (writer_create fs p net s e cp) (stream_ops ns m0 ls))"
    using writer_run_inv [OF writer_create_inv] by simp
  from writer_finish_file [OF this, of H] show ?thesis
    by (simp add: stream_file_def writer_drop_def stream_ops_bytes flip: stream_header_hash)
qed

text \<open>What a streamed file is read back as by the buffered reader.\<close>

definition wf_stream :: "u32 \<Rightarrow> u32 \<Rightarrow> shamap_node list \<Rightarrow> tx_map \<Rightarrow> (ledger_delta \<times> tx_map) list \<Rightarrow> bool" where
  "wf_stream s e ns m0 ls \<longleftrightarrow>
     length ns < 4294967296 \<and> list_all wf_node ns \<and> wf_tx_map m0 \<and>
     list_all (\<lambda>(d, m). wf_delta d \<and> wf_tx_map m) ls \<and> length ls = unat (e - s)"

definition stream_chunk ::
  "u32 \<Rightarrow> u32 \<Rightarrow> u32 \<Rightarrow> hash256 \<Rightarrow> hash256 \<Rightarrow> shamap_node list \<Rightarrow> tx_map \<Rightarrow>
     (ledger_delta \<times> tx_map) list \<Rightarrow> chunk" where
  "stream_chunk net s e cp h ns m0 ls =
     \<lparr>ck_network_id = net, ck_start_ledger = s, ck_end_ledger = e, ck_checkpoint_hash = cp,
      ck_chunk_hash = h, ck_checkpoint = sort_key node_hash ns,
      ck_deltas = map (canon_delta \<circ> fst) ls,
      ck_tx_maps = canon_tx_map m0 # map (canon_tx_map \<circ> snd) ls\<rparr>"

lemma read_body_streamed_write:
  assumes "wf_tx_map m0" and "list_all (\<lambda>(d, m). wf_delta d \<and> wf_tx_map m) ls"
  shows "read_body_streamed (length ls)
      (write_tx_map m0 @ concat (map (\<lambda>(d, m). write_delta d @ write_tx_map m) ls) @ r)
    = Inr ((map (canon_delta \<circ> fst) ls, canon_tx_map m0 # map (canon_tx_map \<circ> snd) ls), r)"
  using txmapc.dec_enc [OF assms(1)] ledgerc.times_enc [OF assms(2), of r]
  by (simp add: read_body_streamed_def pbind_def)

lemma parse_stream_body:
  assumes "wf_stream s e ns m0 ls"
  defines "b \<equiv> stream_body ns m0 ls"
  shows "parse_chunk H (header_bytes format_version_streamed net s e cp (sha512half H b) @ b) =
    Inr (stream_chunk net s e cp (sha512half H b) ns m0 ls, [])"
proof -
  let ?r = "write_tx_map m0 @ concat (map (\<lambda>(d, m). write_delta d @ write_tx_map m) ls) @ magic_footer"
  have cp: "read_node_list b = Inr (sort_key node_hash ns, ?r)"
    using assms by (simp add: stream_body_def wf_stream_def read_node_list_write)
  have body: "read_body_streamed (unat (e - s)) ?r =
      Inr ((map (canon_delta \<circ> fst) ls, canon_tx_map m0 # map (canon_tx_map \<circ> snd) ls), magic_footer)"
    using assms(1) read_body_streamed_write [of m0 ls magic_footer] by (simp add: wf_stream_def)
  have footer: "read_exact 4 magic_footer = Inr (magic_footer, [])"
    using read_exact_append [of magic_footer 4 "[]"] by simp
  show ?thesis
    by (simp add: parse_chunk_header stream_chunk_def pbind_def cp body footer)
qed

lemma deserialize_stream_body:
  assumes "wf_stream s e ns m0 ls"
  defines "b \<equiv> stream_body ns m0 ls"
  shows "deserialize_chunk H
      (header_bytes format_version_streamed net s e cp (sha512half H b) @ b)
    = Inr (stream_chunk net s e cp (sha512half H b) ns m0 ls)"
  unfolding b_def by (simp add: deserialize_chunk_def parse_stream_body [OF assms(1)])

section \<open>Properties\<close>

text \<open>
  C19: A chunk written by ChunkWriter in the exporter's order (checkpoint, its transactions,
  then delta and transactions ledger by ledger) and finished is, under its final path, a file
  that deserialize_chunk reads back as that chunk; the temporary file is gone and no other
  file has changed.
\<close>

theorem streamed_chunk_reads_back:
  assumes "wf_stream s e ns m0 ls"
  shows "\<exists>file h. stream_file H fs p net s e cp (stream_ops ns m0 ls)
      = fs(p \<mapsto> file, p @ ''.tmp'' := None) \<and>
    deserialize_chunk H file = Inr (stream_chunk net s e cp h ns m0 ls)"
  using deserialize_stream_body [OF assms] stream_file_eq by blast

lemma streamed_chunk_reads_back_witness:
  "\<exists>file h. stream_file (\<lambda>_. 3) Map.empty ''a.xrla'' 1 100 101 9
      (stream_ops (ck_checkpoint sample_chunk) (sample_tx_map 100 [])
        [(hd (ck_deltas sample_chunk), sample_tx_map 101 [])])
      = Map.empty(''a.xrla'' \<mapsto> file, ''a.xrla'' @ ''.tmp'' := None) \<and>
    deserialize_chunk (\<lambda>_. 3) file = Inr (stream_chunk 1 100 101 9 h (ck_checkpoint sample_chunk)
      (sample_tx_map 100 []) [(hd (ck_deltas sample_chunk), sample_tx_map 101 [])])"
  by (rule streamed_chunk_reads_back)
    (simp add: wf_stream_def sample_chunk_def sample_tx_map_def wf_node_def wf_delta_def
      wf_tx_map_def)

text \<open>
  A writer that is dropped before finish, after any sequence of operations, leaves every
  file as it was and removes its temporary file: no partial chunk ever appears under a final
  path.
\<close>

theorem dropped_writer_leaves_nothing:
  "writer_drop (foldl writer_step (writer_create fs p net s e cp) ops) = fs(p @ ''.tmp'' := None)"
  using writer_drop_unfinished [OF writer_run_inv [OF writer_create_inv]] .

end
