(* ===== verification/Chunk_Reader.thy ===== *)
theory Chunk_Reader
  imports Chunk_Stream
begin

text \<open>
  The streaming reader of crates/xrla-common/src/serialize.rs (HashingReader, ChunkReader).
  The reader state holds the bytes of the file not yet read and the bytes fed to the running
  Sha512 so far. The lemmas show that reading a chunk piece by piece sees exactly what the
  buffered reader sees, and where the two differ: bytes after the footer.
\<close>

section \<open>The reader and its operations\<close>

record chunk_reader =
  cr_rest :: "byte list"
  cr_hashed :: "byte list"
  cr_network_id :: u32
  cr_start_ledger :: u32
  cr_end_ledger :: u32
  cr_checkpoint_hash :: hash256
  cr_stored_chunk_hash :: hash256
  cr_deltas_remaining :: u32

datatype reader_error =
    ReaderChunk chunk_error
  | NotStreamed byte

text \<open>HashingReader: every byte a read consumes is fed to the hasher.\<close>

definition hashing ::
  "(chunk_error, 'a) parser \<Rightarrow> chunk_reader \<Rightarrow> chunk_error + 'a \<times> chunk_reader" where
  "hashing p cr =
     rbind (p (cr_rest cr)) (\<lambda>(x, rest).
       Inr (x, cr\<lparr>cr_rest := rest,
                 cr_hashed := cr_hashed cr
                   @ take (length (cr_rest cr) - length rest) (cr_rest cr)\<rparr>))"

text \<open>
  ChunkReader::open. \<open>ReaderChunk\<close> wraps the error of a read or of the magic check, as the
  \<open>?\<close> operator does; the header bytes are not hashed.
\<close>

definition chunk_read :: "(chunk_error, 'a) parser \<Rightarrow> (reader_error, 'a) parser" where
  "chunk_read p r = (case p r of Inl e \<Rightarrow> Inl (ReaderChunk e) | Inr z \<Rightarrow> Inr z)"

definition reader_open :: "byte list \<Rightarrow> reader_error + chunk_reader" where
  "reader_open file =
     rbind
       (pbind (chunk_read (read_exact 4)) (\<lambda>magic.
        if magic \<noteq> magic_header then pfail (ReaderChunk InvalidMagic) else
        pbind (chunk_read read_u8) (\<lambda>version.
        if version \<noteq> format_version_streamed then pfail (NotStreamed version) else
        pbind (chunk_read read_u32be) (\<lambda>network_id.
        pbind (chunk_read read_u32be) (\<lambda>start_ledger.
        pbind (chunk_read read_u32be) (\<lambda>end_ledger.
        pbind (chunk_read read_hash) (\<lambda>checkpoint_hash.
        pbind (chunk_read read_hash) (\<lambda>stored_chunk_hash rest.
        Inr (\<lparr>cr_rest = rest, cr_hashed = [], cr_network_id = network_id,
              cr_start_ledger = start_ledger, cr_end_ledger = end_ledger,
              cr_checkpoint_hash = checkpoint_hash, cr_stored_chunk_hash = stored_chunk_hash,
              cr_deltas_remaining = end_ledger - start_ledger\<rparr>, rest)))))))) file)
       (\<lambda>(cr, _). Inr cr)"

definition reader_chunk_hash :: "chunk_reader \<Rightarrow> hash256" where
  "reader_chunk_hash cr = cr_stored_chunk_hash cr"

text \<open>The callback of read_checkpoint is a step on the state \<open>s\<close> its closure captures.\<close>

fun reader_nodes ::
  "nat \<Rightarrow> ('s \<Rightarrow> shamap_node \<Rightarrow> 's) \<Rightarrow> 's \<Rightarrow> chunk_reader \<Rightarrow> chunk_error + 's \<times> chunk_reader" where
  "reader_nodes 0 f s cr = Inr (s, cr)"
| "reader_nodes (Suc n) f s cr =
     rbind (hashing read_node cr) (\<lambda>(node, cr). reader_nodes n f (f s node) cr)"

definition reader_checkpoint ::
  "('s \<Rightarrow> shamap_node \<Rightarrow> 's) \<Rightarrow> 's \<Rightarrow> chunk_reader \<Rightarrow> chunk_error + (u32 \<times> 's) \<times> chunk_reader" where
  "reader_checkpoint f s cr =
     rbind (hashing read_u32be cr) (\<lambda>(count, cr).
     rbind (reader_nodes (unat count) f s cr) (\<lambda>(s, cr). Inr ((count, s), cr)))"

definition reader_checkpoint_tx_map :: "chunk_reader \<Rightarrow> chunk_error + tx_map \<times> chunk_reader" where
  "reader_checkpoint_tx_map = hashing read_tx_map"

definition next_delta_tx_map ::
  "chunk_reader \<Rightarrow> chunk_error + (ledger_delta \<times> tx_map) option \<times> chunk_reader" where
  "next_delta_tx_map cr =
     (if cr_deltas_remaining cr = 0 then Inr (None, cr) else
      rbind (hashing read_delta cr) (\<lambda>(delta, cr).
      rbind (hashing read_tx_map cr) (\<lambda>(tx_map, cr).
      Inr (Some (delta, tx_map), cr\<lparr>cr_deltas_remaining := cr_deltas_remaining cr - 1\<rparr>))))"

definition reader_finish :: "sha512 \<Rightarrow> chunk_reader \<Rightarrow> chunk_error + unit" where
  "reader_finish H cr =
     rbind (hashing (read_exact 4) cr) (\<lambda>(footer, cr).
     if footer \<noteq> magic_footer then Inl InvalidMagic else
     let actual = sha512half H (cr_hashed cr) in
     if actual \<noteq> cr_stored_chunk_hash cr
     then Inl (HashMismatch (cr_stored_chunk_hash cr) actual) else Inr ())"

section \<open>Readers consume a prefix\<close>

text \<open>A successful read takes a prefix of its input, and what follows it does not matter.\<close>

definition consuming :: "('e, 'a) parser \<Rightarrow> bool" where
  "consuming p \<longleftrightarrow>
     (\<forall>b x r. p b = Inr (x, r) \<longrightarrow> (\<exists>u. b = u @ r \<and> (\<forall>s. p (u @ s) = Inr (x, s))))"

lemma consumingD:
  "consuming p \<Longrightarrow> p b = Inr (x, r) \<Longrightarrow> \<exists>u. b = u @ r \<and> (\<forall>s. p (u @ s) = Inr (x, s))"
  by (auto simp add: consuming_def)

lemma consuming_basic [intro]: "consuming (pret x)" "consuming (pfail e)" "consuming (read_exact n)"
  by (auto simp add: consuming_def read_exact_Inr)

lemma consuming_pbind [intro]:
  assumes "consuming p" and "\<And>x. consuming (f x)"
  shows "consuming (pbind p f)"
  unfolding consuming_def
proof (intro allI impI)
  fix b y r
  assume "pbind p f b = Inr (y, r)"
  then obtain x r' where x: "p b = Inr (x, r')" and y: "f x r' = Inr (y, r)"
    by (auto simp add: pbind_eq_Inr)
  obtain u where u: "b = u @ r'" "\<And>s. p (u @ s) = Inr (x, s)"
    using consumingD [OF assms(1) x] by blast
  obtain v where v: "r' = v @ r" "\<And>s. f x (v @ s) = Inr (y, s)"
    using consumingD [OF assms(2) y] by blast
  show "\<exists>w. b = w @ r \<and> (\<forall>s. pbind p f (w @ s) = Inr (y, s))"
    using u v by (intro exI [of _ "u @ v"]) (simp add: pbind_def)
qed

lemma consuming_times [intro]: "consuming p \<Longrightarrow> consuming (read_times n p)"
  by (induction n) auto

lemma consuming_case_sum [intro]:
  "(\<And>e. consuming (f e)) \<Longrightarrow> (\<And>y. consuming (g y)) \<Longrightarrow> consuming (case z of Inl e \<Rightarrow> f e | Inr y \<Rightarrow> g y)"
  by (cases z) simp_all

lemma consuming_fields [intro]:
  "consuming read_u8" "consuming read_u16be" "consuming read_u32be" "consuming read_u64be"
  "consuming read_hash"
  by (auto simp add: read_u8_def read_u16be_def read_u32be_def read_u64be_def read_hash_def)

lemma consuming_node [intro]: "consuming read_node"
  unfolding read_node_def by (rule consuming_pbind consuming_case_sum consuming_fields consuming_basic)+

lemma consuming_tx [intro]: "consuming read_tx"
  unfolding read_tx_def by (rule consuming_pbind consuming_fields consuming_basic)+

lemma consuming_delta [intro]: "consuming read_delta"
  unfolding read_delta_def
  by (rule consuming_pbind consuming_fields consuming_basic consuming_times consuming_node)+

lemma consuming_tx_map [intro]: "consuming read_tx_map"
  unfolding read_tx_map_def
  by (rule consuming_pbind consuming_fields consuming_basic consuming_times consuming_tx)+

lemma consuming_ledger [intro]: "consuming read_ledger"
  unfolding read_ledger_def
  by (rule consuming_pbind consuming_basic consuming_delta consuming_tx_map)+

section \<open>Piecewise reading is reading in one go\<close>

text \<open>Hashing distributes over the parser's sequencing.\<close>

lemma hashing_pret [simp]:
  "hashing (pret x) cr = Inr (x, cr)" "hashing (\<lambda>r. Inr (x, r)) cr = Inr (x, cr)"
  by (simp_all add: hashing_def)

lemma take_consumed:
  "take (length (u @ v @ r) - length r) (u @ v @ r)
     = take (length (u @ v @ r) - length (v @ r)) (u @ v @ r)
       @ take (length (v @ r) - length r) (v @ r)"
  by simp

lemma hashing_pbind:
  assumes "consuming p" and "\<And>x. consuming (f x)"
  shows "hashing (pbind p f) cr = rbind (hashing p cr) (\<lambda>(x, cr). hashing (f x) cr)"
proof (cases "p (cr_rest cr)")
  case (Inl e)
  then show ?thesis by (simp add: hashing_def)
next
  case (Inr xr)
  obtain x r where xr: "xr = (x, r)" by (cases xr)
  obtain u where u: "cr_rest cr = u @ r" using consumingD [OF assms(1)] Inr xr by blast
  show ?thesis
  proof (cases "f x r")
    case (Inl e)
    with Inr xr u show ?thesis by (simp add: hashing_def)
  next
    case Inr': (Inr ys)
    obtain y s where ys: "ys = (y, s)" by (cases ys)
    obtain v where v: "r = v @ s" using consumingD [OF assms(2)] Inr' ys by blast
    show ?thesis using Inr Inr' xr ys u v by (simp add: hashing_def)
  qed
qed

lemma hashing_Inr:
  assumes "consuming p"
  shows "hashing p cr = Inr (x, cr') \<longleftrightarrow>
    (\<exists>u r. cr_rest cr = u @ r \<and> p (u @ r) = Inr (x, r) \<and>
           cr' = cr\<lparr>cr_rest := r, cr_hashed := cr_hashed cr @ u\<rparr>)"
proof (cases "p (cr_rest cr)")
  case (Inl e)
  then show ?thesis by (auto simp add: hashing_def)
next
  case (Inr xr)
  obtain y r where xr: "xr = (y, r)" by (cases xr)
  obtain u where u: "cr_rest cr = u @ r" using consumingD [OF assms] Inr xr by blast
  show ?thesis
  proof
    assume "hashing p cr = Inr (x, cr')"
    then show "\<exists>u r. cr_rest cr = u @ r \<and> p (u @ r) = Inr (x, r) \<and>
        cr' = cr\<lparr>cr_rest := r, cr_hashed := cr_hashed cr @ u\<rparr>"
      using Inr xr u by (intro exI [of _ u] exI [of _ r]) (simp add: hashing_def)
  next
    assume "\<exists>u r. cr_rest cr = u @ r \<and> p (u @ r) = Inr (x, r) \<and>
        cr' = cr\<lparr>cr_rest := r, cr_hashed := cr_hashed cr @ u\<rparr>"
    then show "hashing p cr = Inr (x, cr')" by (auto simp add: hashing_def)
  qed
qed

lemma hashing_deltas_remaining:
  "hashing p (cr\<lparr>cr_deltas_remaining := k\<rparr>) =
     rbind (hashing p cr) (\<lambda>(x, cr). Inr (x, cr\<lparr>cr_deltas_remaining := k\<rparr>))"
  by (cases "p (cr_rest cr)") (auto simp add: hashing_def)

lemma reader_nodes_eq:
  "reader_nodes n f s cr =
     rbind (hashing (read_times n read_node) cr) (\<lambda>(ns, cr). Inr (foldl f s ns, cr))"
proof (induction n arbitrary: s cr)
  case (Suc n)
  have "hashing (read_times (Suc n) read_node) cr =
      rbind (hashing read_node cr) (\<lambda>(x, cr). rbind (hashing (read_times n read_node) cr)
        (\<lambda>(xs, cr). hashing (pret (x # xs)) cr))"
    by (simp add: hashing_pbind consuming_node consuming_times consuming_pbind consuming_basic)
  then show ?case
    by (cases "hashing read_node cr") (auto simp add: Suc.IH rbind_def split: sum.splits)
qed simp

text \<open>Streaming the checkpoint through a callback is folding it over the decoded list.\<close>

lemma read_times_length: "read_times n p b = Inr (xs, r) \<Longrightarrow> length xs = n"
  by (induction n arbitrary: b xs r) (auto simp add: pbind_eq_Inr)

lemma reader_checkpoint_eq:
  "reader_checkpoint f s cr =
     rbind (hashing read_node_list cr)
       (\<lambda>(ns, cr). Inr ((of_nat (length ns), foldl f s ns), cr))"
proof -
  have "hashing read_node_list cr =
      rbind (hashing read_u32be cr) (\<lambda>(count, cr). hashing (read_times (unat count) read_node) cr)"
    by (simp add: read_node_list_def hashing_pbind consuming_fields consuming_times consuming_node)
  moreover have "of_nat (length ns) = count"
    if "hashing (read_times (unat count) read_node) cr = Inr (ns, cr')" for count :: u32 and ns cr cr'
  proof -
    from that have "length ns = unat count"
      by (auto simp add: hashing_Inr [OF consuming_times [OF consuming_node]] dest: read_times_length)
    then show ?thesis by simp
  qed
  ultimately show ?thesis
    by (auto simp add: reader_checkpoint_def reader_nodes_eq rbind_def split: sum.splits)
qed

lemma next_delta_tx_map_eq:
  "next_delta_tx_map cr =
     (if cr_deltas_remaining cr = 0 then Inr (None, cr) else
      rbind (hashing read_ledger cr)
        (\<lambda>(l, cr). Inr (Some l, cr\<lparr>cr_deltas_remaining := cr_deltas_remaining cr - 1\<rparr>)))"
proof -
  have "hashing read_ledger cr =
      rbind (hashing read_delta cr) (\<lambda>(d, cr). rbind (hashing read_tx_map cr)
        (\<lambda>(m, cr). Inr ((d, m), cr)))"
    unfolding read_ledger_def
    by (simp add: hashing_pbind consuming_delta consuming_tx_map consuming_pbind consuming_basic)
  then show ?thesis
    by (auto simp add: next_delta_tx_map_def rbind_def split: sum.splits)
qed

section \<open>Draining the ledgers\<close>

text \<open>
  The loop every client of the reader runs: \<open>while let Some((delta, tx_map)) =
  reader.next_delta_tx_map()?\<close>, with a body that may return early. \<open>conv\<close> is the conversion
  of a read error by the \<open>?\<close> operator.
\<close>

function drain ::
  "(chunk_error \<Rightarrow> 'e) \<Rightarrow> ('s \<Rightarrow> ledger_delta \<times> tx_map \<Rightarrow> 'e + 's) \<Rightarrow> 's \<Rightarrow> chunk_reader
     \<Rightarrow> 'e + 's \<times> chunk_reader" where
  "drain conv step s cr =
     (case next_delta_tx_map cr of
        Inl e \<Rightarrow> Inl (conv e)
      | Inr (None, cr') \<Rightarrow> Inr (s, cr')
      | Inr (Some l, cr') \<Rightarrow> rbind (step s l) (\<lambda>s'. drain conv step s' cr'))"
  by pat_completeness auto

lemma next_delta_tx_map_remaining:
  assumes "next_delta_tx_map cr = Inr (Some l, cr')"
  shows "unat (cr_deltas_remaining cr) = Suc (unat (cr_deltas_remaining cr'))"
proof -
  from assms have ne: "cr_deltas_remaining cr \<noteq> 0" by (auto simp add: next_delta_tx_map_eq)
  then have "cr_deltas_remaining cr' = cr_deltas_remaining cr - 1"
    using assms
    by (auto simp add: next_delta_tx_map_eq rbind_eq_Inr hashing_Inr [OF consuming_ledger])
  with ne show ?thesis by (simp add: unat_minus_one unat_gt_0)
qed

termination drain
  by (relation "measure (\<lambda>(_, _, _, cr). unat (cr_deltas_remaining cr))")
    (auto dest: next_delta_tx_map_remaining)

declare drain.simps [simp del]

text \<open>Draining succeeds exactly when all ledgers parse and the body accepts each in turn.\<close>

lemma drain_Inr:
  "drain conv step s cr = Inr (t, cr') \<longleftrightarrow>
     (\<exists>ls cr''. hashing (read_times (unat (cr_deltas_remaining cr)) read_ledger) cr = Inr (ls, cr'')
        \<and> rfold step s ls = Inr t \<and> cr' = cr''\<lparr>cr_deltas_remaining := 0\<rparr>)"
proof (induction "unat (cr_deltas_remaining cr)" arbitrary: s cr)
  case 0
  then have z: "cr_deltas_remaining cr = 0" by (simp add: unat_eq_0)
  then have "drain conv step s cr = Inr (s, cr)" "cr\<lparr>cr_deltas_remaining := 0\<rparr> = cr"
    by (simp_all add: drain.simps [of conv step s cr] next_delta_tx_map_def)
  with z show ?case by auto
next
  case (Suc n)
  then have ne: "cr_deltas_remaining cr \<noteq> 0" by auto
  let ?rd = "\<lambda>k. read_times k read_ledger"
  have split: "hashing (?rd (Suc n)) cr =
      rbind (hashing read_ledger cr) (\<lambda>(l, cr). rbind (hashing (?rd n) cr)
        (\<lambda>(ls, cr). Inr (l # ls, cr)))"
    by (simp add: hashing_pbind consuming_ledger consuming_times consuming_pbind consuming_basic)
  show ?case
  proof (cases "hashing read_ledger cr")
    case (Inl e)
    then show ?thesis
      using ne Suc.hyps(2) split
      by (auto simp add: drain.simps [of conv step s cr] next_delta_tx_map_eq)
  next
    case (Inr lc)
    obtain l c where lc: "lc = (l, c)" by (cases lc)
    let ?c = "c\<lparr>cr_deltas_remaining := cr_deltas_remaining c - 1\<rparr>"
    have next': "next_delta_tx_map cr = Inr (Some l, ?c)"
      using ne Inr lc by (simp add: next_delta_tx_map_eq)
    have n: "n = unat (cr_deltas_remaining ?c)"
      using next_delta_tx_map_remaining [OF next'] Suc.hyps(2) by simp
    have rd: "hashing (?rd n) ?c = rbind (hashing (?rd n) c)
        (\<lambda>(x, c'). Inr (x, c'\<lparr>cr_deltas_remaining := cr_deltas_remaining c - 1\<rparr>))"
      by (rule hashing_deltas_remaining)
    have step: "drain conv step s cr = rbind (step s l) (\<lambda>s'. drain conv step s' ?c)"
      by (simp add: drain.simps [of conv step s cr] next')
    have all: "hashing (?rd (unat (cr_deltas_remaining cr))) cr =
        rbind (hashing (?rd n) c) (\<lambda>(ls, cr). Inr (l # ls, cr))"
      using split Inr lc Suc.hyps(2) by (simp del: read_times.simps)
    have "drain conv step s cr = Inr (t, cr') \<longleftrightarrow>
        (\<exists>u. step s l = Inr u \<and> drain conv step u ?c = Inr (t, cr'))"
      by (simp add: step rbind_eq_Inr)
    also have "\<dots> \<longleftrightarrow> (\<exists>u. step s l = Inr u \<and> (\<exists>ls cr''. hashing (?rd n) ?c = Inr (ls, cr'')
        \<and> rfold step u ls = Inr t \<and> cr' = cr''\<lparr>cr_deltas_remaining := 0\<rparr>))"
      using Suc.hyps(1) [OF n] n by simp
    also have "\<dots> \<longleftrightarrow> (\<exists>ls cr''. hashing (?rd (unat (cr_deltas_remaining cr))) cr = Inr (ls, cr'')
        \<and> rfold step s ls = Inr t \<and> cr' = cr''\<lparr>cr_deltas_remaining := 0\<rparr>)"
      unfolding all rd by (cases "hashing (?rd n) c") (auto simp add: rbind_eq_Inr)
    finally show ?thesis .
  qed
qed

section \<open>Opening and finishing\<close>

lemma chunk_read_Inr [simp]: "chunk_read p r = Inr z \<longleftrightarrow> p r = Inr z"
  by (simp add: chunk_read_def split: sum.splits)

text \<open>A file is opened exactly when it starts with a header of the streamed version.\<close>

definition opened :: "u32 \<Rightarrow> u32 \<Rightarrow> u32 \<Rightarrow> hash256 \<Rightarrow> hash256 \<Rightarrow> byte list \<Rightarrow> chunk_reader" where
  "opened net s e cp h body =
     \<lparr>cr_rest = body, cr_hashed = [], cr_network_id = net, cr_start_ledger = s,
      cr_end_ledger = e, cr_checkpoint_hash = cp, cr_stored_chunk_hash = h,
      cr_deltas_remaining = e - s\<rparr>"

lemma reader_open_header:
  "reader_open (header_bytes format_version_streamed net s e cp h @ body) =
     Inr (opened net s e cp h body)"
  by (simp add: reader_open_def header_bytes_def opened_def pbind_def chunk_read_def
      field_reads read_exact_append)

lemma reader_open_InrD:
  assumes "reader_open file = Inr cr"
  shows "\<exists>net s e cp h body.
    file = header_bytes format_version_streamed net s e cp h @ body \<and>
    cr = opened net s e cp h body"
  using assms unfolding reader_open_def header_bytes_def opened_def append_assoc
  by (auto simp add: rbind_eq_Inr pbind_eq_Inr read_exact_Inr field_inverts split: if_split_asm)

lemma reader_finish_Inr:
  "reader_finish H cr = Inr () \<longleftrightarrow>
     (\<exists>r. cr_rest cr = magic_footer @ r) \<and>
     sha512half H (cr_hashed cr @ magic_footer) = cr_stored_chunk_hash cr"
proof (cases "\<exists>r. cr_rest cr = magic_footer @ r")
  case True
  then obtain r where "cr_rest cr = magic_footer @ r" by blast
  then show ?thesis
    by (simp add: reader_finish_def hashing_def Let_def read_exact_append)
next
  case False
  then show ?thesis
    by (auto simp add: reader_finish_def rbind_eq_Inr hashing_Inr [OF consuming_basic(3)]
        read_exact_Inr Let_def split: if_split_asm)
qed

section \<open>The streaming reader and the buffered reader\<close>

text \<open>
  A client that collects everything the streaming reader delivers after open, as the tests
  of the source do, together with the bytes of the file it left unread.
\<close>

definition collect_body ::
  "sha512 \<Rightarrow> chunk_reader \<Rightarrow>
     chunk_error + shamap_node list \<times> tx_map \<times> (ledger_delta \<times> tx_map) list \<times> byte list" where
  "collect_body H cr =
     rbind (reader_checkpoint (\<lambda>ns n. ns @ [n]) [] cr) (\<lambda>((_, cp), cr).
     rbind (reader_checkpoint_tx_map cr) (\<lambda>(m0, cr).
     rbind (drain (\<lambda>e. e) (\<lambda>ls l. Inr (ls @ [l])) [] cr) (\<lambda>(ls, cr).
     rbind (reader_finish H cr) (\<lambda>_. Inr (cp, m0, ls, drop 4 (cr_rest cr))))))"

text \<open>The body of a streamed chunk as one parser.\<close>

definition stream_parts ::
  "nat \<Rightarrow> (chunk_error, shamap_node list \<times> tx_map \<times> (ledger_delta \<times> tx_map) list) parser" where
  "stream_parts n =
     pbind read_node_list (\<lambda>cp. pbind read_tx_map (\<lambda>m0.
     pbind (read_times n read_ledger) (\<lambda>ls. pret (cp, m0, ls))))"

lemma consuming_node_list [intro]: "consuming read_node_list"
  unfolding read_node_list_def
  by (rule consuming_pbind consuming_fields consuming_times consuming_node)+

lemma consuming_stream_parts [intro]: "consuming (stream_parts n)"
  unfolding stream_parts_def
  by (rule consuming_pbind consuming_node_list consuming_tx_map consuming_times consuming_ledger
      consuming_basic)+

lemma foldl_snoc: "foldl (\<lambda>xs x. xs @ [x]) ys zs = ys @ zs"
  by (induction zs arbitrary: ys) auto

lemma rfold_snoc: "rfold (\<lambda>xs x. Inr (xs @ [x])) ys zs = Inr (ys @ zs)"
  by (induction zs arbitrary: ys) auto

lemma hashing_keeps:
  "hashing p cr = Inr (x, c) \<Longrightarrow> cr_deltas_remaining c = cr_deltas_remaining cr"
  by (auto simp add: hashing_def rbind_eq_Inr)

lemma hashing_stream_parts:
  "hashing (stream_parts n) cr = Inr ((cp, m0, ls), cr') \<longleftrightarrow>
     (\<exists>c1 c2. hashing read_node_list cr = Inr (cp, c1) \<and> hashing read_tx_map c1 = Inr (m0, c2)
        \<and> hashing (read_times n read_ledger) c2 = Inr (ls, cr'))"
  by (auto simp add: stream_parts_def hashing_pbind consuming_node_list consuming_tx_map
      consuming_times consuming_ledger consuming_pbind consuming_basic rbind_eq_Inr)

lemma collect_body_hashing:
  "collect_body H cr = Inr (cp, m0, ls, rest) \<longleftrightarrow>
     (\<exists>c. hashing (stream_parts (unat (cr_deltas_remaining cr))) cr = Inr ((cp, m0, ls), c)
        \<and> reader_finish H c = Inr () \<and> rest = drop 4 (cr_rest c))"
  (is "?L \<longleftrightarrow> ?R")
proof -
  have fin: "reader_finish H (c\<lparr>cr_deltas_remaining := k\<rparr>) = reader_finish H c" for c k
    by (cases "reader_finish H c"; cases "reader_finish H (c\<lparr>cr_deltas_remaining := k\<rparr>)")
      (auto simp add: reader_finish_def hashing_deltas_remaining rbind_def Let_def
        split: sum.splits if_splits)
  have "?L \<longleftrightarrow> (\<exists>c1 c2 c3. hashing read_node_list cr = Inr (cp, c1)
      \<and> hashing read_tx_map c1 = Inr (m0, c2)
      \<and> hashing (read_times (unat (cr_deltas_remaining c2)) read_ledger) c2 = Inr (ls, c3)
      \<and> reader_finish H c3 = Inr () \<and> rest = drop 4 (cr_rest c3))"
    by (auto simp add: collect_body_def reader_checkpoint_eq reader_checkpoint_tx_map_def
        rbind_eq_Inr drain_Inr rfold_snoc foldl_snoc fin)
  then show ?thesis
    unfolding hashing_stream_parts using hashing_keeps by metis
qed

text \<open>The chunk a header and the collected parts make up.\<close>

definition assembled ::
  "chunk_reader \<Rightarrow> shamap_node list \<Rightarrow> tx_map \<Rightarrow> (ledger_delta \<times> tx_map) list \<Rightarrow> chunk" where
  "assembled cr ns m0 ls =
     \<lparr>ck_network_id = cr_network_id cr, ck_start_ledger = cr_start_ledger cr,
      ck_end_ledger = cr_end_ledger cr, ck_checkpoint_hash = cr_checkpoint_hash cr,
      ck_chunk_hash = reader_chunk_hash cr, ck_checkpoint = ns,
      ck_deltas = map fst ls, ck_tx_maps = m0 # map snd ls\<rparr>"

lemma collect_body_opened:
  "collect_body H (opened net s e cp h body) = Inr (ns, m0, ls, rest) \<longleftrightarrow>
     (\<exists>u. body = u @ magic_footer @ rest
        \<and> stream_parts (unat (e - s)) body = Inr ((ns, m0, ls), magic_footer @ rest)
        \<and> sha512half H (u @ magic_footer) = h)"
proof
  assume "collect_body H (opened net s e cp h body) = Inr (ns, m0, ls, rest)"
  then show "\<exists>u. body = u @ magic_footer @ rest
      \<and> stream_parts (unat (e - s)) body = Inr ((ns, m0, ls), magic_footer @ rest)
      \<and> sha512half H (u @ magic_footer) = h"
    by (auto simp add: collect_body_hashing hashing_Inr [OF consuming_stream_parts]
        reader_finish_Inr opened_def)
next
  assume "\<exists>u. body = u @ magic_footer @ rest
      \<and> stream_parts (unat (e - s)) body = Inr ((ns, m0, ls), magic_footer @ rest)
      \<and> sha512half H (u @ magic_footer) = h"
  then obtain u where "body = u @ magic_footer @ rest"
    and "stream_parts (unat (e - s)) body = Inr ((ns, m0, ls), magic_footer @ rest)"
    and "sha512half H (u @ magic_footer) = h" by blast
  then show "collect_body H (opened net s e cp h body) = Inr (ns, m0, ls, rest)"
    unfolding collect_body_hashing hashing_Inr [OF consuming_stream_parts] reader_finish_Inr
    by (intro exI [of _ "(opened net s e cp h body)
          \<lparr>cr_rest := magic_footer @ rest, cr_hashed := u\<rparr>"] conjI exI [of _ u]
          exI [of _ "magic_footer @ rest"] exI [of _ rest])
      (simp_all add: opened_def)
qed

lemma parse_chunk_stream:
  "parse_chunk H (header_bytes format_version_streamed net s e cp h @ body) = Inr (c, rest) \<longleftrightarrow>
     sha512half H body = h \<and>
     (\<exists>ns m0 ls. stream_parts (unat (e - s)) body = Inr ((ns, m0, ls), magic_footer @ rest)
        \<and> c = assembled (opened net s e cp h body) ns m0 ls)"
  by (auto simp add: parse_chunk_header pbind_eq_Inr read_body_streamed_def stream_parts_def
      read_exact_Inr assembled_def opened_def reader_chunk_hash_def split: if_split_asm)

lemma stream_reader_prefix:
  assumes "reader_open file = Inr cr" and "collect_body H cr = Inr (ns, m0, ls, rest)"
  shows "\<exists>f. file = f @ rest \<and> parse_chunk H f = Inr (assembled cr ns m0 ls, []) \<and>
    f ! 4 = format_version_streamed"
proof -
  obtain net s e cp h body
    where fl: "file = header_bytes format_version_streamed net s e cp h @ body"
      and cr: "cr = opened net s e cp h body"
    using reader_open_InrD [OF assms(1)] by blast
  obtain u where u: "body = u @ magic_footer @ rest"
    and parts: "stream_parts (unat (e - s)) body = Inr ((ns, m0, ls), magic_footer @ rest)"
    and h: "sha512half H (u @ magic_footer) = h"
    using assms(2) unfolding cr collect_body_opened by blast
  let ?f = "header_bytes format_version_streamed net s e cp h @ u @ magic_footer"
  have "stream_parts (unat (e - s)) (u @ magic_footer) = Inr ((ns, m0, ls), magic_footer @ [])"
    using consumingD [OF consuming_stream_parts parts] u by auto
  with h have "parse_chunk H ?f = Inr (assembled cr ns m0 ls, [])"
    unfolding parse_chunk_stream cr assembled_def opened_def reader_chunk_hash_def by auto
  moreover have "?f ! 4 = format_version_streamed"
    by (simp add: header_bytes_def nth_append write_u8_def)
  moreover have "file = ?f @ rest" using fl u by simp
  ultimately show ?thesis by blast
qed

lemma stream_reader_sound:
  assumes "reader_open file = Inr cr" and "collect_body H cr = Inr (ns, m0, ls, rest)"
  shows "\<exists>f. file = f @ rest \<and> deserialize_chunk H f = Inr (assembled cr ns m0 ls)"
  using stream_reader_prefix [OF assms] by (auto simp add: deserialize_chunk_def)

lemma stream_reader_complete:
  assumes "file = header_bytes format_version_streamed net s e cp h @ body"
    and "parse_chunk H file = Inr (c, [])"
  shows "\<exists>ns m0 ls. reader_open file = Inr (opened net s e cp h body)
    \<and> collect_body H (opened net s e cp h body) = Inr (ns, m0, ls, [])
    \<and> c = assembled (opened net s e cp h body) ns m0 ls"
proof -
  obtain ns m0 ls where p: "sha512half H body = h"
      "stream_parts (unat (e - s)) body = Inr ((ns, m0, ls), magic_footer @ [])"
      "c = assembled (opened net s e cp h body) ns m0 ls"
    using assms parse_chunk_stream by blast
  obtain u where "body = u @ magic_footer"
    using consumingD [OF consuming_stream_parts p(2)] by auto
  with p assms(1) show ?thesis
    by (auto simp add: reader_open_header collect_body_opened)
qed

text \<open>
  What follows the footer: the streaming reader does not look at it, the buffered reader
  hashes it.
\<close>

lemma stream_reader_trailing:
  assumes "reader_open file = Inr cr" and "collect_body H cr = Inr (ns, m0, ls, rest)"
  shows "\<exists>cr'. reader_open (file @ junk) = Inr cr' \<and>
    collect_body H cr' = Inr (ns, m0, ls, rest @ junk) \<and> assembled cr' ns m0 ls = assembled cr ns m0 ls"
proof -
  obtain net s e cp h body
    where fl: "file = header_bytes format_version_streamed net s e cp h @ body"
      and cr: "cr = opened net s e cp h body"
    using reader_open_InrD [OF assms(1)] by blast
  obtain u where u: "body = u @ magic_footer @ rest"
    and parts: "stream_parts (unat (e - s)) body = Inr ((ns, m0, ls), magic_footer @ rest)"
    and h: "sha512half H (u @ magic_footer) = h"
    using assms(2) unfolding cr collect_body_opened by blast
  have "stream_parts (unat (e - s)) (u @ magic_footer @ rest @ junk)
      = Inr ((ns, m0, ls), magic_footer @ rest @ junk)"
    using consumingD [OF consuming_stream_parts parts] u by auto
  with h have "collect_body H (opened net s e cp h (body @ junk)) = Inr (ns, m0, ls, rest @ junk)"
    unfolding collect_body_opened u by auto
  moreover have "reader_open (file @ junk) = Inr (opened net s e cp h (body @ junk))"
    using fl reader_open_header [of net s e cp h "body @ junk"] by simp
  ultimately show ?thesis
    by (auto simp add: cr assembled_def opened_def reader_chunk_hash_def)
qed

lemma deserialize_trailing:
  assumes "deserialize_chunk H file = Inr c" and "deserialize_chunk H (file @ junk) = Inr c'"
    and "junk \<noteq> []"
  shows "collision H (drop 81 file) (drop 81 file @ junk)"
proof -
  have len: "length file \<ge> 81"
    using deserialize_InrD [OF assms(1)] by (metis length_append length_header_bytes le_add1)
  have "take 81 file = take 81 (file @ junk)" using len by simp
  then have "collision H (drop 81 file) (drop 81 (file @ junk))"
    using deserialize_tampered [OF assms(1,2)] assms(3) by simp
  with len show ?thesis by simp
qed

lemma stream_reader_iff:
  "(\<exists>cr ns m0 ls. reader_open file = Inr cr \<and> collect_body H cr = Inr (ns, m0, ls, [])
      \<and> c = assembled cr ns m0 ls)
   \<longleftrightarrow> parse_chunk H file = Inr (c, []) \<and> file ! 4 = format_version_streamed"
  (is "?L \<longleftrightarrow> ?R")
proof
  assume ?L
  then obtain cr ns m0 ls where o: "reader_open file = Inr cr"
    and b: "collect_body H cr = Inr (ns, m0, ls, [])" and c: "c = assembled cr ns m0 ls" by blast
  obtain net s e cp h body
    where fl: "file = header_bytes format_version_streamed net s e cp h @ body"
      and cr: "cr = opened net s e cp h body"
    using reader_open_InrD [OF o] by blast
  from b have "parse_chunk H file = Inr (c, [])"
    unfolding cr fl c collect_body_opened parse_chunk_stream by auto
  moreover have "file ! 4 = format_version_streamed"
    by (simp add: fl header_bytes_def nth_append write_u8_def)
  ultimately show ?R ..
next
  assume R: ?R
  then obtain v net s e cp h body where fl: "file = header_bytes v net s e cp h @ body"
    using parse_chunk_InrD by blast
  have "file ! 4 = v" by (simp add: fl header_bytes_def nth_append write_u8_def)
  with R have v: "v = format_version_streamed" by simp
  from stream_reader_complete [OF fl [unfolded v]] R show ?L by blast
qed

section \<open>Properties\<close>

text \<open>
  C20: Reading a version 3 file piece by piece with ChunkReader (checkpoint through a callback,
  then ledger by ledger, then the footer and hash check) succeeds and delivers a chunk, leaving
  the bytes \<open>rest\<close> of the file unread, exactly when the buffered reader accepts the file
  without them, up to and including the footer, as that chunk.
\<close>

theorem streaming_reader_matches_buffered:
  "(\<exists>cr ns m0 ls. reader_open file = Inr cr \<and> collect_body H cr = Inr (ns, m0, ls, rest)
      \<and> c = assembled cr ns m0 ls)
   \<longleftrightarrow> (\<exists>f. file = f @ rest \<and> parse_chunk H f = Inr (c, []) \<and> f ! 4 = format_version_streamed)"
  (is "?L \<longleftrightarrow> ?R")
proof
  assume ?L
  then show ?R using stream_reader_prefix by blast
next
  assume ?R
  then obtain f where f: "file = f @ rest" "parse_chunk H f = Inr (c, [])" "f ! 4 = format_version_streamed"
    by blast
  then obtain cr ns m0 ls where "reader_open f = Inr cr" "collect_body H cr = Inr (ns, m0, ls, [])"
    "c = assembled cr ns m0 ls" using stream_reader_iff by blast
  from stream_reader_trailing [OF this(1,2), of rest] f(1) this(3) show ?L by auto
qed

text \<open>
  C25: Bytes appended after the footer do not change what the streaming reader delivers, while
  the buffered reader accepts such a file only if the extension is a SHA-512Half collision.
\<close>

theorem streaming_reader_ignores_trailing_bytes:
  assumes "reader_open file = Inr cr" and "collect_body H cr = Inr (ns, m0, ls, [])"
    and "junk \<noteq> []"
  shows "(\<exists>cr'. reader_open (file @ junk) = Inr cr' \<and> collect_body H cr' = Inr (ns, m0, ls, junk)
      \<and> assembled cr' ns m0 ls = assembled cr ns m0 ls)
    \<and> ((\<exists>c. deserialize_chunk H (file @ junk) = Inr c)
        \<longrightarrow> collision H (drop 81 file) (drop 81 file @ junk))"
  using stream_reader_trailing [OF assms(1,2), of junk] stream_reader_sound [OF assms(1,2)]
    deserialize_trailing [OF _ _ assms(3)] by auto

definition sample_stream :: "byte list" where
  "sample_stream =
     header_bytes format_version_streamed 1 100 100 9 (sha512half (\<lambda>b. of_nat (length b))
       (stream_body [] (sample_tx_map 100 []) []))
     @ stream_body [] (sample_tx_map 100 []) []"

lemma sample_stream_parses:
  "\<exists>c. parse_chunk (\<lambda>b. of_nat (length b)) sample_stream = Inr (c, [])"
proof -
  let ?H = "\<lambda>b. of_nat (length b)"
  have "wf_stream 100 100 [] (sample_tx_map 100 []) []"
    by (simp add: wf_stream_def wf_tx_map_def sample_tx_map_def)
  from deserialize_stream_body [OF this, of ?H 1 9]
  obtain r c where "parse_chunk ?H sample_stream = Inr (c, r)"
    by (auto simp add: deserialize_chunk_def rbind_eq_Inr sample_stream_def)
  moreover have "r = []"
    using calculation
    by (auto simp add: sample_stream_def parse_chunk_stream stream_parts_def pbind_eq_Inr
        stream_body_def read_node_list_write txmapc.dec_enc wf_tx_map_def sample_tx_map_def)
  ultimately show ?thesis by blast
qed

lemma streaming_reader_ignores_trailing_bytes_witness:
  "\<exists>cr ns m0 ls. collect_body (\<lambda>b. of_nat (length b)) cr = Inr (ns, m0, ls, [0])
     \<and> reader_open (sample_stream @ [0]) = Inr cr"
proof -
  let ?H = "\<lambda>b. of_nat (length b)"
  obtain c where "parse_chunk ?H sample_stream = Inr (c, [])"
    using sample_stream_parses by blast
  moreover have "sample_stream ! 4 = format_version_streamed"
    by (simp add: sample_stream_def header_bytes_def nth_append write_u8_def)
  ultimately obtain cr ns m0 ls where "reader_open sample_stream = Inr cr"
    and "collect_body ?H cr = Inr (ns, m0, ls, [])"
    using stream_reader_iff [of sample_stream ?H c] by blast
  from streaming_reader_ignores_trailing_bytes [OF this, of "[0]"] show ?thesis by auto
qed

end
