(* ===== verification/Import_Replay.thy ===== *)
theory Import_Replay
  imports Run Nudb_Swap Nudb_Codec Tx_Tree Tx_Db Chunk_Reader
begin

text \<open>
  The importer of crates/xrla-import/src/main.rs: where replayed nodes go, the checks on a
  state tree, the replay of a chunk read whole or streamed, and the ledger table. The live
  state is a map from hashes to nodes. \<open>H\<close>, \<open>S\<close> and \<open>X\<close> are SHA-512, SHA-256 and
  xxHash64. A replay is a \<open>run\<close>: the walk over the state has no visited set and need not end.
\<close>

section \<open>Errors and sinks\<close>

datatype import_error =
    NodeMissing hash256
  | BadInnerNode shamap_error
  | ExtraNodes nat nat
  | ChildNotPresent u32 hash256 hash256 bool
  | NoTxMaps
  | CheckpointRootMissing hash256
  | CheckpointNodeHash hash256
  | TxHashMismatch u32 hash256 hash256
  | DeletedNotInState u32 hash256
  | MissingTxMap nat
  | SequenceMismatch u32 u32
  | MultipleRoots
  | NodeHash u32 hash256
  | AccountRootMismatch u32 hash256 hash256
  | LedgerHashDiffers u32 hash256 hash256
  | TreePanic panic
  | OpenFailed Chunk_Reader.reader_error
  | ReadFailed chunk_error
  | TxDbFailed txdb_error
  | SinkFailed

text \<open>The trait NodeSink as the record of its two methods over the state \<open>'s\<close> of a sink.\<close>

record 's node_sink =
  ns_contains :: "'s \<Rightarrow> hash256 \<Rightarrow> bool"
  ns_write_node :: "'s \<Rightarrow> hash256 \<Rightarrow> byte list \<Rightarrow> import_error + 's"

definition nudb_node_sink :: "xxh64 \<Rightarrow> (file_system \<times> nudb_sink) node_sink" where
  "nudb_node_sink X =
     \<lparr>ns_contains = \<lambda>st h. sink_contains (snd st) h,
      ns_write_node = \<lambda>st h v. Inr (sink_write_node X st h v)\<rparr>"

definition null_sink :: "unit node_sink" where
  "null_sink = \<lparr>ns_contains = \<lambda>_ _. True, ns_write_node = \<lambda>s _ _. Inr s\<rparr>"

definition sink_node :: "'s node_sink \<Rightarrow> 's \<Rightarrow> shamap_node \<Rightarrow> import_error + 's" where
  "sink_node ops sink node =
     (if ns_contains ops sink (node_hash node) then Inr sink
      else ns_write_node ops sink (node_hash node) (encode_wire_to_value (node_content node) (node_type node)))"

section \<open>Checks of a state tree\<close>

type_synonym live_state = "hash256 \<rightharpoonup> shamap_node"

partial_function (option) walk_loop :: "live_state \<Rightarrow> hash256 list \<Rightarrow> nat \<Rightarrow> (import_error, nat) run" where
  "walk_loop state stack reached =
     (case stack of
        [] \<Rightarrow> oret reached
      | h # rest \<Rightarrow>
          (case state h of
             None \<Rightarrow> ofail (NodeMissing h)
           | Some node \<Rightarrow>
               if is_inner (node_type node)
               then obind (olift BadInnerNode (inner_from_node node)) (\<lambda>inner.
                      walk_loop state (rev (child_hashes inner) @ rest) (reached + 1))
               else walk_loop state rest (reached + 1)))"

definition walk_complete :: "hash256 \<Rightarrow> live_state \<Rightarrow> (import_error, nat) run" where
  "walk_complete root state = walk_loop state [root] 0"

text \<open>\<open>state.len()\<close> is the number of keys.\<close>

definition check_tree_complete :: "hash256 \<Rightarrow> live_state \<Rightarrow> (import_error, unit) run" where
  "check_tree_complete root state =
     obind (walk_complete root state) (\<lambda>reached.
     if reached \<noteq> card (dom state) then ofail (ExtraNodes (card (dom state)) reached) else oret ())"

definition check_child ::
  "u32 \<Rightarrow> hash256 list \<Rightarrow> live_state \<Rightarrow> hash256 \<Rightarrow> unit \<Rightarrow> hash256 \<Rightarrow> import_error + unit" where
  "check_child seq deleted state parent _ child =
     ensure (state child \<noteq> None) (ChildNotPresent seq parent child (child \<in> set deleted))"

definition check_added_children ::
  "u32 \<Rightarrow> shamap_node list \<Rightarrow> hash256 list \<Rightarrow> live_state \<Rightarrow> import_error + unit" where
  "check_added_children seq added deleted state =
     rfold (\<lambda>_ node.
         rbind (rlift BadInnerNode (inner_from_node node)) (\<lambda>inner.
         rfold (check_child seq deleted state (node_hash node)) () (child_hashes inner)))
       () (filter (\<lambda>n. is_inner (node_type n)) added)"

definition verify_txns_authentic :: "sha512 \<Rightarrow> tx_map \<Rightarrow> import_error + unit" where
  "verify_txns_authentic H m =
     rfold (\<lambda>_ tx.
         let expected = calculate_tx_id H (tx_blob tx) in
         ensure (expected = tx_hash tx) (TxHashMismatch (tm_ledger_seq m) (tx_hash tx) expected))
       () (tm_txns m)"

definition referenced_by :: "shamap_node \<Rightarrow> hash256 set" where
  "referenced_by node =
     (if node_type node = Inner
      then (case from_full_bytes (node_content node) of
              Inl _ \<Rightarrow> {} | Inr inner \<Rightarrow> set (child_hashes inner))
      else {})"

definition find_new_root :: "shamap_node list \<Rightarrow> hash256 \<Rightarrow> import_error + hash256" where
  "find_new_root added prev_root =
     (if added = [] then Inr prev_root else
      let referenced = \<Union> (referenced_by ` set added);
          roots = map node_hash (filter (\<lambda>n. node_hash n \<notin> referenced) (filter (\<lambda>n. node_type n = Inner) added))
      in case roots of [] \<Rightarrow> Inr prev_root | [r] \<Rightarrow> Inr r | _ \<Rightarrow> Inl MultipleRoots)"

section \<open>What a ledger writes\<close>

record ledger_db_row =
  lr_ledger_hash :: hash256
  lr_ledger_seq :: u32
  lr_prev_hash :: hash256
  lr_total_coins :: u64
  lr_closing_time :: u32
  lr_prev_closing_time :: u32
  lr_close_time_resolution :: byte
  lr_close_flags :: byte
  lr_account_hash :: hash256
  lr_trans_hash :: hash256

definition hash_input :: "tx_map \<Rightarrow> hash256 \<Rightarrow> hash256 \<Rightarrow> hash256 \<Rightarrow> ledger_hash_input" where
  "hash_input m parent tx_root account_root =
     \<lparr>lh_seq = tm_ledger_seq m, lh_drops = tm_drops m, lh_parent_hash = parent, lh_tx_hash = tx_root,
      lh_account_hash = account_root, lh_parent_close_time = tm_parent_close_time m,
      lh_close_time = tm_close_time m, lh_close_time_resolution = tm_close_time_resolution m,
      lh_close_flags = tm_close_flags m\<rparr>"

definition txdb_write :: "sha256_fn \<Rightarrow> txdb_sink option \<Rightarrow> tx_map \<Rightarrow> import_error + txdb_sink option" where
  "txdb_write S txdb m =
     (case txdb of
        None \<Rightarrow> Inr None
      | Some t \<Rightarrow> rbind (rlift TxDbFailed (txdb_write_ledger S t m)) (\<lambda>t. Inr (Some t)))"

definition write_ledger_outputs ::
  "sha256_fn \<Rightarrow> 's node_sink \<Rightarrow> 's \<Rightarrow> txdb_sink option \<Rightarrow> tx_map \<Rightarrow> hash256 \<Rightarrow> hash256 \<Rightarrow> hash256
     \<Rightarrow> import_error + 's \<times> txdb_sink option" where
  "write_ledger_outputs S ops sink txdb m parent tx_root account_root =
     (if txdb = None then Inr (sink, txdb) else
      let header = ledger_header_object (hash_input m parent tx_root account_root);
          val = encode_object_to_value notype_ledger header
      in rbind (ns_write_node ops sink (tm_ledger_hash m) val) (\<lambda>sink.
         rbind (txdb_write S txdb m) (\<lambda>txdb. Inr (sink, txdb))))"

definition ledger_row :: "tx_map \<Rightarrow> hash256 \<Rightarrow> hash256 \<Rightarrow> hash256 \<Rightarrow> ledger_db_row" where
  "ledger_row m parent tx_root account_root =
     \<lparr>lr_ledger_hash = tm_ledger_hash m, lr_ledger_seq = tm_ledger_seq m, lr_prev_hash = parent,
      lr_total_coins = tm_drops m, lr_closing_time = tm_close_time m,
      lr_prev_closing_time = tm_parent_close_time m,
      lr_close_time_resolution = tm_close_time_resolution m, lr_close_flags = tm_close_flags m,
      lr_account_hash = account_root, lr_trans_hash = tx_root\<rparr>"

section \<open>Replaying\<close>

text \<open>
  The variables of the replay loop: ReplayResult's two fields, the two mutable arguments, and
  \<open>current_root\<close> and \<open>prev_ledger_hash\<close>.
\<close>

record 's replay =
  rp_state :: live_state
  rp_rows :: "ledger_db_row list"
  rp_sink :: 's
  rp_txdb :: "txdb_sink option"
  rp_root :: hash256
  rp_prev_hash :: hash256

definition insert_node :: "live_state \<Rightarrow> shamap_node \<Rightarrow> live_state" where
  "insert_node state node = state(node_hash node \<mapsto> node)"

definition remove_hash :: "live_state \<Rightarrow> hash256 \<Rightarrow> live_state" where
  "remove_hash state h = state(h := None)"

definition add_node :: "'s node_sink \<Rightarrow> live_state \<times> 's \<Rightarrow> shamap_node \<Rightarrow> import_error + live_state \<times> 's" where
  "add_node ops st node =
     (let (state, sink) = st in
      rbind (sink_node ops sink node) (\<lambda>sink. Inr (insert_node state node, sink)))"

definition apply_delta ::
  "'s node_sink \<Rightarrow> bool \<Rightarrow> ledger_delta \<Rightarrow> live_state \<times> 's \<Rightarrow> import_error + live_state \<times> 's" where
  "apply_delta ops verify delta st =
     (let (state, sink) = st; added = diff_added (ld_diff delta); deleted = diff_deleted (ld_diff delta) in
      rbind (if verify
             then rfold (\<lambda>_ h. ensure (state h \<noteq> None) (DeletedNotInState (ld_ledger_seq delta) h)) () deleted
             else Inr ()) (\<lambda>_.
      let state = foldl remove_hash state deleted in
      rbind (rfold (add_node ops) (state, sink) added) (\<lambda>(state, sink).
      rbind (if verify then check_added_children (ld_ledger_seq delta) added deleted state else Inr ()) (\<lambda>_.
      Inr (state, sink)))))"

text \<open>The \<open>if verify\<close> block of a ledger.\<close>

definition verify_ledger ::
  "sha512 \<Rightarrow> tx_map \<Rightarrow> shamap_node list \<Rightarrow> hash256 \<Rightarrow> hash256 \<Rightarrow> hash256 \<Rightarrow> import_error + unit" where
  "verify_ledger H m added new_root tx_root prev =
     rbind (verify_txns_authentic H m) (\<lambda>_.
     rbind (rlift (NodeHash (tm_ledger_seq m)) (verify_state_nodes H added)) (\<lambda>_.
     if new_root \<noteq> tm_account_hash m
     then Inl (AccountRootMismatch (tm_ledger_seq m) new_root (tm_account_hash m))
     else
       let recomputed = calculate_ledger_hash H (hash_input m prev tx_root new_root) in
       if recomputed \<noteq> tm_ledger_hash m
       then Inl (LedgerHashDiffers (tm_ledger_seq m) recomputed (tm_ledger_hash m))
       else Inr ()))"

text \<open>
  The body of the ledger loop, the same in both replays. The buffered one looks the
  transactions up by index after the delta is applied, so they come as a result.
\<close>

definition replay_ledger ::
  "sha512 \<Rightarrow> sha256_fn \<Rightarrow> 's node_sink \<Rightarrow> bool \<Rightarrow> 's replay \<Rightarrow> ledger_delta \<times> (import_error + tx_map)
     \<Rightarrow> import_error + 's replay" where
  "replay_ledger H S ops verify rp ledger =
     (let (delta, entry) = ledger; added = diff_added (ld_diff delta) in
      rbind (apply_delta ops verify delta (rp_state rp, rp_sink rp)) (\<lambda>(state, sink).
      rbind entry (\<lambda>m.
      if tm_ledger_seq m \<noteq> ld_ledger_seq delta
      then Inl (SequenceMismatch (ld_ledger_seq delta) (tm_ledger_seq m)) else
      rbind (find_new_root added (rp_root rp)) (\<lambda>new_root.
      rbind (rlift TreePanic (build_tx_tree H (tm_txns m))) (\<lambda>(tx_root, nodes).
      rbind (rfold (sink_node ops) sink nodes) (\<lambda>sink.
      rbind (if verify then verify_ledger H m added new_root tx_root (rp_prev_hash rp) else Inr ()) (\<lambda>_.
      rbind (write_ledger_outputs S ops sink (rp_txdb rp) m (rp_prev_hash rp) tx_root new_root) (\<lambda>(sink, txdb).
      Inr \<lparr>rp_state = state, rp_rows = rp_rows rp @ [ledger_row m (rp_prev_hash rp) tx_root new_root],
           rp_sink = sink, rp_txdb = txdb, rp_root = new_root, rp_prev_hash = tm_ledger_hash m\<rparr>))))))))"

text \<open>The outputs of the checkpoint ledger and the start of the loop.\<close>

definition start_replay ::
  "sha512 \<Rightarrow> sha256_fn \<Rightarrow> 's node_sink \<Rightarrow> live_state \<Rightarrow> 's \<Rightarrow> txdb_sink option \<Rightarrow> tx_map
     \<Rightarrow> import_error + 's replay" where
  "start_replay H S ops state sink txdb cp =
     rbind (txdb_write S txdb cp) (\<lambda>txdb.
     rbind (rlift TreePanic (build_tx_tree H (tm_txns cp))) (\<lambda>(_, nodes).
     rbind (rfold (sink_node ops) sink nodes) (\<lambda>sink.
     Inr \<lparr>rp_state = state, rp_rows = [], rp_sink = sink, rp_txdb = txdb,
          rp_root = tm_account_hash cp, rp_prev_hash = tm_ledger_hash cp\<rparr>)))"

definition nth_tx_map :: "tx_map list \<Rightarrow> nat \<Rightarrow> import_error + tx_map" where
  "nth_tx_map ms i = (if i + 1 < length ms then Inr (ms ! (i + 1)) else Inl (MissingTxMap i))"

definition replay_chunk ::
  "sha512 \<Rightarrow> sha256_fn \<Rightarrow> 's node_sink \<Rightarrow> bool \<Rightarrow> chunk \<Rightarrow> 's \<Rightarrow> txdb_sink option
     \<Rightarrow> (import_error, 's replay) run" where
  "replay_chunk H S ops verify c sink txdb =
     (let state = foldl insert_node Map.empty (ck_checkpoint c) in
      obind (Some (rfold (sink_node ops) sink (ck_checkpoint c))) (\<lambda>sink.
      if ck_tx_maps c = [] then ofail NoTxMaps else
      let cp = hd (ck_tx_maps c) in
      if state (tm_account_hash cp) = None then ofail (CheckpointRootMissing (tm_account_hash cp)) else
      obind (if verify then check_tree_complete (tm_account_hash cp) state else oret ()) (\<lambda>_.
      obind (if verify then Some (verify_txns_authentic H cp) else oret ()) (\<lambda>_.
      obind (if verify then olift CheckpointNodeHash (verify_state_nodes H (ck_checkpoint c)) else oret ()) (\<lambda>_.
      obind (Some (start_replay H S ops state sink txdb cp)) (\<lambda>rp.
      obind (Some (rfold (replay_ledger H S ops verify) rp
               (map (\<lambda>(i, delta). (delta, nth_tx_map (ck_tx_maps c) i)) (enumerate 0 (ck_deltas c))))) (\<lambda>rp.
      obind (if verify then check_tree_complete (rp_root rp) (rp_state rp) else oret ()) (\<lambda>_.
      oret rp))))))))"

definition detect_version :: "byte list \<Rightarrow> import_error + byte" where
  "detect_version file = (if length file < 5 then Inl (ReadFailed UnexpectedEof) else Inr (file ! 4))"

text \<open>
  The closure of the streaming replay captures the first bad hash, the first error of the
  sink, the sink and the live state.
\<close>

definition checkpoint_node ::
  "sha512 \<Rightarrow> 's node_sink \<Rightarrow> bool \<Rightarrow> hash256 option \<times> import_error option \<times> 's \<times> live_state \<Rightarrow> shamap_node
     \<Rightarrow> hash256 option \<times> import_error option \<times> 's \<times> live_state" where
  "checkpoint_node H ops verify st node =
     (let (bad, err, sink, state) = st;
          bad = (if verify \<and> bad = None \<and> recompute_node_hash H node \<noteq> node_hash node
                 then Some (node_hash node) else bad);
          (err, sink) = (if err = None
                         then (case sink_node ops sink node of Inl e \<Rightarrow> (Some e, sink) | Inr sink \<Rightarrow> (None, sink))
                         else (err, sink))
      in (bad, err, sink, insert_node state node))"

definition replay_chunk_streaming ::
  "sha512 \<Rightarrow> sha256_fn \<Rightarrow> 's node_sink \<Rightarrow> bool \<Rightarrow> byte list \<Rightarrow> 's \<Rightarrow> txdb_sink option
     \<Rightarrow> (import_error, 's replay) run" where
  "replay_chunk_streaming H S ops verify file sink txdb =
     obind (olift OpenFailed (reader_open file)) (\<lambda>cr.
     obind (olift ReadFailed (reader_checkpoint (checkpoint_node H ops verify) (None, None, sink, Map.empty) cr))
       (\<lambda>((_, bad, err, sink, state), cr).
     case err of Some e \<Rightarrow> ofail e | None \<Rightarrow>
     case bad of Some h \<Rightarrow> ofail (CheckpointNodeHash h) | None \<Rightarrow>
     obind (olift ReadFailed (reader_checkpoint_tx_map cr)) (\<lambda>(cp, cr).
     if state (tm_account_hash cp) = None then ofail (CheckpointRootMissing (tm_account_hash cp)) else
     obind (if verify then check_tree_complete (tm_account_hash cp) state else oret ()) (\<lambda>_.
     obind (if verify then Some (verify_txns_authentic H cp) else oret ()) (\<lambda>_.
     obind (Some (start_replay H S ops state sink txdb cp)) (\<lambda>rp.
     obind (Some (drain ReadFailed (\<lambda>rp (delta, m). replay_ledger H S ops verify rp (delta, Inr m)) rp cr))
       (\<lambda>(rp, cr).
     obind (olift ReadFailed (reader_finish H cr)) (\<lambda>_.
     obind (if verify then check_tree_complete (rp_root rp) (rp_state rp) else oret ()) (\<lambda>_.
     oret rp)))))))))"

text \<open>The dispatch of \<open>main\<close> and \<open>verify_only\<close> on the version of a chunk file.\<close>

definition import_chunk ::
  "sha512 \<Rightarrow> sha256_fn \<Rightarrow> 's node_sink \<Rightarrow> bool \<Rightarrow> byte list \<Rightarrow> 's \<Rightarrow> txdb_sink option
     \<Rightarrow> (import_error, 's replay) run" where
  "import_chunk H S ops verify file sink txdb =
     obind (Some (detect_version file)) (\<lambda>v.
     if v = format_version_streamed then replay_chunk_streaming H S ops verify file sink txdb
     else obind (olift ReadFailed (deserialize_chunk H file)) (\<lambda>c.
       replay_chunk H S ops verify c sink txdb))"

section \<open>The ledger table\<close>

text \<open>\<open>INSERT OR IGNORE\<close> on the primary key LedgerHash; the file is opened, not truncated.\<close>

type_synonym ledger_table = "hash256 \<rightharpoonup> ledger_db_row"

definition insert_or_ignore :: "ledger_table \<Rightarrow> ledger_db_row \<Rightarrow> ledger_table" where
  "insert_or_ignore t row = (if t (lr_ledger_hash row) = None then t(lr_ledger_hash row \<mapsto> row) else t)"

definition write_ledger_db :: "ledger_db_row list \<Rightarrow> ledger_table \<Rightarrow> ledger_table" where
  "write_ledger_db rows t = foldl insert_or_ignore t rows"

end
