(* ===== verification/Import_Stream.thy ===== *)
theory Import_Stream
  imports Import_Replay
begin

text \<open>
  The two replays reduced to one: when either succeeds it ran the same checks and wrote the
  same outputs over the checkpoint nodes, the checkpoint's transactions and the list of
  (delta, transactions) pairs, read whole or piece by piece.
\<close>

section \<open>A successful replay\<close>

definition replay_step ::
  "sha512 \<Rightarrow> sha256_fn \<Rightarrow> 's node_sink \<Rightarrow> bool \<Rightarrow> 's replay \<Rightarrow> ledger_delta \<times> tx_map \<Rightarrow> import_error + 's replay" where
  "replay_step H S ops verify rp ledger = (case ledger of (delta, m) \<Rightarrow> replay_ledger H S ops verify rp (delta, Inr m))"

definition replay_parts ::
  "sha512 \<Rightarrow> sha256_fn \<Rightarrow> 's node_sink \<Rightarrow> bool \<Rightarrow> 's \<Rightarrow> txdb_sink option \<Rightarrow> shamap_node list \<Rightarrow> tx_map
     \<Rightarrow> (ledger_delta \<times> tx_map) list \<Rightarrow> 's replay \<Rightarrow> bool" where
  "replay_parts H S ops verify sink txdb ns cp ls rp \<longleftrightarrow>
     (\<exists>sink' rp0. rfold (sink_node ops) sink ns = Inr sink' \<and>
        foldl insert_node Map.empty ns (tm_account_hash cp) \<noteq> None \<and>
        (verify \<longrightarrow> check_tree_complete (tm_account_hash cp) (foldl insert_node Map.empty ns) = oret ()) \<and>
        (verify \<longrightarrow> verify_txns_authentic H cp = Inr ()) \<and>
        (verify \<longrightarrow> (\<forall>n \<in> set ns. recompute_node_hash H n = node_hash n)) \<and>
        start_replay H S ops (foldl insert_node Map.empty ns) sink' txdb cp = Inr rp0 \<and>
        rfold (replay_step H S ops verify) rp0 ls = Inr rp \<and>
        (verify \<longrightarrow> check_tree_complete (rp_root rp) (rp_state rp) = oret ()))"

lemma replay_partsI:
  assumes "rfold (sink_node ops) sink ns = Inr sink'" and "foldl insert_node Map.empty ns = state"
    and "state (tm_account_hash cp) \<noteq> None"
    and "verify \<Longrightarrow> check_tree_complete (tm_account_hash cp) state = oret ()"
    and "verify \<Longrightarrow> verify_txns_authentic H cp = Inr ()"
    and "verify \<Longrightarrow> \<forall>n \<in> set ns. recompute_node_hash H n = node_hash n"
    and "start_replay H S ops state sink' txdb cp = Inr rp0"
    and "rfold (replay_step H S ops verify) rp0 ls = Inr rp"
    and "verify \<Longrightarrow> check_tree_complete (rp_root rp) (rp_state rp) = oret ()"
  shows "replay_parts H S ops verify sink txdb ns cp ls rp"
  unfolding replay_parts_def assms(2) using assms by blast

lemma if_oret [simp]: "(if b then m else oret ()) = Some (Inr u) \<longleftrightarrow> (b \<longrightarrow> m = oret ())"
  by auto

lemma guard_oret [simp]:
  "(if b then ofail e else m) = oret x \<longleftrightarrow> \<not> b \<and> m = oret x"
  "(case err of None \<Rightarrow> m | Some e \<Rightarrow> ofail (g e)) = oret x \<longleftrightarrow> err = None \<and> m = oret x"
  by (auto split: option.splits)

section \<open>A successful ledger\<close>

lemma rfold_ensure: "rfold (\<lambda>_ x. ensure (P x) (e x)) u xs = Inr v \<longleftrightarrow> (\<forall>x \<in> set xs. P x)"
  by (induction xs) (auto simp add: rbind_eq_Inr)

lemma add_nodes:
  "rfold (add_node ops) (state, sink) ns =
     rbind (rfold (sink_node ops) sink ns) (\<lambda>sink. Inr (foldl insert_node state ns, sink))"
proof (induction ns arbitrary: state sink)
  case (Cons n ns)
  then show ?case by (cases "sink_node ops sink n") (simp_all add: add_node_def)
qed simp

lemma apply_delta_Inr:
  "apply_delta ops verify d (state, sink) = Inr (state', sink') \<longleftrightarrow>
     (verify \<longrightarrow> (\<forall>h \<in> set (diff_deleted (ld_diff d)). state h \<noteq> None)) \<and>
     rfold (sink_node ops) sink (diff_added (ld_diff d)) = Inr sink' \<and>
     state' = foldl insert_node (foldl remove_hash state (diff_deleted (ld_diff d))) (diff_added (ld_diff d)) \<and>
     (verify \<longrightarrow> check_added_children (ld_ledger_seq d) (diff_added (ld_diff d)) (diff_deleted (ld_diff d)) state' = Inr ())"
  by (cases verify) (auto simp add: apply_delta_def Let_def rbind_eq_Inr rfold_ensure add_nodes)

lemma replay_step_Inr:
  "replay_step H S ops verify rp (d, m) = Inr rp' \<longleftrightarrow>
     (\<exists>state sink1 new_root tx_root nodes sink2 sink3 txdb.
        apply_delta ops verify d (rp_state rp, rp_sink rp) = Inr (state, sink1) \<and>
        tm_ledger_seq m = ld_ledger_seq d \<and>
        find_new_root (diff_added (ld_diff d)) (rp_root rp) = Inr new_root \<and>
        build_tx_tree H (tm_txns m) = Inr (tx_root, nodes) \<and>
        rfold (sink_node ops) sink1 nodes = Inr sink2 \<and>
        (verify \<longrightarrow> verify_ledger H m (diff_added (ld_diff d)) new_root tx_root (rp_prev_hash rp) = Inr ()) \<and>
        write_ledger_outputs S ops sink2 (rp_txdb rp) m (rp_prev_hash rp) tx_root new_root = Inr (sink3, txdb) \<and>
        rp' = \<lparr>rp_state = state, rp_rows = rp_rows rp @ [ledger_row m (rp_prev_hash rp) tx_root new_root],
               rp_sink = sink3, rp_txdb = txdb, rp_root = new_root, rp_prev_hash = tm_ledger_hash m\<rparr>)"
  by (cases verify) (force simp add: replay_step_def replay_ledger_def Let_def rbind_eq_Inr)+

lemma start_replay_Inr:
  "start_replay H S ops state sink txdb cp = Inr rp \<longleftrightarrow>
     (\<exists>txdb' tx_root nodes sink'. txdb_write S txdb cp = Inr txdb' \<and>
        build_tx_tree H (tm_txns cp) = Inr (tx_root, nodes) \<and> rfold (sink_node ops) sink nodes = Inr sink' \<and>
        rp = \<lparr>rp_state = state, rp_rows = [], rp_sink = sink', rp_txdb = txdb',
              rp_root = tm_account_hash cp, rp_prev_hash = tm_ledger_hash cp\<rparr>)"
  by (auto simp add: start_replay_def rbind_eq_Inr)

section \<open>The buffered replay\<close>

lemma replay_ledger_missing: "replay_ledger H S ops verify rp (d, Inl e) \<noteq> Inr rp'"
  by (auto simp add: replay_ledger_def rbind_eq_Inr)

lemma indexed_ledgers:
  "rfold (replay_ledger H S ops verify) rp
       (map (\<lambda>(i, delta). (delta, nth_tx_map ms i)) (enumerate k ds)) = Inr rp' \<longleftrightarrow>
     (ds = [] \<or> k + length ds < length ms) \<and>
     rfold (replay_step H S ops verify) rp (zip ds (drop (Suc k) ms)) = Inr rp'"
proof (induction ds arbitrary: k rp)
  case (Cons d ds)
  show ?case
  proof (cases "Suc k < length ms")
    case True
    then have "drop (Suc k) ms = ms ! Suc k # drop (Suc (Suc k)) ms" by (simp add: Cons_nth_drop_Suc)
    then show ?thesis using Cons [of _ "Suc k"] True
      by (auto simp add: nth_tx_map_def rbind_eq_Inr replay_step_def)
  next
    case False
    then show ?thesis by (auto simp add: nth_tx_map_def rbind_eq_Inr replay_ledger_missing)
  qed
qed simp

lemma replay_chunk_parts:
  "replay_chunk H S ops verify c sink txdb = oret rp \<longleftrightarrow>
     (\<exists>cp ms. ck_tx_maps c = cp # ms \<and> length (ck_deltas c) \<le> length ms \<and>
        replay_parts H S ops verify sink txdb (ck_checkpoint c) cp (zip (ck_deltas c) ms) rp)"
proof (cases "ck_tx_maps c")
  case Nil
  then show ?thesis by (auto simp add: replay_chunk_def obind_eq_Inr Let_def)
next
  case (Cons cp ms)
  have "(ck_deltas c = [] \<or> length (ck_deltas c) < length (cp # ms)) \<longleftrightarrow> length (ck_deltas c) \<le> length ms"
    by auto
  then show ?thesis
    using indexed_ledgers [of H S ops verify _ "cp # ms" 0 "ck_deltas c" rp]
    by (auto simp add: replay_chunk_def obind_eq_Inr Let_def Cons replay_parts_def)
qed

section \<open>The streaming replay\<close>

lemma checkpoint_nodes_failed:
  "(bad \<noteq> None \<or> err \<noteq> None) \<Longrightarrow>
     foldl (checkpoint_node H ops verify) (bad, err, sink, st) ns \<noteq> (None, None, sink', st')"
proof (induction ns arbitrary: bad err sink st)
  case (Cons n ns)
  then show ?case by (auto simp add: checkpoint_node_def Let_def split: sum.splits)
qed auto

lemma checkpoint_nodes:
  "foldl (checkpoint_node H ops verify) (None, None, sink, st) ns = (None, None, sink', st') \<longleftrightarrow>
     rfold (sink_node ops) sink ns = Inr sink' \<and> st' = foldl insert_node st ns \<and>
     (verify \<longrightarrow> (\<forall>n \<in> set ns. recompute_node_hash H n = node_hash n))"
proof (induction ns arbitrary: sink st)
  case (Cons n ns)
  show ?case
  proof (cases "\<exists>s. sink_node ops sink n = Inr s \<and> (verify \<longrightarrow> recompute_node_hash H n = node_hash n)")
    case True
    with Cons show ?thesis by (auto simp add: checkpoint_node_def)
  next
    case False
    obtain bad err s t where q: "checkpoint_node H ops verify (None, None, sink, st) n = (bad, err, s, t)"
      by (metis prod.exhaust)
    with False have "bad \<noteq> None \<or> err \<noteq> None"
      by (cases "sink_node ops sink n") (auto simp add: checkpoint_node_def)
    then have "foldl (checkpoint_node H ops verify) (None, None, sink, st) (n # ns) \<noteq> (None, None, sink', st')"
      using checkpoint_nodes_failed q by simp
    with False show ?thesis by (auto simp add: rbind_eq_Inr)
  qed
qed auto

text \<open>What the reader delivers, before the footer is checked.\<close>

lemma collect_body_Inr:
  "collect_body H cr = Inr (ns, cp, ls, rest) \<longleftrightarrow>
     (\<exists>c1 c2 c3. hashing read_node_list cr = Inr (ns, c1) \<and> reader_checkpoint_tx_map c1 = Inr (cp, c2) \<and>
        hashing (read_times (unat (cr_deltas_remaining c2)) read_ledger) c2 = Inr (ls, c3) \<and>
        reader_finish H (c3\<lparr>cr_deltas_remaining := 0\<rparr>) = Inr () \<and> rest = drop 4 (cr_rest c3))"
  by (auto simp add: collect_body_def reader_checkpoint_eq rbind_eq_Inr drain_Inr rfold_snoc foldl_snoc)

lemma replay_stream_parts:
  "replay_chunk_streaming H S ops verify file sink txdb = oret rp \<longleftrightarrow>
     (\<exists>cr ns cp ls rest. reader_open file = Inr cr \<and> collect_body H cr = Inr (ns, cp, ls, rest) \<and>
        replay_parts H S ops verify sink txdb ns cp ls rp)"
proof -
  have step: "(\<lambda>rp (delta, m). replay_ledger H S ops verify rp (delta, Inr m)) = replay_step H S ops verify"
    by (simp add: fun_eq_iff replay_step_def)
  show ?thesis
    unfolding replay_chunk_streaming_def step
    by (cases verify) (auto simp add: obind_eq_Inr collect_body_Inr reader_checkpoint_eq rbind_eq_Inr
        drain_Inr checkpoint_nodes replay_parts_def)
qed

section \<open>Streaming and buffering agree\<close>

lemma assembled_replay:
  "replay_chunk H S ops verify (assembled cr ns cp ls) sink txdb = oret rp \<longleftrightarrow>
     replay_parts H S ops verify sink txdb ns cp ls rp"
  by (simp add: replay_chunk_parts assembled_def zip_map_fst_snd)

lemma streaming_replay_iff:
  assumes "parse_chunk H file = Inr (c, [])" and "file ! 4 = format_version_streamed"
  shows "replay_chunk_streaming H S ops verify file sink txdb = oret rp \<longleftrightarrow>
    replay_chunk H S ops verify c sink txdb = oret rp"
proof -
  obtain cr ns cp ls where cr: "reader_open file = Inr cr" "collect_body H cr = Inr (ns, cp, ls, [])"
    "c = assembled cr ns cp ls"
    using assms stream_reader_iff by blast
  then show ?thesis by (auto simp add: replay_stream_parts assembled_replay)
qed

lemma streaming_replay_sound:
  assumes "replay_chunk_streaming H S ops verify file sink txdb = oret rp"
  shows "\<exists>f rest c. file = f @ rest \<and> deserialize_chunk H f = Inr c \<and>
    replay_chunk H S ops verify c sink txdb = oret rp"
proof -
  obtain cr ns cp ls rest where cr: "reader_open file = Inr cr" "collect_body H cr = Inr (ns, cp, ls, rest)"
    "replay_parts H S ops verify sink txdb ns cp ls rp"
    using assms by (auto simp add: replay_stream_parts)
  with stream_reader_sound [OF cr(1,2)] show ?thesis by (metis assembled_replay)
qed

end
