(* ===== verification/Tx_Leaf.thy ===== *)
theory Tx_Leaf
  imports Tx_Tree
begin

text \<open>
  The reader of transaction leaves in crates/xrla-nudb/src/reader.rs (read_vl,
  parse_tx_leaf), and its agreement with the writer of crates/xrla-common/src/tx_tree.rs:
  a leaf parses to a record exactly when it is the content the tree builder writes for it.
\<close>

datatype leaf_error =
    VlTruncated
  | VlInvalid byte
  | UnexpectedLeaf nat "byte list"
  | TxBlobTruncated
  | MetaBlobTruncated
  | TxidLength nat

text \<open>The length and the number of bytes of the prefix.\<close>

definition read_vl :: "byte list \<Rightarrow> leaf_error + nat \<times> nat" where
  "read_vl b =
     (case b of
        [] \<Rightarrow> Inl VlTruncated
      | b0 # r \<Rightarrow>
          if unat b0 \<le> 192 then Inr (unat b0, 1)
          else if unat b0 \<le> 240 then
            (case r of
               [] \<Rightarrow> Inl VlTruncated
             | b1 # _ \<Rightarrow> Inr (193 + (unat b0 - 193) * 256 + unat b1, 2))
          else if unat b0 \<le> 254 then
            (case r of
               [] \<Rightarrow> Inl VlTruncated
             | [_] \<Rightarrow> Inl VlTruncated
             | b1 # b2 # _ \<Rightarrow>
                 Inr (12481 + (unat b0 - 241) * 65536 + unat b1 * 256 + unat b2, 3))
          else Inl (VlInvalid b0))"

text \<open>\<open>slice.get(p..p + n)\<close>\<close>

definition get_range :: "byte list \<Rightarrow> nat \<Rightarrow> nat \<Rightarrow> byte list option" where
  "get_range b p n = (if p + n \<le> length b then Some (take n (drop p b)) else None)"

definition ok_or :: "'e \<Rightarrow> 'a option \<Rightarrow> 'e + 'a" where
  "ok_or e m = (case m of None \<Rightarrow> Inl e | Some x \<Rightarrow> Inr x)"

definition parse_tx_leaf :: "byte list \<Rightarrow> leaf_error + tx_record" where
  "parse_tx_leaf content =
     (if length content < 4 + 32 \<or> take 4 content \<noteq> hash_prefix_tx_node
      then Inl (UnexpectedLeaf (length content) (take 4 content))
      else
        let p = 4 in
        rbind (read_vl (drop p content)) (\<lambda>(tx_len, n).
        let p = p + n in
        rbind (ok_or TxBlobTruncated (get_range content p tx_len)) (\<lambda>blob.
        let p = p + tx_len in
        rbind (read_vl (drop p content)) (\<lambda>(meta_len, n).
        let p = p + n in
        rbind (ok_or MetaBlobTruncated (get_range content p meta_len)) (\<lambda>meta.
        let p = p + meta_len in
        if length content - p \<noteq> 32 then Inl (TxidLength (length content - p))
        else Inr \<lparr>tx_hash = from_be_bytes (take 32 (drop p content)),
                  tx_blob = blob, meta_blob = meta\<rparr>)))))"

section \<open>The length prefix\<close>

definition vl_prefix :: "nat \<Rightarrow> byte list" where
  "vl_prefix len =
     (if len \<le> 192 then [of_nat len]
      else if len \<le> 12480 then
        let n = len - 193 in [of_nat (193 + n div 256), of_nat (n mod 256)]
      else
        let n = len - 12481 in
        [of_nat (241 + n div 65536), of_nat ((n div 256) mod 256), of_nat (n mod 256)])"

lemma write_vl_prefix: "write_vl d = vl_prefix (length d) @ d"
  by (simp add: write_vl_def vl_prefix_def Let_def)

text \<open>The longest blob whose prefix can be read back.\<close>

definition vl_limit :: nat where "vl_limit = 929985"

lemma unat_of_nat_byte_less: "v < 256 \<Longrightarrow> unat (of_nat v :: byte) = v"
  by (simp add: unat_of_nat_byte)

lemma base256_digits: "n = n div 65536 * 65536 + n div 256 mod 256 * 256 + n mod 256" for n :: nat
proof -
  have "n div 65536 = n div 256 div 256" using div_mult2_eq [of n 256 256] by simp
  moreover have "n = n div 256 * 256 + n mod 256" by (rule div_mod_decomp)
  moreover have "n div 256 = n div 256 div 256 * 256 + n div 256 mod 256" by (rule div_mod_decomp)
  ultimately show ?thesis by linarith
qed

lemma base256_split:
  assumes "b < 256" and "c < (256::nat)"
  shows "(a * 65536 + b * 256 + c) div 65536 = a" "(a * 65536 + b * 256 + c) div 256 mod 256 = b"
    "(a * 65536 + b * 256 + c) mod 256 = c"
proof -
  have e: "a * 65536 + b * 256 + c = (a * 256 + b) * 256 + c" by simp
  have d: "(a * 65536 + b * 256 + c) div 256 = a * 256 + b" unfolding e using assms by simp
  show "(a * 65536 + b * 256 + c) div 256 mod 256 = b" unfolding d using assms by simp
  show "(a * 65536 + b * 256 + c) mod 256 = c"
    unfolding e using assms by (simp only: mod_mult_self3 mod_less)
  have "(a * 65536 + b * 256 + c) div 65536 = (a * 65536 + b * 256 + c) div 256 div 256"
    using div_mult2_eq [of "a * 65536 + b * 256 + c" 256 256] by simp
  then show "(a * 65536 + b * 256 + c) div 65536 = a" unfolding d using assms by simp
qed

lemma read_vl_prefix:
  assumes "len < vl_limit"
  shows "read_vl (vl_prefix len @ r) = Inr (len, length (vl_prefix len))"
proof -
  consider "len \<le> 192" | "192 < len" "len \<le> 12480" | "12480 < len" by linarith
  then show ?thesis
  proof cases
    case 1
    then show ?thesis by (simp add: read_vl_def vl_prefix_def unat_of_nat_byte_less)
  next
    case 2
    define q0 q1 where "q0 = (len - 193) div 256" and "q1 = (len - 193) mod 256"
    have q: "len = 193 + q0 * 256 + q1" "q0 < 48" "q1 < 256"
      using 2 by (simp_all add: q0_def q1_def less_mult_imp_div_less)
    have p: "vl_prefix len = [of_nat (193 + q0), of_nat q1]"
      using 2 by (simp add: vl_prefix_def Let_def q0_def q1_def)
    have "unat (of_nat (193 + q0) :: byte) = 193 + q0" "unat (of_nat q1 :: byte) = q1"
      using q by (simp_all add: unat_of_nat_byte_less del: of_nat_add)
    then show ?thesis
      unfolding p using q by (simp add: read_vl_def del: of_nat_add)
  next
    case 3
    define q0 q1 q2 where "q0 = (len - 12481) div 65536" and "q1 = (len - 12481) div 256 mod 256"
      and "q2 = (len - 12481) mod 256"
    have "len - 12481 = q0 * 65536 + q1 * 256 + q2"
      unfolding q0_def q1_def q2_def by (rule base256_digits)
    then have q: "len = 12481 + q0 * 65536 + q1 * 256 + q2" using 3 by linarith
    have q': "q0 < 14" "q1 < 256" "q2 < 256"
      using 3 assms
      by (simp_all add: q0_def q1_def q2_def vl_limit_def less_mult_imp_div_less)
    have p: "vl_prefix len = [of_nat (241 + q0), of_nat q1, of_nat q2]"
      using 3 by (simp add: vl_prefix_def Let_def q0_def q1_def q2_def)
    have "unat (of_nat (241 + q0) :: byte) = 241 + q0" "unat (of_nat q1 :: byte) = q1"
        "unat (of_nat q2 :: byte) = q2"
      using q' by (simp_all add: unat_of_nat_byte_less del: of_nat_add)
    then show ?thesis
      unfolding p using q q' by (simp add: read_vl_def del: of_nat_add)
  qed
qed

text \<open>The prefix is canonical: no other bytes are read as the same length.\<close>

lemma read_vl_InrD:
  assumes "read_vl b = Inr (len, n)"
  shows "len < vl_limit \<and> n = length (vl_prefix len) \<and> (\<exists>r. b = vl_prefix len @ r)"
proof -
  obtain b0 r where b: "b = b0 # r" using assms by (cases b) (auto simp add: read_vl_def)
  have u: "unat b0 < 256" by simp
  consider "unat b0 \<le> 192" | "192 < unat b0" "unat b0 \<le> 240" | "240 < unat b0" "unat b0 \<le> 254"
    using assms b by (fastforce simp add: read_vl_def split: if_splits)
  then show ?thesis
  proof cases
    case 1
    then show ?thesis using assms b by (auto simp add: read_vl_def vl_prefix_def vl_limit_def)
  next
    case 2
    then obtain b1 q where r: "r = b1 # q" "len = 193 + (unat b0 - 193) * 256 + unat b1" "n = 2"
      using assms b by (auto simp add: read_vl_def split: list.splits)
    have u1: "unat b1 < 256" by simp
    have e: "len - 193 = (unat b0 - 193) * 256 + unat b1" using r by simp
    have "(len - 193) div 256 = unat b0 - 193" "(len - 193) mod 256 = unat b1"
      unfolding e using u1 by simp_all
    moreover have "unat b0 - 193 \<le> 47" using 2 by simp
    then have "192 < len" "len \<le> 12480" unfolding r(2) using u1 by linarith+
    moreover have "193 + (unat b0 - 193) = unat b0" using 2 by simp
    ultimately show ?thesis
      using b r by (simp add: vl_prefix_def Let_def vl_limit_def del: of_nat_add)
  next
    case 3
    then obtain b1 b2 q where r: "r = b1 # b2 # q"
        "len = 12481 + (unat b0 - 241) * 65536 + unat b1 * 256 + unat b2" "n = 3"
      using assms b by (auto simp add: read_vl_def split: list.splits)
    have u1: "unat b1 < 256" "unat b2 < 256" by simp_all
    have e: "len - 12481 = (unat b0 - 241) * 65536 + unat b1 * 256 + unat b2" using r by simp
    have "(len - 12481) div 65536 = unat b0 - 241" "(len - 12481) div 256 mod 256 = unat b1"
        "(len - 12481) mod 256 = unat b2"
      unfolding e using base256_split [OF u1] by simp_all
    moreover have "unat b0 - 241 \<le> 13" using 3 by simp
    then have "12480 < len" "len < vl_limit" unfolding r(2) vl_limit_def using u1 by linarith+
    moreover have "241 + (unat b0 - 241) = unat b0" using 3 by simp
    ultimately show ?thesis
      using b r by (simp add: vl_prefix_def Let_def del: of_nat_add)
  qed
qed

section \<open>Leaves\<close>

definition wf_leaf :: "tx_record \<Rightarrow> bool" where
  "wf_leaf t \<longleftrightarrow> length (tx_blob t) < vl_limit \<and> length (meta_blob t) < vl_limit"

lemma parse_tx_leaf_content:
  assumes "wf_leaf t"
  shows "parse_tx_leaf (tx_leaf_content t) = Inr t"
proof -
  let ?b = "tx_blob t" and ?m = "meta_blob t"
  have r1: "read_vl (vl_prefix (length ?b) @ r) = Inr (length ?b, length (vl_prefix (length ?b)))" for r
    using assms by (simp add: wf_leaf_def read_vl_prefix)
  have r2: "read_vl (vl_prefix (length ?m) @ r) = Inr (length ?m, length (vl_prefix (length ?m)))" for r
    using assms by (simp add: wf_leaf_def read_vl_prefix)
  have [simp]: "length hash_prefix_tx_node = 4" by (simp add: hash_prefix_tx_node_def)
  have d: "drop (4 + length (vl_prefix (length ?b)) + length ?b) (tx_leaf_content t)
      = vl_prefix (length ?m) @ ?m @ to_be_bytes (tx_hash t)"
    "drop 4 (tx_leaf_content t) = vl_prefix (length ?b) @ ?b @ write_vl ?m @ to_be_bytes (tx_hash t)"
    by (simp_all add: tx_leaf_content_def write_vl_prefix)
  show ?thesis
    unfolding parse_tx_leaf_def Let_def d r1 rbind_simps prod.case
    by (simp add: d r2 get_range_def ok_or_def)
      (simp add: tx_leaf_content_def write_vl_prefix)
qed

lemma parse_tx_leaf_InrD:
  assumes "parse_tx_leaf c = Inr t"
  shows "wf_leaf t \<and> c = tx_leaf_content t"
proof -
  from assms have pre: "take 4 c = hash_prefix_tx_node" "36 \<le> length c"
    by (auto simp add: parse_tx_leaf_def split: if_splits)
  from assms obtain l n where l: "read_vl (drop 4 c) = Inr (l, n)"
    by (auto simp add: parse_tx_leaf_def Let_def rbind_eq_Inr split: if_splits)
  from assms l obtain k n' where k: "4 + n + l \<le> length c"
    and k': "read_vl (drop (4 + n + l) c) = Inr (k, n')"
    by (auto simp add: parse_tx_leaf_def Let_def rbind_eq_Inr get_range_def ok_or_def
        split: if_splits)
  from assms l k k' have len: "4 + n + l + n' + k \<le> length c"
      "length c = 4 + n + l + n' + k + 32"
    and t: "tx_blob t = take l (drop (4 + n) c)" "meta_blob t = take k (drop (4 + n + l + n') c)"
      "tx_hash t = from_be_bytes (take 32 (drop (4 + n + l + n' + k) c))"
    by (auto simp add: parse_tx_leaf_def Let_def rbind_eq_Inr get_range_def ok_or_def
        split: if_splits)
  obtain r where r: "drop 4 c = vl_prefix l @ r" "n = length (vl_prefix l)" "l < vl_limit"
    using read_vl_InrD [OF l] by blast
  obtain r' where r': "drop (4 + n + l) c = vl_prefix k @ r'" "n' = length (vl_prefix k)" "k < vl_limit"
    using read_vl_InrD [OF k'] by blast
  have "c = take 4 c @ drop 4 c" by simp
  also have "drop 4 c = vl_prefix l @ drop n (drop 4 c)" using r by simp
  also have "drop n (drop 4 c) = tx_blob t @ drop (4 + n + l) c"
    using t(1) by (metis append_take_drop_id drop_drop add.commute)
  also have "drop (4 + n + l) c = vl_prefix k @ drop n' (drop (4 + n + l) c)" using r' by simp
  also have "drop n' (drop (4 + n + l) c) = meta_blob t @ drop (4 + n + l + n' + k) c"
    using t(2) by (metis append_take_drop_id drop_drop add.commute)
  also have "drop (4 + n + l + n' + k) c = to_be_bytes (tx_hash t)"
    using t(3) len by simp
  finally have "c = take 4 c @ vl_prefix l @ tx_blob t @ vl_prefix k @ meta_blob t
      @ to_be_bytes (tx_hash t)" .
  moreover have "length (tx_blob t) = l" "length (meta_blob t) = k"
    using t len by simp_all
  ultimately show ?thesis
    using pre r r' by (simp add: tx_leaf_content_def write_vl_prefix wf_leaf_def)
qed

lemma tx_leaf_content_inject:
  "wf_leaf s \<Longrightarrow> wf_leaf t \<Longrightarrow> tx_leaf_content s = tx_leaf_content t \<longleftrightarrow> s = t"
  by (metis parse_tx_leaf_content sum.inject(2))

section \<open>Properties\<close>

text \<open>
  The leaf parser of the exporter and the leaf writer of the importer are inverse: a
  content parses to a record exactly when it is what the tree builder writes for that record
  and both blobs are below the 929,985 bytes a length prefix can express.
\<close>

theorem tx_leaf_parses_iff_written:
  "parse_tx_leaf content = Inr t \<longleftrightarrow> wf_leaf t \<and> content = tx_leaf_content t"
  using parse_tx_leaf_content parse_tx_leaf_InrD by blast

end
