(* ===== verification/Nudb_Reader.thy ===== *)
theory Nudb_Reader
  imports Nudb_Codec Tx_Leaf Run
begin

text \<open>
  NuDBReader of crates/xrla-nudb/src/reader.rs: node lookup over several shards, the
  traversals that collect a tree (depth first, and level by level with concurrent fetches),
  the transactions of a ledger, and the diff of two state trees. The traversals take the node
  lookup as a function, so that they apply to every store; \<open>get_node\<close> is the one of the code.
\<close>

datatype reader_error =
    ShardFailed shard_error
  | NodeNotInStore hash256
  | BadNode shamap_error
  | BadLeaf leaf_error
  | NoDatPaths

type_synonym node_lookup = "hash256 \<Rightarrow> (reader_error, shamap_node) run"

section \<open>Lookup\<close>

text \<open>NuDBReader::open, over the contents of each .dat file and its sibling .key file.\<close>

fun open_shards :: "(byte list \<times> byte list) list \<Rightarrow> (shard_error, shard list) run" where
  "open_shards [] = oret []"
| "open_shards ((dat, key) # files) =
     obind (shard_open dat key) (\<lambda>s. obind (open_shards files) (\<lambda>ss. oret (s # ss)))"

definition nudb_open :: "(byte list \<times> byte list) list \<Rightarrow> (reader_error, shard list) run" where
  "nudb_open files =
     (if files = [] then ofail NoDatPaths else
      (case open_shards files of
         None \<Rightarrow> None
       | Some (Inl e) \<Rightarrow> ofail (ShardFailed e)
       | Some (Inr shards) \<Rightarrow> oret shards))"

fun get_wire ::
  "xxh64 \<Rightarrow> lz4 \<Rightarrow> shard list \<Rightarrow> hash256 \<Rightarrow> (reader_error, byte list option) run" where
  "get_wire X L [] h = oret None"
| "get_wire X L (s # shards) h =
     (case fetch X s h of
        None \<Rightarrow> None
      | Some (Inl e) \<Rightarrow> ofail (ShardFailed e)
      | Some (Inr None) \<Rightarrow> get_wire X L shards h
      | Some (Inr (Some val)) \<Rightarrow>
          (case decode_value_to_wire L val of
             Some wire \<Rightarrow> oret (Some wire)
           | None \<Rightarrow> get_wire X L shards h))"

definition get_node :: "xxh64 \<Rightarrow> lz4 \<Rightarrow> shard list \<Rightarrow> node_lookup" where
  "get_node X L shards h =
     obind (get_wire X L shards h) (\<lambda>w.
     case w of
       None \<Rightarrow> ofail (NodeNotInStore h)
     | Some wire \<Rightarrow> olift BadNode (from_wire_bytes h wire))"

section \<open>Traversals\<close>

text \<open>
  The stack of collect_reachable has its top at the head; the children are pushed in slot
  order, so the last one is on top.
\<close>

partial_function (option) reach_loop ::
  "node_lookup \<Rightarrow> hash256 list \<Rightarrow> hash256 set \<Rightarrow> shamap_node list \<Rightarrow> (reader_error, shamap_node list) run" where
  "reach_loop get stack visited result =
     (case stack of
        [] \<Rightarrow> oret result
      | h # rest \<Rightarrow>
          if h \<in> visited then reach_loop get rest visited result else
          obind (get h) (\<lambda>node.
          obind (if is_inner (node_type node)
                 then obind (olift BadNode (inner_from_node node)) (\<lambda>inner.
                        oret (rev (filter (\<lambda>c. c \<notin> insert h visited) (child_hashes inner)) @ rest))
                 else oret rest) (\<lambda>stack.
          reach_loop get stack (insert h visited) (result @ [node]))))"

definition collect_reachable :: "node_lookup \<Rightarrow> hash256 \<Rightarrow> (reader_error, shamap_node list) run" where
  "collect_reachable get root = reach_loop get [root] {} []"

text \<open>One level of the concurrent walk: fetched nodes are processed in frontier order.\<close>

definition frontier_child :: "hash256 list \<times> hash256 set \<Rightarrow> hash256 \<Rightarrow> hash256 list \<times> hash256 set" where
  "frontier_child st c =
     (let (nextf, visited) = st in
      if c \<in> visited then st else (nextf @ [c], insert c visited))"

definition frontier_node ::
  "hash256 list \<times> hash256 set \<times> shamap_node list \<Rightarrow> reader_error + shamap_node
     \<Rightarrow> (reader_error, hash256 list \<times> hash256 set \<times> shamap_node list) run" where
  "frontier_node st fetched =
     (let (nextf, visited, result) = st in
      obind (Some fetched) (\<lambda>node.
      obind (if is_inner (node_type node)
             then obind (olift BadNode (inner_from_node node)) (\<lambda>inner.
                    oret (foldl frontier_child (nextf, visited) (child_hashes inner)))
             else oret (nextf, visited)) (\<lambda>(nextf, visited).
      oret (nextf, visited, result @ [node]))))"

text \<open>All fetches of a level run before any is looked at; one that does not return blocks.\<close>

fun fetch_all :: "node_lookup \<Rightarrow> hash256 list \<Rightarrow> (reader_error + shamap_node) list option" where
  "fetch_all get [] = Some []"
| "fetch_all get (h # hs) =
     Option.bind (get h) (\<lambda>r. Option.bind (fetch_all get hs) (\<lambda>rs. Some (r # rs)))"

partial_function (option) bfs_loop ::
  "node_lookup \<Rightarrow> hash256 list \<Rightarrow> hash256 set \<Rightarrow> shamap_node list \<Rightarrow> (reader_error, shamap_node list) run" where
  "bfs_loop get frontier visited result =
     (if frontier = [] then oret result else
      Option.bind (fetch_all get frontier) (\<lambda>fetched.
      obind (ofold frontier_node ([], visited, result) fetched) (\<lambda>st.
      case st of (nextf, visited, result) \<Rightarrow> bfs_loop get nextf visited result)))"

definition collect_reachable_concurrent ::
  "node_lookup \<Rightarrow> hash256 \<Rightarrow> nat \<Rightarrow> (reader_error, shamap_node list) run" where
  "collect_reachable_concurrent get root concurrency =
     (if concurrency \<le> 1 then collect_reachable get root
      else bfs_loop get [root] {root} [])"

section \<open>Choosing the concurrency\<close>

text \<open>A bounded walk: it stops after \<open>target\<close> hashes.\<close>

definition sample_child :: "hash256 list \<times> hash256 set \<Rightarrow> hash256 \<Rightarrow> hash256 list \<times> hash256 set" where
  "sample_child st c =
     (let (stack, visited) = st in
      if c \<in> visited then st else (c # stack, insert c visited))"

function sample_loop ::
  "node_lookup \<Rightarrow> nat \<Rightarrow> hash256 list \<Rightarrow> hash256 set \<Rightarrow> hash256 list \<Rightarrow> (reader_error, hash256 list) run" where
  "sample_loop get target [] visited result = oret result"
| "sample_loop get target (h # rest) visited result =
     (if target \<le> length result then oret result else
      obind (get h) (\<lambda>node.
      obind (if is_inner (node_type node)
             then obind (olift BadNode (inner_from_node node)) (\<lambda>inner.
                    oret (foldl sample_child (rest, visited) (child_hashes inner)))
             else oret (rest, visited)) (\<lambda>st.
      sample_loop get target (fst st) (snd st) (result @ [h]))))"
  by pat_completeness auto
termination by (relation "measure (\<lambda>(get, target, stack, visited, result). target - length result)") auto

definition sample_hashes :: "node_lookup \<Rightarrow> hash256 \<Rightarrow> nat \<Rightarrow> (reader_error, hash256 list) run" where
  "sample_hashes get root target = sample_loop get target [root] {root} []"

text \<open>
  The clock is a parameter: \<open>elapsed level\<close> is the measured time of the probe at a level, in
  nanoseconds. A throughput is the pair of a number of fetches and the nanoseconds they took;
  the code's quotients in f64 are compared here by cross-multiplication, without rounding. The
  probe waits for its fetches and ignores their results.
\<close>

definition too_slow :: "nat \<Rightarrow> nat \<Rightarrow> bool" where
  "too_slow fetches ns \<longleftrightarrow> fetches * 50000000 < ns"

definition gains_enough :: "nat \<times> nat \<Rightarrow> nat \<times> nat \<Rightarrow> bool" where
  "gains_enough best now \<longleftrightarrow> fst best * snd now * 115 < fst now * snd best * 100"

definition probe_of :: "hash256 list \<Rightarrow> nat \<Rightarrow> hash256 list" where
  "probe_of sample level = take (min (max 1 (min (level * 4) 128)) (length sample)) sample"

primrec calibrate_loop ::
  "node_lookup \<Rightarrow> (nat \<Rightarrow> nat) \<Rightarrow> hash256 list \<Rightarrow> nat \<Rightarrow> nat list \<Rightarrow> nat \<Rightarrow> nat \<times> nat \<Rightarrow> (reader_error, nat) run" where
  "calibrate_loop get elapsed sample first [] best_level best_throughput = oret best_level"
| "calibrate_loop get elapsed sample first (level # levels) best_level best_throughput =
     (if length sample < level then oret best_level else
      let probe = probe_of sample level in
      Option.bind (fetch_all get probe) (\<lambda>_.
      let ns = max (elapsed level) 1;
          throughput = (length probe, ns) in
      if too_slow (length probe) ns then oret best_level
      else if level = first \<or> gains_enough best_throughput throughput
      then calibrate_loop get elapsed sample first levels level throughput
      else oret best_level))"

definition calibrate_concurrency_with_levels ::
  "node_lookup \<Rightarrow> (nat \<Rightarrow> nat) \<Rightarrow> hash256 \<Rightarrow> nat list \<Rightarrow> (reader_error, nat) run" where
  "calibrate_concurrency_with_levels get elapsed root levels =
     (let min_sample = (case levels of _ # l # _ \<Rightarrow> l | _ \<Rightarrow> 1) in
      obind (sample_hashes get root 2048) (\<lambda>sample.
      if length sample < min_sample then oret 1
      else calibrate_loop get elapsed sample (levels ! 0) levels 1 (0, 1)))"

text \<open>Whether the store shares a device with the root file system is a parameter.\<close>

definition calibrate_concurrency ::
  "node_lookup \<Rightarrow> (nat \<Rightarrow> nat) \<Rightarrow> bool \<Rightarrow> hash256 \<Rightarrow> (reader_error, nat) run" where
  "calibrate_concurrency get elapsed shares_device root =
     calibrate_concurrency_with_levels get elapsed root
       (if shares_device then [1, 2, 4] else [1, 2, 4, 8, 16, 32])"

definition collect_reachable_adaptive ::
  "node_lookup \<Rightarrow> (nat \<Rightarrow> nat) \<Rightarrow> bool \<Rightarrow> hash256 \<Rightarrow> (reader_error, shamap_node list) run" where
  "collect_reachable_adaptive get elapsed shares_device root =
     obind (calibrate_concurrency get elapsed shares_device root) (\<lambda>concurrency.
     collect_reachable_concurrent get root concurrency)"

partial_function (option) transactions_loop ::
  "node_lookup \<Rightarrow> hash256 list \<Rightarrow> hash256 set \<Rightarrow> tx_record list \<Rightarrow> (reader_error, tx_record list) run" where
  "transactions_loop get stack visited out =
     (case stack of
        [] \<Rightarrow> oret out
      | h # rest \<Rightarrow>
          if h \<in> visited then transactions_loop get rest visited out else
          obind (get h) (\<lambda>node.
          if is_inner (node_type node)
          then obind (olift BadNode (inner_from_node node)) (\<lambda>inner.
                 transactions_loop get
                   (rev (filter (\<lambda>c. c \<notin> insert h visited) (child_hashes inner)) @ rest)
                   (insert h visited) out)
          else obind (olift BadLeaf (parse_tx_leaf (node_content node))) (\<lambda>t.
                 transactions_loop get rest (insert h visited) (out @ [t]))))"

definition collect_transactions :: "node_lookup \<Rightarrow> hash256 \<Rightarrow> (reader_error, tx_record list) run" where
  "collect_transactions get tx_root =
     (if tx_root = 0 then oret []
      else obind (transactions_loop get [tx_root] {} []) (\<lambda>out. oret (sort_key tx_hash out)))"

section \<open>Diff\<close>

partial_function (option) collect_added ::
  "node_lookup \<Rightarrow> hash256 \<Rightarrow> shamap_diff \<Rightarrow> (reader_error, shamap_diff) run" where
  "collect_added get h diff =
     (if h = 0 then oret diff else
      obind (get h) (\<lambda>node.
      obind (if is_inner (node_type node)
             then obind (olift BadNode (inner_from_node node)) (\<lambda>inner.
                    ofold (\<lambda>diff c. collect_added get c diff) diff (child_hashes inner))
             else oret diff) (\<lambda>diff.
      oret (diff\<lparr>diff_added := diff_added diff @ [node]\<rparr>))))"

partial_function (option) collect_deleted ::
  "node_lookup \<Rightarrow> hash256 \<Rightarrow> shamap_diff \<Rightarrow> (reader_error, shamap_diff) run" where
  "collect_deleted get h diff =
     (if h = 0 then oret diff else
      Option.bind (get h) (\<lambda>r.
      case r of
        Inl _ \<Rightarrow> oret (diff\<lparr>diff_deleted := diff_deleted diff @ [h]\<rparr>)
      | Inr node \<Rightarrow>
          obind (if is_inner (node_type node)
                 then obind (olift BadNode (inner_from_node node)) (\<lambda>inner.
                        ofold (\<lambda>diff c. collect_deleted get c diff) diff (child_hashes inner))
                 else oret diff) (\<lambda>diff.
          oret (diff\<lparr>diff_deleted := diff_deleted diff @ [h]\<rparr>))))"

definition child_or_zero :: "inner_node \<Rightarrow> nat \<Rightarrow> hash256" where
  "child_or_zero inner i = (case children inner ! i of None \<Rightarrow> 0 | Some c \<Rightarrow> c)"

partial_function (option) diff_nodes ::
  "node_lookup \<Rightarrow> hash256 \<Rightarrow> hash256 \<Rightarrow> shamap_diff \<Rightarrow> (reader_error, shamap_diff) run" where
  "diff_nodes get old_hash new_hash diff =
     (if old_hash = new_hash then oret diff
      else if new_hash = 0 then collect_deleted get old_hash diff
      else if old_hash = 0 then collect_added get new_hash diff
      else
        obind (get new_hash) (\<lambda>new_node.
        obind (get old_hash) (\<lambda>old_node.
        if is_inner (node_type new_node) \<and> is_inner (node_type old_node) then
          obind (olift BadNode (inner_from_node new_node)) (\<lambda>new_inner.
          obind (olift BadNode (inner_from_node old_node)) (\<lambda>old_inner.
          obind
            (ofold (\<lambda>diff i.
               if child_or_zero old_inner i \<noteq> child_or_zero new_inner i
               then diff_nodes get (child_or_zero old_inner i) (child_or_zero new_inner i) diff
               else oret diff) diff [0..<16]) (\<lambda>diff.
          oret (diff\<lparr>diff_added := diff_added diff @ [new_node],
                     diff_deleted := diff_deleted diff @ [old_hash]\<rparr>))))
        else
          obind (collect_added get new_hash diff) (collect_deleted get old_hash))))"

definition diff_roots :: "node_lookup \<Rightarrow> hash256 \<Rightarrow> hash256 \<Rightarrow> (reader_error, shamap_diff) run" where
  "diff_roots get old_root new_root =
     obind (diff_nodes get old_root new_root \<lparr>diff_added = [], diff_deleted = []\<rparr>) (\<lambda>diff.
     oret (diff\<lparr>diff_added := sort_key node_hash (diff_added diff),
                diff_deleted := sort (diff_deleted diff)\<rparr>))"

text \<open>The concurrent batch keeps the order of the pairs.\<close>

definition diff_batch_concurrent ::
  "node_lookup \<Rightarrow> (hash256 \<times> hash256) list \<Rightarrow> nat \<Rightarrow> (reader_error, shamap_diff list) run" where
  "diff_batch_concurrent get pairs concurrency =
     omap (\<lambda>(old, new). diff_roots get old new) pairs"

end
