(* ===== verification/Reader_Trees.thy ===== *)
theory Reader_Trees
  imports Nudb_Reader
begin

text \<open>
  The traversals of a node store: what is reachable from a root, and that the depth-first
  walk, the concurrent level-by-level walk and the transaction walk return exactly that, each
  node once, and that they return at all on every complete tree.
\<close>

section \<open>The store interface\<close>

text \<open>
  What a traversal relies on: a node is returned under the hash it was asked for. The
  content of the node is not trusted.
\<close>

locale node_store =
  fixes get :: node_lookup
  assumes get_hash: "get h = oret n \<Longrightarrow> node_hash n = h"

lemma get_node_hash: "get_node X L shards h = oret n \<Longrightarrow> node_hash n = h"
  by (auto simp add: get_node_def obind_eq_Inr from_wire_bytes_Inr split: option.splits)

interpretation nudb: node_store "get_node X L shards" for X L shards
  by unfold_locales (rule get_node_hash)

text \<open>Whatever the store holds, a node that is returned is one the importer could store.\<close>

lemma get_wire_decoded: "get_wire X L shards h = oret (Some wire) \<Longrightarrow> \<exists>val. decode_value_to_wire L val = Some wire"
  by (induction shards) (auto split: option.splits sum.splits)

lemma get_node_storable: "get_node X L shards h = oret n \<Longrightarrow> storable n"
  by (auto simp add: get_node_def obind_eq_Inr split: option.splits dest!: get_wire_decoded dest: decoded_storable)

text \<open>The nodes a node points to.\<close>

definition node_children :: "shamap_node \<Rightarrow> shamap_error + hash256 list" where
  "node_children n =
     (if is_inner (node_type n) then rbind (inner_from_node n) (\<lambda>inner. Inr (child_hashes inner))
      else Inr [])"

lemma node_children_Inr:
  "node_children n = Inr cs \<longleftrightarrow>
     (is_inner (node_type n) \<and> (\<exists>inner. inner_from_node n = Inr inner \<and> cs = child_hashes inner))
     \<or> (\<not> is_inner (node_type n) \<and> cs = [])"
  by (auto simp add: node_children_def rbind_eq_Inr)

inductive reach :: "node_lookup \<Rightarrow> hash256 \<Rightarrow> hash256 \<Rightarrow> bool" for get root where
  reach_root: "reach get root root"
| reach_child: "reach get root h \<Longrightarrow> get h = oret n \<Longrightarrow> node_children n = Inr cs \<Longrightarrow>
    c \<in> set cs \<Longrightarrow> reach get root c"

lemma reach_trans: "reach get h k \<Longrightarrow> reach get root h \<Longrightarrow> reach get root k"
  by (induction rule: reach.induct) (auto intro: reach_child)

text \<open>Every reachable node is in the store and parses.\<close>

definition complete_tree :: "node_lookup \<Rightarrow> hash256 \<Rightarrow> bool" where
  "complete_tree get root \<longleftrightarrow>
     (\<forall>h. reach get root h \<longrightarrow> (\<exists>n cs. get h = oret n \<and> node_children n = Inr cs))"

section \<open>Worklists\<close>

text \<open>
  A worklist state: everything seen is reachable, the root is seen, and the children of
  the visited nodes are seen.
\<close>

definition worklist :: "node_lookup \<Rightarrow> hash256 \<Rightarrow> hash256 list \<Rightarrow> hash256 set \<Rightarrow> bool" where
  "worklist get root stack visited \<longleftrightarrow>
     set stack \<union> visited \<subseteq> Collect (reach get root) \<and> root \<in> set stack \<union> visited \<and>
     (\<forall>h \<in> visited. \<forall>n cs. get h = oret n \<longrightarrow> node_children n = Inr cs \<longrightarrow>
        set cs \<subseteq> set stack \<union> visited)"

lemma worklist_start: "worklist get root [root] {}"
  by (simp add: worklist_def reach_root)

lemma worklist_done:
  assumes "worklist get root [] visited" and "complete_tree get root"
  shows "visited = Collect (reach get root)"
proof
  show "visited \<subseteq> Collect (reach get root)" using assms(1) by (simp add: worklist_def)
  have "h \<in> visited" if "reach get root h" for h
    using that
  proof induction
    case reach_root
    then show ?case using assms(1) by (simp add: worklist_def)
  next
    case (reach_child h n cs c)
    then have "set cs \<subseteq> set [] \<union> visited" using assms(1) unfolding worklist_def by blast
    with reach_child.hyps show ?case by auto
  qed
  then show "Collect (reach get root) \<subseteq> visited" by blast
qed

lemma worklist_skip:
  "worklist get root (h # rest) visited \<Longrightarrow> h \<in> visited \<Longrightarrow> worklist get root rest visited"
  by (auto simp add: worklist_def insert_absorb)

lemma worklist_visit:
  assumes "worklist get root (h # rest) visited" and "get h = oret n" and "node_children n = Inr cs"
  shows "worklist get root (rev (filter (\<lambda>c. c \<notin> insert h visited) cs) @ rest) (insert h visited)"
proof -
  have "set cs \<subseteq> Collect (reach get root)"
    using assms reach_child [of get root h n cs] by (auto simp add: worklist_def)
  moreover have "set ds \<subseteq> set (rev (filter (\<lambda>c. c \<notin> insert h visited) cs) @ rest) \<union> insert h visited"
    if "k \<in> insert h visited" "get k = oret m" "node_children m = Inr ds" for k m ds
  proof (cases "k = h")
    case True
    then show ?thesis using that assms(2,3) by auto
  next
    case False
    then show ?thesis using that assms(1) by (fastforce simp add: worklist_def)
  qed
  ultimately show ?thesis using assms(1) by (auto simp add: worklist_def)
qed

text \<open>Induction along the run of a worklist loop over a complete tree.\<close>

lemma worklist_induct [consumes 2, case_names empty skip visit]:
  assumes "complete_tree get root" and "worklist get root stack visited"
    and empty: "\<And>visited. worklist get root [] visited \<Longrightarrow> P [] visited"
    and skip: "\<And>h rest visited. worklist get root (h # rest) visited \<Longrightarrow> h \<in> visited \<Longrightarrow>
      P rest visited \<Longrightarrow> P (h # rest) visited"
    and visit: "\<And>h rest visited n cs. worklist get root (h # rest) visited \<Longrightarrow> h \<notin> visited \<Longrightarrow>
      get h = oret n \<Longrightarrow> node_children n = Inr cs \<Longrightarrow>
      P (rev (filter (\<lambda>c. c \<notin> insert h visited) cs) @ rest) (insert h visited) \<Longrightarrow>
      P (h # rest) visited"
  shows "P stack visited"
  using assms(2)
proof (induction "(stack, visited)" arbitrary: stack visited
    rule: wf_induct_rule [OF wf_measures [of "[\<lambda>(_, v). card (Collect (reach get root) - v), \<lambda>(s, _). length s]"]])
  case 1
  show ?case
  proof (cases stack)
    case Nil
    with 1 empty show ?thesis by simp
  next
    case (Cons h rest)
    show ?thesis
    proof (cases "h \<in> visited")
      case True
      have "worklist get root rest visited" using worklist_skip "1.prems" Cons True by blast
      then have "P rest visited" by (intro "1.hyps") (simp_all add: Cons)
      with skip "1.prems" Cons True show ?thesis by blast
    next
      case False
      have r: "reach get root h" using "1.prems" Cons by (simp add: worklist_def)
      then obtain n cs where n: "get h = oret n" "node_children n = Inr cs"
        using assms(1) by (auto simp add: complete_tree_def)
      have "Collect (reach get root) - insert h visited \<subset> Collect (reach get root) - visited"
        using r False by blast
      then have dec: "card (Collect (reach get root) - insert h visited)
          < card (Collect (reach get root) - visited)"
        by (intro psubset_card_mono) simp_all
      have "worklist get root (rev (filter (\<lambda>c. c \<notin> insert h visited) cs) @ rest) (insert h visited)"
        by (rule worklist_visit [OF "1.prems" [unfolded Cons] n])
      then have "P (rev (filter (\<lambda>c. c \<notin> insert h visited) cs) @ rest) (insert h visited)"
        by (intro "1.hyps") (simp_all add: dec)
      with visit "1.prems" Cons False n show ?thesis by blast
    qed
  qed
qed

section \<open>The depth-first walk\<close>

text \<open>What one visit of a node does to the loops.\<close>

lemma reach_loop_visit:
  "h \<notin> visited \<Longrightarrow> get h = oret n \<Longrightarrow> node_children n = Inr cs \<Longrightarrow>
     reach_loop get (h # rest) visited result =
       reach_loop get (rev (filter (\<lambda>c. c \<notin> insert h visited) cs) @ rest) (insert h visited) (result @ [n])"
  by (subst reach_loop.simps) (auto simp add: node_children_Inr)

lemma reach_loop_simps [simp]:
  "reach_loop get [] visited result = oret result"
  "h \<in> visited \<Longrightarrow> reach_loop get (h # rest) visited result = reach_loop get rest visited result"
  by (simp_all add: reach_loop.simps [of get "[]"] reach_loop.simps [of get "h # rest"])

text \<open>The nodes found for a set of hashes: each once.\<close>

definition nodes_of :: "node_lookup \<Rightarrow> hash256 set \<Rightarrow> shamap_node list \<Rightarrow> bool" where
  "nodes_of get S ns \<longleftrightarrow>
     distinct (map node_hash ns) \<and> node_hash ` set ns = S \<and> (\<forall>n \<in> set ns. get (node_hash n) = oret n)"

context node_store
begin

lemma nodes_of_snoc:
  "nodes_of get S ns \<Longrightarrow> h \<notin> S \<Longrightarrow> get h = oret n \<Longrightarrow> nodes_of get (insert h S) (ns @ [n])"
  using get_hash by (auto simp add: nodes_of_def)

lemma reach_loop_complete:
  assumes "complete_tree get root" and "worklist get root stack visited"
  shows "nodes_of get visited result \<Longrightarrow>
    \<exists>ns. reach_loop get stack visited result = oret ns \<and> nodes_of get (Collect (reach get root)) ns"
  using assms
proof (induction stack visited arbitrary: result rule: worklist_induct)
  case (empty visited)
  then show ?case using worklist_done [OF _ assms(1)] by simp
next
  case (skip h rest visited)
  then show ?case by simp
next
  case (visit h rest visited n cs)
  then show ?case by (simp add: reach_loop_visit nodes_of_snoc)
qed

lemma collect_reachable_complete:
  "complete_tree get root \<Longrightarrow>
     \<exists>ns. collect_reachable get root = oret ns \<and> nodes_of get (Collect (reach get root)) ns"
  using reach_loop_complete [OF _ worklist_start, of root "[]"]
  by (simp add: collect_reachable_def nodes_of_def)

end

section \<open>The level-by-level walk\<close>

text \<open>The children of a list that are not seen yet, each once, in order.\<close>

fun fresh :: "hash256 set \<Rightarrow> hash256 list \<Rightarrow> hash256 list" where
  "fresh v [] = []"
| "fresh v (c # cs) = (if c \<in> v then fresh v cs else c # fresh (insert c v) cs)"

lemma set_fresh [simp]: "set (fresh v cs) = set cs - v"
  by (induction v cs rule: fresh.induct) auto

lemma distinct_fresh [simp]: "distinct (fresh v cs)"
  by (induction v cs rule: fresh.induct) auto

lemma fresh_append: "fresh v (as @ bs) = fresh v as @ fresh (v \<union> set as) bs"
  by (induction v as rule: fresh.induct) (auto simp add: insert_absorb Un_insert_right)

lemma foldl_frontier_child:
  "foldl frontier_child (nf, v) cs = (nf @ fresh v cs, v \<union> set cs)"
  by (induction v cs arbitrary: nf rule: fresh.induct)
    (auto simp add: frontier_child_def insert_absorb)

lemma ofold_frontier_node:
  "list_all2 (\<lambda>n cs. node_children n = Inr cs) ns css \<Longrightarrow>
     ofold frontier_node (nf, v, res) (map Inr ns) =
       oret (nf @ fresh v (concat css), v \<union> set (concat css), res @ ns)"
proof (induction arbitrary: nf v res rule: list_all2_induct)
  case (Cons n ns cs css)
  have "frontier_node (nf, v, res) (Inr n) = oret (nf @ fresh v cs, v \<union> set cs, res @ [n])"
    using Cons.hyps by (auto simp add: frontier_node_def node_children_Inr foldl_frontier_child)
  with Cons.IH show ?case by (simp add: fresh_append Un_assoc)
qed simp

lemma fetch_all_complete:
  assumes "complete_tree get root" and "set frontier \<subseteq> Collect (reach get root)"
  obtains ns css where "fetch_all get frontier = Some (map Inr ns)"
    and "list_all2 (\<lambda>h n. get h = oret n) frontier ns"
    and "list_all2 (\<lambda>n cs. node_children n = Inr cs) ns css"
  using assms(2)
proof (induction frontier arbitrary: thesis)
  case Nil
  then show ?case by simp
next
  case (Cons h hs)
  obtain n cs where n: "get h = oret n" "node_children n = Inr cs"
    using assms(1) Cons.prems(2) by (auto simp add: complete_tree_def)
  obtain ns css where "fetch_all get hs = Some (map Inr ns)"
    "list_all2 (\<lambda>h n. get h = oret n) hs ns" "list_all2 (\<lambda>n cs. node_children n = Inr cs) ns css"
    using Cons.IH Cons.prems(2) by auto
  with n Cons.prems(1) [of "n # ns" "cs # css"] show ?case by simp
qed

text \<open>
  The state between two levels: the frontier is seen but not fetched, the children of every
  fetched node are seen.
\<close>

definition levels :: "node_lookup \<Rightarrow> hash256 \<Rightarrow> hash256 list \<Rightarrow> hash256 set \<Rightarrow> bool" where
  "levels get root frontier visited \<longleftrightarrow>
     distinct frontier \<and> set frontier \<subseteq> visited \<and> worklist get root frontier (visited - set frontier)"

lemma level_children:
  "list_all2 (\<lambda>h n. get h = oret n) frontier ns \<Longrightarrow>
   list_all2 (\<lambda>n cs. node_children n = Inr cs) ns css \<Longrightarrow>
     set (concat css) =
       {c. \<exists>h \<in> set frontier. \<exists>n cs. get h = oret n \<and> node_children n = Inr cs \<and> c \<in> set cs}"
proof (induction arbitrary: css rule: list_all2_induct)
  case (Cons h frontier n ns)
  then obtain cs css' where css: "css = cs # css'" "node_children n = Inr cs"
    "list_all2 (\<lambda>n cs. node_children n = Inr cs) ns css'"
    by (auto simp add: list_all2_Cons1)
  with Cons.IH [OF css(3)] Cons.hyps show ?case by auto
qed simp

lemma levels_next:
  assumes "levels get root frontier visited"
    and "list_all2 (\<lambda>h n. get h = oret n) frontier ns"
    and "list_all2 (\<lambda>n cs. node_children n = Inr cs) ns css"
  shows "levels get root (fresh visited (concat css)) (visited \<union> set (concat css))"
proof -
  let ?kids = "set (concat css)"
  note kids = level_children [OF assms(2,3)]
  have l: "set frontier \<subseteq> visited" "visited \<subseteq> Collect (reach get root)" "root \<in> visited"
    "\<And>h n cs. h \<in> visited - set frontier \<Longrightarrow> get h = oret n \<Longrightarrow> node_children n = Inr cs \<Longrightarrow> set cs \<subseteq> visited"
    using assms(1) unfolding levels_def worklist_def by blast+
  have "?kids \<subseteq> Collect (reach get root)"
    using l(1,2) unfolding kids by (blast intro: reach_child)
  moreover have "set cs \<subseteq> visited \<union> ?kids"
    if "h \<in> visited" "get h = oret n" "node_children n = Inr cs" for h n cs
  proof (cases "h \<in> set frontier")
    case True
    with that show ?thesis unfolding kids by blast
  next
    case False
    with that l(4) show ?thesis by blast
  qed
  moreover have "visited \<union> ?kids - (?kids - visited) = visited" by blast
  moreover have "?kids - visited \<union> visited = visited \<union> ?kids" by blast
  ultimately show ?thesis
    using l(2,3) unfolding levels_def worklist_def by (auto simp del: set_concat)
qed

lemma bfs_loop_step:
  assumes "frontier \<noteq> []" and "fetch_all get frontier = Some (map Inr ns)"
    and "list_all2 (\<lambda>n cs. node_children n = Inr cs) ns css"
  shows "bfs_loop get frontier visited result =
    bfs_loop get (fresh visited (concat css)) (visited \<union> set (concat css)) (result @ ns)"
  using assms by (subst bfs_loop.simps) (simp add: ofold_frontier_node)

text \<open>The nodes of the visited hashes that left the frontier.\<close>

lemma nodes_of_append:
  "nodes_of get S ns \<Longrightarrow> list_all2 (\<lambda>h n. get h = oret n) frontier ms \<Longrightarrow> distinct frontier \<Longrightarrow>
   set frontier \<inter> S = {} \<Longrightarrow> (\<And>h n. get h = oret n \<Longrightarrow> node_hash n = h) \<Longrightarrow>
     nodes_of get (S \<union> set frontier) (ns @ ms)"
proof -
  assume a: "nodes_of get S ns" "list_all2 (\<lambda>h n. get h = oret n) frontier ms" "distinct frontier"
    "set frontier \<inter> S = {}" "\<And>h n. get h = oret n \<Longrightarrow> node_hash n = h"
  have "map node_hash ms = frontier"
    using a(2,5) by (induction rule: list_all2_induct) auto
  moreover from this have "\<forall>n \<in> set ms. get (node_hash n) = oret n"
    using a(2) by (auto simp add: list_all2_conv_all_nth in_set_conv_nth)
  ultimately show ?thesis
    using a(1,3,4) list.set_map [of node_hash ms] by (auto simp add: nodes_of_def)
qed

context node_store
begin

lemma bfs_loop_complete:
  assumes "complete_tree get root"
  shows "levels get root frontier visited \<Longrightarrow> nodes_of get (visited - set frontier) result \<Longrightarrow>
    \<exists>ns. bfs_loop get frontier visited result = oret ns \<and> nodes_of get (Collect (reach get root)) ns"
proof (induction "(frontier, visited)" arbitrary: frontier visited result
    rule: wf_induct_rule [OF wf_measures [of "[\<lambda>(_, v). card (Collect (reach get root) - v), \<lambda>(f, _). length f]"]])
  case 1
  show ?case
  proof (cases "frontier = []")
    case True
    then have "visited = Collect (reach get root)"
      using "1.prems"(1) worklist_done [OF _ assms] by (simp add: levels_def)
    with True "1.prems"(2) show ?thesis by (simp add: bfs_loop.simps [of get "[]"])
  next
    case False
    have "set frontier \<subseteq> Collect (reach get root)"
      using "1.prems"(1) by (auto simp add: levels_def worklist_def)
    then obtain ns css where f: "fetch_all get frontier = Some (map Inr ns)"
      "list_all2 (\<lambda>h n. get h = oret n) frontier ns" "list_all2 (\<lambda>n cs. node_children n = Inr cs) ns css"
      by (rule fetch_all_complete [OF assms])
    let ?f = "fresh visited (concat css)" and ?v = "visited \<union> set (concat css)"
    have lev: "levels get root ?f ?v" by (rule levels_next [OF "1.prems"(1) f(2,3)])
    have vis: "?v - set ?f = visited" by auto
    have "nodes_of get (visited - set frontier \<union> set frontier) (result @ ns)"
      using "1.prems"(1) by (intro nodes_of_append [OF "1.prems"(2) f(2)] get_hash) (auto simp add: levels_def)
    moreover have "visited - set frontier \<union> set frontier = visited"
      using "1.prems"(1) by (auto simp add: levels_def)
    ultimately have nodes: "nodes_of get (?v - set ?f) (result @ ns)" by (simp only: vis)
    have "((?f, ?v), (frontier, visited)) \<in> measures [\<lambda>(_, v). card (Collect (reach get root) - v), \<lambda>(f, _). length f]"
    proof (cases "?f = []")
      case True
      then have "set (concat css) \<subseteq> visited" by (metis Diff_eq_empty_iff set_empty set_fresh)
      then have "?v = visited" by blast
      with True False show ?thesis by simp
    next
      case nonempty: False
      have "?v \<subseteq> Collect (reach get root)"
        using lev vis unfolding levels_def worklist_def by blast
      moreover have "set ?f \<noteq> {}" using nonempty by blast
      ultimately have "Collect (reach get root) - ?v \<subset> Collect (reach get root) - visited" by auto
      then have "card (Collect (reach get root) - ?v) < card (Collect (reach get root) - visited)"
        by (intro psubset_card_mono) simp_all
      then show ?thesis by simp
    qed
    from "1.hyps" [OF this lev nodes] show ?thesis by (simp add: bfs_loop_step [OF False f(1,3)])
  qed
qed

lemma collect_reachable_concurrent_complete:
  assumes "complete_tree get root"
  shows "\<exists>ns. collect_reachable_concurrent get root k = oret ns \<and> nodes_of get (Collect (reach get root)) ns"
proof -
  have "levels get root [root] {root}" using worklist_start by (simp add: levels_def)
  moreover have "nodes_of get ({root} - set [root]) []" by (simp add: nodes_of_def)
  ultimately show ?thesis
    using bfs_loop_complete [OF assms] collect_reachable_complete [OF assms]
    by (simp add: collect_reachable_concurrent_def)
qed

end

section \<open>Calibration\<close>

lemma foldl_sample_child:
  "set (fst (foldl sample_child st cs)) \<subseteq> set (fst st) \<union> set cs"
proof (induction cs arbitrary: st)
  case (Cons c cs)
  have "set (fst (sample_child st c)) \<subseteq> insert c (set (fst st))"
    by (auto simp add: sample_child_def split: prod.splits if_splits)
  with Cons show ?case by fastforce
qed simp

lemma sample_loop_complete:
  assumes "complete_tree get root"
  shows "set stack \<subseteq> Collect (reach get root) \<Longrightarrow> set result \<subseteq> Collect (reach get root) \<Longrightarrow>
    \<exists>hs. sample_loop get target stack visited result = oret hs \<and> set hs \<subseteq> Collect (reach get root)"
proof (induction "target - length result" arbitrary: stack visited result rule: less_induct)
  case less
  show ?case
  proof (cases stack)
    case Nil
    with less.prems show ?thesis by simp
  next
    case (Cons h rest)
    show ?thesis
    proof (cases "target \<le> length result")
      case True
      with Cons less.prems show ?thesis by simp
    next
      case False
      have h: "reach get root h" using less.prems(1) Cons by simp
      then obtain n cs where n: "get h = oret n" "node_children n = Inr cs"
        using assms by (auto simp add: complete_tree_def)
      have cs: "set cs \<subseteq> Collect (reach get root)" using h n reach_child by blast
      let ?st = "foldl sample_child (rest, visited) cs"
      have "sample_loop get target stack visited result =
          sample_loop get target (fst ?st) (snd ?st) (result @ [h])"
        using False n by (auto simp add: Cons node_children_Inr)
      moreover have "set (fst ?st) \<subseteq> Collect (reach get root)"
        using foldl_sample_child [of "(rest, visited)" cs] cs less.prems(1) Cons by auto
      ultimately show ?thesis
        using less.hyps [of "result @ [h]" "fst ?st" "snd ?st"] False h less.prems(2) by auto
    qed
  qed
qed

lemma calibrate_loop_complete:
  assumes "complete_tree get root" and "set sample \<subseteq> Collect (reach get root)"
  shows "\<exists>k. calibrate_loop get elapsed sample first ladder best thr = oret k \<and>
    (k = best \<or> k \<in> set ladder)"
proof (induction ladder arbitrary: best thr)
  case (Cons level ladder)
  have "set (probe_of sample level) \<subseteq> Collect (reach get root)"
    using assms(2) set_take_subset unfolding probe_of_def by fast
  then obtain rs where "fetch_all get (probe_of sample level) = Some rs"
    by (rule fetch_all_complete [OF assms(1)]) blast
  moreover have "\<exists>k. calibrate_loop get elapsed sample first ladder level now = oret k \<and>
      (k = best \<or> k \<in> set (level # ladder))" for now
    using Cons.IH [of level now] by auto
  ultimately show ?case by (simp add: Let_def)
qed simp

lemma calibrate_complete:
  assumes "complete_tree get root"
  shows "\<exists>k. calibrate_concurrency_with_levels get elapsed root ladder = oret k \<and> (k = 1 \<or> k \<in> set ladder)"
proof -
  obtain hs where "sample_hashes get root 2048 = oret hs" "set hs \<subseteq> Collect (reach get root)"
    using sample_loop_complete [OF assms, of "[root]" "[]" 2048 "{root}"]
    by (auto simp add: sample_hashes_def reach_root)
  with calibrate_loop_complete [OF assms this(2)] show ?thesis
    by (auto simp add: calibrate_concurrency_with_levels_def Let_def)
qed

context node_store
begin

lemma collect_reachable_adaptive_complete:
  assumes "complete_tree get root"
  shows "\<exists>ns. collect_reachable_adaptive get elapsed shared root = oret ns \<and>
    nodes_of get (Collect (reach get root)) ns"
  using calibrate_complete [OF assms, of elapsed "if shared then [1, 2, 4] else [1, 2, 4, 8, 16, 32]"]
    collect_reachable_concurrent_complete [OF assms]
  by (auto simp add: collect_reachable_adaptive_def calibrate_concurrency_def)

end

lemma nodes_of_unique: "nodes_of get S ns \<Longrightarrow> nodes_of get S ms \<Longrightarrow> mset ns = mset ms"
proof -
  assume a: "nodes_of get S ns" "nodes_of get S ms"
  have sub: "set xs \<subseteq> set ys" if "nodes_of get S xs" "nodes_of get S ys" for xs ys
  proof
    fix n assume "n \<in> set xs"
    with that obtain m where "m \<in> set ys" "node_hash m = node_hash n"
      unfolding nodes_of_def by (metis (no_types, lifting) imageE imageI)
    with that \<open>n \<in> set xs\<close> show "n \<in> set ys" unfolding nodes_of_def by (metis Inr_inject option.inject)
  qed
  have "distinct ns" "distinct ms" using a by (simp_all add: nodes_of_def distinct_map)
  moreover have "set ns = set ms" using sub a by blast
  ultimately show ?thesis by (simp add: set_eq_iff_mset_eq_distinct)
qed

end
