(* ===== verification/Reader_Diff.thy ===== *)
theory Reader_Diff
  imports Reader_Trees "HOL-Library.Multiset"
begin

text \<open>
  The diff of two state trees: collect_added and collect_deleted list a subtree, diff_nodes
  walks two trees at once and skips equal hashes. The diff of two complete trees always
  returns, and taking the deleted hashes out of the old node set and adding the added nodes
  gives the new node set.
\<close>

section \<open>The nodes of a tree\<close>

text \<open>
  \<open>tree get h ns\<close>: the tree under \<open>h\<close> is finite and complete in the store, and \<open>ns\<close> are its
  nodes, children before their parent. The zero hash is the empty tree.
\<close>

inductive tree :: "node_lookup \<Rightarrow> hash256 \<Rightarrow> shamap_node list \<Rightarrow> bool" for get where
  tree_empty: "tree get 0 []"
| tree_node: "h \<noteq> 0 \<Longrightarrow> get h = oret n \<Longrightarrow> node_children n = Inr cs \<Longrightarrow>
    list_all2 (tree get) cs nss \<Longrightarrow> tree get h (concat nss @ [n])"

inductive_cases tree_emptyE: "tree get 0 ns"
inductive_simps tree_zero [simp]: "tree get 0 ns"

lemma tree_unique: "tree get h ns \<Longrightarrow> tree get h ms \<Longrightarrow> ns = ms"
proof (induction arbitrary: ms rule: tree.induct)
  case tree_empty
  then show ?case by simp
next
  case (tree_node h n cs nss)
  from tree_node.prems tree_node.hyps obtain mss where ms: "ms = concat mss @ [n]"
    "list_all2 (tree get) cs mss"
    by (auto elim: tree.cases)
  have "nss = mss"
    using tree_node.IH ms(2)
  proof (induction arbitrary: mss rule: list_all2_induct)
    case (Cons c cs ns nss)
    then obtain ks kss where "mss = ks # kss" "tree get c ks" "list_all2 (tree get) cs kss"
      by (auto simp add: list_all2_Cons1)
    with Cons show ?case by blast
  qed simp
  with ms show ?case by simp
qed

lemma treeE:
  assumes "tree get h ns" and "h \<noteq> 0"
  obtains n cs nss where "get h = oret n" "node_children n = Inr cs" "list_all2 (tree get) cs nss"
    "ns = concat nss @ [n]"
  using assms by (auto elim: tree.cases)

text \<open>A tree is complete, and its nodes are the reachable ones.\<close>

lemma node_children_nonzero: "node_children n = Inr cs \<Longrightarrow> c \<in> set cs \<Longrightarrow> c \<noteq> 0"
  by (auto simp add: node_children_Inr dest: inner_from_node_nonzero)

lemma tree_reach:
  assumes "tree get h ns" and "h \<noteq> 0"
  shows "reach get h k \<Longrightarrow> k \<noteq> 0 \<and> (\<exists>ms. tree get k ms \<and> set ms \<subseteq> set ns)"
proof (induction rule: reach.induct)
  case reach_root
  then show ?case using assms by blast
next
  case (reach_child k n cs c)
  then obtain ms where ms: "k \<noteq> 0" "tree get k ms" "set ms \<subseteq> set ns" by blast
  obtain nss where nss: "list_all2 (tree get) cs nss" "ms = concat nss @ [n]"
    using treeE [OF ms(2,1)] reach_child.hyps by (metis Inr_inject option.inject)
  obtain i where i: "i < length cs" "cs ! i = c" using reach_child.hyps(4) unfolding in_set_conv_nth by blast
  have "tree get c (nss ! i)" using list_all2_nthD [OF nss(1) i(1)] i(2) by simp
  moreover have "set (nss ! i) \<subseteq> set ns"
  proof -
    have "nss ! i \<in> set nss" using i(1) list_all2_lengthD [OF nss(1)] by simp
    then have "set (nss ! i) \<subseteq> set ms" unfolding nss(2) by auto
    with ms(3) show ?thesis by blast
  qed
  moreover have "c \<noteq> 0" using reach_child.hyps(3,4) by (rule node_children_nonzero)
  ultimately show ?case by blast
qed

lemma tree_complete: "tree get h ns \<Longrightarrow> h \<noteq> 0 \<Longrightarrow> complete_tree get h"
  unfolding complete_tree_def using tree_reach treeE by metis

context node_store
begin

lemma tree_nodes_reach:
  "tree get h ns \<Longrightarrow> n \<in> set ns \<Longrightarrow> reach get h (node_hash n)"
proof (induction rule: tree.induct)
  case (tree_node h m cs nss)
  show ?case
  proof (cases "n \<in> set (concat nss)")
    case True
    then obtain ms where ms: "ms \<in> set nss" "n \<in> set ms" by auto
    obtain i where i: "i < length nss" "nss ! i = ms" using ms(1) unfolding in_set_conv_nth by blast
    have "i < length cs" using i(1) list_all2_lengthD [OF tree_node.IH] by simp
    with list_all2_nthD [OF tree_node.IH this] i ms(2)
    have "reach get (cs ! i) (node_hash n)" "cs ! i \<in> set cs" by auto
    with tree_node.hyps reach_child [OF reach_root] reach_trans show ?thesis by metis
  next
    case False
    with tree_node.prems get_hash [OF tree_node.hyps(2)] show ?thesis by (auto intro: reach_root)
  qed
qed simp

lemma tree_reachable:
  assumes "tree get h ns" and "h \<noteq> 0"
  shows "Collect (reach get h) = node_hash ` set ns"
proof (intro equalityI subsetI)
  fix k assume "k \<in> Collect (reach get h)"
  then obtain ms where ms: "k \<noteq> 0" "tree get k ms" "set ms \<subseteq> set ns" using tree_reach [OF assms] by blast
  then obtain n where "get k = oret n" "n \<in> set ms" using treeE [OF ms(2,1)] by (metis in_set_conv_decomp)
  with ms(3) get_hash show "k \<in> node_hash ` set ns" by blast
qed (use tree_nodes_reach [OF assms(1)] in blast)

end

section \<open>Listing a subtree\<close>

definition add_diff :: "shamap_diff \<Rightarrow> shamap_node list \<Rightarrow> hash256 list \<Rightarrow> shamap_diff" where
  "add_diff d A D = d\<lparr>diff_added := diff_added d @ A, diff_deleted := diff_deleted d @ D\<rparr>"

lemma add_diff_simps [simp]:
  "add_diff d [] [] = d"
  "add_diff (add_diff d A D) B E = add_diff d (A @ B) (D @ E)"
  by (simp_all add: add_diff_def)

lemma collect_added_zero [simp]: "collect_added get 0 d = oret d"
  by (simp add: collect_added.simps)

lemma collect_deleted_zero [simp]: "collect_deleted get 0 d = oret d"
  by (simp add: collect_deleted.simps)

lemma ofold_subtrees:
  assumes "list_all2 (\<lambda>c ns. \<forall>d. f d c = oret (add_diff d (g ns) (k ns))) cs nss"
    and "g [] = []" and "k [] = []"
    and "\<And>xs ys. g (xs @ ys) = g xs @ g ys" and "\<And>xs ys. k (xs @ ys) = k xs @ k ys"
  shows "ofold f d cs = oret (add_diff d (g (concat nss)) (k (concat nss)))"
  using assms(1)
  by (induction arbitrary: d rule: list_all2_induct) (simp_all add: assms)

lemma collect_added_tree: "tree get h ns \<Longrightarrow> collect_added get h d = oret (add_diff d ns [])"
proof (induction arbitrary: d rule: tree.induct)
  case tree_empty
  then show ?case by simp
next
  case (tree_node h n cs nss)
  have "list_all2 (\<lambda>c ns. \<forall>d. collect_added get c d = oret (add_diff d ns [])) cs nss"
    using tree_node.IH by (rule list_all2_mono) blast
  then have kids: "ofold (\<lambda>d c. collect_added get c d) d cs = oret (add_diff d (concat nss) [])" for d
    by (rule ofold_subtrees) simp_all
  show ?case
  proof (cases "is_inner (node_type n)")
    case True
    with tree_node.hyps kids show ?thesis
      by (subst collect_added.simps) (auto simp add: node_children_Inr add_diff_def)
  next
    case False
    with tree_node.hyps(3) have "cs = []" by (simp add: node_children_Inr)
    moreover from this tree_node.IH have "nss = []" by simp
    ultimately show ?thesis using tree_node.hyps False by (subst collect_added.simps) (simp add: add_diff_def)
  qed
qed

context node_store
begin

lemma collect_deleted_tree:
  "tree get h ns \<Longrightarrow> collect_deleted get h d = oret (add_diff d [] (map node_hash ns))"
proof (induction arbitrary: d rule: tree.induct)
  case tree_empty
  then show ?case by simp
next
  case (tree_node h n cs nss)
  have "list_all2 (\<lambda>c ns. \<forall>d. collect_deleted get c d = oret (add_diff d [] (map node_hash ns))) cs nss"
    using tree_node.IH by (rule list_all2_mono) blast
  then have kids: "ofold (\<lambda>d c. collect_deleted get c d) d cs
      = oret (add_diff d [] (map node_hash (concat nss)))" for d
    by (rule ofold_subtrees) simp_all
  show ?case
  proof (cases "is_inner (node_type n)")
    case True
    with tree_node.hyps kids get_hash show ?thesis
      by (subst collect_deleted.simps) (auto simp add: node_children_Inr add_diff_def)
  next
    case False
    with tree_node.hyps(3) have "cs = []" by (simp add: node_children_Inr)
    moreover from this tree_node.IH have "nss = []" by simp
    ultimately show ?thesis using tree_node.hyps False get_hash by (subst collect_deleted.simps) (simp add: add_diff_def)
  qed
qed

end

section \<open>The slots of an inner node\<close>

lemma compressed_entries_length:
  "compressed_entries c cs = Inr ds \<Longrightarrow> length ds = length cs"
proof (induction c cs arbitrary: ds rule: compressed_entries.induct)
  case (1 content cs)
  from "1.prems" show ?case
    by (subst (asm) compressed_entries.simps)
      (auto simp add: Let_def split: if_splits dest: "1.IH" [OF _ refl refl])
qed

lemma inner_from_node_length: "inner_from_node n = Inr inner \<Longrightarrow> length (children inner) = 16"
  by (cases "node_type n")
    (auto simp add: inner_from_node_def from_compressed_bytes_def rbind_eq_Inr
      dest: from_full_bytes_Inr_length compressed_entries_length split: if_splits)

text \<open>The trees of the sixteen slots, empty for an empty slot, list the same nodes.\<close>

lemma slot_trees:
  assumes "list_all2 (tree get) (List.map_filter (\<lambda>c. c) ocs) nss"
  shows "\<exists>kss. list_all2 (tree get) (map (case_option 0 (\<lambda>c. c)) ocs) kss \<and> concat kss = concat nss"
  using assms
proof (induction ocs arbitrary: nss)
  case Nil
  then show ?case by (simp add: map_filter_simps)
next
  case (Cons oc ocs)
  show ?case
  proof (cases oc)
    case None
    with Cons obtain kss where "list_all2 (tree get) (map (case_option 0 (\<lambda>c. c)) ocs) kss" "concat kss = concat nss"
      by (auto simp add: map_filter_simps)
    with None show ?thesis by (intro exI [of _ "[] # kss"]) simp
  next
    case (Some c)
    with Cons.prems obtain ns mss where nss: "nss = ns # mss" "tree get c ns"
      "list_all2 (tree get) (List.map_filter (\<lambda>c. c) ocs) mss"
      by (auto simp add: map_filter_simps list_all2_Cons1)
    from Cons.IH [OF nss(3)] obtain kss where
      "list_all2 (tree get) (map (case_option 0 (\<lambda>c. c)) ocs) kss" "concat kss = concat mss" by blast
    with Some nss show ?thesis by (intro exI [of _ "ns # kss"]) simp
  qed
qed

lemma inner_slot_trees:
  assumes "inner_from_node n = Inr inner" and "list_all2 (tree get) (child_hashes inner) nss"
  shows "\<exists>kss. length kss = 16 \<and> (\<forall>i < 16. tree get (child_or_zero inner i) (kss ! i)) \<and> concat kss = concat nss"
proof -
  obtain kss where kss: "list_all2 (tree get) (map (case_option 0 (\<lambda>c. c)) (children inner)) kss"
    "concat kss = concat nss"
    using slot_trees [of get "children inner" nss] assms(2) by (auto simp add: child_hashes_def)
  have "length kss = 16" using kss(1) inner_from_node_length [OF assms(1)]
    by (simp add: list_all2_lengthD [symmetric])
  moreover have "tree get (child_or_zero inner i) (kss ! i)" if "i < 16" for i
    using list_all2_nthD [OF kss(1), of i] that inner_from_node_length [OF assms(1)]
    by (simp add: child_or_zero_def)
  ultimately show ?thesis using kss(2) by blast
qed

section \<open>The effect of a diff\<close>

text \<open>Every node of \<open>A\<close> hangs from a node of \<open>A\<close>, except those with a hash in \<open>S\<close>.\<close>

definition under :: "hash256 set \<Rightarrow> shamap_node list \<Rightarrow> bool" where
  "under S A \<longleftrightarrow>
     (\<forall>x \<in> set A. node_hash x \<in> S \<or>
        (\<exists>p \<in> set A. \<exists>cs. node_children p = Inr cs \<and> node_hash x \<in> set cs))"

lemma under_Nil [simp]: "under S []"
  by (simp add: under_def)

lemma under_append: "under S A \<Longrightarrow> under S B \<Longrightarrow> under S (A @ B)"
  unfolding under_def by (auto simp add: ball_Un)

lemma under_mono: "under S A \<Longrightarrow> S \<subseteq> T \<Longrightarrow> under T A"
  unfolding under_def by blast

lemma under_parent: "under (set cs) A \<Longrightarrow> node_children n = Inr cs \<Longrightarrow> under {node_hash n} (A @ [n])"
  unfolding under_def by (auto simp add: ball_Un)

context node_store
begin

lemma tree_under: "tree get h ns \<Longrightarrow> under {h} ns"
proof (induction rule: tree.induct)
  case (tree_node h n cs nss)
  have "under (set cs) (concat nss)"
    using tree_node.IH
  proof (induction rule: list_all2_induct)
    case (Cons c cs ns nss)
    then show ?case
      by (auto intro!: under_append intro: under_mono [of "{c}"] under_mono [of "set cs"])
  qed simp
  with under_parent [OF this tree_node.hyps(3)] get_hash [OF tree_node.hyps(2)] show ?case by simp
qed simp

end

text \<open>
  \<open>f\<close> adds to a diff what turns the nodes \<open>os\<close> into the nodes \<open>ns\<close>: the rest, common to
  both, is neither added nor deleted; what is added hangs together under \<open>S\<close>.
\<close>

definition diff_effect ::
  "hash256 set \<Rightarrow> (shamap_diff \<Rightarrow> (reader_error, shamap_diff) run) \<Rightarrow> shamap_node list \<Rightarrow> shamap_node list \<Rightarrow> bool" where
  "diff_effect S f os ns \<longleftrightarrow>
     (\<exists>A D C. (\<forall>d. f d = oret (add_diff d A (map node_hash D))) \<and>
        mset os = C + mset D \<and> mset ns = C + mset A \<and> under S A)"

lemma diff_effect_id: "diff_effect S oret ns ns"
  unfolding diff_effect_def by (intro exI [of _ "[]"] exI [of _ "mset ns"]) simp

lemma diff_effect_delete_add:
  "under S A \<Longrightarrow> diff_effect S (\<lambda>d. oret (add_diff d A (map node_hash D))) D A"
  unfolding diff_effect_def by (intro exI [of _ A] exI [of _ D] exI [of _ "{#}"]) simp

lemma diff_effect_mono: "diff_effect S f os ns \<Longrightarrow> S \<subseteq> T \<Longrightarrow> diff_effect T f os ns"
  unfolding diff_effect_def using under_mono by blast

lemma diff_effect_bind:
  assumes "diff_effect S f os ns" and "diff_effect S g P M"
  shows "diff_effect S (\<lambda>d. obind (f d) g) (os @ P) (ns @ M)"
proof -
  obtain A D C where f: "\<forall>d. f d = oret (add_diff d A (map node_hash D))" "mset os = C + mset D" "mset ns = C + mset A"
      "under S A"
    using assms(1) unfolding diff_effect_def by blast
  obtain B E K where g: "\<forall>d. g d = oret (add_diff d B (map node_hash E))" "mset P = K + mset E" "mset M = K + mset B"
      "under S B"
    using assms(2) unfolding diff_effect_def by blast
  show ?thesis
    unfolding diff_effect_def
    by (intro exI [of _ "A @ B"] exI [of _ "D @ E"] exI [of _ "C + K"]) (use f g under_append in simp)
qed

text \<open>The parent of two subtrees that differ is replaced after its children.\<close>

lemma diff_effect_parent:
  assumes "diff_effect (set cs) f os ns" and "node_children n = Inr cs"
  shows "diff_effect {node_hash n} (\<lambda>d. obind (f d) (\<lambda>d. oret (add_diff d [n] (map node_hash [m])))) (os @ [m]) (ns @ [n])"
proof -
  obtain A D C where f: "\<forall>d. f d = oret (add_diff d A (map node_hash D))" "mset os = C + mset D" "mset ns = C + mset A"
      "under (set cs) A"
    using assms(1) unfolding diff_effect_def by blast
  show ?thesis
    unfolding diff_effect_def
    by (intro exI [of _ "A @ [n]"] exI [of _ "D @ [m]"] exI [of _ C]) (use f under_parent assms(2) in simp)
qed

lemma diff_effect_fold:
  "(\<And>i. i \<in> set is \<Longrightarrow> diff_effect S (\<lambda>d. F d i) (os i) (ns i)) \<Longrightarrow>
     diff_effect S (\<lambda>d. ofold F d is) (concat (map os is)) (concat (map ns is))"
proof (induction "is")
  case Nil
  then show ?case using diff_effect_id by simp
next
  case (Cons i js)
  then have "diff_effect S (\<lambda>d. obind (F d i) (\<lambda>d. ofold F d js)) (os i @ concat (map os js)) (ns i @ concat (map ns js))"
    by (intro diff_effect_bind) simp_all
  then show ?case by simp
qed

lemma diff_effect_cong: "diff_effect S f os ns \<Longrightarrow> (\<And>d. g d = f d) \<Longrightarrow> diff_effect S g os ns"
  by (simp add: diff_effect_def)

lemma child_or_zero_in:
  assumes "inner_from_node n = Inr inner" and "i < 16" and "child_or_zero inner i \<noteq> 0"
  shows "child_or_zero inner i \<in> set (child_hashes inner)"
proof -
  obtain c where "children inner ! i = Some c" "child_or_zero inner i = c"
    using assms(3) by (auto simp add: child_or_zero_def split: option.splits)
  then show ?thesis
    using assms(2) inner_from_node_length [OF assms(1)] nth_mem [of i "children inner"]
    by (simp add: set_child_hashes)
qed

lemma diff_nodes_cases:
  "diff_nodes get h h d = oret d"
  "h \<noteq> 0 \<Longrightarrow> diff_nodes get h 0 d = collect_deleted get h d"
  "h \<noteq> 0 \<Longrightarrow> diff_nodes get 0 h d = collect_added get h d"
  by (simp_all add: diff_nodes.simps)

lemma diff_nodes_inner:
  assumes "old \<noteq> new" "new \<noteq> 0" "old \<noteq> 0" "get new = oret n" "get old = oret m"
    and "inner_from_node n = Inr ni" "inner_from_node m = Inr mi"
    and "is_inner (node_type n)" "is_inner (node_type m)"
  shows "diff_nodes get old new d =
    obind (ofold (\<lambda>d i. diff_nodes get (child_or_zero mi i) (child_or_zero ni i) d) d [0..<16])
      (\<lambda>d. oret (add_diff d [n] [old]))"
proof -
  have skip: "(\<lambda>diff i. if child_or_zero mi i \<noteq> child_or_zero ni i
      then diff_nodes get (child_or_zero mi i) (child_or_zero ni i) diff else oret diff)
    = (\<lambda>d i. diff_nodes get (child_or_zero mi i) (child_or_zero ni i) d)"
    by (auto simp add: fun_eq_iff diff_nodes_cases)
  show ?thesis
    by (subst diff_nodes.simps) (simp add: assms skip add_diff_def del: upt_Suc upt_rec_numeral)
qed

lemma diff_nodes_replace:
  assumes "old \<noteq> new" "new \<noteq> 0" "old \<noteq> 0" "get new = oret n" "get old = oret m"
    and "\<not> (is_inner (node_type n) \<and> is_inner (node_type m))"
  shows "diff_nodes get old new d = obind (collect_added get new d) (collect_deleted get old)"
  by (subst diff_nodes.simps) (use assms in auto)

context node_store
begin

lemma diff_nodes_to_empty:
  assumes "tree get old os"
  shows "diff_effect S (diff_nodes get old 0) os []"
proof (cases "old = 0")
  case True
  with assms show ?thesis by (simp add: diff_effect_cong [OF diff_effect_id] diff_nodes_cases)
next
  case False
  then show ?thesis
    by (intro diff_effect_cong [OF diff_effect_delete_add [OF under_Nil]])
      (simp add: diff_nodes_cases collect_deleted_tree [OF assms])
qed

lemma diff_nodes_effect:
  "tree get new ns \<Longrightarrow> tree get old os \<Longrightarrow> diff_effect {new} (diff_nodes get old new) os ns"
proof (induction arbitrary: old os rule: tree.induct)
  case tree_empty
  then show ?case by (rule diff_nodes_to_empty)
next
  case (tree_node new n cs nss)
  have "list_all2 (tree get) cs nss" using tree_node.IH by (rule list_all2_mono) blast
  with tree_node.hyps have new: "tree get new (concat nss @ [n])" by (intro tree.tree_node)
  have IH: "diff_effect {c} (diff_nodes get old c) os ns"
    if child: "c \<in> set cs" and sub: "tree get old os" "tree get c ns" for c old os ns
  proof -
    obtain i where i: "i < length cs" "cs ! i = c" using child unfolding in_set_conv_nth by blast
    note at = list_all2_nthD [OF tree_node.IH i(1), unfolded i(2)]
    have "nss ! i = ns" using at sub(2) tree_unique by blast
    with at sub(1) show ?thesis by simp
  qed
  consider "old = new" | "old = 0" | "old \<noteq> new" "old \<noteq> 0" by blast
  then show ?case
  proof cases
    case 1
    with new tree_node.prems have "os = concat nss @ [n]" using tree_unique by blast
    with 1 show ?thesis by (simp add: diff_effect_cong [OF diff_effect_id] diff_nodes_cases)
  next
    case 2
    with tree_node.prems have "os = []" by simp
    moreover have "diff_effect {new} (diff_nodes get old new) [] (concat nss @ [n])"
      using 2 tree_node.hyps(1)
      by (intro diff_effect_cong [OF diff_effect_delete_add [OF tree_under [OF new]]])
        (simp add: diff_nodes_cases collect_added_tree [OF new])
    ultimately show ?thesis by simp
  next
    case 3
    obtain m ds mss where m: "get old = oret m" "node_children m = Inr ds"
      "list_all2 (tree get) ds mss" "os = concat mss @ [m]"
      using treeE [OF tree_node.prems 3(2)] by metis
    show ?thesis
    proof (cases "is_inner (node_type n) \<and> is_inner (node_type m)")
      case True
      then obtain ni mi where inner: "inner_from_node n = Inr ni" "cs = child_hashes ni"
        "inner_from_node m = Inr mi" "ds = child_hashes mi"
        using tree_node.hyps(3) m(2) by (auto simp add: node_children_Inr)
      obtain kss where kss: "length kss = 16" "\<And>i. i < 16 \<Longrightarrow> tree get (child_or_zero ni i) (kss ! i)"
        "concat kss = concat nss"
        using inner_slot_trees [OF inner(1)] \<open>list_all2 (tree get) cs nss\<close> inner(2) by blast
      obtain lss where lss: "length lss = 16" "\<And>i. i < 16 \<Longrightarrow> tree get (child_or_zero mi i) (lss ! i)"
        "concat lss = concat mss"
        using inner_slot_trees [OF inner(3)] m(3) inner(4) by blast
      have slot: "diff_effect (set cs) (diff_nodes get (child_or_zero mi i) (child_or_zero ni i)) (lss ! i) (kss ! i)"
        if "i < 16" for i
      proof (cases "child_or_zero ni i = 0")
        case True
        with kss(2) [OF that] show ?thesis using diff_nodes_to_empty [OF lss(2) [OF that]] by simp
      next
        case False
        then have "child_or_zero ni i \<in> set cs"
          using child_or_zero_in [OF inner(1) that] inner(2) by simp
        with diff_effect_mono [OF IH [OF this lss(2) [OF that] kss(2) [OF that]]] show ?thesis by simp
      qed
      have "diff_effect (set cs) (\<lambda>d. ofold (\<lambda>d i. diff_nodes get (child_or_zero mi i) (child_or_zero ni i) d) d [0..<16])
          (concat (map ((!) lss) [0..<16])) (concat (map ((!) kss) [0..<16]))"
        by (rule diff_effect_fold) (simp add: slot del: upt_rec_numeral)
      moreover have "map ((!) lss) [0..<16] = lss" "map ((!) kss) [0..<16] = kss"
        using map_nth [of lss] map_nth [of kss] lss(1) kss(1) by (simp_all del: upt_rec_numeral)
      ultimately have "diff_effect (set cs) (\<lambda>d. ofold (\<lambda>d i. diff_nodes get (child_or_zero mi i) (child_or_zero ni i) d) d [0..<16])
          (concat mss) (concat nss)" by (simp only: lss(3) kss(3))
      then have "diff_effect {node_hash n} (\<lambda>d. obind (ofold (\<lambda>d i. diff_nodes get (child_or_zero mi i) (child_or_zero ni i) d) d [0..<16])
          (\<lambda>d. oret (add_diff d [n] (map node_hash [m])))) (concat mss @ [m]) (concat nss @ [n])"
        using tree_node.hyps(3) by (rule diff_effect_parent)
      then show ?thesis
        unfolding m(4) get_hash [OF tree_node.hyps(2)]
        by (rule diff_effect_cong)
          (simp add: diff_nodes_inner [OF 3(1) tree_node.hyps(1) 3(2) tree_node.hyps(2) m(1) inner(1,3)]
            True get_hash [OF m(1)] del: upt_rec_numeral)
    next
      case False
      have "collect_added get new d = oret (add_diff d (concat nss @ [n]) [])" for d
        by (rule collect_added_tree [OF new])
      with False 3 tree_node.hyps m(1) show ?thesis
        by (intro diff_effect_cong [OF diff_effect_delete_add [OF tree_under [OF new]]])
          (simp add: diff_nodes_replace collect_deleted_tree [OF tree_node.prems])
    qed
  qed
qed

text \<open>A new root is itself among the added nodes.\<close>

lemma diff_adds_root:
  assumes "tree get old os" and "tree get new ns" and "old \<noteq> new" and "new \<noteq> 0"
    and "diff_nodes get old new \<lparr>diff_added = [], diff_deleted = []\<rparr> = oret d"
  shows "new \<in> node_hash ` set (diff_added d)"
proof -
  obtain n cs nss where n: "get new = oret n" "node_children n = Inr cs" "ns = concat nss @ [n]"
    using treeE [OF assms(2,4)] by blast
  then have hash: "new \<in> node_hash ` set ns" using get_hash by force
  consider "old = 0" | m where "old \<noteq> 0" "get old = oret m" "\<exists>ds. node_children m = Inr ds"
    using treeE [OF assms(1)] by metis
  then show ?thesis
  proof cases
    case 1
    with assms(4,5) collect_added_tree [OF assms(2)] have "diff_added d = ns"
      by (auto simp add: diff_nodes_cases add_diff_def)
    with hash show ?thesis by simp
  next
    case 2
    show ?thesis
    proof (cases "is_inner (node_type n) \<and> is_inner (node_type m)")
      case True
      then obtain ni mi where "inner_from_node n = Inr ni" "inner_from_node m = Inr mi"
        using n(2) 2(3) by (auto simp add: node_children_Inr)
      from assms(5) [unfolded diff_nodes_inner [OF assms(3,4) 2(1) n(1) 2(2) this True [THEN conjunct1] True [THEN conjunct2]]]
      show ?thesis using get_hash [OF n(1)] by (auto simp add: obind_eq_Inr add_diff_def)
    next
      case False
      from assms(5) [unfolded diff_nodes_replace [OF assms(3,4) 2(1) n(1) 2(2) False] collect_added_tree [OF assms(2)]]
      have "diff_added d = ns" using collect_deleted_tree [OF assms(1)] by (auto simp add: add_diff_def)
      with hash show ?thesis by simp
    qed
  qed
qed

text \<open>The diff of two roots, over the nodes of the two trees.\<close>

lemma diff_roots_effect:
  assumes "tree get old os" and "tree get new ns"
  shows "\<exists>d D C. diff_roots get old new = oret d \<and>
    sorted (map node_hash (diff_added d)) \<and> sorted (diff_deleted d) \<and>
    mset (diff_deleted d) = image_mset node_hash D \<and>
    mset os = C + D \<and> mset ns = C + mset (diff_added d) \<and> under {new} (diff_added d) \<and>
    (old \<noteq> new \<longrightarrow> new \<noteq> 0 \<longrightarrow> new \<in> node_hash ` set (diff_added d))"
proof -
  obtain A D C where e: "\<forall>d. diff_nodes get old new d = oret (add_diff d A (map node_hash D))"
    "mset os = C + mset D" "mset ns = C + mset A" "under {new} A"
    using diff_nodes_effect [OF assms(2,1)] unfolding diff_effect_def by blast
  define d where "d = \<lparr>diff_added = sort_key node_hash A, diff_deleted = sort (map node_hash D)\<rparr>"
  have "diff_roots get old new = oret d"
    using e(1) by (simp add: diff_roots_def add_diff_def d_def)
  moreover have "new \<in> node_hash ` set A" if "old \<noteq> new" "new \<noteq> 0"
    using diff_adds_root [OF assms that] e(1) by (auto simp add: add_diff_def)
  ultimately show ?thesis
    using e(2-4) by (intro exI [of _ d] exI [of _ "mset D"] exI [of _ C]) (simp add: d_def under_def)
qed

end

section \<open>Applying a diff\<close>

text \<open>The state map of a ledger: every node under its hash.\<close>

definition node_map :: "shamap_node list \<Rightarrow> (hash256 \<rightharpoonup> shamap_node)" where
  "node_map ns = map_of (map (\<lambda>n. (node_hash n, n)) ns)"

lemma node_map_in: "node_map ns h = Some n \<Longrightarrow> n \<in> set ns \<and> node_hash n = h"
  by (auto simp add: node_map_def dest: map_of_SomeD)

lemma node_map_None: "node_map ns h = None \<longleftrightarrow> h \<notin> node_hash ` set ns"
  by (auto simp add: node_map_def map_of_eq_None_iff image_image)

text \<open>Nodes of one store agree under one hash.\<close>

definition from_store :: "node_lookup \<Rightarrow> shamap_node list \<Rightarrow> bool" where
  "from_store get ns \<longleftrightarrow> (\<forall>n \<in> set ns. get (node_hash n) = oret n)"

lemma node_map_from_store:
  assumes "from_store get ns"
  shows "node_map ns h = Some n \<longleftrightarrow> h \<in> node_hash ` set ns \<and> get h = oret n"
proof (cases "node_map ns h")
  case None
  then have "h \<notin> node_hash ` set ns" by (simp add: node_map_None)
  with None show ?thesis by simp
next
  case (Some m)
  with node_map_in [OF this] assms show ?thesis by (auto simp add: from_store_def)
qed

context node_store
begin

lemma tree_from_store: "tree get h ns \<Longrightarrow> from_store get ns"
proof (induction rule: tree.induct)
  case (tree_node h n cs nss)
  have "from_store get (concat nss)"
    using tree_node.IH unfolding from_store_def
    by (induction rule: list_all2_induct) auto
  then show ?case
    using tree_node.hyps(2) get_hash [OF tree_node.hyps(2)] by (auto simp add: from_store_def)
qed (simp add: from_store_def)

end

lemma apply_diff_hashes:
  assumes "distinct (map node_hash os)" and "mset os = C + D" and "mset ns = C + A"
  shows "node_hash ` set ns = (node_hash ` set os - node_hash ` set_mset D) \<union> node_hash ` set_mset A"
proof -
  obtain cs ds where l: "C = mset cs" "D = mset ds" using ex_mset by metis
  then have "mset (map node_hash os) = mset (map node_hash (cs @ ds))" using assms(2) by simp
  then have "distinct (map node_hash (cs @ ds))" using assms(1) mset_eq_imp_distinct_iff by blast
  then have "node_hash ` set cs \<inter> node_hash ` set ds = {}" by simp
  moreover have "set os = set cs \<union> set ds" "set ns = set cs \<union> set_mset A"
    using assms(2,3) l by (metis set_mset_mset set_mset_union)+
  ultimately show ?thesis unfolding l set_mset_mset by blast
qed

lemma apply_diff_map:
  assumes "from_store get os" and "from_store get ns" and "from_store get added"
    and "node_hash ` set ns = (node_hash ` set os - set deleted) \<union> node_hash ` set added"
  shows "(node_map os |` (- set deleted)) ++ node_map added = node_map ns"
proof
  fix h
  show "((node_map os |` (- set deleted)) ++ node_map added) h = node_map ns h"
  proof (cases "node_map ns h")
    case None
    then have "h \<notin> node_hash ` set ns" by (simp add: node_map_None)
    then have "h \<notin> node_hash ` set added" "h \<in> set deleted \<or> h \<notin> node_hash ` set os"
      using assms(4) by blast+
    then have "node_map added h = None" "h \<in> set deleted \<or> node_map os h = None"
      by (simp_all add: node_map_None)
    with None show ?thesis by (auto simp add: map_add_def restrict_map_def)
  next
    case (Some n)
    then have n: "get h = oret n" "h \<in> node_hash ` set ns"
      by (simp_all add: node_map_from_store [OF assms(2)])
    show ?thesis
    proof (cases "h \<in> node_hash ` set added")
      case True
      with n(1) have "node_map added h = Some n" by (simp add: node_map_from_store [OF assms(3)])
      with Some show ?thesis by (simp add: map_add_def)
    next
      case False
      then have a: "node_map added h = None" by (simp add: node_map_None)
      from False n(2) have "h \<in> node_hash ` set os" "h \<notin> set deleted" using assms(4) by blast+
      with n(1) have "node_map os h = Some n" by (simp add: node_map_from_store [OF assms(1)])
      with Some a \<open>h \<notin> set deleted\<close> show ?thesis by (simp add: map_add_def)
    qed
  qed
qed

context node_store
begin

lemma diff_turns_old_into_new:
  assumes "tree get old os" and "tree get new ns" and "distinct (map node_hash os)"
  shows "\<exists>d. diff_roots get old new = oret d \<and>
    sorted (map node_hash (diff_added d)) \<and> sorted (diff_deleted d) \<and>
    set (diff_added d) \<subseteq> set ns \<and> set (diff_deleted d) \<subseteq> node_hash ` set os \<and>
    (node_map os |` (- set (diff_deleted d))) ++ node_map (diff_added d) = node_map ns"
proof -
  obtain d D C where d: "diff_roots get old new = oret d" "sorted (map node_hash (diff_added d))"
    "sorted (diff_deleted d)" "mset (diff_deleted d) = image_mset node_hash D"
    "mset os = C + D" "mset ns = C + mset (diff_added d)"
    by (rule exE [OF diff_roots_effect [OF assms(1,2)]]) (elim exE conjE, rule that)
  have del: "set (diff_deleted d) = node_hash ` set_mset D"
    using d(4) by (metis set_image_mset set_mset_mset)
  have sub: "set (diff_added d) \<subseteq> set ns" "set_mset D \<subseteq> set os"
    using d(5,6) by (metis Un_upper2 set_mset_mset set_mset_union)+
  have "node_hash ` set ns = (node_hash ` set os - set (diff_deleted d)) \<union> node_hash ` set (diff_added d)"
    using apply_diff_hashes [OF assms(3) d(5,6)] by (simp add: del)
  moreover have "from_store get ns" "from_store get os"
    using tree_from_store assms(1,2) by blast+
  moreover from this sub(1) have "from_store get (diff_added d)" by (auto simp add: from_store_def)
  ultimately have "(node_map os |` (- set (diff_deleted d))) ++ node_map (diff_added d) = node_map ns"
    by (intro apply_diff_map)
  with d(1-3) sub del show ?thesis by blast
qed

end

end
