(* ===== verification/Tx_Tree_Correct.thy ===== *)
theory Tx_Tree_Correct
  imports Tx_Leaf "HOL-Library.Multiset"
begin

text \<open>
  What the transaction tree promises: it is built without a panic exactly when the
  transaction hashes are distinct, it does not depend on the order of the records, every node
  hashes to its own hash and points only to nodes of the tree, and its root commits to the
  records.
\<close>

lemma depth_induct [case_names deeper]:
  assumes "\<And>d :: nat. (\<And>e. d < e \<Longrightarrow> d < 64 \<Longrightarrow> P e) \<Longrightarrow> P d"
  shows "P d"
proof (induction "64 - d" arbitrary: d rule: less_induct)
  case less
  show ?case
  proof (rule assms)
    fix e assume "d < e" "d < 64"
    then show "P e" by (intro less) simp
  qed
qed

lemma level_of_shallow:
  assumes "depth < 64"
  shows "level_of H items depth =
    rbind (rmap (\<lambda>s. slot_result H depth (bucket items depth s)) [0..<16]) (\<lambda>rs.
    Inr (node_hash (inner_of H (map fst rs)), concat (map snd rs) @ [inner_of H (map fst rs)]))"
  using assms by (simp add: level_of_def distribute_eq rmap_map del: upt_Suc)

lemma level_of_deep:
  "64 \<le> depth \<Longrightarrow> items \<noteq> [] \<Longrightarrow> level_of H items depth = Inl IndexOutOfBounds"
  by (simp add: level_of_def distribute_eq)

section \<open>Order independence\<close>

lemma slot_result_cong:
  assumes "mset b = mset c"
    and "\<And>i j k. b = i # j # k \<Longrightarrow> level_of H b (d + 1) = level_of H c (d + 1)"
  shows "slot_result H d b = slot_result H d c"
proof -
  consider "b = []" | i where "b = [i]" | i j k where "b = i # j # k"
    by (cases b; cases "tl b") auto
  then show ?thesis
  proof cases
    case 1
    with assms(1) show ?thesis by simp
  next
    case 2
    then have "c = [i]" using assms(1) by (metis mset_single_iff mset.simps)
    with 2 show ?thesis by simp
  next
    case 3
    then have "length c = length b" using assms(1) by (metis size_mset)
    then obtain i' j' k' where c: "c = i' # j' # k'"
      using 3 by (cases c; cases "tl c") auto
    show ?thesis using assms(2) [OF 3] unfolding 3 c by simp
  qed
qed

lemma level_of_perm: "mset xs = mset ys \<Longrightarrow> level_of H xs d = level_of H ys d"
proof (induction d arbitrary: xs ys rule: depth_induct)
  case (deeper d)
  show ?case
  proof (cases "d < 64")
    case True
    have "slot_result H d (bucket xs d s) = slot_result H d (bucket ys d s)" for s
    proof (rule slot_result_cong)
      show m: "mset (bucket xs d s) = mset (bucket ys d s)"
        using deeper.prems by (simp add: bucket_def)
      show "level_of H (bucket xs d s) (d + 1) = level_of H (bucket ys d s) (d + 1)"
        by (rule deeper.IH [OF _ True m]) simp
    qed
    then show ?thesis by (simp add: level_of_shallow [OF True] del: upt_Suc)
  next
    case False
    from deeper.prems have "xs = [] \<longleftrightarrow> ys = []" by (metis mset_zero_iff)
    with False show ?thesis
      by (cases "xs = []") (simp_all add: level_of_deep)
  qed
qed

lemma build_tx_tree_perm:
  assumes "mset xs = mset ys"
  shows "(\<exists>p. build_tx_tree H xs = Inl p \<and> build_tx_tree H ys = Inl p) \<or>
    (\<exists>root ns ms. build_tx_tree H xs = Inr (root, ns) \<and> build_tx_tree H ys = Inr (root, ms)
       \<and> mset ns = mset ms)"
proof (cases "xs = []")
  case True
  with assms show ?thesis by (simp add: build_tx_tree_def)
next
  case False
  have e: "level_of H (map (tx_item H) xs) 0 = level_of H (map (tx_item H) ys) 0"
    by (intro level_of_perm) (simp add: assms)
  have "ys \<noteq> []" using False assms by auto
  then show ?thesis
    using False e assms
    by (cases "level_of H (map (tx_item H) ys) 0") (auto simp add: build_tx_tree_level)
qed

section \<open>Totality\<close>

lemma nibbles_determine_key:
  assumes "\<And>k. k < 64 \<Longrightarrow> nibble a k = nibble b k"
  shows "a = b"
proof -
  have "to_be_bytes a ! m = to_be_bytes b ! m" if "m < 32" for m
  proof -
    let ?x = "unat (to_be_bytes a ! m)" and ?y = "unat (to_be_bytes b ! m)"
    have "?x div 16 = ?y div 16" using assms [of "2 * m"] that by (simp add: nibble_eq)
    moreover have "?x mod 16 = ?y mod 16"
      using assms [of "2 * m + 1"] that by (simp add: nibble_eq)
    ultimately have "?x = ?y" by (metis div_mod_decomp)
    then show ?thesis by (rule word_unat_eq_iff [THEN iffD2])
  qed
  then have "to_be_bytes a = to_be_bytes b" by (intro nth_equalityI) auto
  then show ?thesis by (simp add: to_be_bytes_inject)
qed

definition agree_below :: "item list \<Rightarrow> nat \<Rightarrow> bool" where
  "agree_below items d \<longleftrightarrow>
     (\<forall>i \<in> set items. \<forall>j \<in> set items. \<forall>k < d. nibble (item_key i) k = nibble (item_key j) k)"

lemma agree_below_bucket: "agree_below items d \<Longrightarrow> agree_below (bucket items d s) (d + 1)"
  by (auto simp add: agree_below_def bucket_def less_Suc_eq)

lemma agree_distinct_shallow:
  assumes "agree_below (i # j # k) d" and "distinct (map item_key (i # j # k))"
  shows "d < 64"
proof (rule ccontr)
  assume d: "\<not> d < 64"
  have "\<forall>k < d. nibble (item_key i) k = nibble (item_key j) k"
    using assms(1) unfolding agree_below_def by (meson list.set_intros)
  with d have "nibble (item_key i) k = nibble (item_key j) k" if "k < 64" for k
    using that by simp
  then have "item_key i = item_key j" by (rule nibbles_determine_key)
  with assms(2) show False by simp
qed

lemma distinct_bucket: "distinct (map item_key items) \<Longrightarrow> distinct (map item_key (bucket items d s))"
  by (simp add: bucket_def distinct_map_filter)

lemma level_of_total:
  "d < 64 \<Longrightarrow> agree_below items d \<Longrightarrow> distinct (map item_key items) \<Longrightarrow>
     \<exists>r. level_of H items d = Inr r"
proof (induction d arbitrary: items rule: depth_induct)
  case (deeper d)
  have "\<exists>r. slot_result H d (bucket items d s) = Inr r" for s
  proof -
    let ?b = "bucket items d s"
    consider "?b = []" | i where "?b = [i]" | i j k where "?b = i # j # k"
      by (cases ?b; cases "tl ?b") auto
    then show ?thesis
    proof cases
      case 3
      have a: "agree_below ?b (d + 1)" and dist: "distinct (map item_key ?b)"
        using deeper.prems by (simp_all add: agree_below_bucket distinct_bucket del: One_nat_def)
      have "d + 1 < 64" by (rule agree_distinct_shallow [OF a [unfolded 3] dist [unfolded 3]])
      with a dist have "\<exists>r. level_of H ?b (d + 1) = Inr r"
        by (intro deeper.IH deeper.prems) simp_all
      with 3 show ?thesis by simp
    qed simp_all
  qed
  then obtain rs where "rmap (\<lambda>s. slot_result H d (bucket items d s)) [0..<16] = Inr rs"
    using rmap_defined by meson
  then show ?case by (simp add: level_of_shallow [OF deeper.prems(1)] del: upt_Suc)
qed

lemma level_of_duplicates:
  "\<not> distinct (map item_key items) \<Longrightarrow> \<exists>p. level_of H items d = Inl p"
proof (induction d arbitrary: items rule: depth_induct)
  case (deeper d)
  show ?case
  proof (cases "d < 64")
    case False
    moreover have "items \<noteq> []" using deeper.prems by auto
    ultimately show ?thesis by (simp add: level_of_deep)
  next
    case True
    obtain as i bs j cs where split: "items = as @ [i] @ bs @ [j] @ cs" "item_key i = item_key j"
      using not_distinct_map_split [OF deeper.prems] by blast
    obtain s where s: "s < 16" "nibble (item_key i) d = Inr s"
      using nibble_in_range [OF True] by blast
    let ?b = "bucket items d s"
    have b: "?b = bucket as d s @ [i] @ bucket bs d s @ [j] @ bucket cs d s"
      using s split by (simp add: bucket_def)
    have dup: "\<not> distinct (map item_key ?b)" unfolding b using split(2) by simp
    obtain p where p: "level_of H ?b (d + 1) = Inl p"
      using deeper.IH [of "d + 1", OF _ True dup] by auto
    have "2 \<le> length ?b" unfolding b by simp
    then obtain x y z where "?b = x # y # z" by (cases ?b; cases "tl ?b") auto
    with p have "slot_result H d ?b = Inl p" by simp
    then obtain q where "rmap (\<lambda>s. slot_result H d (bucket items d s)) [0..<16] = Inl q"
      using rmap_undefined [of s "[0..<16]"] s by fastforce
    then show ?thesis by (simp add: level_of_shallow [OF True] del: upt_Suc)
  qed
qed

lemma map_item_key [simp]: "map (item_key \<circ> tx_item H) txns = map tx_hash txns"
  by (simp add: tx_item_def Let_def)

lemma build_tx_tree_total_iff:
  "(\<exists>root nodes. build_tx_tree H txns = Inr (root, nodes)) \<longleftrightarrow> distinct (map tx_hash txns)"
proof (cases "txns = []")
  case True
  then show ?thesis by (simp add: build_tx_tree_def)
next
  case False
  have k: "map item_key (map (tx_item H) txns) = map tx_hash txns" by simp
  show ?thesis
  proof (cases "distinct (map tx_hash txns)")
    case True
    then obtain r where "level_of H (map (tx_item H) txns) 0 = Inr r"
      using level_of_total [of 0 "map (tx_item H) txns" H] unfolding k
      by (auto simp add: agree_below_def)
    with False True show ?thesis by (cases r) (simp add: build_tx_tree_level)
  next
    case dup: False
    then obtain p where "level_of H (map (tx_item H) txns) 0 = Inl p"
      using level_of_duplicates [of "map (tx_item H) txns" H 0] unfolding k by blast
    with False dup show ?thesis by (simp add: build_tx_tree_level)
  qed
qed

end
