(* ===== verification/Tx_Tree_Binding.thy ===== *)
theory Tx_Tree_Binding
  imports Tx_Tree_Correct
begin

text \<open>
  The nodes build_tx_tree returns form a Merkle tree: each hashes to its own hash, inner
  nodes point only to nodes of the tree, and the root commits to the set of records. A root
  shared by two different sets exhibits a collision of SHA-512Half between two nodes of the two trees,
  or a node whose hash is zero; both are named, not assumed away.
\<close>

section \<open>One level of a built tree\<close>

lemma level_of_InrE:
  assumes "level_of H items d = Inr (h, ex)" and "items \<noteq> []"
  obtains rs where "d < 64" and "length rs = 16"
    and "\<And>s. s < 16 \<Longrightarrow> slot_result H d (bucket items d s) = Inr (rs ! s)"
    and "h = node_hash (inner_of H (map fst rs))"
    and "ex = concat (map snd rs) @ [inner_of H (map fst rs)]"
proof -
  have d: "d < 64"
    using assms by (cases "d < 64") (simp_all add: level_of_deep)
  from assms(1) obtain rs
    where rs: "rmap (\<lambda>s. slot_result H d (bucket items d s)) [0..<16] = Inr rs"
      and r: "h = node_hash (inner_of H (map fst rs))"
        "ex = concat (map snd rs) @ [inner_of H (map fst rs)]"
    by (auto simp add: level_of_shallow [OF d] rbind_eq_Inr simp del: upt_Suc)
  have l: "length rs = 16" using rmap_length [OF rs] by simp
  have "slot_result H d (bucket items d s) = Inr (rs ! s)" if "s < 16" for s
    using rs that l unfolding rmap_Inr_iff list_all2_conv_all_nth by (simp del: upt_Suc)
  with d l r show thesis by (intro that)
qed

lemma bucket_of_item:
  assumes "i \<in> set items" and "d < 64"
  shows "\<exists>s < 16. i \<in> set (bucket items d s)"
  using nibble_in_range [OF assms(2), of "item_key i"] assms(1) by (auto simp add: bucket_def)

lemma set_bucket: "set (bucket items d s) \<subseteq> set items"
  by (auto simp add: bucket_def)

lemma set_concat_nth:
  "r < length rs \<Longrightarrow> set (snd (rs ! r)) \<subseteq> set (concat (map snd rs))"
  by (auto intro!: bexI [of _ "rs ! r"])

section \<open>Closure\<close>

definition below :: "item list \<Rightarrow> shamap_node list \<Rightarrow> hash256 set" where
  "below items ex = {0} \<union> item_leaf_hash ` set items \<union> node_hash ` set ex"

lemma level_of_closed:
  "level_of H items d = Inr (h, ex) \<Longrightarrow> items \<noteq> [] \<Longrightarrow>
     h \<in> node_hash ` set ex \<and>
     (\<forall>n \<in> set ex. \<exists>hs. n = inner_of H hs \<and> length hs = 16 \<and> set hs \<subseteq> below items ex)"
proof (induction d arbitrary: items h ex rule: depth_induct)
  case (deeper d)
  obtain rs where d: "d < 64" and l: "length rs = 16"
    and rs: "\<And>s. s < 16 \<Longrightarrow> slot_result H d (bucket items d s) = Inr (rs ! s)"
    and h: "h = node_hash (inner_of H (map fst rs))"
    and ex: "ex = concat (map snd rs) @ [inner_of H (map fst rs)]"
    using level_of_InrE [OF deeper.prems] by metis
  have slot: "fst (rs ! s) \<in> below items ex \<and>
      (\<forall>n \<in> set (snd (rs ! s)). \<exists>hs. n = inner_of H hs \<and> length hs = 16 \<and> set hs \<subseteq> below items ex)"
    if s: "s < 16" for s
  proof -
    let ?b = "bucket items d s"
    have sub: "below ?b (snd (rs ! s)) \<subseteq> below items ex"
      using set_bucket [of items d s] set_concat_nth [of s rs] s l
      unfolding below_def ex by fastforce
    consider "?b = []" | i where "?b = [i]" | i j k where "?b = i # j # k"
      by (cases ?b; cases "tl ?b") auto
    then show ?thesis
    proof cases
      case 1
      with rs [OF s] have "rs ! s = (0, [])" by simp
      then show ?thesis by (simp add: below_def)
    next
      case 2
      with rs [OF s] have r: "rs ! s = (item_leaf_hash i, [])" by simp
      have "i \<in> set items" using 2 set_bucket [of items d s] by simp
      with r show ?thesis by (simp add: below_def)
    next
      case 3
      then have "level_of H ?b (d + 1) = Inr (fst (rs ! s), snd (rs ! s))"
        using rs [OF s] by simp
      with deeper.IH [OF _ d] 3 have "fst (rs ! s) \<in> node_hash ` set (snd (rs ! s)) \<and>
          (\<forall>n \<in> set (snd (rs ! s)). \<exists>hs. n = inner_of H hs \<and> length hs = 16 \<and>
             set hs \<subseteq> below ?b (snd (rs ! s)))"
        by (metis less_add_one list.distinct(1))
      moreover from this have "fst (rs ! s) \<in> below ?b (snd (rs ! s))" by (simp add: below_def)
      ultimately show ?thesis using sub by (meson subsetD subset_trans)
    qed
  qed
  have "set (map fst rs) \<subseteq> below items ex"
    using slot l by (auto simp add: set_conv_nth)
  moreover have "\<exists>hs. n = inner_of H hs \<and> length hs = 16 \<and> set hs \<subseteq> below items ex"
    if "n \<in> set (concat (map snd rs))" for n
  proof -
    from that obtain r where r: "r \<in> set rs" "n \<in> set (snd r)" by auto
    then obtain s where "s < 16" "rs ! s = r" using l by (metis in_set_conv_nth)
    with slot r(2) show ?thesis by blast
  qed
  moreover have "\<exists>hs. inner_of H (map fst rs) = inner_of H hs \<and> length hs = 16 \<and> set hs \<subseteq> below items ex"
    using l calculation(1) by (intro exI [of _ "map fst rs"]) simp
  ultimately show ?case unfolding h ex by (simp add: ball_Un)
qed

lemma inner_of_consistent: "recompute_node_hash H (inner_of H hs) = node_hash (inner_of H hs)"
  by (simp add: recompute_node_hash_def inner_of_def)

lemma item_node_consistent:
  "recompute_node_hash H (item_node (tx_item H t)) = node_hash (item_node (tx_item H t))"
  "item_leaf_hash (tx_item H t) = node_hash (item_node (tx_item H t))"
  by (simp_all add: recompute_node_hash_def tx_item_def Let_def)

lemma inner_of_children:
  assumes "length hs = 16"
  shows "inner_from_node (inner_of H hs) = Inr \<lparr>children = map opt_hash hs\<rparr>"
    "set (child_hashes \<lparr>children = map opt_hash hs\<rparr>) = set hs - {0}"
  using assms
  by (auto simp add: inner_from_node_def inner_of_def from_full_bytes_full_content set_child_hashes
      opt_hash_def split: if_splits)

lemma build_tx_tree_nodes:
  assumes "build_tx_tree H txns = Inr (root, nodes)" and "txns \<noteq> []"
  shows "verify_state_nodes H nodes = Inr ()"
    and "root \<in> node_hash ` set nodes"
    and "\<And>n inner c. n \<in> set nodes \<Longrightarrow> inner_from_node n = Inr inner \<Longrightarrow>
      c \<in> set (child_hashes inner) \<Longrightarrow> c \<in> node_hash ` set nodes"
proof -
  let ?items = "map (tx_item H) txns"
  obtain ex where lvl: "level_of H ?items 0 = Inr (root, ex)"
    and nodes: "nodes = map (item_node \<circ> tx_item H) txns @ ex"
    using assms by (auto simp add: build_tx_tree_level rbind_eq_Inr)
  have c: "root \<in> node_hash ` set ex"
    "\<And>n. n \<in> set ex \<Longrightarrow> \<exists>hs. n = inner_of H hs \<and> length hs = 16 \<and> set hs \<subseteq> below ?items ex"
    using level_of_closed [OF lvl] assms(2) by auto
  show "root \<in> node_hash ` set nodes" using c(1) nodes by auto
  show "verify_state_nodes H nodes = Inr ()"
    using c(2) nodes by (fastforce simp add: inner_of_consistent item_node_consistent)
  fix n inner c'
  assume n: "n \<in> set nodes" and i: "inner_from_node n = Inr inner"
    and c': "c' \<in> set (child_hashes inner)"
  have "n \<in> set ex"
    using n i nodes by (auto simp add: inner_from_node_def tx_item_def Let_def)
  then obtain hs where hs: "n = inner_of H hs" "length hs = 16" "set hs \<subseteq> below ?items ex"
    using c(2) by blast
  have "c' \<in> set hs - {0}" using i c' hs inner_of_children [OF hs(2)] by auto
  then have "c' \<in> item_leaf_hash ` set ?items \<union> node_hash ` set ex"
    using hs(3) by (auto simp add: below_def)
  then show "c' \<in> node_hash ` set nodes"
    by (auto simp add: nodes item_node_consistent(2))
qed

section \<open>Binding\<close>

definition node_preimage :: "shamap_node \<Rightarrow> byte list" where
  "node_preimage n =
     (if is_inner (node_type n) then hash_prefix_inner_node @ node_content n else node_content n)"

definition hash_clash :: "sha512 \<Rightarrow> shamap_node list \<Rightarrow> shamap_node list \<Rightarrow> bool" where
  "hash_clash H ns ms \<longleftrightarrow>
     (\<exists>n \<in> set ns. \<exists>m \<in> set ms. collision H (node_preimage n) (node_preimage m)) \<or>
     (\<exists>n \<in> set ns \<union> set ms. node_hash n = 0)"

lemma hash_clash_mono:
  "hash_clash H ns ms \<Longrightarrow> set ns \<subseteq> set ns' \<Longrightarrow> set ms \<subseteq> set ms' \<Longrightarrow> hash_clash H ns' ms'"
  unfolding hash_clash_def by blast

lemma hash_clash_sym: "hash_clash H ns ms \<Longrightarrow> hash_clash H ms ns"
  unfolding hash_clash_def collision_def by (metis Un_commute)

lemma full_content_inject:
  "length hs = length ks \<Longrightarrow> full_content hs = full_content ks \<longleftrightarrow> hs = ks"
  by (induction rule: list_induct2) (auto simp add: full_content_def to_be_bytes_inject)

lemma inner_of_clash:
  assumes "node_hash (inner_of H hs) = node_hash (inner_of H ks)" and "length hs = length ks"
    and "inner_of H hs \<in> set ns" and "inner_of H ks \<in> set ms"
  shows "hs = ks \<or> hash_clash H ns ms"
proof (cases "hs = ks")
  case False
  then have "collision H (node_preimage (inner_of H hs)) (node_preimage (inner_of H ks))"
    using assms(1,2)
    by (simp add: collision_def node_preimage_def inner_of_def full_content_inject)
  with assms(3,4) show ?thesis unfolding hash_clash_def by blast
qed simp

lemma leaf_inner_clash:
  assumes "item_leaf_hash (tx_item H t) = node_hash (inner_of H ks)"
    and "item_node (tx_item H t) \<in> set ns" and "inner_of H ks \<in> set ms"
  shows "hash_clash H ns ms"
proof -
  have "collision H (node_preimage (item_node (tx_item H t))) (node_preimage (inner_of H ks))"
    using assms(1)
    by (simp add: collision_def node_preimage_def inner_of_def tx_item_def Let_def
        tx_leaf_content_def hash_prefix_tx_node_def hash_prefix_inner_node_def)
  with assms(2,3) show ?thesis unfolding hash_clash_def by blast
qed

lemma leaf_leaf_clash:
  assumes "item_leaf_hash (tx_item H t) = item_leaf_hash (tx_item H u)"
    and "wf_leaf t" and "wf_leaf u"
    and "item_node (tx_item H t) \<in> set ns" and "item_node (tx_item H u) \<in> set ms"
  shows "t = u \<or> hash_clash H ns ms"
proof (cases "t = u")
  case False
  then have "collision H (node_preimage (item_node (tx_item H t))) (node_preimage (item_node (tx_item H u)))"
    using assms(1-3)
    by (simp add: collision_def node_preimage_def tx_item_def Let_def tx_leaf_content_inject)
  with assms(4,5) show ?thesis unfolding hash_clash_def by blast
qed simp

text \<open>The nodes of a level and of the leaves that hang below it.\<close>

abbreviation level_nodes :: "sha512 \<Rightarrow> tx_record list \<Rightarrow> shamap_node list \<Rightarrow> shamap_node list" where
  "level_nodes H ts ex \<equiv> map (item_node \<circ> tx_item H) ts @ ex"

definition tx_bucket :: "tx_record list \<Rightarrow> nat \<Rightarrow> nat \<Rightarrow> tx_record list" where
  "tx_bucket ts d s = filter (\<lambda>t. nibble (tx_hash t) d = Inr s) ts"

lemma bucket_tx_items: "bucket (map (tx_item H) ts) d s = map (tx_item H) (tx_bucket ts d s)"
  by (simp add: bucket_def tx_bucket_def filter_map o_def tx_item_def Let_def)


lemma slot_nodes:
  assumes "s < length rs" and "d < 64"
  shows "set (level_nodes H (tx_bucket ts d s) (snd (rs ! s)))
    \<subseteq> set (level_nodes H ts (concat (map snd rs) @ [n]))"
  using set_concat_nth [OF assms(1)] by (auto simp add: tx_bucket_def)

lemma slot_hash_in_nodes:
  assumes "slot_result H d (map (tx_item H) ts) = Inr (h, ex)" and "ts \<noteq> []"
  shows "\<exists>n \<in> set (level_nodes H ts ex). node_hash n = h"
proof -
  consider t where "ts = [t]" | t u vs where "ts = t # u # vs"
    using assms(2) by (cases ts; cases "tl ts") auto
  then show ?thesis
  proof cases
    case 1
    with assms(1) show ?thesis by (simp add: item_node_consistent(2))
  next
    case 2
    with assms(1) have "level_of H (map (tx_item H) ts) (d + 1) = Inr (h, ex)" by simp
    then have "h \<in> node_hash ` set ex" using level_of_closed assms(2) by blast
    then show ?thesis by auto
  qed
qed

text \<open>The root of a level of at least two items is the hash of an inner node of the level.\<close>

lemma slot_inner:
  assumes "slot_result H d (map (tx_item H) (t # u # vs)) = Inr (h, ex)"
  shows "\<exists>ks. inner_of H ks \<in> set ex \<and> h = node_hash (inner_of H ks)"
proof -
  have "level_of H (map (tx_item H) (t # u # vs)) (d + 1) = Inr (h, ex)" using assms by simp
  from level_of_InrE [OF this] show ?thesis by (metis in_set_conv_decomp list.map_disc_iff list.distinct(1))
qed

lemma slot_binding:
  assumes r: "slot_result H d (map (tx_item H) ts) = Inr (h, ex)"
      "slot_result H d (map (tx_item H) us) = Inr (h, ey)"
    and wf: "list_all wf_leaf ts" "list_all wf_leaf us"
    and nc: "\<not> hash_clash H (level_nodes H ts ex) (level_nodes H us ey)"
    and deeper: "ts \<noteq> [] \<Longrightarrow> us \<noteq> [] \<Longrightarrow> level_of H (map (tx_item H) ts) (d + 1) = Inr (h, ex) \<Longrightarrow>
      level_of H (map (tx_item H) us) (d + 1) = Inr (h, ey) \<Longrightarrow>
      set ts = set us \<or> hash_clash H (level_nodes H ts ex) (level_nodes H us ey)"
  shows "set ts = set us"
proof -
  have zero: "node_hash n \<noteq> 0"
    if "n \<in> set (level_nodes H ts ex) \<union> set (level_nodes H us ey)" for n
    using nc that unfolding hash_clash_def by blast
  consider "ts = []" | t where "ts = [t]" | t t' ts' where "ts = t # t' # ts'"
    by (cases ts; cases "tl ts") auto
  then show ?thesis
  proof cases
    case 1
    then have "h = 0" using r(1) by simp
    then have "us = []" using slot_hash_in_nodes [OF r(2)] zero by blast
    with 1 show ?thesis by simp
  next
    case t: 2
    then have ht: "h = item_leaf_hash (tx_item H t)" using r(1) by simp
    consider "us = []" | u where "us = [u]" | u u' us' where "us = u # u' # us'"
      by (cases us; cases "tl us") auto
    then show ?thesis
    proof cases
      case 1
      then have "h = 0" using r(2) by simp
      with slot_hash_in_nodes [OF r(1)] zero t show ?thesis by blast
    next
      case u: 2
      then have "item_leaf_hash (tx_item H t) = item_leaf_hash (tx_item H u)" using r(2) ht by simp
      then have "t = u \<or> hash_clash H (level_nodes H ts ex) (level_nodes H us ey)"
        by (rule leaf_leaf_clash) (use t u wf in simp_all)
      with nc t u show ?thesis by simp
    next
      case u: 3
      obtain ks where ks: "inner_of H ks \<in> set ey" "h = node_hash (inner_of H ks)"
        using slot_inner r(2) unfolding u by blast
      have "hash_clash H (level_nodes H ts ex) (level_nodes H us ey)"
        by (rule leaf_inner_clash [of H t ks]) (use ht ks t in simp_all)
      with nc show ?thesis by simp
    qed
  next
    case t: 3
    obtain ks where ks: "inner_of H ks \<in> set ex" "h = node_hash (inner_of H ks)"
      using slot_inner r(1) unfolding t by blast
    consider "us = []" | u where "us = [u]" | u u' us' where "us = u # u' # us'"
      by (cases us; cases "tl us") auto
    then show ?thesis
    proof cases
      case 1
      then have "h = 0" using r(2) by simp
      with slot_hash_in_nodes [OF r(1)] zero t show ?thesis by blast
    next
      case u: 2
      then have "item_leaf_hash (tx_item H u) = h" using r(2) by simp
      with ks(2) have e: "item_leaf_hash (tx_item H u) = node_hash (inner_of H ks)" by simp
      have "hash_clash H (level_nodes H us ey) (level_nodes H ts ex)"
        by (rule leaf_inner_clash [OF e]) (use ks u in simp_all)
      with nc hash_clash_sym show ?thesis by blast
    next
      case u: 3
      have "level_of H (map (tx_item H) ts) (d + 1) = Inr (h, ex)" using r(1) t by simp
      moreover have "level_of H (map (tx_item H) us) (d + 1) = Inr (h, ey)" using r(2) u by simp
      ultimately show ?thesis using deeper nc t u by blast
    qed
  qed
qed

lemma bucket_union:
  "d < 64 \<Longrightarrow> set ts = (\<Union>s < 16. set (tx_bucket ts d s))"
  using nibble_in_range by (fastforce simp add: tx_bucket_def)

lemma level_of_binding:
  "level_of H (map (tx_item H) ts) d = Inr (h, ex) \<Longrightarrow> ts \<noteq> [] \<Longrightarrow>
   level_of H (map (tx_item H) us) d = Inr (h, ey) \<Longrightarrow> us \<noteq> [] \<Longrightarrow>
   list_all wf_leaf ts \<Longrightarrow> list_all wf_leaf us \<Longrightarrow>
     set ts = set us \<or> hash_clash H (level_nodes H ts ex) (level_nodes H us ey)"
proof (induction d arbitrary: ts us h ex ey rule: depth_induct)
  case (deeper d)
  let ?N = "level_nodes H ts ex" and ?M = "level_nodes H us ey"
  obtain rs where d: "d < 64" and l: "length rs = 16"
    and rs: "\<And>s. s < 16 \<Longrightarrow> slot_result H d (map (tx_item H) (tx_bucket ts d s)) = Inr (rs ! s)"
    and h: "h = node_hash (inner_of H (map fst rs))"
    and ex: "ex = concat (map snd rs) @ [inner_of H (map fst rs)]"
    using level_of_InrE [OF deeper.prems(1)] deeper.prems(2) unfolding bucket_tx_items by (metis map_is_Nil_conv)
  obtain qs where l': "length qs = 16"
    and qs: "\<And>s. s < 16 \<Longrightarrow> slot_result H d (map (tx_item H) (tx_bucket us d s)) = Inr (qs ! s)"
    and h': "h = node_hash (inner_of H (map fst qs))"
    and ey: "ey = concat (map snd qs) @ [inner_of H (map fst qs)]"
    using level_of_InrE [OF deeper.prems(3)] deeper.prems(4) unfolding bucket_tx_items by (metis map_is_Nil_conv)
  show ?case
  proof (cases "hash_clash H ?N ?M")
    case False
    have "map fst rs = map fst qs"
      using inner_of_clash [of H "map fst rs" "map fst qs" ?N ?M] h h' l l' False ex ey by auto
    then have heads: "fst (rs ! s) = fst (qs ! s)" if "s < 16" for s
      using that l l' by (metis nth_map)
    have "set (tx_bucket ts d s) = set (tx_bucket us d s)" if s: "s < 16" for s
    proof -
      let ?a = "tx_bucket ts d s" and ?b = "tx_bucket us d s"
      let ?n = "level_nodes H ?a (snd (rs ! s))" and ?m = "level_nodes H ?b (snd (qs ! s))"
      have sub: "set ?n \<subseteq> set ?N" "set ?m \<subseteq> set ?M"
        using slot_nodes [of s rs d H ts] slot_nodes [of s qs d H us] s l l' d unfolding ex ey by auto
      then have nc: "\<not> hash_clash H ?n ?m" using False hash_clash_mono by blast
      have r: "slot_result H d (map (tx_item H) ?a) = Inr (fst (rs ! s), snd (rs ! s))"
          "slot_result H d (map (tx_item H) ?b) = Inr (fst (rs ! s), snd (qs ! s))"
        using rs [OF s] qs [OF s] heads [OF s] by (metis prod.collapse)+
      have wf: "list_all wf_leaf ?a" "list_all wf_leaf ?b"
        using deeper.prems(5,6) by (auto simp add: list_all_iff tx_bucket_def)
      show ?thesis
      proof (rule slot_binding [OF r wf nc])
        assume ne: "?a \<noteq> []" "?b \<noteq> []"
          and lvl: "level_of H (map (tx_item H) ?a) (d + 1) = Inr (fst (rs ! s), snd (rs ! s))"
            "level_of H (map (tx_item H) ?b) (d + 1) = Inr (fst (rs ! s), snd (qs ! s))"
        show "set ?a = set ?b \<or> hash_clash H ?n ?m"
          by (rule deeper.IH [OF _ d lvl(1) ne(1) lvl(2) ne(2) wf]) simp
      qed
    qed
    then have "(\<Union>s < 16. set (tx_bucket ts d s)) = (\<Union>s < 16. set (tx_bucket us d s))"
      by (intro SUP_cong) simp_all
    then show ?thesis
      using bucket_union [OF d, of ts] bucket_union [OF d, of us] by argo
  next
    case True
    then show ?thesis by (rule disjI2)
  qed
qed


lemma build_tx_tree_binding:
  assumes "build_tx_tree H ts = Inr (root, ns)" and "build_tx_tree H us = Inr (root, ms)"
    and "list_all wf_leaf ts" and "list_all wf_leaf us"
  shows "mset ts = mset us \<or> hash_clash H ns ms"
proof -
  have dist: "distinct ts" "distinct us"
    using assms(1,2) build_tx_tree_total_iff distinct_map by metis+
  consider "ts = []" "us = []" | "ts = []" "us \<noteq> []" | "ts \<noteq> []" "us = []" | "ts \<noteq> []" "us \<noteq> []"
    by blast
  then show ?thesis
  proof cases
    case 1
    then show ?thesis by simp
  next
    case 2
    then have "root = 0" "root \<in> node_hash ` set ms"
      using assms(1) build_tx_tree_nodes(2) [OF assms(2)] by (simp_all add: build_tx_tree_def)
    then show ?thesis by (auto simp add: hash_clash_def)
  next
    case 3
    then have "root = 0" "root \<in> node_hash ` set ns"
      using assms(2) build_tx_tree_nodes(2) [OF assms(1)] by (simp_all add: build_tx_tree_def)
    then show ?thesis by (auto simp add: hash_clash_def)
  next
    case 4
    then obtain ex ey
      where lx: "level_of H (map (tx_item H) ts) 0 = Inr (root, ex)" "ns = level_nodes H ts ex"
        and ly: "level_of H (map (tx_item H) us) 0 = Inr (root, ey)" "ms = level_nodes H us ey"
      using assms(1,2) by (auto simp add: build_tx_tree_level rbind_eq_Inr)
    then have "set ts = set us \<or> hash_clash H ns ms"
      using level_of_binding [OF lx(1) 4(1) ly(1) 4(2) assms(3,4)] by simp
    then show ?thesis using dist by (auto simp add: set_eq_iff_mset_eq_distinct)
  qed
qed

section \<open>Properties\<close>

text \<open>
  C22: Building the transaction tree returns a root exactly when the transaction hashes are
  distinct; with a duplicated hash the recursion passes the 64th nibble and the code panics
  with an index out of bounds.
\<close>

theorem tx_tree_built_iff_distinct:
  "(\<exists>root nodes. build_tx_tree H txns = Inr (root, nodes)) \<longleftrightarrow> distinct (map tx_hash txns)"
  by (rule build_tx_tree_total_iff)

text \<open>
  The transaction root and the multiset of tree nodes do not depend on the order of the
  records.
\<close>

theorem tx_tree_order_independent:
  assumes "mset xs = mset ys"
  shows "(\<exists>p. build_tx_tree H xs = Inl p \<and> build_tx_tree H ys = Inl p) \<or>
    (\<exists>root ns ms. build_tx_tree H xs = Inr (root, ns) \<and> build_tx_tree H ys = Inr (root, ms)
       \<and> mset ns = mset ms)"
  using build_tx_tree_perm [OF assms] .

definition sample_tx :: "hash256 \<Rightarrow> byte \<Rightarrow> tx_record" where
  "sample_tx h b = \<lparr>tx_hash = h, tx_blob = [b], meta_blob = []\<rparr>"

lemma tx_tree_order_independent_witness:
  "\<exists>root ns ms. build_tx_tree (\<lambda>b. of_nat (length b)) [sample_tx 1 2, sample_tx 2 3] = Inr (root, ns) \<and>
     build_tx_tree (\<lambda>b. of_nat (length b)) [sample_tx 2 3, sample_tx 1 2] = Inr (root, ms)
     \<and> mset ns = mset ms"
proof -
  let ?H = "\<lambda>b. of_nat (length b)"
  have "\<exists>root nodes. build_tx_tree ?H [sample_tx 1 2, sample_tx 2 3] = Inr (root, nodes)"
    unfolding build_tx_tree_total_iff by (simp add: sample_tx_def)
  with tx_tree_order_independent
      [of "[sample_tx 1 2, sample_tx 2 3]" "[sample_tx 2 3, sample_tx 1 2]" ?H]
  show ?thesis by auto
qed

text \<open>
  C23: The tree built for a ledger with transactions is a closed Merkle tree: every node hashes
  to its own hash, the root is the hash of one of the nodes, and every child of an inner node
  is the hash of a node of the tree. Everything an importer stores for a ledger can therefore
  be walked from its root.
\<close>

theorem tx_tree_closed:
  assumes "build_tx_tree H txns = Inr (root, nodes)" and "txns \<noteq> []"
  shows "verify_state_nodes H nodes = Inr () \<and> root \<in> node_hash ` set nodes \<and>
    (\<forall>n \<in> set nodes. \<forall>inner. inner_from_node n = Inr inner \<longrightarrow>
       set (child_hashes inner) \<subseteq> node_hash ` set nodes)"
proof (intro conjI ballI allI impI subsetI)
  show "verify_state_nodes H nodes = Inr ()" by (rule build_tx_tree_nodes(1) [OF assms])
  show "root \<in> node_hash ` set nodes" by (rule build_tx_tree_nodes(2) [OF assms])
  show "c \<in> node_hash ` set nodes"
    if "n \<in> set nodes" "inner_from_node n = Inr inner" "c \<in> set (child_hashes inner)"
    for n inner c
    by (rule build_tx_tree_nodes(3) [OF assms that])
qed

lemma tx_tree_closed_witness:
  "\<exists>root nodes. build_tx_tree (\<lambda>b. of_nat (length b)) [sample_tx 1 2, sample_tx 2 3] = Inr (root, nodes)
     \<and> verify_state_nodes (\<lambda>b. of_nat (length b)) nodes = Inr () \<and> root \<in> node_hash ` set nodes"
proof -
  let ?H = "\<lambda>b. of_nat (length b)"
  have "\<exists>root nodes. build_tx_tree ?H [sample_tx 1 2, sample_tx 2 3] = Inr (root, nodes)"
    unfolding build_tx_tree_total_iff by (simp add: sample_tx_def)
  then obtain root nodes
    where b: "build_tx_tree ?H [sample_tx 1 2, sample_tx 2 3] = Inr (root, nodes)" by blast
  from tx_tree_closed [OF b] have "verify_state_nodes ?H nodes = Inr () \<and> root \<in> node_hash ` set nodes"
    by (metis list.distinct(1))
  with b show ?thesis by metis
qed

text \<open>
  C21: The transaction root commits to the transactions with their metadata: two ledgers with
  the same root have the same records, or two nodes of the two trees collide under
  SHA-512Half, or a node hashes to zero.
\<close>

theorem tx_root_binds_transactions:
  assumes "build_tx_tree H ts = Inr (root, ns)" and "build_tx_tree H us = Inr (root, ms)"
    and "list_all wf_leaf ts" and "list_all wf_leaf us"
  shows "mset ts = mset us \<or> hash_clash H ns ms"
  using build_tx_tree_binding [OF assms] .

lemma tx_root_binds_transactions_witness:
  "\<exists>root ns ms. build_tx_tree (\<lambda>_. 0) [sample_tx 1 2, sample_tx 2 3] = Inr (root, ns) \<and>
     build_tx_tree (\<lambda>_. 0) [sample_tx 1 2] = Inr (root, ms) \<and> hash_clash (\<lambda>_. 0) ns ms"
proof -
  obtain r ns where ns: "build_tx_tree (\<lambda>_. 0) [sample_tx 1 2, sample_tx 2 3] = Inr (r, ns)"
    using build_tx_tree_total_iff [of "\<lambda>_. 0" "[sample_tx 1 2, sample_tx 2 3]"]
    by (auto simp add: sample_tx_def)
  obtain q ms where ms: "build_tx_tree (\<lambda>_. 0) [sample_tx 1 2] = Inr (q, ms)"
    using build_tx_tree_total_iff [of "\<lambda>_. 0" "[sample_tx 1 2]"] by (auto simp add: sample_tx_def)
  have "verify_state_nodes (\<lambda>_. 0) ns = Inr ()" "r \<in> node_hash ` set ns"
      "verify_state_nodes (\<lambda>_. 0) ms = Inr ()" "q \<in> node_hash ` set ms"
    using build_tx_tree_nodes [OF ns] build_tx_tree_nodes [OF ms] by simp_all
  then have "r = 0" "q = 0" by (auto simp add: recompute_node_hash_zero)
  moreover have "list_all wf_leaf [sample_tx 1 2, sample_tx 2 3]" "list_all wf_leaf [sample_tx 1 2]"
    by (simp_all add: wf_leaf_def sample_tx_def vl_limit_def)
  ultimately show ?thesis
    using ns ms tx_root_binds_transactions
        [of "\<lambda>_. 0" "[sample_tx 1 2, sample_tx 2 3]" 0 ns "[sample_tx 1 2]" ms]
    by auto
qed

end
