(* ===== verification/Reader_Transactions.thy ===== *)
theory Reader_Transactions
  imports Reader_Trees Tx_Tree_Binding
begin

text \<open>
  The transactions of a ledger: collect_transactions on a store that holds the tree the
  importer built returns the records the tree was built from, in the order of their hashes.
\<close>

definition stored :: "node_lookup \<Rightarrow> shamap_node list \<Rightarrow> bool" where
  "stored get ns \<longleftrightarrow> (\<forall>n \<in> set ns. get (node_hash n) = oret n \<and> node_hash n \<noteq> 0)"

lemma stored_append [simp]: "stored get (ns @ ms) \<longleftrightarrow> stored get ns \<and> stored get ms"
  by (auto simp add: stored_def)

lemma stored_mono: "stored get ns \<Longrightarrow> set ms \<subseteq> set ns \<Longrightarrow> stored get ms"
  by (auto simp add: stored_def)

lemma node_children_inner_of:
  "length hs = 16 \<Longrightarrow> \<exists>cs. node_children (inner_of H hs) = Inr cs \<and> set cs = set hs - {0}"
  using inner_of_children(1) [of hs H] inner_of_children(2) [of hs]
  by (simp add: node_children_def inner_of_def)

section \<open>Every node of the tree is reachable from its root\<close>

lemma level_of_reach:
  "level_of H items d = Inr (h, ex) \<Longrightarrow> items \<noteq> [] \<Longrightarrow>
   (\<And>i. i \<in> set items \<Longrightarrow> item_leaf_hash i = node_hash (item_node i)) \<Longrightarrow>
   stored get (map item_node items @ ex) \<Longrightarrow> n \<in> set (map item_node items @ ex) \<Longrightarrow>
     reach get h (node_hash n)"
proof (induction d arbitrary: items h ex n rule: depth_induct)
  case (deeper d)
  obtain rs where d: "d < 64" and l: "length rs = 16"
    and slot: "\<And>s. s < 16 \<Longrightarrow> slot_result H d (bucket items d s) = Inr (rs ! s)"
    and h: "h = node_hash (inner_of H (map fst rs))"
    and ex: "ex = concat (map snd rs) @ [inner_of H (map fst rs)]"
    using level_of_InrE [OF deeper.prems(1,2)] by metis
  obtain cs where root: "get h = oret (inner_of H (map fst rs))"
    "node_children (inner_of H (map fst rs)) = Inr cs" "set cs = set (map fst rs) - {0}"
    using node_children_inner_of [of "map fst rs" H] deeper.prems(4) l
    by (auto simp add: ex h stored_def)
  have below: "reach get h (node_hash m)"
    if s: "s < 16" and m: "m \<in> set (map item_node (bucket items d s) @ snd (rs ! s))" for s m
  proof -
    let ?b = "bucket items d s"
    have keys: "\<And>i. i \<in> set ?b \<Longrightarrow> item_leaf_hash i = node_hash (item_node i)"
      using deeper.prems(3) set_bucket by blast
    have "set (map item_node ?b @ snd (rs ! s)) \<subseteq> set (map item_node items @ ex)"
      using set_bucket [of items d s] set_concat_nth [of s rs] s l unfolding ex by auto
    then have st: "stored get (map item_node ?b @ snd (rs ! s))"
      by (rule stored_mono [OF deeper.prems(4)])
    have slot_hash: "fst (rs ! s) \<noteq> 0 \<and> reach get (fst (rs ! s)) (node_hash m)"
    proof -
      consider "?b = []" | i where "?b = [i]" | i j k where "?b = i # j # k"
        by (cases ?b; cases "tl ?b") auto
      then show ?thesis
      proof cases
        case 1
        then have "rs ! s = (0, [])" using slot [OF s] by simp
        with 1 m show ?thesis by simp
      next
        case 2
        then have "rs ! s = (item_leaf_hash i, [])" using slot [OF s] by simp
        with 2 m keys st show ?thesis by (simp add: stored_def reach_root)
      next
        case 3
        then have lev: "level_of H ?b (d + 1) = Inr (fst (rs ! s), snd (rs ! s))"
          using slot [OF s] by simp
        have "fst (rs ! s) \<in> node_hash ` set (snd (rs ! s))"
          using level_of_closed [OF lev] 3 by simp
        then have "fst (rs ! s) \<noteq> 0" using st by (auto simp add: stored_def)
        moreover have "reach get (fst (rs ! s)) (node_hash m)"
          using deeper.IH [OF _ d lev _ keys st m] 3 by simp
        ultimately show ?thesis by simp
      qed
    qed
    then have "fst (rs ! s) \<in> set cs" using s l by (simp add: root(3))
    with root have "reach get h (fst (rs ! s))" using reach_child [OF reach_root] by blast
    with slot_hash show ?thesis using reach_trans by blast
  qed
  from deeper.prems(5) consider i where "i \<in> set items" "n = item_node i" | "n = inner_of H (map fst rs)"
    | r where "r \<in> set rs" "n \<in> set (snd r)" unfolding ex by auto
  then show ?case
  proof cases
    case 1
    then obtain s where "s < 16" "i \<in> set (bucket items d s)" using bucket_of_item d by blast
    with 1 below [of s n] show ?thesis by simp
  next
    case 2
    then show ?thesis by (simp add: h reach_root)
  next
    case 3
    then obtain s where "s < 16" "r = rs ! s" using l by (metis in_set_conv_nth)
    with 3 below [of s n] show ?thesis by simp
  qed
qed

lemma build_tx_tree_reach:
  assumes "build_tx_tree H txns = Inr (root, nodes)" and "txns \<noteq> []" and "stored get nodes"
  shows "Collect (reach get root) = node_hash ` set nodes"
proof
  have "k \<in> node_hash ` set nodes" if "reach get root k" for k
    using that
  proof induction
    case reach_root
    then show ?case using build_tx_tree_nodes(2) [OF assms(1,2)] .
  next
    case (reach_child h n cs c)
    then obtain m where m: "m \<in> set nodes" "h = node_hash m" by blast
    with assms(3) reach_child.hyps have "n = m" by (simp add: stored_def)
    with m reach_child.hyps build_tx_tree_nodes(3) [OF assms(1,2)] show ?case
      by (auto simp add: node_children_Inr)
  qed
  then show "Collect (reach get root) \<subseteq> node_hash ` set nodes" by blast
next
  obtain ex where lev: "level_of H (map (tx_item H) txns) 0 = Inr (root, ex)"
    and nodes: "nodes = map item_node (map (tx_item H) txns) @ ex"
    using assms(1,2) by (auto simp add: build_tx_tree_level rbind_eq_Inr)
  have "reach get root (node_hash n)" if "n \<in> set nodes" for n
    by (rule level_of_reach [OF lev])
      (use assms(2,3) that in \<open>auto simp add: nodes item_node_consistent(2)\<close>)
  then show "node_hash ` set nodes \<subseteq> Collect (reach get root)" by blast
qed

lemma build_tx_tree_node:
  assumes "build_tx_tree H txns = Inr (root, nodes)" and "txns \<noteq> []" and "n \<in> set nodes"
  shows "(\<exists>t \<in> set txns. n = item_node (tx_item H t)) \<or> (\<exists>hs. length hs = 16 \<and> n = inner_of H hs)"
proof -
  obtain ex where lev: "level_of H (map (tx_item H) txns) 0 = Inr (root, ex)"
    and nodes: "nodes = map item_node (map (tx_item H) txns) @ ex"
    using assms(1,2) by (auto simp add: build_tx_tree_level rbind_eq_Inr)
  show ?thesis using assms(2,3) level_of_closed [OF lev] unfolding nodes by auto
qed

section \<open>The walk\<close>

text \<open>The record in a leaf that parses.\<close>

definition leaf_tx :: "shamap_node \<Rightarrow> tx_record" where
  "leaf_tx n = projr (parse_tx_leaf (node_content n))"

definition leaf_txs :: "shamap_node list \<Rightarrow> tx_record list" where
  "leaf_txs ns = map leaf_tx (filter (\<lambda>n. \<not> is_inner (node_type n)) ns)"

lemma transactions_loop_simps [simp]:
  "transactions_loop get [] visited out = oret out"
  "h \<in> visited \<Longrightarrow> transactions_loop get (h # rest) visited out = transactions_loop get rest visited out"
  by (simp_all add: transactions_loop.simps [of get "[]"] transactions_loop.simps [of get "h # rest"])

text \<open>Every record that is collected fits the leaf it was read from.\<close>

lemma transactions_loop_wf:
  assumes "transactions_loop get stack visited out = Some r"
  shows "list_all wf_leaf out \<longrightarrow> (\<forall>txns. r = Inr txns \<longrightarrow> list_all wf_leaf txns)"
  using assms
proof (rule transactions_loop.raw_induct [rotated], goal_cases)
  case (1 loop get stack visited out r)
  have IH: "list_all wf_leaf txns" if "loop get s v out = oret txns" "list_all wf_leaf out" for s v out txns
    using 1(1) [OF that(1)] that(2) by blast
  show ?case
    using 1(2) by (auto simp add: obind_eq_Inr parse_tx_leaf_InrD split: list.splits if_splits elim!: IH)
qed

lemma collected_wf:
  "collect_transactions get tx_root = oret txns \<Longrightarrow> list_all wf_leaf txns"
  using transactions_loop_wf [of get "[tx_root]" "{}" "[]"]
  by (auto simp add: collect_transactions_def obind_eq_Inr list_all_iff split: if_splits)

lemma transactions_loop_visit:
  assumes "h \<notin> visited" and "get h = oret n" and "node_children n = Inr cs"
    and "\<not> is_inner (node_type n) \<Longrightarrow> \<exists>t. parse_tx_leaf (node_content n) = Inr t"
  shows "transactions_loop get (h # rest) visited (leaf_txs ns) =
    transactions_loop get (rev (filter (\<lambda>c. c \<notin> insert h visited) cs) @ rest) (insert h visited) (leaf_txs (ns @ [n]))"
  using assms
  by (subst transactions_loop.simps) (auto simp add: node_children_Inr leaf_txs_def leaf_tx_def)

context node_store
begin

lemma transactions_loop_complete:
  assumes "complete_tree get root" and "worklist get root stack visited"
    and leaves: "\<And>h n. reach get root h \<Longrightarrow> get h = oret n \<Longrightarrow> \<not> is_inner (node_type n) \<Longrightarrow>
      \<exists>t. parse_tx_leaf (node_content n) = Inr t"
  shows "nodes_of get visited ns \<Longrightarrow>
    \<exists>ms. transactions_loop get stack visited (leaf_txs ns) = oret (leaf_txs ms) \<and>
      nodes_of get (Collect (reach get root)) ms"
  using assms(1,2)
proof (induction stack visited arbitrary: ns rule: worklist_induct)
  case (empty visited)
  then show ?case using worklist_done [OF _ assms(1)] by auto
next
  case (skip h rest visited)
  then show ?case by simp
next
  case (visit h rest visited n cs)
  have "reach get root h" using visit.hyps(1) by (simp add: worklist_def)
  with visit leaves show ?case by (simp add: transactions_loop_visit nodes_of_snoc)
qed

end

lemma leaf_tx_item: "wf_leaf t \<Longrightarrow> leaf_tx (item_node (tx_item H t)) = t"
  by (simp add: leaf_tx_def tx_item_def Let_def parse_tx_leaf_content)

lemma tx_item_leaf [simp]: "\<not> is_inner (node_type (item_node (tx_item H t)))"
  by (simp add: tx_item_def Let_def)

lemma inner_of_inner [simp]: "is_inner (node_type (inner_of H hs))"
  by (simp add: inner_of_def)

lemma build_tx_tree_leaf:
  assumes "build_tx_tree H txns = Inr (root, nodes)" and "txns \<noteq> []" and "n \<in> set nodes"
    and "\<not> is_inner (node_type n)"
  shows "\<exists>t \<in> set txns. n = item_node (tx_item H t)"
  using build_tx_tree_node [OF assms(1-3)] assms(4) inner_of_inner by metis

lemma build_tx_tree_complete:
  assumes "build_tx_tree H txns = Inr (root, nodes)" and "txns \<noteq> []" and "stored get nodes"
  shows "complete_tree get root"
  unfolding complete_tree_def
proof (intro allI impI)
  fix h assume "reach get root h"
  then obtain n where n: "n \<in> set nodes" "h = node_hash n"
    using build_tx_tree_reach [OF assms] by blast
  have "\<exists>cs. node_children n = Inr cs"
    using build_tx_tree_node [OF assms(1,2) n(1)] node_children_inner_of
    by (metis node_children_def tx_item_leaf)
  with n assms(3) show "\<exists>n cs. get h = oret n \<and> node_children n = Inr cs" by (auto simp add: stored_def)
qed

text \<open>The leaves among the nodes of the tree are the records.\<close>

lemma set_leaf_txs:
  assumes "build_tx_tree H txns = Inr (root, nodes)" and "txns \<noteq> []" and "list_all wf_leaf txns"
  shows "set (leaf_txs nodes) = set txns"
proof
  have leaf: "leaf_tx (item_node (tx_item H t)) = t" if "t \<in> set txns" for t
    using assms(3) that by (auto simp add: list_all_iff leaf_tx_item)
  show "set (leaf_txs nodes) \<subseteq> set txns"
    using build_tx_tree_node [OF assms(1,2)] leaf by (fastforce simp add: leaf_txs_def)
  show "set txns \<subseteq> set (leaf_txs nodes)"
  proof
    fix t assume t: "t \<in> set txns"
    have "item_node (tx_item H t) \<in> set nodes"
      using assms(1,2) t by (auto simp add: build_tx_tree_level rbind_eq_Inr)
    with leaf [OF t] show "t \<in> set (leaf_txs nodes)" by (force simp add: leaf_txs_def)
  qed
qed

lemma sort_key_same_set:
  fixes f :: "'a \<Rightarrow> 'b::linorder"
  assumes "set xs = set ys" and "distinct xs" and "distinct (map f ys)"
  shows "sort_key f xs = sort_key f ys"
  by (rule map_sorted_distinct_set_unique [of f])
    (use assms in \<open>auto simp add: distinct_map\<close>)

lemma distinct_leaf_txs:
  assumes "build_tx_tree H txns = Inr (root, nodes)" and "txns \<noteq> []" and "list_all wf_leaf txns"
    and "distinct ns" and "set ns \<subseteq> set nodes"
  shows "distinct (leaf_txs ns)"
proof -
  have "inj_on leaf_tx {n \<in> set ns. \<not> is_inner (node_type n)}"
  proof (rule inj_onI)
    fix n m
    assume n: "n \<in> {n \<in> set ns. \<not> is_inner (node_type n)}" and m: "m \<in> {n \<in> set ns. \<not> is_inner (node_type n)}"
      and eq: "leaf_tx n = leaf_tx m"
    have "\<exists>t. wf_leaf t \<and> k = item_node (tx_item H t)" if "k \<in> set ns" "\<not> is_inner (node_type k)" for k
      using build_tx_tree_leaf [OF assms(1,2), of k] that assms(3,5) by (auto simp add: list_all_iff)
    with n m obtain t u where "wf_leaf t" "n = item_node (tx_item H t)" "wf_leaf u" "m = item_node (tx_item H u)"
      by blast
    with eq show "n = m" by (simp add: leaf_tx_item)
  qed
  with assms(4) show ?thesis by (simp add: leaf_txs_def distinct_map)
qed

context node_store
begin

lemma collect_transactions_built:
  assumes "build_tx_tree H txns = Inr (root, nodes)" and "stored get nodes" and "list_all wf_leaf txns"
  shows "collect_transactions get root = oret (sort_key tx_hash txns)"
proof (cases "txns = []")
  case True
  with assms(1) show ?thesis by (auto simp add: build_tx_tree_def collect_transactions_def)
next
  case False
  note tree = assms(1) False
  have root: "root \<noteq> 0" using build_tx_tree_nodes(2) [OF tree] assms(2) by (auto simp add: stored_def)
  have leaves: "\<exists>t. parse_tx_leaf (node_content n) = Inr t"
    if "reach get root h" "get h = oret n" "\<not> is_inner (node_type n)" for h n
  proof -
    from that(1) have "h \<in> node_hash ` set nodes"
      using build_tx_tree_reach [OF tree assms(2)] by blast
    with that(2) assms(2) have "n \<in> set nodes" by (auto simp add: stored_def)
    with that(3) obtain t where "t \<in> set txns" "n = item_node (tx_item H t)"
      using build_tx_tree_leaf [OF tree] by blast
    with assms(3) show ?thesis by (auto simp add: tx_item_def Let_def list_all_iff parse_tx_leaf_content)
  qed
  have "nodes_of get {} []" and none: "leaf_txs [] = []" by (simp_all add: nodes_of_def leaf_txs_def)
  then have "\<exists>ms. transactions_loop get [root] {} (leaf_txs []) = oret (leaf_txs ms) \<and>
      nodes_of get (Collect (reach get root)) ms"
    by (intro transactions_loop_complete [OF build_tx_tree_complete [OF tree assms(2)] worklist_start])
      (use leaves in blast)+
  then obtain ms where ms: "transactions_loop get [root] {} [] = oret (leaf_txs ms)"
    "nodes_of get (Collect (reach get root)) ms" unfolding none by blast
  have hashes: "node_hash ` set ms = node_hash ` set nodes" "distinct ms"
    "\<And>n. n \<in> set ms \<Longrightarrow> get (node_hash n) = oret n"
    using ms(2) build_tx_tree_reach [OF tree assms(2)] by (auto simp add: nodes_of_def distinct_map)
  have agree: "n = m" if "n \<in> set ms" "m \<in> set nodes" "node_hash n = node_hash m" for n m
  proof -
    have "get (node_hash m) = oret n" using hashes(3) [OF that(1)] that(3) by simp
    moreover have "get (node_hash m) = oret m" using assms(2) that(2) unfolding stored_def by blast
    ultimately show ?thesis by simp
  qed
  have same: "set ms = set nodes"
  proof (intro equalityI subsetI)
    fix n assume n: "n \<in> set ms"
    then have "node_hash n \<in> node_hash ` set nodes" unfolding hashes(1) [symmetric] by (rule imageI)
    then obtain m where "node_hash n = node_hash m" "m \<in> set nodes" by (rule imageE)
    with n agree show "n \<in> set nodes" by blast
  next
    fix m assume m: "m \<in> set nodes"
    then have "node_hash m \<in> node_hash ` set ms" unfolding hashes(1) by (rule imageI)
    then obtain n where "node_hash m = node_hash n" "n \<in> set ms" by (rule imageE)
    with m agree [of n m] show "m \<in> set ms" by simp
  qed
  have "sort_key tx_hash (leaf_txs ms) = sort_key tx_hash txns"
  proof (rule sort_key_same_set)
    show "set (leaf_txs ms) = set txns"
      using set_leaf_txs [OF tree assms(3)] same by (auto simp add: leaf_txs_def)
    show "distinct (leaf_txs ms)"
      by (rule distinct_leaf_txs [OF tree assms(3) hashes(2)]) (simp add: same)
    show "distinct (map tx_hash txns)" using assms(1) build_tx_tree_total_iff by blast
  qed
  with root ms(1) show ?thesis by (simp add: collect_transactions_def)
qed

end

end
