(* ===== verification/Node_Store.thy ===== *)
theory Node_Store
  imports Nudb_Swap Reader_Diff Reader_Transactions
begin

text \<open>
  Writer and reader together: the nodes the importer encodes and writes to a NuDB store are
  what the reader returns, and the walks over the store give the trees that were written.
\<close>

section \<open>A store of encoded nodes\<close>

definition node_entry :: "shamap_node \<Rightarrow> hash256 \<times> byte list" where
  "node_entry n = (node_hash n, encode_wire_to_value (node_content n) (node_type n))"

text \<open>A store serves \<open>ns\<close> when it returns each of them and nothing else.\<close>

definition serves :: "node_lookup \<Rightarrow> shamap_node list \<Rightarrow> bool" where
  "serves get ns \<longleftrightarrow>
     (\<forall>h. get h = (case node_map ns h of None \<Rightarrow> ofail (NodeNotInStore h) | Some n \<Rightarrow> oret n))"

lemma map_of_node_entries:
  "map_of (map node_entry ns) h =
     map_option (\<lambda>n. encode_wire_to_value (node_content n) (node_type n)) (node_map ns h)"
  by (induction ns) (simp_all add: node_entry_def node_map_def)

lemma get_node_serves:
  assumes "list_all storable ns" and "\<And>h. fetch X s h = Some (Inr (map_of (map node_entry ns) h))"
  shows "serves (get_node X L [s]) ns"
  unfolding serves_def
proof
  fix h
  show "get_node X L [s] h = (case node_map ns h of None \<Rightarrow> ofail (NodeNotInStore h) | Some n \<Rightarrow> oret n)"
  proof (cases "node_map ns h")
    case None
    then show ?thesis by (simp add: get_node_def assms(2) map_of_node_entries)
  next
    case (Some n)
    with node_map_in [OF this] assms(1) have n: "storable n" "node_hash n = h"
      by (auto simp add: list_all_iff)
    have "from_wire_bytes h (to_wire_bytes n) = Inr n" using from_wire_bytes_to_wire [of n] n(2) by simp
    with Some n(1) show ?thesis
      by (simp add: get_node_def assms(2) map_of_node_entries decode_encode_storable)
  qed
qed

lemma node_map_distinct:
  "distinct (map node_hash ns) \<Longrightarrow> n \<in> set ns \<Longrightarrow> node_map ns (node_hash n) = Some n"
  by (induction ns) (auto simp add: node_map_def, metis imageI)

lemma serves_stored:
  "serves get ns \<Longrightarrow> distinct (map node_hash ns) \<Longrightarrow> n \<in> set ns \<Longrightarrow> get (node_hash n) = oret n"
  by (simp add: serves_def node_map_distinct)

lemma written_store_serves:
  assumes "list_all storable ns" and "store_fits (map node_entry ns)" and "store_paths_ok p k"
  shows "\<exists>fs' D key s. write_nudb_store X fs (map node_entry ns) p k = Some fs' \<and> fs' p = Some D \<and>
    fs' k = Some key \<and> nudb_open [(D, key)] = oret [s] \<and> serves (get_node X L [s]) ns"
proof -
  obtain fs' D key s where "write_nudb_store X fs (map node_entry ns) p k = Some fs'" "fs' p = Some D"
    "fs' k = Some key" "shard_open D key = Some (Inr s)"
    "\<forall>h. fetch X s h = Some (Inr (map_of (map node_entry ns) h))"
    using write_nudb_store_serves [OF assms(2,3)] by blast
  moreover from this have "serves (get_node X L [s]) ns" using get_node_serves assms(1) by blast
  ultimately show ?thesis by (auto simp add: nudb_open_def intro!: exI)
qed

section \<open>The transaction tree in a store\<close>

lemma node_preimage_hash: "sha512half H (node_preimage n) = recompute_node_hash H n"
  by (simp add: node_preimage_def recompute_node_hash_def)

lemma tree_node_preimage_inject:
  assumes "build_tx_tree H txns = Inr (root, nodes)" and "txns \<noteq> []"
    and "n \<in> set nodes" and "m \<in> set nodes" and "node_preimage n = node_preimage m"
    and "node_hash n = node_hash m"
  shows "n = m"
  using build_tx_tree_node [OF assms(1-3)] build_tx_tree_node [OF assms(1,2,4)] assms(5,6)
  by (elim disjE bexE exE conjE)
    (auto simp add: node_preimage_def inner_of_def tx_item_def Let_def tx_leaf_content_def
      hash_prefix_tx_node_def hash_prefix_inner_node_def)

lemma built_tree_stored:
  assumes "build_tx_tree H txns = Inr (root, nodes)" and "\<not> hash_clash H nodes nodes"
    and "serves get nodes"
  shows "stored get nodes"
  unfolding stored_def
proof
  fix n assume n: "n \<in> set nodes"
  then have "txns \<noteq> []" using assms(1) by (auto simp add: build_tx_tree_def)
  note tree = assms(1) this
  have nonzero: "node_hash n \<noteq> 0" using assms(2) n unfolding hash_clash_def by blast
  obtain m where m: "node_map nodes (node_hash n) = Some m"
    using n node_map_None [of nodes "node_hash n"] by (cases "node_map nodes (node_hash n)") auto
  then have same: "m \<in> set nodes" "node_hash m = node_hash n" using node_map_in by blast+
  have "recompute_node_hash H k = node_hash k" if "k \<in> set nodes" for k
    using build_tx_tree_nodes(1) [OF tree] that by simp
  then have "sha512half H (node_preimage m) = sha512half H (node_preimage n)"
    using n same by (simp add: node_preimage_hash)
  then have "node_preimage m = node_preimage n"
    using assms(2) n same(1) unfolding hash_clash_def collision_def by blast
  then have "m = n" by (rule tree_node_preimage_inject [OF tree same(1) n _ same(2)])
  with m nonzero assms(3) show "get (node_hash n) = oret n \<and> node_hash n \<noteq> 0"
    by (simp add: serves_def)
qed

lemma built_tree_storable:
  assumes "build_tx_tree H txns = Inr (root, nodes)"
  shows "list_all storable nodes"
proof (cases "txns = []")
  case True
  with assms show ?thesis by (simp add: build_tx_tree_def)
next
  case False
  have "storable (item_node (tx_item H t))" "length hs = 16 \<Longrightarrow> storable (inner_of H hs)" for t hs
    by (simp_all add: storable_def tx_item_def inner_of_def Let_def)
  with build_tx_tree_node [OF assms False] show ?thesis unfolding list_all_iff by blast
qed

lemma single_tx_tree:
  "\<exists>tx_root hs. length hs = 16 \<and>
     build_tx_tree H [t] = Inr (tx_root, [item_node (tx_item H t), inner_of H hs])"
proof -
  obtain tx_root nodes where b: "build_tx_tree H [t] = Inr (tx_root, nodes)"
    using build_tx_tree_total_iff [of H "[t]"] by auto
  then obtain ex where ex: "level_of H [tx_item H t] 0 = Inr (tx_root, ex)" "nodes = item_node (tx_item H t) # ex"
    by (auto simp add: build_tx_tree_level rbind_eq_Inr)
  obtain rs where rs: "length rs = 16"
    "\<And>s. s < 16 \<Longrightarrow> slot_result H 0 (bucket [tx_item H t] 0 s) = Inr (rs ! s)"
    "ex = concat (map snd rs) @ [inner_of H (map fst rs)]"
    using level_of_InrE [OF ex(1)] by blast
  have "snd (rs ! s) = []" if "s < 16" for s
    using rs(2) [OF that] by (auto simp add: bucket_def split: if_splits dest!: sym [of _ "rs ! s"])
  then have "\<forall>r \<in> set rs. snd r = []" using rs(1) by (metis in_set_conv_nth)
  then have "concat (map snd rs) = []" by simp
  with rs(1,3) ex(2) b show ?thesis by (intro exI [of _ tx_root] exI [of _ "map fst rs"]) simp
qed

section \<open>Properties\<close>

text \<open>
  Nodes written to a NuDB store and read back: after writing any list of account leaves,
  transaction leaves and full inner nodes with distinct hashes, opening the two files and
  asking for a hash returns the very node that was written, and the error
  NodeNotInStore for every other hash.
\<close>

theorem written_nodes_are_read_back:
  assumes "list_all storable ns" and "distinct (map node_hash ns)"
    and "store_fits (map node_entry ns)" and "store_paths_ok p k"
  shows "\<exists>fs' D key s. write_nudb_store X fs (map node_entry ns) p k = Some fs' \<and> fs' p = Some D \<and>
    fs' k = Some key \<and> nudb_open [(D, key)] = oret [s] \<and>
    (\<forall>n \<in> set ns. get_node X L [s] (node_hash n) = oret n) \<and>
    (\<forall>h. h \<notin> node_hash ` set ns \<longrightarrow> get_node X L [s] h = ofail (NodeNotInStore h))"
proof -
  obtain fs' D key s where s: "write_nudb_store X fs (map node_entry ns) p k = Some fs'" "fs' p = Some D"
    "fs' k = Some key" "nudb_open [(D, key)] = oret [s]" "serves (get_node X L [s]) ns"
    using written_store_serves [OF assms(1,3,4)] by blast
  then have "\<forall>h. h \<notin> node_hash ` set ns \<longrightarrow> get_node X L [s] h = ofail (NodeNotInStore h)"
    by (auto simp add: serves_def node_map_None [THEN iffD2])
  with s serves_stored [OF s(5) assms(2)] show ?thesis by blast
qed

text \<open>Two small trees that share a leaf, used to show that the hypotheses can hold.\<close>

definition sample_leaf :: "hash256 \<Rightarrow> shamap_node" where
  "sample_leaf h = \<lparr>node_hash = h, node_type = AccountState, node_content = [of_nat (unat h)]\<rparr>"

definition sample_root :: "hash256 \<Rightarrow> hash256 \<Rightarrow> hash256 \<Rightarrow> shamap_node" where
  "sample_root h a b =
     \<lparr>node_hash = h, node_type = Inner, node_content = full_content ([a, b] @ replicate 14 0)\<rparr>"

definition sample_nodes :: "shamap_node list" where
  "sample_nodes = [sample_leaf 1, sample_leaf 2, sample_leaf 3, sample_root 10 1 2, sample_root 11 1 3]"

lemma sample_nodes_ok:
  "list_all storable sample_nodes" "distinct (map node_hash sample_nodes)"
  "store_fits (map node_entry sample_nodes)"
  by (simp_all add: sample_nodes_def sample_leaf_def sample_root_def storable_def store_fits_def
      node_entry_def record_bytes_def encode_wire_to_value_def encode_object_to_value_def
      hash_prefix_inner_node_def)

lemma sample_paths_ok: "store_paths_ok ''a.dat'' ''a.key''"
  by (simp add: store_paths_ok_def tmp_path_def)

lemma written_nodes_are_read_back_witness:
  "\<exists>s. get_node (\<lambda>_ _. 77) (\<lambda>_ _. None) [s] 2 = oret (sample_leaf 2) \<and>
     get_node (\<lambda>_ _. 77) (\<lambda>_ _. None) [s] 5 = ofail (NodeNotInStore 5)"
proof -
  obtain s where "\<forall>n \<in> set sample_nodes. get_node (\<lambda>_ _. 77) (\<lambda>_ _. None) [s] (node_hash n) = oret n"
    "\<forall>h. h \<notin> node_hash ` set sample_nodes \<longrightarrow>
       get_node (\<lambda>_ _. 77) (\<lambda>_ _. None) [s] h = ofail (NodeNotInStore h)"
    using written_nodes_are_read_back [OF sample_nodes_ok sample_paths_ok] by metis
  then show ?thesis
    by (intro exI [of _ s]) (simp add: sample_nodes_def sample_leaf_def sample_root_def)
qed

lemma sample_store: "\<exists>s. serves (get_node (\<lambda>_ _. 77) (\<lambda>_ _. None) [s]) sample_nodes"
  using written_store_serves [OF sample_nodes_ok(1,3) sample_paths_ok] by metis

lemma sample_children:
  "a \<noteq> 0 \<Longrightarrow> b \<noteq> 0 \<Longrightarrow> node_children (sample_root h a b) = Inr [a, b]"
  "node_children (sample_leaf h) = Inr []"
  by (simp_all add: node_children_def sample_root_def sample_leaf_def inner_from_node_def
      from_full_bytes_full_content child_hashes_def map_filter_simps opt_hash_def numeral_eq_Suc)

lemma sample_trees:
  assumes "serves get sample_nodes"
  shows "tree get 10 [sample_leaf 1, sample_leaf 2, sample_root 10 1 2]"
    and "tree get 11 [sample_leaf 1, sample_leaf 3, sample_root 11 1 3]"
proof -
  have "\<forall>n \<in> set sample_nodes. get (node_hash n) = oret n"
    using serves_stored [OF assms sample_nodes_ok(2)] by blast
  then have get: "get 1 = oret (sample_leaf 1)" "get 2 = oret (sample_leaf 2)" "get 3 = oret (sample_leaf 3)"
    "get 10 = oret (sample_root 10 1 2)" "get 11 = oret (sample_root 11 1 3)"
    by (simp_all add: sample_nodes_def sample_leaf_def sample_root_def)
  have leaf: "tree get h [sample_leaf h]" if "get h = oret (sample_leaf h)" "h \<noteq> 0" for h
    using tree_node [of h get "sample_leaf h" "[]" "[]"] that by (simp add: sample_children)
  show "tree get 10 [sample_leaf 1, sample_leaf 2, sample_root 10 1 2]"
    using tree_node [of 10 get "sample_root 10 1 2" "[1, 2]" "[[sample_leaf 1], [sample_leaf 2]]"] get
    by (simp add: leaf sample_children)
  show "tree get 11 [sample_leaf 1, sample_leaf 3, sample_root 11 1 3]"
    using tree_node [of 11 get "sample_root 11 1 3" "[1, 3]" "[[sample_leaf 1], [sample_leaf 3]]"] get
    by (simp add: leaf sample_children)
qed

text \<open>
  C33: The three walks of a complete tree return, and return the same nodes: exactly the
  reachable ones, each once, whether the tree is walked depth first, level by level with any
  number of workers, or with a calibrated number of workers whatever the clock says.
\<close>

theorem reachable_walks_agree:
  assumes "complete_tree (get_node X L shards) root_hash"
  shows "\<exists>ns ms ks. collect_reachable (get_node X L shards) root_hash = oret ns \<and>
    collect_reachable_concurrent (get_node X L shards) root_hash workers = oret ms \<and>
    collect_reachable_adaptive (get_node X L shards) elapsed shared root_hash = oret ks \<and>
    mset ms = mset ns \<and> mset ks = mset ns \<and>
    distinct (map node_hash ns) \<and> node_hash ` set ns = Collect (reach (get_node X L shards) root_hash)"
proof -
  let ?R = "Collect (reach (get_node X L shards) root_hash)"
  obtain ns where ns: "collect_reachable (get_node X L shards) root_hash = oret ns"
    "nodes_of (get_node X L shards) ?R ns"
    using nudb.collect_reachable_complete [OF assms] by blast
  obtain ms where ms: "collect_reachable_concurrent (get_node X L shards) root_hash workers = oret ms"
    "nodes_of (get_node X L shards) ?R ms"
    using nudb.collect_reachable_concurrent_complete [OF assms] by blast
  obtain ks where ks: "collect_reachable_adaptive (get_node X L shards) elapsed shared root_hash = oret ks"
    "nodes_of (get_node X L shards) ?R ks"
    using nudb.collect_reachable_adaptive_complete [OF assms] by blast
  have "distinct (map node_hash ns)" "node_hash ` set ns = ?R" using ns(2) by (simp_all add: nodes_of_def)
  then show ?thesis
    using ns(1) ms(1) ks(1) nodes_of_unique [OF ms(2) ns(2)] nodes_of_unique [OF ks(2) ns(2)]
    by (intro exI [of _ ns] exI [of _ ms] exI [of _ ks] conjI)
qed

lemma reachable_walks_agree_witness:
  "\<exists>s ns. collect_reachable (get_node (\<lambda>_ _. 77) (\<lambda>_ _. None) [s]) 10 = oret ns \<and>
     node_hash ` set ns = {1, 2, 10}"
proof -
  obtain s where s: "serves (get_node (\<lambda>_ _. 77) (\<lambda>_ _. None) [s]) sample_nodes"
    using sample_store by blast
  note tr = sample_trees(1) [OF s]
  have "complete_tree (get_node (\<lambda>_ _. 77) (\<lambda>_ _. None) [s]) 10" by (rule tree_complete [OF tr]) simp
  from reachable_walks_agree [OF this] obtain ns where
    "collect_reachable (get_node (\<lambda>_ _. 77) (\<lambda>_ _. None) [s]) 10 = oret ns"
    "node_hash ` set ns = Collect (reach (get_node (\<lambda>_ _. 77) (\<lambda>_ _. None) [s]) 10)" by blast
  moreover have "node_hash ` set [sample_leaf 1, sample_leaf 2, sample_root 10 1 2] = {1, 2, 10}"
    by (auto simp add: sample_leaf_def sample_root_def)
  ultimately show ?thesis using nudb.tree_reachable [OF tr] by auto
qed

text \<open>
  The calibration always settles on a worker count of its ladder: on a complete tree it
  returns, and never exceeds 4 workers on a disk shared with the system or 32 otherwise,
  whatever the clock measures.
\<close>

theorem calibration_stays_on_ladder:
  assumes "complete_tree (get_node X L shards) root_hash"
  shows "\<exists>k. calibrate_concurrency (get_node X L shards) elapsed shared root_hash = oret k \<and>
    1 \<le> k \<and> k \<le> (if shared then 4 else 32)"
  using calibrate_complete [OF assms, of elapsed "if shared then [1, 2, 4] else [1, 2, 4, 8, 16, 32]"]
  by (auto simp add: calibrate_concurrency_def split: if_splits)

lemma calibration_stays_on_ladder_witness:
  "\<exists>s k. calibrate_concurrency (get_node (\<lambda>_ _. 77) (\<lambda>_ _. None) [s]) (\<lambda>_. 1000) True 10 = oret k \<and> k \<le> 4"
proof -
  obtain s where s: "serves (get_node (\<lambda>_ _. 77) (\<lambda>_ _. None) [s]) sample_nodes"
    using sample_store by blast
  have "complete_tree (get_node (\<lambda>_ _. 77) (\<lambda>_ _. None) [s]) 10"
    by (rule tree_complete [OF sample_trees(1) [OF s]]) simp
  from calibration_stays_on_ladder [OF this, of "\<lambda>_. 1000" True] show ?thesis by auto
qed

text \<open>
  C29: The diff of two state trees: for two complete trees in a store the diff returns, its
  lists are sorted by hash, it adds only nodes of the new tree and deletes only hashes of the
  old one, and removing the deleted hashes from the old state map and then inserting the added
  nodes gives exactly the new state map. The old tree must not hold a node twice.
\<close>

theorem diff_turns_old_state_into_new:
  assumes "tree (get_node X L shards) old os" and "tree (get_node X L shards) new ns"
    and "distinct (map node_hash os)"
  shows "\<exists>d. diff_roots (get_node X L shards) old new = oret d \<and>
    sorted (map node_hash (diff_added d)) \<and> sorted (diff_deleted d) \<and>
    set (diff_added d) \<subseteq> set ns \<and> set (diff_deleted d) \<subseteq> node_hash ` set os \<and>
    (node_map os |` (- set (diff_deleted d))) ++ node_map (diff_added d) = node_map ns"
  by (rule nudb.diff_turns_old_into_new [OF assms])

lemma diff_turns_old_state_into_new_witness:
  "\<exists>s d. diff_roots (get_node (\<lambda>_ _. 77) (\<lambda>_ _. None) [s]) 10 11 = oret d \<and>
     (node_map [sample_leaf 1, sample_leaf 2, sample_root 10 1 2] |` (- set (diff_deleted d)))
       ++ node_map (diff_added d) = node_map [sample_leaf 1, sample_leaf 3, sample_root 11 1 3]"
proof -
  obtain s where s: "serves (get_node (\<lambda>_ _. 77) (\<lambda>_ _. None) [s]) sample_nodes"
    using sample_store by blast
  have "distinct (map node_hash [sample_leaf 1, sample_leaf 2, sample_root 10 1 2])"
    by (simp add: sample_leaf_def sample_root_def)
  from diff_turns_old_state_into_new [OF sample_trees [OF s] this] show ?thesis by blast
qed

text \<open>
  C31: Importer and exporter agree on transactions: the tree built for any records with blobs
  below the length limit, written to a store and opened again, yields through
  collect_transactions exactly the records, sorted by hash, or the tree exhibits a hash
  collision (or a node whose hash is zero).
\<close>

theorem stored_transactions_read_back:
  assumes "build_tx_tree H txns = Inr (tx_root, nodes)" and "list_all wf_leaf txns"
    and "store_fits (map node_entry nodes)" and "store_paths_ok p k"
  shows "hash_clash H nodes nodes \<or>
    (\<exists>fs' D key s. write_nudb_store X fs (map node_entry nodes) p k = Some fs' \<and> fs' p = Some D \<and>
      fs' k = Some key \<and> nudb_open [(D, key)] = oret [s] \<and>
      collect_transactions (get_node X L [s]) tx_root = oret (sort_key tx_hash txns))"
proof (cases "hash_clash H nodes nodes")
  case False
  obtain fs' D key s where s: "write_nudb_store X fs (map node_entry nodes) p k = Some fs'" "fs' p = Some D"
    "fs' k = Some key" "nudb_open [(D, key)] = oret [s]" "serves (get_node X L [s]) nodes"
    using written_store_serves [OF built_tree_storable [OF assms(1)] assms(3,4)] by blast
  have "stored (get_node X L [s]) nodes" by (rule built_tree_stored [OF assms(1) False s(5)])
  from nudb.collect_transactions_built [OF assms(1) this assms(2)] s(1-4) show ?thesis by blast
qed simp

lemma stored_transactions_read_back_witness:
  "\<exists>tx_root nodes. build_tx_tree (\<lambda>b. of_nat (length b)) [sample_tx 1 2] = Inr (tx_root, nodes) \<and>
     (hash_clash (\<lambda>b. of_nat (length b)) nodes nodes \<or>
      (\<exists>s. collect_transactions (get_node (\<lambda>_ _. 77) (\<lambda>_ _. None) [s]) tx_root = oret [sample_tx 1 2]))"
proof -
  let ?H = "\<lambda>b. of_nat (length b)"
  obtain tx_root hs where b: "length hs = 16"
    "build_tx_tree ?H [sample_tx 1 2] = Inr (tx_root, [item_node (tx_item ?H (sample_tx 1 2)), inner_of ?H hs])"
    using single_tx_tree by metis
  have leaf: "list_all wf_leaf [sample_tx 1 2]" by (simp add: wf_leaf_def sample_tx_def vl_limit_def)
  have fits: "store_fits (map node_entry [item_node (tx_item ?H (sample_tx 1 2)), inner_of ?H hs])"
    using b(1) by (simp add: store_fits_def record_bytes_def node_entry_def tx_item_def inner_of_def Let_def
        encode_wire_to_value_def encode_object_to_value_def tx_leaf_content_def write_vl_def sample_tx_def
        hash_prefix_tx_node_def hash_prefix_inner_node_def)
  from stored_transactions_read_back [OF b(2) leaf fits sample_paths_ok, of "\<lambda>_ _. 77" Map.empty "\<lambda>_ _. None"]
  show ?thesis using b(2) by (simp add: sort_key_def) blast
qed

end
