(* ===== verification/Import_Store.thy ===== *)
theory Import_Store
  imports Import_Stream Node_Store
begin

text \<open>
  What an import puts into the store: every node of the chunk, every node of the rebuilt
  transaction trees and, with a transaction database, every ledger header, in the order of
  the replay. The laws a node sink promises are a locale; the NuDB sink and the sink that
  discards everything are its interpretations.
\<close>

section \<open>The contract of a node sink\<close>

locale node_sink_laws =
  fixes ops :: "'s node_sink"
  assumes skip_contained: "ns_contains ops s h \<Longrightarrow> ns_write_node ops s h v = Inr s"
    and contains_written: "ns_write_node ops s h v = Inr s' \<Longrightarrow> ns_contains ops s' k \<longleftrightarrow> k = h \<or> ns_contains ops s k"

interpretation nudb_sink: node_sink_laws "nudb_node_sink X" for X
  by unfold_locales
    (auto simp add: nudb_node_sink_def sink_write_node_def sink_contains_def Let_def split: if_splits prod.splits)

interpretation no_sink: node_sink_laws null_sink
  by unfold_locales (auto simp add: null_sink_def)

definition sink_entry :: "'s node_sink \<Rightarrow> 's \<Rightarrow> hash256 \<times> byte list \<Rightarrow> import_error + 's" where
  "sink_entry ops sink e = ns_write_node ops sink (fst e) (snd e)"

section \<open>The entries of a replay\<close>

definition tree_entries :: "sha512 \<Rightarrow> tx_map \<Rightarrow> (hash256 \<times> byte list) list" where
  "tree_entries H m =
     (case build_tx_tree H (tm_txns m) of Inl _ \<Rightarrow> [] | Inr (_, nodes) \<Rightarrow> map node_entry nodes)"

definition row_input :: "ledger_db_row \<Rightarrow> ledger_hash_input" where
  "row_input row =
     \<lparr>lh_seq = lr_ledger_seq row, lh_drops = lr_total_coins row, lh_parent_hash = lr_prev_hash row,
      lh_tx_hash = lr_trans_hash row, lh_account_hash = lr_account_hash row,
      lh_parent_close_time = lr_prev_closing_time row, lh_close_time = lr_closing_time row,
      lh_close_time_resolution = lr_close_time_resolution row, lh_close_flags = lr_close_flags row\<rparr>"

definition header_entry :: "ledger_db_row \<Rightarrow> hash256 \<times> byte list" where
  "header_entry row =
     (lr_ledger_hash row, encode_object_to_value notype_ledger (ledger_header_object (row_input row)))"

definition ledger_entries ::
  "sha512 \<Rightarrow> bool \<Rightarrow> (ledger_delta \<times> tx_map) \<times> ledger_db_row \<Rightarrow> (hash256 \<times> byte list) list" where
  "ledger_entries H with_db l =
     (case l of ((d, m), row) \<Rightarrow>
        map node_entry (diff_added (ld_diff d)) @ tree_entries H m @ (if with_db then [header_entry row] else []))"

text \<open>All entries, from the checkpoint nodes, its transactions, and the ledgers with their rows.\<close>

definition replay_entries ::
  "sha512 \<Rightarrow> bool \<Rightarrow> shamap_node list \<Rightarrow> tx_map \<Rightarrow> (ledger_delta \<times> tx_map) list \<Rightarrow> ledger_db_row list
     \<Rightarrow> (hash256 \<times> byte list) list" where
  "replay_entries H with_db ns cp ls rows =
     map node_entry ns @ tree_entries H cp @ concat (map (ledger_entries H with_db) (zip ls rows))"

definition chunk_entries :: "sha512 \<Rightarrow> bool \<Rightarrow> chunk \<Rightarrow> ledger_db_row list \<Rightarrow> (hash256 \<times> byte list) list" where
  "chunk_entries H with_db c rows =
     replay_entries H with_db (ck_checkpoint c) (hd (ck_tx_maps c)) (zip (ck_deltas c) (tl (ck_tx_maps c))) rows"

lemma header_entry_row:
  "header_entry (ledger_row m parent tx_root account_root) =
     (tm_ledger_hash m, encode_object_to_value notype_ledger
        (ledger_header_object (hash_input m parent tx_root account_root)))"
  by (simp add: header_entry_def ledger_row_def row_input_def hash_input_def)

lemma txdb_write_Inr: "txdb_write S txdb m = Inr txdb' \<Longrightarrow> txdb' = None \<longleftrightarrow> txdb = None"
  by (auto simp add: txdb_write_def rbind_eq_Inr split: option.splits)

context node_sink_laws begin

lemma sink_node_entry: "sink_node ops s n = sink_entry ops s (node_entry n)"
  by (simp add: sink_node_def sink_entry_def node_entry_def skip_contained)

lemma sink_nodes: "rfold (sink_node ops) s ns = rfold (sink_entry ops) s (map node_entry ns)"
  by (induction ns arbitrary: s) (simp_all add: sink_node_entry)

lemma contains_entry: "sink_entry ops s e = Inr u \<Longrightarrow> ns_contains ops u h \<longleftrightarrow> h = fst e \<or> ns_contains ops s h"
  by (simp add: sink_entry_def contains_written)

lemma contains_entries:
  "rfold (sink_entry ops) s es = Inr s' \<Longrightarrow> ns_contains ops s' h \<longleftrightarrow> h \<in> fst ` set es \<or> ns_contains ops s h"
proof (induction es arbitrary: s)
  case (Cons e es)
  then obtain u where "sink_entry ops s e = Inr u" "rfold (sink_entry ops) u es = Inr s'"
    by (auto simp add: rbind_eq_Inr)
  with Cons.IH [of u] contains_entry [of s e u] show ?case by auto
qed simp

lemma ledger_outputs:
  assumes "write_ledger_outputs S ops sink txdb m parent tx_root account_root = Inr (sink', txdb')"
  shows "rfold (sink_entry ops) sink
      (if txdb \<noteq> None then [header_entry (ledger_row m parent tx_root account_root)] else []) = Inr sink'"
    and "txdb' = None \<longleftrightarrow> txdb = None"
  using assms
  by (auto simp add: write_ledger_outputs_def Let_def rbind_eq_Inr header_entry_row sink_entry_def
      dest: txdb_write_Inr split: if_splits)

lemma replay_step_entries:
  assumes "replay_step H S ops verify rp (d, m) = Inr rp'"
  shows "\<exists>row. rp_rows rp' = rp_rows rp @ [row] \<and>
    rfold (sink_entry ops) (rp_sink rp) (ledger_entries H (rp_txdb rp \<noteq> None) ((d, m), row)) = Inr (rp_sink rp') \<and>
    (rp_txdb rp' = None \<longleftrightarrow> rp_txdb rp = None)"
proof -
  from assms obtain state sink1 new_root tx_root nodes sink2 sink3 txdb where
    delta: "apply_delta ops verify d (rp_state rp, rp_sink rp) = Inr (state, sink1)"
    and tree: "build_tx_tree H (tm_txns m) = Inr (tx_root, nodes)" "rfold (sink_node ops) sink1 nodes = Inr sink2"
    and out: "write_ledger_outputs S ops sink2 (rp_txdb rp) m (rp_prev_hash rp) tx_root new_root = Inr (sink3, txdb)"
    and rp': "rp' = \<lparr>rp_state = state, rp_rows = rp_rows rp @ [ledger_row m (rp_prev_hash rp) tx_root new_root],
       rp_sink = sink3, rp_txdb = txdb, rp_root = new_root, rp_prev_hash = tm_ledger_hash m\<rparr>"
    unfolding replay_step_Inr by blast
  let ?row = "ledger_row m (rp_prev_hash rp) tx_root new_root"
  have "rfold (sink_entry ops) (rp_sink rp) (map node_entry (diff_added (ld_diff d))) = Inr sink1"
    using delta by (simp add: apply_delta_Inr sink_nodes)
  moreover have "rfold (sink_entry ops) sink1 (tree_entries H m) = Inr sink2"
    using tree by (simp add: tree_entries_def sink_nodes)
  ultimately have "rfold (sink_entry ops) (rp_sink rp) (ledger_entries H (rp_txdb rp \<noteq> None) ((d, m), ?row)) = Inr sink3"
    using ledger_outputs(1) [OF out] by (simp only: ledger_entries_def rfold_append rbind_simps prod.case)
  then show ?thesis using ledger_outputs(2) [OF out] by (intro exI [of _ ?row]) (simp add: rp')
qed

lemma replay_steps_entries:
  assumes "rfold (replay_step H S ops verify) rp ls = Inr rp'"
  shows "\<exists>rows. rp_rows rp' = rp_rows rp @ rows \<and> length rows = length ls \<and>
    rfold (sink_entry ops) (rp_sink rp) (concat (map (ledger_entries H (rp_txdb rp \<noteq> None)) (zip ls rows)))
      = Inr (rp_sink rp')"
  using assms
proof (induction ls arbitrary: rp)
  case (Cons l ls)
  obtain d m where l: "l = (d, m)" by (cases l)
  from Cons.prems obtain u where u: "replay_step H S ops verify rp (d, m) = Inr u"
    "rfold (replay_step H S ops verify) u ls = Inr rp'" by (auto simp add: rbind_eq_Inr l)
  obtain row where row: "rp_rows u = rp_rows rp @ [row]"
    "rfold (sink_entry ops) (rp_sink rp) (ledger_entries H (rp_txdb rp \<noteq> None) ((d, m), row)) = Inr (rp_sink u)"
    "rp_txdb u = None \<longleftrightarrow> rp_txdb rp = None"
    by (rule exE [OF replay_step_entries [OF u(1)]]) (elim conjE, rule that)
  obtain rows where rows: "rp_rows rp' = rp_rows u @ rows" "length rows = length ls"
    "rfold (sink_entry ops) (rp_sink u) (concat (map (ledger_entries H (rp_txdb u \<noteq> None)) (zip ls rows)))
      = Inr (rp_sink rp')"
    by (rule exE [OF Cons.IH [OF u(2)]]) (elim conjE, rule that)
  have db: "(rp_txdb u \<noteq> None) = (rp_txdb rp \<noteq> None)" using row(3) by simp
  have "rfold (sink_entry ops) (rp_sink rp)
      (concat (map (ledger_entries H (rp_txdb rp \<noteq> None)) (zip (l # ls) (row # rows)))) = Inr (rp_sink rp')"
    using row(2) rows(3) unfolding db by (simp only: l zip_Cons_Cons list.map concat.simps rfold_append rbind_simps)
  moreover have "rp_rows rp' = rp_rows rp @ row # rows" using row(1) rows(1) by simp
  moreover have "length (row # rows) = length (l # ls)" using rows(2) by simp
  ultimately show ?case by blast
qed simp

lemma replay_parts_entries:
  assumes "replay_parts H S ops verify sink txdb ns cp ls rp"
  shows "length (rp_rows rp) = length ls \<and>
    rfold (sink_entry ops) sink (replay_entries H (txdb \<noteq> None) ns cp ls (rp_rows rp)) = Inr (rp_sink rp)"
proof -
  from assms obtain sink' rp0 where sink': "rfold (sink_node ops) sink ns = Inr sink'"
    and start: "start_replay H S ops (foldl insert_node Map.empty ns) sink' txdb cp = Inr rp0"
    and steps: "rfold (replay_step H S ops verify) rp0 ls = Inr rp" by (auto simp add: replay_parts_def)
  have "rfold (sink_entry ops) sink' (tree_entries H cp) = Inr (rp_sink rp0)" "rp_rows rp0 = []"
    "rp_txdb rp0 = None \<longleftrightarrow> txdb = None"
    using start by (auto simp add: start_replay_Inr tree_entries_def sink_nodes dest: txdb_write_Inr)
  with sink' replay_steps_entries [OF steps] show ?thesis
    by (simp add: replay_entries_def rfold_append sink_nodes)
qed

lemma replay_chunk_entries:
  assumes "replay_chunk H S ops verify c sink txdb = oret rp"
  shows "rfold (sink_entry ops) sink (chunk_entries H (txdb \<noteq> None) c (rp_rows rp)) = Inr (rp_sink rp)"
    and "length (rp_rows rp) = length (ck_deltas c)"
  using assms
  by (auto simp add: replay_chunk_parts chunk_entries_def dest: replay_parts_entries)

end

section \<open>The store an import leaves\<close>

lemma nudb_entries:
  "rfold (sink_entry (nudb_node_sink X)) st es = Inr (sink_write_all X st es)"
  by (induction es arbitrary: st) (auto simp add: sink_entry_def nudb_node_sink_def sink_write_all_def split: prod.splits)

lemma replayed_sink:
  assumes "replay_chunk H S (nudb_node_sink X) verify c st txdb = oret rp"
  shows "rp_sink rp = sink_write_all X st (chunk_entries H (txdb \<noteq> None) c (rp_rows rp))"
  using nudb_sink.replay_chunk_entries(1) [OF assms] by (simp add: nudb_entries)

text \<open>Finishing the sink a replay filled is writing a store with the entries.\<close>

definition import_store ::
  "xxh64 \<Rightarrow> (file_system \<times> nudb_sink) replay \<Rightarrow> string \<Rightarrow> file_system option" where
  "import_store X rp key_path =
     Option.bind (sink_finish X (rp_sink rp) key_path) (\<lambda>st. Some (sink_drop st))"

lemma import_store_entries:
  assumes "replay_chunk H S (nudb_node_sink X) verify c (sink_create fs p) txdb = oret rp"
  shows "import_store X rp k = write_nudb_store X fs (chunk_entries H (txdb \<noteq> None) c (rp_rows rp)) p k"
  by (simp add: import_store_def write_nudb_store_def replayed_sink [OF assms])

end
