(* ===== verification/Import_Verify.thy ===== *)
theory Import_Verify
  imports Import_Store
begin

text \<open>
  What a verified replay establishes: the ledgers chain through their hashes, the
  transactions are authentic, every node hashes to its key, and the live state is a finite
  complete tree under the account root; and what it does not: the completeness walk counts a
  shared child once per parent, does not return on a cycle, and takes a leaf that spells an
  inner node for a leaf.
\<close>

section \<open>The walk over the live state\<close>

definition state_lookup :: "live_state \<Rightarrow> node_lookup" where
  "state_lookup state h = (case state h of None \<Rightarrow> ofail (NodeNotInStore h) | Some n \<Rightarrow> oret n)"

lemma state_lookup_Inr [simp]: "state_lookup state h = Some (Inr n) \<longleftrightarrow> state h = Some n"
  by (simp add: state_lookup_def split: option.splits)

lemma walk_loop_Nil [simp]: "walk_loop state [] r = oret r"
  by (simp add: walk_loop.simps [of state "[]"])

lemma walk_loop_visit:
  "state h = Some n \<Longrightarrow> node_children n = Inr cs \<Longrightarrow>
     walk_loop state (h # rest) r = walk_loop state (rev cs @ rest) (r + 1)"
  by (subst walk_loop.simps) (auto simp add: node_children_Inr)

lemma walk_loop_step:
  assumes "walk_loop state (h # rest) r = oret k"
  obtains n cs where "state h = Some n" "node_children n = Inr cs" "walk_loop state (rev cs @ rest) (r + 1) = oret k"
proof -
  from assms obtain n where n: "state h = Some n"
    by (cases "state h") (simp_all add: walk_loop.simps [of state "h # rest"])
  moreover obtain cs where "node_children n = Inr cs"
    using assms n
    by (cases "is_inner (node_type n)")
      (auto simp add: walk_loop.simps [of state "h # rest"] node_children_def obind_eq_Inr)
  ultimately show ?thesis using assms walk_loop_visit that by metis
qed

text \<open>The walk pushes the trees below its stack and counts their nodes.\<close>

lemma walk_loop_trees:
  assumes "list_all2 (\<lambda>h ns. \<forall>rest r. walk_loop state (h # rest) r = walk_loop state rest (r + length ns)) hs nss"
  shows "walk_loop state (hs @ rest) r = walk_loop state rest (r + length (concat nss))"
  using assms by (induction arbitrary: r) (simp_all add: add.assoc)

lemma walk_loop_tree:
  "tree (state_lookup state) h ns \<Longrightarrow> h \<noteq> 0 \<Longrightarrow>
     walk_loop state (h # rest) r = walk_loop state rest (r + length ns)"
proof (induction arbitrary: rest r rule: tree.induct)
  case (tree_node h n cs nss)
  have "\<forall>c \<in> set cs. c \<noteq> 0" using node_children_nonzero [OF tree_node.hyps(3)] by blast
  then have "list_all2 (\<lambda>h ns. \<forall>rest r. walk_loop state (h # rest) r = walk_loop state rest (r + length ns)) cs nss"
    using tree_node.IH by (auto simp add: list_all2_conv_all_nth)
  then have "list_all2 (\<lambda>h ns. \<forall>rest r. walk_loop state (h # rest) r = walk_loop state rest (r + length ns)) (rev cs) (rev nss)"
    by (simp add: list_all2_rev)
  from walk_loop_trees [OF this] have "walk_loop state (rev cs @ rest) (r + 1)
      = walk_loop state rest (r + 1 + length (concat (rev nss)))" .
  moreover have "length (concat (rev nss)) = length (concat nss)"
    by (simp add: length_concat rev_map [symmetric])
  moreover have "walk_loop state (h # rest) r = walk_loop state (rev cs @ rest) (r + 1)"
    using tree_node.hyps by (intro walk_loop_visit) simp_all
  ultimately show ?case by simp
qed simp

definition counts :: "live_state \<Rightarrow> hash256 list \<Rightarrow> nat \<Rightarrow> import_error + nat \<Rightarrow> bool" where
  "counts state stack r z \<longleftrightarrow>
     (\<forall>k. z = Inr k \<longrightarrow> 0 \<notin> set stack \<longrightarrow>
        (\<exists>nss. list_all2 (tree (state_lookup state)) stack nss \<and> k = r + length (concat nss)))"

lemma counts_visit:
  assumes "state h = Some n" and "node_children n = Inr cs" and "counts state (rev cs @ rest) (r + 1) z"
  shows "counts state (h # rest) r z"
  unfolding counts_def
proof (intro allI impI)
  fix k
  assume z: "z = Inr k" and nz: "0 \<notin> set (h # rest)"
  have "0 \<notin> set (rev cs @ rest)" using node_children_nonzero [OF assms(2)] nz by auto
  then obtain mss where ms: "list_all2 (tree (state_lookup state)) (rev cs @ rest) mss"
    "k = r + 1 + length (concat mss)" using assms(3) z unfolding counts_def by blast
  then obtain ass bss where ab: "mss = ass @ bss" "list_all2 (tree (state_lookup state)) (rev cs) ass"
    "list_all2 (tree (state_lookup state)) rest bss" by (auto simp add: list_all2_append1)
  have "list_all2 (tree (state_lookup state)) cs (rev ass)"
    using ab(2) list_all2_rev [of "tree (state_lookup state)" cs "rev ass"] by simp
  then have "tree (state_lookup state) h (concat (rev ass) @ [n])"
    using assms(1,2) nz by (intro tree_node) simp_all
  moreover have "length (concat (rev ass)) = length (concat ass)"
    by (simp add: length_concat rev_map [symmetric])
  ultimately show "\<exists>nss. list_all2 (tree (state_lookup state)) (h # rest) nss \<and> k = r + length (concat nss)"
    using ab ms(2) by (intro exI [of _ "(concat (rev ass) @ [n]) # bss"]) simp
qed

lemma walk_loop_counts: "walk_loop state stack r = Some z \<Longrightarrow> counts state stack r z"
proof (rule walk_loop.raw_induct [of counts state stack r z])
  fix f state stack r z
  assume IH: "\<And>state stack r z. f state stack r = Some z \<Longrightarrow> counts state stack r z"
    and body: "(case stack of [] \<Rightarrow> oret r
        | h # rest \<Rightarrow>
            (case state h of None \<Rightarrow> ofail (NodeMissing h)
             | Some node \<Rightarrow>
                 if is_inner (node_type node)
                 then obind (olift BadInnerNode (inner_from_node node))
                        (\<lambda>inner. f state (rev (child_hashes inner) @ rest) (r + 1))
                 else f state rest (r + 1))) = Some z"
  show "counts state stack r z"
  proof (cases stack)
    case Nil
    with body show ?thesis by (auto simp add: counts_def)
  next
    case (Cons h rest)
    show ?thesis
    proof (cases "state h")
      case None
      with body Cons show ?thesis by (auto simp add: counts_def)
    next
      case (Some n)
      show ?thesis
      proof (cases "node_children n")
        case (Inl e)
        with body Cons Some have "\<exists>e. z = Inl e"
          by (auto simp add: node_children_def rbind_eq_Inl split: if_splits)
        then show ?thesis by (auto simp add: counts_def)
      next
        case (Inr cs)
        with body Cons Some have "f state (rev cs @ rest) (r + 1) = Some z"
          by (auto simp add: node_children_Inr)
        from counts_visit [OF Some Inr IH [OF this]] show ?thesis unfolding Cons .
      qed
    qed
  qed
qed

text \<open>
  The walk returns a count exactly when the tree is finite and complete, and the count is the
  number of nodes of the tree unfolded.
\<close>

lemma walk_complete_iff:
  assumes "root \<noteq> 0"
  shows "walk_complete root state = oret k \<longleftrightarrow> (\<exists>ns. tree (state_lookup state) root ns \<and> k = length ns)"
proof
  assume "walk_complete root state = oret k"
  from walk_loop_counts [OF this [unfolded walk_complete_def]] assms
  show "\<exists>ns. tree (state_lookup state) root ns \<and> k = length ns"
    by (auto simp add: counts_def list_all2_Cons1)
next
  assume "\<exists>ns. tree (state_lookup state) root ns \<and> k = length ns"
  then show "walk_complete root state = oret k"
    using walk_loop_tree [OF _ assms, of state _ "[]" 0] by (auto simp add: walk_complete_def)
qed

lemma check_tree_complete_iff:
  assumes "root \<noteq> 0"
  shows "check_tree_complete root state = oret () \<longleftrightarrow>
    (\<exists>ns. tree (state_lookup state) root ns \<and> length ns = card (dom state))"
  by (auto simp add: check_tree_complete_def obind_eq_Inr walk_complete_iff [OF assms])

lemma tree_checks:
  "tree (state_lookup state) root ns \<Longrightarrow> root \<noteq> 0 \<Longrightarrow> length ns = card (dom state) \<Longrightarrow>
     check_tree_complete root state = oret ()"
  by (subst check_tree_complete_iff) auto

section \<open>A verified ledger\<close>

definition authentic :: "sha512 \<Rightarrow> tx_map \<Rightarrow> bool" where
  "authentic H m \<longleftrightarrow> (\<forall>tx \<in> set (tm_txns m). tx_hash tx = calculate_tx_id H (tx_blob tx))"

text \<open>The LedgerHash of \<open>m\<close> is the hash of its header with parent \<open>p\<close> and the rebuilt transaction root.\<close>

definition chained :: "sha512 \<Rightarrow> hash256 \<Rightarrow> tx_map \<Rightarrow> bool" where
  "chained H parent m \<longleftrightarrow>
     (\<exists>tx_root nodes. build_tx_tree H (tm_txns m) = Inr (tx_root, nodes) \<and>
        tm_ledger_hash m = calculate_ledger_hash H (hash_input m parent tx_root (tm_account_hash m)))"

definition self_consistent :: "sha512 \<Rightarrow> shamap_node list \<Rightarrow> bool" where
  "self_consistent H ns \<longleftrightarrow> (\<forall>n \<in> set ns. recompute_node_hash H n = node_hash n)"

definition state_sound :: "sha512 \<Rightarrow> live_state \<Rightarrow> bool" where
  "state_sound H state \<longleftrightarrow> (\<forall>h n. state h = Some n \<longrightarrow> node_hash n = h \<and> recompute_node_hash H n = h)"

lemma verify_txns_Inr: "verify_txns_authentic H m = Inr u \<longleftrightarrow> authentic H m"
  unfolding verify_txns_authentic_def Let_def rfold_ensure authentic_def by (simp add: eq_commute)

lemma verify_ledger_Inr:
  "verify_ledger H m added new_root tx_root parent = Inr u \<longleftrightarrow>
     authentic H m \<and> self_consistent H added \<and> new_root = tm_account_hash m \<and>
     tm_ledger_hash m = calculate_ledger_hash H (hash_input m parent tx_root new_root)"
proof -
  have "rlift e (verify_state_nodes H added) = Inr v \<longleftrightarrow> self_consistent H added" for e :: "hash256 \<Rightarrow> import_error" and v
    by (simp add: self_consistent_def)
  then show ?thesis
    by (cases "new_root = tm_account_hash m") (auto simp add: verify_ledger_def rbind_eq_Inr verify_txns_Inr Let_def)
qed

lemma check_added_children_Inr:
  "check_added_children seq added deleted state = Inr u \<longleftrightarrow>
     (\<forall>n \<in> set added. is_inner (node_type n) \<longrightarrow>
        (\<exists>cs. node_children n = Inr cs \<and> (\<forall>c \<in> set cs. state c \<noteq> None)))"
proof -
  have child: "rfold (check_child seq deleted state h) () cs = Inr v \<longleftrightarrow> (\<forall>c \<in> set cs. state c \<noteq> None)" for h cs v
    by (induction cs) (auto simp add: check_child_def rbind_eq_Inr)
  show ?thesis unfolding check_added_children_def
    by (induction added) (auto simp add: rbind_eq_Inr child node_children_def)
qed

lemma insert_nodes_sound:
  "state_sound H state \<Longrightarrow> self_consistent H ns \<Longrightarrow> state_sound H (foldl insert_node state ns)"
proof (induction ns arbitrary: state)
  case (Cons n ns)
  have "state_sound H (insert_node state n)" "self_consistent H ns"
    using Cons.prems by (auto simp add: state_sound_def self_consistent_def insert_node_def)
  then show ?case using Cons.IH by simp
qed simp

lemma remove_hashes_sound: "state_sound H state \<Longrightarrow> state_sound H (foldl remove_hash state hs)"
proof (induction hs arbitrary: state)
  case (Cons h hs)
  have "state_sound H (remove_hash state h)"
    using Cons.prems by (simp add: state_sound_def remove_hash_def)
  then show ?case using Cons.IH by simp
qed simp

lemma verified_step:
  assumes "replay_step H S ops True rp (d, m) = Inr rp'"
  shows "tm_ledger_seq m = ld_ledger_seq d" "authentic H m" "chained H (rp_prev_hash rp) m"
    "rp_root rp' = tm_account_hash m" "rp_prev_hash rp' = tm_ledger_hash m"
    "state_sound H (rp_state rp) \<Longrightarrow> state_sound H (rp_state rp')"
    "self_consistent H (diff_added (ld_diff d))"
proof -
  from assms obtain state sink1 new_root tx_root nodes sink2 sink3 txdb where
    delta: "apply_delta ops True d (rp_state rp, rp_sink rp) = Inr (state, sink1)"
    and seq: "tm_ledger_seq m = ld_ledger_seq d"
    and tree: "build_tx_tree H (tm_txns m) = Inr (tx_root, nodes)"
    and ver: "verify_ledger H m (diff_added (ld_diff d)) new_root tx_root (rp_prev_hash rp) = Inr ()"
    and rp': "rp' = \<lparr>rp_state = state, rp_rows = rp_rows rp @ [ledger_row m (rp_prev_hash rp) tx_root new_root],
       rp_sink = sink3, rp_txdb = txdb, rp_root = new_root, rp_prev_hash = tm_ledger_hash m\<rparr>"
    unfolding replay_step_Inr by blast
  note v = ver [unfolded verify_ledger_Inr]
  show "tm_ledger_seq m = ld_ledger_seq d" by (rule seq)
  show "authentic H m" "chained H (rp_prev_hash rp) m" using v tree by (auto simp add: chained_def)
  show "self_consistent H (diff_added (ld_diff d))" using v by blast
  show "rp_root rp' = tm_account_hash m" "rp_prev_hash rp' = tm_ledger_hash m" using v by (simp_all add: rp')
  assume "state_sound H (rp_state rp)"
  then have "state_sound H state"
    using delta v by (simp add: apply_delta_Inr insert_nodes_sound remove_hashes_sound)
  then show "state_sound H (rp_state rp')" by (simp add: rp')
qed

definition ledgers_chain :: "sha512 \<Rightarrow> tx_map \<Rightarrow> (ledger_delta \<times> tx_map) list \<Rightarrow> bool" where
  "ledgers_chain H cp ls \<longleftrightarrow>
     (\<forall>i < length ls. let m = snd (ls ! i) in
        tm_ledger_seq m = ld_ledger_seq (fst (ls ! i)) \<and> authentic H m \<and>
        chained H (tm_ledger_hash ((cp # map snd ls) ! i)) m)"

lemma ledgers_chain_Cons:
  "ledgers_chain H cp ((d, m) # ls) \<longleftrightarrow>
     tm_ledger_seq m = ld_ledger_seq d \<and> authentic H m \<and> chained H (tm_ledger_hash cp) m \<and> ledgers_chain H m ls"
  by (auto simp add: ledgers_chain_def Let_def less_Suc_eq_0_disj all_conj_distrib)

lemma verified_steps:
  assumes "rfold (replay_step H S ops True) rp ls = Inr rp'"
    and "rp_prev_hash rp = tm_ledger_hash cp" and "rp_root rp = tm_account_hash cp"
  shows "ledgers_chain H cp ls \<and> rp_root rp' = tm_account_hash (last (cp # map snd ls)) \<and>
    rp_prev_hash rp' = tm_ledger_hash (last (cp # map snd ls)) \<and>
    (state_sound H (rp_state rp) \<longrightarrow> state_sound H (rp_state rp')) \<and>
    (\<forall>l \<in> set ls. self_consistent H (diff_added (ld_diff (fst l))))"
  using assms
proof (induction ls arbitrary: rp cp)
  case Nil
  then show ?case by (simp add: ledgers_chain_def)
next
  case (Cons l ls)
  obtain d m where l: "l = (d, m)" by (cases l)
  from Cons.prems(1) obtain u where u: "replay_step H S ops True rp (d, m) = Inr u"
    "rfold (replay_step H S ops True) u ls = Inr rp'" by (auto simp add: rbind_eq_Inr l)
  note v = verified_step [OF u(1)]
  from Cons.IH [OF u(2) v(5,4)] v Cons.prems(2) show ?case by (auto simp add: l ledgers_chain_Cons)
qed

lemma verified_parts:
  assumes "replay_parts H S ops True sink txdb ns cp ls rp"
  shows "authentic H cp" "self_consistent H ns" "ledgers_chain H cp ls"
    "rp_root rp = tm_account_hash (last (cp # map snd ls))"
    "rp_prev_hash rp = tm_ledger_hash (last (cp # map snd ls))"
    "state_sound H (rp_state rp)" "check_tree_complete (rp_root rp) (rp_state rp) = oret ()"
    "\<forall>l \<in> set ls. self_consistent H (diff_added (ld_diff (fst l)))"
proof -
  from assms obtain sink' rp0 where
    ver: "verify_txns_authentic H cp = Inr ()" "\<forall>n \<in> set ns. recompute_node_hash H n = node_hash n"
    and start: "start_replay H S ops (foldl insert_node Map.empty ns) sink' txdb cp = Inr rp0"
    and steps: "rfold (replay_step H S ops True) rp0 ls = Inr rp"
    and fin: "check_tree_complete (rp_root rp) (rp_state rp) = oret ()" by (auto simp add: replay_parts_def)
  show "authentic H cp" "self_consistent H ns" using ver by (simp_all add: verify_txns_Inr self_consistent_def)
  have "state_sound H Map.empty" by (simp add: state_sound_def)
  then have "state_sound H (rp_state rp0)" "rp_prev_hash rp0 = tm_ledger_hash cp" "rp_root rp0 = tm_account_hash cp"
    using start insert_nodes_sound [of H Map.empty ns] \<open>self_consistent H ns\<close> by (auto simp add: start_replay_Inr)
  with verified_steps [OF steps, of cp]
  show "ledgers_chain H cp ls" "rp_root rp = tm_account_hash (last (cp # map snd ls))"
    "rp_prev_hash rp = tm_ledger_hash (last (cp # map snd ls))" "state_sound H (rp_state rp)"
    "\<forall>l \<in> set ls. self_consistent H (diff_added (ld_diff (fst l)))" by blast+
  show "check_tree_complete (rp_root rp) (rp_state rp) = oret ()" by (rule fin)
qed

text \<open>The ledgers a replay of a chunk goes through.\<close>

definition chunk_ledgers :: "chunk \<Rightarrow> (ledger_delta \<times> tx_map) list" where
  "chunk_ledgers c = zip (ck_deltas c) (tl (ck_tx_maps c))"

definition last_ledger :: "chunk \<Rightarrow> tx_map" where
  "last_ledger c = last (hd (ck_tx_maps c) # map snd (chunk_ledgers c))"

lemma verified_chunk:
  assumes "replay_chunk H S ops True c sink txdb = oret rp"
  shows "length (ck_deltas c) < length (ck_tx_maps c)" "authentic H (hd (ck_tx_maps c))"
    "self_consistent H (ck_checkpoint c)" "ledgers_chain H (hd (ck_tx_maps c)) (chunk_ledgers c)"
    "rp_root rp = tm_account_hash (last_ledger c)" "rp_prev_hash rp = tm_ledger_hash (last_ledger c)"
    "state_sound H (rp_state rp)" "check_tree_complete (rp_root rp) (rp_state rp) = oret ()"
    "\<forall>d \<in> set (ck_deltas c). self_consistent H (diff_added (ld_diff d))"
proof -
  from assms obtain cp ms where ms: "ck_tx_maps c = cp # ms" "length (ck_deltas c) \<le> length ms"
    and parts: "replay_parts H S ops True sink txdb (ck_checkpoint c) cp (zip (ck_deltas c) ms) rp"
    by (auto simp add: replay_chunk_parts)
  show "length (ck_deltas c) < length (ck_tx_maps c)" using ms by simp
  show "authentic H (hd (ck_tx_maps c))" "self_consistent H (ck_checkpoint c)"
    "ledgers_chain H (hd (ck_tx_maps c)) (chunk_ledgers c)" "rp_root rp = tm_account_hash (last_ledger c)"
    "rp_prev_hash rp = tm_ledger_hash (last_ledger c)" "state_sound H (rp_state rp)"
    "check_tree_complete (rp_root rp) (rp_state rp) = oret ()"
    using verified_parts [OF parts] ms(1) by (simp_all add: last_ledger_def chunk_ledgers_def)
  have "set (ck_deltas c) = fst ` set (zip (ck_deltas c) ms)"
    using ms(2) by (metis map_fst_zip_take min.absorb1 set_map take_all_iff order_refl)
  with verified_parts(8) [OF parts] show "\<forall>d \<in> set (ck_deltas c). self_consistent H (diff_added (ld_diff d))"
    by simp
qed

lemma tree_nodes_held:
  "tree (state_lookup state) h ns \<Longrightarrow> state_sound H state \<Longrightarrow> n \<in> set ns \<Longrightarrow> state (node_hash n) = Some n"
proof (induction rule: tree.induct)
  case (tree_node h m cs nss)
  show ?case
  proof (cases "n = m")
    case True
    with tree_node.hyps(2) tree_node.prems(1) show ?thesis by (auto simp add: state_sound_def)
  next
    case False
    with tree_node.prems obtain ms where "ms \<in> set nss" "n \<in> set ms" by auto
    moreover from this obtain i where "i < length nss" "nss ! i = ms" unfolding in_set_conv_nth by blast
    ultimately show ?thesis
      using tree_node.IH tree_node.prems(1) by (auto simp add: list_all2_conv_all_nth)
  qed
qed simp

section \<open>One root, one state\<close>

text \<open>A leaf whose content starts like the preimage of an inner node.\<close>

definition disguised :: "shamap_node \<Rightarrow> bool" where
  "disguised n \<longleftrightarrow> \<not> is_inner (node_type n) \<and> take 4 (node_content n) = hash_prefix_inner_node"

lemma preimage_same_node:
  assumes "node_preimage n = node_preimage m" and "\<not> disguised n" and "\<not> disguised m"
    and "node_children n = Inr cs" and "node_children m = Inr ds"
  shows "node_content n = node_content m \<and> cs = ds"
proof -
  have inner: "is_inner (node_type n) = is_inner (node_type m)"
  proof (rule ccontr)
    assume "is_inner (node_type n) \<noteq> is_inner (node_type m)"
    with assms(1) have "\<exists>k \<in> {n, m}. \<not> is_inner (node_type k) \<and> (\<exists>c. node_content k = hash_prefix_inner_node @ c)"
      by (auto simp add: node_preimage_def split: if_splits) (metis | force)+
    then have "disguised n \<or> disguised m" by (auto simp add: disguised_def hash_prefix_inner_node_def)
    with assms(2,3) show False by blast
  qed
  then have same: "node_content n = node_content m"
    using assms(1) by (simp add: node_preimage_def split: if_splits)
  have "512 mod 33 = (17::nat)" by simp
  then have "length (node_content n) \<noteq> 512 \<or> length (node_content n) mod 33 \<noteq> 0" by presburger
  with same inner assms(4,5) have "cs = ds"
    by (cases "node_type n"; cases "node_type m")
      (auto simp add: node_children_def inner_from_node_def from_full_bytes_def from_compressed_bytes_def
        split: if_splits)
  with same show ?thesis by blast
qed

text \<open>Two complete hash-consistent trees under one hash have the same contents or show a collision.\<close>

lemma same_root_same_tree:
  assumes "tree (state_lookup s) h ns" and "tree (state_lookup t) h ms"
    and "state_sound H s" and "state_sound H t"
    and "\<forall>n \<in> set ns \<union> set ms. \<not> disguised n"
  shows "map node_content ns = map node_content ms \<or>
    (\<exists>n \<in> set ns. \<exists>m \<in> set ms. collision H (node_preimage n) (node_preimage m))"
  using assms
proof (induction arbitrary: ms rule: tree.induct)
  case (tree_node h n cs nss)
  from treeE [OF tree_node.prems(1) tree_node.hyps(1)] obtain m ds mss where
    m: "t h = Some m" "node_children m = Inr ds" "list_all2 (tree (state_lookup t)) ds mss" "ms = concat mss @ [m]"
    by auto
  have n: "s h = Some n" using tree_node.hyps(2) by simp
  have "sha512half H (node_preimage n) = sha512half H (node_preimage m)"
    using tree_node.prems(2,3) n m(1) by (auto simp add: state_sound_def node_preimage_hash)
  then consider "collision H (node_preimage n) (node_preimage m)" | "node_preimage n = node_preimage m"
    unfolding collision_def by blast
  then show ?case
  proof cases
    case 1
    then show ?thesis using m(4) by auto
  next
    case 2
    have same: "node_content n = node_content m" "cs = ds"
      using preimage_same_node [OF 2 _ _ tree_node.hyps(3) m(2)] tree_node.prems(4) m(4) by auto
    have len: "length nss = length cs" "length mss = length cs"
      using list_all2_lengthD [OF tree_node.IH] list_all2_lengthD [OF m(3)] same(2) by simp_all
    have sub: "map node_content (nss ! i) = map node_content (mss ! i) \<or>
        (\<exists>n \<in> set (nss ! i). \<exists>m \<in> set (mss ! i). collision H (node_preimage n) (node_preimage m))"
      if i: "i < length cs" for i
    proof -
      have "set (nss ! i) \<subseteq> set (concat nss)" "set (mss ! i) \<subseteq> set (concat mss)"
        using len i nth_mem [of i nss] nth_mem [of i mss] by (auto simp del: nth_mem)
      then have "\<forall>n \<in> set (nss ! i) \<union> set (mss ! i). \<not> disguised n"
        using tree_node.prems(4) m(4) by auto
      moreover have "tree (state_lookup t) (cs ! i) (mss ! i)" using list_all2_nthD [OF m(3)] i same(2) by simp
      ultimately show ?thesis
        using list_all2_nthD [OF tree_node.IH i] tree_node.prems(2,3) by blast
    qed
    show ?thesis
    proof (cases "\<forall>i < length cs. map node_content (nss ! i) = map node_content (mss ! i)")
      case True
      then have "map (map node_content) nss = map (map node_content) mss"
        using len by (auto intro: nth_equalityI)
      then show ?thesis using same m(4) by (simp add: map_concat)
    next
      case False
      then obtain i where i: "i < length cs" "map node_content (nss ! i) \<noteq> map node_content (mss ! i)" by blast
      then have "nss ! i \<in> set nss" "mss ! i \<in> set mss" using len by simp_all
      with sub [OF i(1)] i(2) m(4) show ?thesis by auto
    qed
  qed
qed simp

end
