(* ===== verification/Import_Correct.thy ===== *)
theory Import_Correct
  imports Import_Verify
begin

text \<open>
  The properties of the importer, with a two-ledger chunk in the manner of the source's
  tests on which their hypotheses hold. Its hash function is the length of the input, shifted
  to the half that sha512half keeps.
\<close>

section \<open>A hash function to compute with\<close>

definition length_sha :: sha512 where
  "length_sha b = of_nat (length b * 2 ^ 256)"

lemma sha512half_div: "sha512half H b = of_nat (unat (H b) div 2 ^ 256)"
proof -
  let ?w = "to_be_bytes (H b)"
  have "unat (H b) = be_nat (take 32 ?w @ drop 32 ?w)" by (simp add: be_nat_to_be_bytes)
  also have "\<dots> = be_nat (take 32 ?w) * 256 ^ 32 + be_nat (drop 32 ?w)"
    unfolding be_nat_append by simp
  finally have "unat (H b) = be_nat (take 32 ?w) * 256 ^ 32 + be_nat (drop 32 ?w)" .
  moreover have "be_nat (drop 32 ?w) < 256 ^ 32" using be_nat_less [of "drop 32 ?w"] by simp
  moreover have "(256::nat) ^ 32 = 2 ^ 256" by simp
  ultimately have "unat (H b) div 2 ^ 256 = be_nat (take 32 ?w)" by simp
  then show ?thesis by (simp add: sha512half_def from_be_bytes_def)
qed

lemma length_sha: "length b < 2 ^ 256 \<Longrightarrow> sha512half length_sha b = of_nat (length b)"
proof -
  assume "length b < 2 ^ 256"
  then have "unat (length_sha b) = length b * 2 ^ 256"
    unfolding length_sha_def unat_of_nat by simp
  then show ?thesis by (simp only: sha512half_div nonzero_mult_div_cancel_right) simp
qed

section \<open>The fixture\<close>

text \<open>A payment whose metadata affects account 11.\<close>

definition touching :: "byte \<Rightarrow> st_field list" where
  "touching i = [Plain 2 28 [0, 0, 0, i], Nested 15 8 [Nested 14 5 [Nested 14 7 [Account 1 (Some 11)]]]]"

lemma touching_summary:
  "summarize_meta (object_bytes (touching i)) = Inr \<lparr>ms_affected_accounts = [11], ms_transaction_index = Some (ucast i)\<rparr>"
proof -
  have skip: "skip_scalar 2 [0, 0, 0, i] = Inr ((), [])"
    by (simp add: skip_scalar_def type_codes skip_bytes_def pbind_def take_bytes_def)
  have wf: "wf_meta (touching i)"
    by (simp add: wf_meta_def touching_def code_ok_def skip is_container_def type_codes field_codes)
  have aff: "affected (touching i) = {11}"
    by (auto simp add: affected_def touching_def type_codes field_codes nonzero_account_def)
  have ex: "list_ex is_affected_nodes (touching i)" by (simp add: touching_def type_codes field_codes)
  have idx: "last_index (touching i) = Some (ucast i)"
    by (simp add: last_index_def touching_def type_codes field_codes from_be_bytes_def be_nat_def unsigned_ucast_eq)
  from summarize_meta_bytes [OF wf] aff ex idx show ?thesis by simp
qed

definition touching_tx :: "nat \<Rightarrow> byte \<Rightarrow> tx_record" where
  "touching_tx k i =
     \<lparr>tx_hash = of_nat (34 + k), tx_blob = payment_blob (replicate k 0), meta_blob = object_bytes (touching i)\<rparr>"

lemma length_payment [simp]: "length (payment_blob rest) = 30 + length rest"
  by (simp add: payment_blob_def field_bytes_def header_def type_codes)

lemma touching_length: "length (object_bytes (touching i)) < 1000"
  by (simp add: touching_def field_bytes_def header_def)

lemma touching_tx_simps [simp]:
  "tx_hash (touching_tx k i) = of_nat (34 + k)" "length (tx_blob (touching_tx k i)) = 30 + k"
  "meta_blob (touching_tx k i) = object_bytes (touching i)"
  by (simp_all add: touching_tx_def)

lemma touching_tx_decodes: "decodes (touching_tx k i)"
  by (simp add: decodes_def touching_tx_def payment_fields touching_summary)


definition fixture_leaf :: "nat \<Rightarrow> shamap_node" where
  "fixture_leaf k = \<lparr>node_hash = of_nat k, node_type = AccountState, node_content = replicate k 1\<rparr>"

definition fixture_root :: "hash256 list \<Rightarrow> shamap_node" where
  "fixture_root hs = \<lparr>node_hash = 516, node_type = Inner, node_content = full_content hs\<rparr>"

definition fixture_ledger :: "u32 \<Rightarrow> hash256 \<Rightarrow> tx_record list \<Rightarrow> tx_map" where
  "fixture_ledger seq h txns =
     \<lparr>tm_ledger_seq = seq, tm_ledger_hash = h, tm_account_hash = 516, tm_drops = 1000,
      tm_parent_close_time = 10, tm_close_time = 20, tm_close_time_resolution = 10,
      tm_close_flags = 0, tm_txns = txns\<rparr>"

definition fixture_chunk :: chunk where
  "fixture_chunk =
     \<lparr>ck_network_id = 1, ck_start_ledger = 100, ck_end_ledger = 101, ck_checkpoint_hash = 7, ck_chunk_hash = 0,
      ck_checkpoint = [fixture_leaf 5, fixture_root (5 # replicate 15 0)],
      ck_deltas = [\<lparr>ld_ledger_seq = 101,
        ld_diff = \<lparr>diff_added = [fixture_leaf 6, fixture_root (6 # replicate 15 0)], diff_deleted = [5, 516]\<rparr>\<rparr>],
      ck_tx_maps = [fixture_ledger 100 7 [],
        fixture_ledger 101 122 [touching_tx 2 0]]\<rparr>"

lemma fixture_children:
  "node_children (fixture_leaf k) = Inr []"
  "length hs = 16 \<Longrightarrow> node_children (fixture_root hs) = Inr (filter (\<lambda>h. h \<noteq> 0) hs)"
proof -
  show "node_children (fixture_leaf k) = Inr []" by (simp add: node_children_def fixture_leaf_def)
  have "List.map_filter (\<lambda>c. c) (map opt_hash hs) = filter (\<lambda>h. h \<noteq> 0) hs" for hs
    by (induction hs) (simp_all add: List.map_filter_def opt_hash_def)
  then show "node_children (fixture_root hs) = Inr (filter (\<lambda>h. h \<noteq> 0) hs)" if "length hs = 16"
    using that by (simp add: node_children_def fixture_root_def inner_from_node_def
        from_full_bytes_full_content child_hashes_def)
qed

lemma fixture_consistent:
  "k < 1000 \<Longrightarrow> recompute_node_hash length_sha (fixture_leaf k) = of_nat k"
  "length hs = 16 \<Longrightarrow> recompute_node_hash length_sha (fixture_root hs) = 516"
  by (simp_all add: recompute_node_hash_def fixture_leaf_def fixture_root_def length_sha hash_prefix_inner_node_def)

lemma fixture_tree:
  assumes "state (of_nat k) = Some (fixture_leaf k)" and "state 516 = Some (fixture_root (of_nat k # replicate 15 0))"
    and "(of_nat k :: hash256) \<noteq> 0"
  shows "tree (state_lookup state) 516 [fixture_leaf k, fixture_root (of_nat k # replicate 15 0)]"
proof -
  have "tree (state_lookup state) (of_nat k) (concat [] @ [fixture_leaf k])"
    by (rule tree_node) (use assms fixture_children in simp_all)
  then have "tree (state_lookup state) 516 (concat [[fixture_leaf k]] @ [fixture_root (of_nat k # replicate 15 0)])"
    by (intro tree_node [where cs = "[of_nat k]"]) (use assms fixture_children(2) in simp_all)
  then show ?thesis by simp
qed

lemma fixture_new_root:
  "referenced_by (fixture_leaf k) = {}"
  "length hs = 16 \<Longrightarrow> referenced_by (fixture_root hs) = set hs - {0}"
proof -
  show "referenced_by (fixture_leaf k) = {}" by (simp add: referenced_by_def fixture_leaf_def)
  assume hs: "length hs = 16"
  then obtain inner where "from_full_bytes (full_content hs) = Inr inner" "child_hashes inner = filter (\<lambda>h. h \<noteq> 0) hs"
    using fixture_children(2) [OF hs] by (auto simp add: node_children_def fixture_root_def inner_from_node_def rbind_eq_Inr)
  then show "referenced_by (fixture_root hs) = set hs - {0}" by (auto simp add: referenced_by_def fixture_root_def)
qed

lemma fixture_hashes [simp]:
  "node_hash (fixture_leaf k) = of_nat k" "node_hash (fixture_root hs) = 516"
  "node_type (fixture_leaf k) = AccountState" "node_type (fixture_root hs) = Inner"
  by (simp_all add: fixture_leaf_def fixture_root_def)

text \<open>No database, or one whose connection is open.\<close>

definition txdb_open :: "txdb_sink option \<Rightarrow> bool" where
  "txdb_open txdb \<longleftrightarrow> (case txdb of None \<Rightarrow> True | Some t \<Rightarrow> td_conn t \<noteq> None)"

lemma txdb_write_open:
  assumes "txdb_open txdb" and "list_all decodes (tm_txns m)"
  shows "\<exists>txdb'. txdb_write S txdb m = Inr txdb' \<and> txdb_open txdb'"
proof (cases txdb)
  case None
  then show ?thesis by (simp add: txdb_write_def txdb_open_def)
next
  case (Some t)
  then have conn: "td_conn t \<noteq> None" using assms(1) by (simp add: txdb_open_def)
  then have "txdb_write_ledger S t m = Inr (wrote S t (map (Pair m) (tm_txns m)))"
    using txdb_transactions_wrote [of S m t "tm_txns m"] assms(2) by (auto simp add: txdb_write_ledger_def)
  with Some conn show ?thesis by (simp add: txdb_write_def txdb_open_def rlift_def)
qed

text \<open>The fixture replays and verifies with every sink that accepts all writes.\<close>

lemma fixture_replays_db:
  assumes total: "\<And>s h v. \<exists>s'. ns_write_node ops s h v = Inr s'" and db: "txdb_open txdb"
  shows "\<exists>rp. replay_chunk length_sha S ops True fixture_chunk sink txdb = oret rp \<and>
    rp_state rp = [6 \<mapsto> fixture_leaf 6, 516 \<mapsto> fixture_root (6 # replicate 15 0)]"
proof -
  let ?r5 = "fixture_root (5 # replicate 15 0)" and ?r6 = "fixture_root (6 # replicate 15 0)"
  let ?cp = "fixture_ledger 100 7 []" and ?tx = "touching_tx 2 0"
  let ?m = "fixture_ledger 101 122 [?tx]"
  let ?d = "\<lparr>ld_ledger_seq = 101, ld_diff = \<lparr>diff_added = [fixture_leaf 6, ?r6], diff_deleted = [5, 516]\<rparr>\<rparr>"
  let ?s0 = "[5 \<mapsto> fixture_leaf 5, 516 \<mapsto> ?r5] :: live_state" and ?s1 = "[6 \<mapsto> fixture_leaf 6, 516 \<mapsto> ?r6] :: live_state"
  have one: "\<exists>s'. sink_node ops s n = Inr s'" for s n using total by (auto simp add: sink_node_def)
  have all: "\<exists>s'. rfold (sink_node ops) s ns = Inr s'" for s ns
  proof (induction ns arbitrary: s)
    case (Cons n ns)
    with one [of s n] show ?case by auto
  qed simp
  obtain sink1 where sink1: "rfold (sink_node ops) sink [fixture_leaf 5, ?r5] = Inr sink1" using all by blast
  obtain sink2 where sink2: "rfold (sink_node ops) sink1 [fixture_leaf 6, ?r6] = Inr sink2" using all by blast
  obtain tx_root nodes where tree: "build_tx_tree length_sha [?tx] = Inr (tx_root, nodes)"
    using single_tx_tree by blast
  obtain sink3 where sink3: "rfold (sink_node ops) sink2 nodes = Inr sink3" using all by blast
  obtain txdb1 where db1: "txdb_write S txdb ?cp = Inr txdb1" "txdb_open txdb1"
    using txdb_write_open [OF db, of ?cp S] by (auto simp add: fixture_ledger_def)
  obtain txdb2 where db2: "txdb_write S txdb1 ?m = Inr txdb2"
    using txdb_write_open [OF db1(2), of ?m S] by (auto simp add: fixture_ledger_def touching_tx_decodes)
  have s0: "foldl insert_node Map.empty [fixture_leaf 5, ?r5] = ?s0" by (simp add: insert_node_def)
  have s1: "foldl insert_node (foldl remove_hash ?s0 [5, 516]) [fixture_leaf 6, ?r6] = ?s1"
    by (simp add: insert_node_def remove_hash_def fun_eq_iff)
  have "tree (state_lookup ?s0) 516 [fixture_leaf 5, ?r5]" using fixture_tree [of ?s0 5] by simp
  then have t0: "check_tree_complete 516 ?s0 = oret ()" by (rule tree_checks) simp_all
  have "tree (state_lookup ?s1) 516 [fixture_leaf 6, ?r6]" using fixture_tree [of ?s1 6] by simp
  then have t1: "check_tree_complete 516 ?s1 = oret ()" by (rule tree_checks) simp_all
  let ?rp1 = "\<lparr>rp_state = ?s0, rp_rows = [], rp_sink = sink1, rp_txdb = txdb1, rp_root = 516, rp_prev_hash = 7\<rparr>"
  have ledger: "tm_ledger_seq ?m = 101" "tm_txns ?m = [?tx]" "tm_ledger_hash ?m = 122"
    by (simp_all add: fixture_ledger_def)
  have start: "start_replay length_sha S ops ?s0 sink1 txdb ?cp = Inr ?rp1"
    using db1(1) by (simp add: start_replay_def build_tx_tree_def) (simp add: fixture_ledger_def build_tx_tree_def)
  have delta: "apply_delta ops True ?d (?s0, sink1) = Inr (?s1, sink2)"
    using sink2 s1 by (simp add: apply_delta_Inr check_added_children_Inr fixture_children)
  have root: "find_new_root [fixture_leaf 6, ?r6] 516 = Inr 516"
    by (simp add: find_new_root_def fixture_new_root)
  have auth: "authentic length_sha ?m"
    by (simp add: authentic_def fixture_ledger_def calculate_tx_id_def length_sha hash_prefix_transaction_id_def)
  have self: "self_consistent length_sha [fixture_leaf 6, ?r6]" "self_consistent length_sha [fixture_leaf 5, ?r5]"
    by (simp_all add: self_consistent_def fixture_consistent)
  have hash: "calculate_ledger_hash length_sha i = 122" for i
    by (simp add: calculate_ledger_hash_def length_sha)
  have "verify_ledger length_sha ?m [fixture_leaf 6, ?r6] 516 tx_root 7 = Inr ()"
    unfolding verify_ledger_Inr using auth self hash by (simp add: fixture_ledger_def)
  moreover obtain sink4 where "write_ledger_outputs S ops sink3 txdb1 ?m 7 tx_root 516 = Inr (sink4, txdb2)"
  proof (cases "txdb1 = None")
    case True
    with db2 that show ?thesis by (simp add: write_ledger_outputs_def txdb_write_def)
  next
    case False
    obtain sink4 where "ns_write_node ops sink3 (tm_ledger_hash ?m)
        (encode_object_to_value notype_ledger (ledger_header_object (hash_input ?m 7 tx_root 516))) = Inr sink4"
      using total by blast
    with False db2 have "write_ledger_outputs S ops sink3 txdb1 ?m 7 tx_root 516 = Inr (sink4, txdb2)"
      by (auto simp add: write_ledger_outputs_def Let_def)
    then show ?thesis by (rule that)
  qed
  ultimately have "\<exists>rp. replay_step length_sha S ops True ?rp1 (?d, ?m) = Inr rp \<and> rp_root rp = 516 \<and> rp_state rp = ?s1"
    using delta root tree sink3 unfolding replay_step_Inr by (simp add: ledger)
  then obtain rp where step: "replay_step length_sha S ops True ?rp1 (?d, ?m) = Inr rp" "rp_root rp = 516"
    "rp_state rp = ?s1" by blast
  have "replay_parts length_sha S ops True sink txdb [fixture_leaf 5, ?r5] ?cp [(?d, ?m)] rp"
  proof (rule replay_partsI [OF sink1 s0 _ _ _ _ start])
    show "rfold (replay_step length_sha S ops True) ?rp1 [(?d, ?m)] = Inr rp" by (simp add: step(1))
    show "verify_txns_authentic length_sha ?cp = Inr ()"
      by (simp add: verify_txns_Inr authentic_def fixture_ledger_def)
    show "?s0 (tm_account_hash ?cp) \<noteq> None" "check_tree_complete (tm_account_hash ?cp) ?s0 = oret ()"
      using t0 by (simp_all add: fixture_ledger_def)
    show "\<forall>n \<in> set [fixture_leaf 5, ?r5]. recompute_node_hash length_sha n = node_hash n"
      using self(2) by (simp add: self_consistent_def)
    show "check_tree_complete (rp_root rp) (rp_state rp) = oret ()" using step(2,3) t1 by simp
  qed
  then show ?thesis
    using step(3) by (intro exI [of _ rp]) (simp add: replay_chunk_parts fixture_chunk_def)
qed

lemmas fixture_replays = fixture_replays_db [where txdb = None, unfolded txdb_open_def option.case, OF _ TrueI]

lemma fixture_discard:
  "\<exists>rp. replay_chunk length_sha S null_sink True fixture_chunk () None = oret rp \<and>
     rp_state rp = [6 \<mapsto> fixture_leaf 6, 516 \<mapsto> fixture_root (6 # replicate 15 0)]"
  by (rule fixture_replays) (simp add: null_sink_def)

text \<open>A chunk of one ledger that starts in the state the fixture ends in.\<close>

definition snapshot_chunk :: chunk where
  "snapshot_chunk =
     \<lparr>ck_network_id = 1, ck_start_ledger = 101, ck_end_ledger = 101, ck_checkpoint_hash = 122, ck_chunk_hash = 0,
      ck_checkpoint = [fixture_leaf 6, fixture_root (6 # replicate 15 0)], ck_deltas = [],
      ck_tx_maps = [fixture_ledger 101 122 []]\<rparr>"

lemma snapshot_replays:
  "\<exists>rp. replay_chunk length_sha S null_sink True snapshot_chunk () None = oret rp \<and>
     rp_state rp = [6 \<mapsto> fixture_leaf 6, 516 \<mapsto> fixture_root (6 # replicate 15 0)]"
proof -
  let ?r6 = "fixture_root (6 # replicate 15 0)" and ?cp = "fixture_ledger 101 122 []"
  let ?s = "[6 \<mapsto> fixture_leaf 6, 516 \<mapsto> ?r6] :: live_state"
  let ?rp = "\<lparr>rp_state = ?s, rp_rows = [], rp_sink = (), rp_txdb = None, rp_root = 516, rp_prev_hash = 122\<rparr>"
  have "tree (state_lookup ?s) 516 [fixture_leaf 6, ?r6]" using fixture_tree [of ?s 6] by simp
  then have t: "check_tree_complete 516 ?s = oret ()" by (rule tree_checks) simp_all
  have "replay_parts length_sha S null_sink True () None [fixture_leaf 6, ?r6] ?cp [] ?rp"
  proof (rule replay_partsI)
    show "rfold (sink_node null_sink) () [fixture_leaf 6, ?r6] = Inr ()"
      by (simp add: sink_node_def null_sink_def)
    show "foldl insert_node Map.empty [fixture_leaf 6, ?r6] = ?s" by (simp add: insert_node_def)
    show "start_replay length_sha S null_sink ?s () None ?cp = Inr ?rp"
      by (simp add: start_replay_def txdb_write_def build_tx_tree_def fixture_ledger_def)
    show "verify_txns_authentic length_sha ?cp = Inr ()"
      by (simp add: verify_txns_Inr authentic_def fixture_ledger_def)
    show "\<forall>n \<in> set [fixture_leaf 6, ?r6]. recompute_node_hash length_sha n = node_hash n"
      by (simp add: fixture_consistent)
  qed (use t in \<open>simp_all add: fixture_ledger_def\<close>)
  then show ?thesis
    by (intro exI [of _ ?rp]) (simp add: replay_chunk_parts snapshot_chunk_def)
qed

lemma snapshot_last: "tm_account_hash (last_ledger snapshot_chunk) = 516"
  by (simp add: last_ledger_def chunk_ledgers_def snapshot_chunk_def fixture_ledger_def)

lemma fixture_last: "tm_account_hash (last_ledger fixture_chunk) = 516"
  by (simp add: last_ledger_def chunk_ledgers_def fixture_chunk_def fixture_ledger_def)

lemma fixture_entries:
  "store_fits (chunk_entries length_sha with_db fixture_chunk [row])"
  "\<exists>v. map_of (chunk_entries length_sha with_db fixture_chunk [row]) 5 = Some v"
proof -
  let ?tx = "touching_tx 2 0" and ?header = "if with_db then [header_entry row] else []"
  obtain tx_root hs where tree: "length hs = 16"
    "build_tx_tree length_sha [?tx] = Inr (tx_root, [item_node (tx_item length_sha ?tx), inner_of length_sha hs])"
    using single_tx_tree by blast
  have es: "chunk_entries length_sha with_db fixture_chunk [row] =
      map node_entry [fixture_leaf 5, fixture_root (5 # replicate 15 0), fixture_leaf 6,
        fixture_root (6 # replicate 15 0), item_node (tx_item length_sha ?tx), inner_of length_sha hs] @ ?header"
    by (simp add: chunk_entries_def replay_entries_def fixture_chunk_def ledger_entries_def tree_entries_def
        fixture_ledger_def tree(2)) (simp add: build_tx_tree_def)
  have "sum_list (map record_bytes ?header) \<le> 1000"
    by (simp add: record_bytes_def header_entry_def encode_object_to_value_def Let_def)
  then show "store_fits (chunk_entries length_sha with_db fixture_chunk [row])"
    unfolding es using tree(1) touching_length [of 0]
    by (simp add: store_fits_def record_bytes_def node_entry_def fixture_leaf_def fixture_root_def tx_item_def
        inner_of_def Let_def encode_wire_to_value_def encode_object_to_value_def tx_leaf_content_def write_vl_def
        hash_prefix_tx_node_def hash_prefix_inner_node_def split: if_splits)
  show "\<exists>v. map_of (chunk_entries length_sha with_db fixture_chunk [row]) 5 = Some v"
    unfolding es by (simp add: node_entry_def)
qed

text \<open>The fixture as a file of the streamed version.\<close>

definition fixture_stream :: "byte list" where
  "fixture_stream =
     (let b = stream_body (ck_checkpoint fixture_chunk) (hd (ck_tx_maps fixture_chunk)) (chunk_ledgers fixture_chunk)
      in header_bytes format_version_streamed 1 100 101 7 (sha512half length_sha b) @ b)"

lemma canon_fixture: "canon_chunk fixture_chunk = fixture_chunk" "wf_chunk fixture_chunk"
  by (simp_all add: canon_chunk_def fixture_chunk_def canon_delta_def canon_tx_map_def fixture_ledger_def
      fixture_leaf_def fixture_root_def wf_chunk_def wf_node_def wf_delta_def wf_tx_map_def wf_tx_def
      order.strict_trans [OF touching_length])

lemma fixture_stream_parses:
  "\<exists>h cr. parse_chunk length_sha fixture_stream = Inr (fixture_chunk\<lparr>ck_chunk_hash := h\<rparr>, []) \<and>
     reader_open fixture_stream = Inr cr"
proof -
  let ?ns = "ck_checkpoint fixture_chunk" and ?m0 = "hd (ck_tx_maps fixture_chunk)" and ?ls = "chunk_ledgers fixture_chunk"
  let ?h = "sha512half length_sha (stream_body ?ns ?m0 ?ls)"
  have "wf_stream 100 101 ?ns ?m0 ?ls"
    using canon_fixture(2) by (simp add: wf_stream_def wf_chunk_def chunk_ledgers_def fixture_chunk_def)
  moreover have "stream_chunk 1 100 101 7 ?h ?ns ?m0 ?ls = fixture_chunk\<lparr>ck_chunk_hash := ?h\<rparr>"
    using canon_fixture(1) by (simp add: stream_chunk_def canon_chunk_def chunk_ledgers_def fixture_chunk_def)
  ultimately have "parse_chunk length_sha fixture_stream = Inr (fixture_chunk\<lparr>ck_chunk_hash := ?h\<rparr>, [])"
    unfolding fixture_stream_def Let_def using parse_stream_body by metis
  moreover have "\<exists>cr. reader_open fixture_stream = Inr cr"
    by (simp add: fixture_stream_def Let_def reader_open_header)
  ultimately show ?thesis by blast
qed

section \<open>Properties\<close>

text \<open>
  C1: A verified replay authenticates the chunk: there is a transaction list for every delta,
  its sequence number is the delta's, every transaction hash is the hash of its blob, and the
  LedgerHash of every ledger after the first is the hash of its header built from the parent
  ledger's hash, the root of its rebuilt transaction tree and its account hash; the checkpoint
  nodes and the nodes every delta adds hash to their own hashes.
\<close>

theorem verified_replay_authenticates_ledgers:
  assumes "replay_chunk H S ops True c sink txdb = oret rp"
  shows "length (ck_deltas c) < length (ck_tx_maps c) \<and> authentic H (hd (ck_tx_maps c)) \<and>
    self_consistent H (ck_checkpoint c) \<and>
    (\<forall>d \<in> set (ck_deltas c). self_consistent H (diff_added (ld_diff d))) \<and>
    ledgers_chain H (hd (ck_tx_maps c)) (chunk_ledgers c) \<and>
    rp_prev_hash rp = tm_ledger_hash (last_ledger c)"
  using verified_chunk [OF assms] by blast

lemma verified_replay_authenticates_ledgers_witness:
  "chained length_sha 7 (fixture_ledger 101 122 [touching_tx 2 0]) \<and>
   self_consistent length_sha [fixture_leaf 6, fixture_root (6 # replicate 15 0)]"
proof -
  obtain rp where "replay_chunk length_sha (\<lambda>_. 0) null_sink True fixture_chunk () None = oret rp"
    using fixture_discard by blast
  from verified_replay_authenticates_ledgers [OF this] show ?thesis
    by (simp add: ledgers_chain_def chunk_ledgers_def fixture_chunk_def fixture_ledger_def Let_def)
qed

text \<open>
  C2: After a verified replay the live state is a finite complete tree under the account hash
  of the last ledger, every node of it hashes to its key, and it holds as many nodes as the
  tree has; if the tree lists no node twice, it holds nothing else.
\<close>

theorem verified_state_is_complete:
  assumes "replay_chunk H S ops True c sink txdb = oret rp" and "tm_account_hash (last_ledger c) \<noteq> 0"
  shows "\<exists>ns. tree (state_lookup (rp_state rp)) (tm_account_hash (last_ledger c)) ns \<and>
    self_consistent H ns \<and> length ns = card (dom (rp_state rp)) \<and>
    (distinct (map node_hash ns) \<longrightarrow> node_hash ` set ns = dom (rp_state rp))"
proof -
  note v = verified_chunk [OF assms(1)]
  obtain ns where ns: "tree (state_lookup (rp_state rp)) (tm_account_hash (last_ledger c)) ns"
    "length ns = card (dom (rp_state rp))"
    using v(5,8) assms(2) by (auto simp add: check_tree_complete_iff)
  note held = tree_nodes_held [OF ns(1) v(7)]
  have self: "self_consistent H ns" using held v(7) by (auto simp add: self_consistent_def state_sound_def)
  have sub: "node_hash ` set ns \<subseteq> dom (rp_state rp)" using held by blast
  obtain n nss where "ns = concat nss @ [n]" using treeE [OF ns(1) assms(2)] by blast
  then have "0 < card (dom (rp_state rp))" using ns(2) by simp
  then have fin: "finite (dom (rp_state rp))" by (rule card_ge_0_finite)
  have "node_hash ` set ns = dom (rp_state rp)" if "distinct (map node_hash ns)"
    using card_subset_eq [OF fin sub] distinct_card [OF that] ns(2) by simp
  with ns self show ?thesis by blast
qed

lemma verified_state_is_complete_witness:
  "\<exists>rp ns. replay_chunk length_sha (\<lambda>_. 0) null_sink True fixture_chunk () None = oret rp \<and>
     tree (state_lookup (rp_state rp)) 516 ns"
proof -
  obtain rp where rp: "replay_chunk length_sha (\<lambda>_. 0) null_sink True fixture_chunk () None = oret rp"
    using fixture_discard by blast
  with verified_state_is_complete [OF rp] fixture_last show ?thesis by auto
qed

text \<open>
  C17: The account hash binds the state: two verified replays, of any chunks, that end in the
  same account hash hold trees with the same contents, or exhibit two nodes that collide,
  provided no leaf is spelled like an inner node.
\<close>

theorem account_hash_binds_state:
  assumes "replay_chunk H S ops True c sink txdb = oret rp" and "replay_chunk H S' ops' True c' sink' txdb' = oret rp'"
    and "tm_account_hash (last_ledger c) = tm_account_hash (last_ledger c')" and "tm_account_hash (last_ledger c) \<noteq> 0"
    and "\<forall>n \<in> ran (rp_state rp) \<union> ran (rp_state rp'). \<not> disguised n"
  shows "\<exists>ns ms. tree (state_lookup (rp_state rp)) (tm_account_hash (last_ledger c)) ns \<and>
    tree (state_lookup (rp_state rp')) (tm_account_hash (last_ledger c)) ms \<and>
    (map node_content ns = map node_content ms \<or>
     (\<exists>n \<in> set ns. \<exists>m \<in> set ms. collision H (node_preimage n) (node_preimage m)))"
proof -
  note v = verified_chunk [OF assms(1)] and v' = verified_chunk [OF assms(2)]
  obtain ns where ns: "tree (state_lookup (rp_state rp)) (tm_account_hash (last_ledger c)) ns"
    using v(5,8) assms(4) by (auto simp add: check_tree_complete_iff)
  obtain ms where ms: "tree (state_lookup (rp_state rp')) (tm_account_hash (last_ledger c)) ms"
    using v'(5,8) assms(3,4) by (auto simp add: check_tree_complete_iff)
  have "set ns \<subseteq> ran (rp_state rp)" "set ms \<subseteq> ran (rp_state rp')"
    using tree_nodes_held [OF ns v(7)] tree_nodes_held [OF ms v'(7)] by (auto intro: ranI)
  then have "\<forall>n \<in> set ns \<union> set ms. \<not> disguised n" using assms(5) by blast
  from same_root_same_tree [OF ns ms v(7) v'(7) this] ns ms show ?thesis by blast
qed

lemma account_hash_binds_state_witness:
  "\<exists>rp rp' ns ms. replay_chunk length_sha (\<lambda>_. 0) null_sink True fixture_chunk () None = oret rp \<and>
     replay_chunk length_sha (\<lambda>_. 0) null_sink True snapshot_chunk () None = oret rp' \<and>
     tree (state_lookup (rp_state rp)) 516 ns \<and> tree (state_lookup (rp_state rp')) 516 ms \<and>
     (map node_content ns = map node_content ms \<or>
      (\<exists>n \<in> set ns. \<exists>m \<in> set ms. collision length_sha (node_preimage n) (node_preimage m)))"
proof -
  obtain rp where rp: "replay_chunk length_sha (\<lambda>_. 0) null_sink True fixture_chunk () None = oret rp"
    "rp_state rp = [6 \<mapsto> fixture_leaf 6, 516 \<mapsto> fixture_root (6 # replicate 15 0)]"
    using fixture_discard by blast
  obtain rp' where rp': "replay_chunk length_sha (\<lambda>_. 0) null_sink True snapshot_chunk () None = oret rp'"
    "rp_state rp' = [6 \<mapsto> fixture_leaf 6, 516 \<mapsto> fixture_root (6 # replicate 15 0)]"
    using snapshot_replays by blast
  have "ran (rp_state rp) \<union> ran (rp_state rp') \<subseteq> {fixture_leaf 6, fixture_root (6 # replicate 15 0)}"
    unfolding rp(2) rp'(2) by (auto simp add: ran_def split: if_splits)
  moreover have "take 4 (replicate 6 1) \<noteq> hash_prefix_inner_node"
    by (simp add: hash_prefix_inner_node_def eval_nat_numeral)
  then have "\<not> disguised (fixture_leaf 6)" "\<not> disguised (fixture_root (6 # replicate 15 0))"
    by (simp_all add: disguised_def) (simp add: fixture_leaf_def)
  ultimately have "\<forall>n \<in> ran (rp_state rp) \<union> ran (rp_state rp'). \<not> disguised n" by blast
  from account_hash_binds_state [OF rp(1) rp'(1) _ _ this] rp(1) rp'(1) fixture_last snapshot_last
  show ?thesis by auto
qed

text \<open>
  C3: Streaming is buffering: on a version 3 file the buffered reader accepts, the streaming
  replay succeeds exactly when the replay of the parsed chunk does, and then with the same
  result (state, rows, sink and database), with or without verification; and whatever file
  it accepts, the part up to the footer parses and replays to the same result.
\<close>

theorem streaming_replay_matches_buffered:
  assumes "reader_open file = Inr cr"
  shows "(replay_chunk_streaming H S ops verify file sink txdb = oret rp \<longrightarrow>
      (\<exists>f rest c. file = f @ rest \<and> deserialize_chunk H f = Inr c \<and>
         replay_chunk H S ops verify c sink txdb = oret rp)) \<and>
    (parse_chunk H file = Inr (c, []) \<longrightarrow>
      (replay_chunk_streaming H S ops verify file sink txdb = oret rp \<longleftrightarrow>
       replay_chunk H S ops verify c sink txdb = oret rp))"
proof -
  have "file ! 4 = format_version_streamed"
    using reader_open_InrD [OF assms] by (auto simp add: header_bytes_def nth_append write_u8_def)
  note iff = streaming_replay_iff [OF _ this]
  show ?thesis by (intro conjI impI streaming_replay_sound iff)
qed

lemma streaming_replay_matches_buffered_witness:
  "\<exists>rp. replay_chunk_streaming length_sha (\<lambda>_. 0) null_sink True fixture_stream () None = oret rp \<and>
     rp_state rp = [6 \<mapsto> fixture_leaf 6, 516 \<mapsto> fixture_root (6 # replicate 15 0)]"
proof -
  obtain h cr where h: "parse_chunk length_sha fixture_stream = Inr (fixture_chunk\<lparr>ck_chunk_hash := h\<rparr>, [])"
    and cr: "reader_open fixture_stream = Inr cr" using fixture_stream_parses by blast
  obtain rp where rp: "replay_chunk length_sha (\<lambda>_. 0) null_sink True fixture_chunk () None = oret rp"
    "rp_state rp = [6 \<mapsto> fixture_leaf 6, 516 \<mapsto> fixture_root (6 # replicate 15 0)]"
    using fixture_discard by blast
  from rp(1) have "replay_chunk length_sha (\<lambda>_. 0) null_sink True (fixture_chunk\<lparr>ck_chunk_hash := h\<rparr>) () None = oret rp"
    by (simp add: replay_chunk_parts)
  then have "replay_chunk_streaming length_sha (\<lambda>_. 0) null_sink True fixture_stream () None = oret rp"
    by (rule streaming_replay_matches_buffered [OF cr, THEN conjunct2, THEN mp, OF h, THEN iffD2])
  with rp(2) show ?thesis by blast
qed

text \<open>
  Everything the chunk contains reaches the store: after a replay into a fresh NuDB sink
  and finish, opening the two files serves, for every hash of a checkpoint node, an added
  node, a node of a rebuilt transaction tree or (with a transaction database) a ledger
  header, the first value replayed under that hash, and nothing else.
\<close>

theorem imported_store_serves_chunk:
  assumes "replay_chunk H S (nudb_node_sink X) verify c (sink_create fs p) txdb = oret rp"
    and "store_fits (chunk_entries H (txdb \<noteq> None) c (rp_rows rp))" and "store_paths_ok p k"
  shows "\<exists>fs' D key s. import_store X rp k = Some fs' \<and> fs' p = Some D \<and> fs' k = Some key \<and>
    shard_open D key = Some (Inr s) \<and>
    (\<forall>h. fetch X s h = Some (Inr (map_of (chunk_entries H (txdb \<noteq> None) c (rp_rows rp)) h)))"
  unfolding import_store_entries [OF assms(1)] using write_nudb_store_serves [OF assms(2,3)] by blast

lemma imported_store_serves_chunk_witness:
  "\<exists>rp D key s v. replay_chunk length_sha (\<lambda>_. 0) (nudb_node_sink (\<lambda>_ _. 77)) True fixture_chunk
       (sink_create Map.empty ''a.dat'') None = oret rp \<and>
     shard_open D key = Some (Inr s) \<and> fetch (\<lambda>_ _. 77) s 5 = Some (Inr (Some v))"
proof -
  let ?X = "\<lambda>_ _. 77"
  obtain rp where rp: "replay_chunk length_sha (\<lambda>_. 0) (nudb_node_sink ?X) True fixture_chunk
       (sink_create Map.empty ''a.dat'') None = oret rp"
    using fixture_replays [of "nudb_node_sink ?X" "\<lambda>_. 0" "sink_create Map.empty ''a.dat''"]
    by (auto simp add: nudb_node_sink_def)
  obtain row where "rp_rows rp = [row]"
    using nudb_sink.replay_chunk_entries(2) [OF rp] by (auto simp add: fixture_chunk_def length_Suc_conv)
  note fits = fixture_entries [of False row, folded this]
  obtain v where "map_of (chunk_entries length_sha False fixture_chunk (rp_rows rp)) 5 = Some v"
    using fits(2) by blast
  with fits(1) show ?thesis
    using imported_store_serves_chunk [OF rp _ sample_paths_ok] rp by (simp del: One_nat_def) metis
qed

end
