(* ===== verification/Import_Gaps.thy ===== *)
theory Import_Gaps
  imports Import_Correct
begin

text \<open>
  What the verification of an import does not catch: a leaf spelled like an inner node, an
  extra node beside a shared child, and a checkpoint whose claimed hashes form a cycle, on
  which the buffered replay does not return.
\<close>

section \<open>A chunk of one ledger\<close>

lemma null_sink_nodes: "rfold (sink_node null_sink) () ns = Inr ()"
  by (induction ns) (simp_all add: sink_node_def null_sink_def)

lemma single_ledger_replay:
  assumes "ck_deltas c = []" and "ck_tx_maps c = [m]" and "tm_txns m = []"
    and "foldl insert_node Map.empty (ck_checkpoint c) = state" and "state (tm_account_hash m) \<noteq> None"
    and "check_tree_complete (tm_account_hash m) state = oret ()" and "self_consistent H (ck_checkpoint c)"
  shows "\<exists>rp. replay_chunk H S null_sink True c () None = oret rp \<and> rp_state rp = state"
proof -
  let ?rp = "\<lparr>rp_state = state, rp_rows = [], rp_sink = (), rp_txdb = None,
      rp_root = tm_account_hash m, rp_prev_hash = tm_ledger_hash m\<rparr>"
  have "replay_parts H S null_sink True () None (ck_checkpoint c) m [] ?rp"
  proof (rule replay_partsI [OF null_sink_nodes assms(4,5)])
    show "start_replay H S null_sink state () None m = Inr ?rp"
      by (simp add: start_replay_def txdb_write_def assms(3) build_tx_tree_def)
    show "verify_txns_authentic H m = Inr ()" by (simp add: verify_txns_Inr authentic_def assms(3))
    show "\<forall>n \<in> set (ck_checkpoint c). recompute_node_hash H n = node_hash n"
      using assms(7) by (simp add: self_consistent_def)
  qed (simp_all add: assms(6))
  then show ?thesis by (intro exI [of _ ?rp]) (simp add: replay_chunk_parts assms(1,2))
qed

section \<open>Leaves spelled like inner nodes\<close>

definition disguise :: "shamap_node \<Rightarrow> shamap_node" where
  "disguise n = n\<lparr>node_type := AccountState, node_content := hash_prefix_inner_node @ node_content n\<rparr>"

lemma disguise_hash: "is_inner (node_type n) \<Longrightarrow> recompute_node_hash H (disguise n) = recompute_node_hash H n"
  by (simp add: disguise_def recompute_node_hash_def)

lemma leaf_tree:
  assumes "state h = Some n" and "\<not> is_inner (node_type n)" and "h \<noteq> 0"
  shows "tree (state_lookup state) h [n]"
proof -
  have "tree (state_lookup state) h (concat [] @ [n])"
    by (rule tree_node) (use assms in \<open>simp_all add: node_children_def\<close>)
  then show ?thesis by simp
qed

section \<open>Cycles\<close>

lemma walk_loop_cycle:
  assumes "state h = Some n" and "node_children n = Inr [h]"
  shows "walk_loop state [h] r = None"
proof -
  have "walk_loop state stack r = Some z \<Longrightarrow> state \<noteq> state \<or> stack \<noteq> [h]" for stack r z
  proof (rule walk_loop.raw_induct [of "\<lambda>state' stack r z. state' \<noteq> state \<or> stack \<noteq> [h]" state stack r z])
    fix f state' stack r z
    assume IH: "\<And>state' stack r z. f state' stack r = Some z \<Longrightarrow> state' \<noteq> state \<or> stack \<noteq> [h]"
      and body: "(case stack of [] \<Rightarrow> oret r
          | h # rest \<Rightarrow>
              (case state' h of None \<Rightarrow> ofail (NodeMissing h)
               | Some node \<Rightarrow>
                   if is_inner (node_type node)
                   then obind (olift BadInnerNode (inner_from_node node))
                          (\<lambda>inner. f state' (rev (child_hashes inner) @ rest) (r + 1))
                   else f state' rest (r + 1))) = Some z"
    show "state' \<noteq> state \<or> stack \<noteq> [h]"
    proof (rule ccontr)
      assume "\<not> (state' \<noteq> state \<or> stack \<noteq> [h])"
      moreover obtain inner where "is_inner (node_type n)" "inner_from_node n = Inr inner" "child_hashes inner = [h]"
        using assms(2) by (auto simp add: node_children_Inr)
      ultimately have "f state [h] (r + 1) = Some z" using body assms(1) by simp
      with IH show False by blast
    qed
  qed
  then show ?thesis by (cases "walk_loop state [h] r") blast+
qed

lemma cyclic_replay:
  assumes "ck_checkpoint c = [n]" and "node_children n = Inr [node_hash n]"
    and "ck_tx_maps c = m # ms" and "tm_account_hash m = node_hash n"
  shows "replay_chunk H S null_sink True c () txdb = None"
proof -
  have "check_tree_complete (node_hash n) [node_hash n \<mapsto> n] = None"
    by (simp add: check_tree_complete_def walk_complete_def walk_loop_cycle [OF _ assms(2)])
  with assms(1,3,4) show ?thesis
    by (simp add: replay_chunk_def insert_node_def null_sink_nodes [of "[n]", simplified] Let_def)
qed

lemma checkpoint_node_null:
  "checkpoint_node H null_sink True (bad, None, (), st) n =
     (if bad = None \<and> recompute_node_hash H n \<noteq> node_hash n then Some (node_hash n) else bad,
      None, (), insert_node st n)"
  by (simp add: checkpoint_node_def sink_node_def null_sink_def)

lemma streaming_rejects_node:
  assumes "reader_open file = Inr cr" and "collect_body H cr = Inr (ns, cp, ls, rest)"
    and "find (\<lambda>n. recompute_node_hash H n \<noteq> node_hash n) ns = Some n"
  shows "replay_chunk_streaming H S null_sink True file () txdb = ofail (CheckpointNodeHash (node_hash n))"
proof -
  have bad: "find (\<lambda>n. recompute_node_hash H n \<noteq> node_hash n) ns = Some n \<Longrightarrow>
      \<exists>st'. foldl (checkpoint_node H null_sink True) (None, None, (), st) ns = (Some (node_hash n), None, (), st')" for ns st
  proof (induction ns arbitrary: st)
    case (Cons k ns)
    have later: "\<exists>st'. foldl (checkpoint_node H null_sink True) (Some b, None, (), st) ns = (Some b, None, (), st')" for b st
    proof (induction ns arbitrary: st)
      case (Cons l ns)
      then show ?case by (simp add: checkpoint_node_null)
    qed simp
    from Cons later show ?case by (simp add: checkpoint_node_null split: if_splits)
  qed simp
  obtain c1 where "hashing read_node_list cr = Inr (ns, c1)" using assms(2) by (auto simp add: collect_body_Inr)
  with assms(1) bad [OF assms(3), of Map.empty] show ?thesis
    by (auto simp add: replay_chunk_streaming_def reader_checkpoint_eq)
qed

section \<open>Properties\<close>

text \<open>
  C36: Verification can be passed without the state: a checkpoint that consists of one leaf
  whose content is the prefix and content of the account tree's root node, whatever they are,
  verifies; the leaf hashes to the account hash, and no other node of the tree is held. Leaf
  prefixes are not checked anywhere.
\<close>

theorem disguised_root_verifies:
  assumes "is_inner (node_type n)" and "recompute_node_hash H n = node_hash n" and "node_hash n \<noteq> 0"
    and "ck_checkpoint c = [disguise n]" and "ck_deltas c = []" and "ck_tx_maps c = [m]"
    and "tm_account_hash m = node_hash n" and "tm_txns m = []"
  shows "\<exists>rp. replay_chunk H S null_sink True c () None = oret rp \<and> rp_state rp = [node_hash n \<mapsto> disguise n]"
proof (rule single_ledger_replay [OF assms(5,6,8)])
  show "foldl insert_node Map.empty (ck_checkpoint c) = [node_hash n \<mapsto> disguise n]"
    by (simp add: assms(4) insert_node_def disguise_def)
  have "tree (state_lookup [node_hash n \<mapsto> disguise n]) (node_hash n) [disguise n]"
    by (rule leaf_tree) (simp_all add: disguise_def assms(3))
  then show "check_tree_complete (tm_account_hash m) [node_hash n \<mapsto> disguise n] = oret ()"
    unfolding assms(7) by (rule tree_checks) (simp_all add: assms(3))
  show "self_consistent H (ck_checkpoint c)"
    using disguise_hash [OF assms(1), of H] assms(2,4) by (simp add: self_consistent_def) (simp add: disguise_def)
qed (simp add: assms(7))

text \<open>The same account hash as the honest checkpoint of the fixture, without its leaf.\<close>

definition hollow_chunk :: chunk where
  "hollow_chunk = fixture_chunk
     \<lparr>ck_checkpoint := [disguise (fixture_root (5 # replicate 15 0))], ck_deltas := [],
      ck_tx_maps := [fixture_ledger 100 7 []]\<rparr>"

lemma disguised_root_verifies_witness:
  "\<exists>rp. replay_chunk length_sha (\<lambda>_. 0) null_sink True hollow_chunk () None = oret rp \<and> rp_state rp 5 = None"
  using disguised_root_verifies [of "fixture_root (5 # replicate 15 0)" length_sha hollow_chunk "fixture_ledger 100 7 []" "\<lambda>_. 0"]
  by (auto simp add: hollow_chunk_def fixture_consistent fixture_ledger_def)

text \<open>
  The completeness check counts a node once for every parent: when a root holds one leaf
  in two slots, one more node that the root does not reach makes the counts agree, and the
  chunk verifies with that node in its state.
\<close>

theorem shared_child_hides_extra_node:
  assumes "node_children n = Inr [node_hash leaf, node_hash leaf]" and "\<not> is_inner (node_type leaf)"
    and "self_consistent H [leaf, extra, n]" and "distinct [node_hash leaf, node_hash extra, node_hash n]"
    and "node_hash leaf \<noteq> 0" and "node_hash n \<noteq> 0"
    and "ck_checkpoint c = [leaf, extra, n]" and "ck_deltas c = []" and "ck_tx_maps c = [m]"
    and "tm_account_hash m = node_hash n" and "tm_txns m = []"
  shows "\<exists>rp. replay_chunk H S null_sink True c () None = oret rp \<and>
    rp_state rp (node_hash extra) = Some extra \<and> \<not> reach (state_lookup (rp_state rp)) (node_hash n) (node_hash extra)"
proof -
  let ?state = "[node_hash leaf \<mapsto> leaf, node_hash extra \<mapsto> extra, node_hash n \<mapsto> n] :: live_state"
  have at: "?state (node_hash leaf) = Some leaf" "?state (node_hash n) = Some n"
    "?state (node_hash extra) = Some extra" using assms(4) by auto
  have "tree (state_lookup ?state) (node_hash leaf) [leaf]"
    by (rule leaf_tree) (use at(1) assms(2,5) in simp_all)
  then have "tree (state_lookup ?state) (node_hash n) (concat [[leaf], [leaf]] @ [n])"
    by (intro tree_node [OF assms(6) _ assms(1)]) (use at in simp_all)
  then have tree: "tree (state_lookup ?state) (node_hash n) [leaf, leaf, n]" by simp
  have "dom ?state = set [node_hash leaf, node_hash extra, node_hash n]" by auto
  then have "length [leaf, leaf, n] = card (dom ?state)" using distinct_card [OF assms(4)] by simp
  from tree_checks [OF tree assms(6) this]
  have checked: "check_tree_complete (tm_account_hash m) ?state = oret ()" unfolding assms(10) .
  have fold: "foldl insert_node Map.empty (ck_checkpoint c) = ?state" by (simp add: assms(7) insert_node_def)
  have only: "h \<in> {node_hash n, node_hash leaf}" if "reach (state_lookup ?state) (node_hash n) h" for h
    using that
  proof induction
    case (reach_child h k cs d)
    have "node_children leaf = Inr []" using assms(2) by (simp add: node_children_def)
    with reach_child at(1,2) assms(1) show ?case by auto
  qed simp
  have "\<not> reach (state_lookup ?state) (node_hash n) (node_hash extra)"
  proof
    assume "reach (state_lookup ?state) (node_hash n) (node_hash extra)"
    from only [OF this] assms(4) show False by auto
  qed
  with single_ledger_replay [OF assms(8,9,11) fold _ checked, of H S] at assms(3,7,10) show ?thesis by auto
qed

lemma shared_child_hides_extra_node_witness:
  "\<exists>rp. replay_chunk length_sha (\<lambda>_. 0) null_sink True (fixture_chunk
       \<lparr>ck_checkpoint := [fixture_leaf 5, fixture_leaf 6, fixture_root (5 # 5 # replicate 14 0)], ck_deltas := [],
        ck_tx_maps := [fixture_ledger 100 7 []]\<rparr>) () None = oret rp \<and> rp_state rp 6 = Some (fixture_leaf 6)"
proof -
  let ?n = "fixture_root (5 # 5 # replicate 14 0)"
  have "node_children ?n = Inr [node_hash (fixture_leaf 5), node_hash (fixture_leaf 5)]"
    by (simp add: fixture_children)
  moreover have "self_consistent length_sha [fixture_leaf 5, fixture_leaf 6, ?n]"
    by (simp add: self_consistent_def fixture_consistent)
  ultimately show ?thesis
    using shared_child_hides_extra_node [of ?n "fixture_leaf 5" length_sha "fixture_leaf 6"
        "fixture_chunk\<lparr>ck_checkpoint := [fixture_leaf 5, fixture_leaf 6, ?n], ck_deltas := [],
          ck_tx_maps := [fixture_ledger 100 7 []]\<rparr>" "fixture_ledger 100 7 []" "\<lambda>_. 0"]
    by (auto simp add: fixture_ledger_def)
qed

text \<open>
  C37: A cycle of claimed hashes: on a chunk whose checkpoint is one inner node listing its own
  hash as its child, the verifying buffered replay does not return, for every hash function,
  because it walks the tree before it hashes the nodes. The streaming replay of a file with
  that checkpoint hashes first and reports the node.
\<close>

theorem cyclic_checkpoint_never_returns:
  assumes "ck_checkpoint c = [n]" and "node_children n = Inr [node_hash n]"
    and "ck_tx_maps c = m # ms" and "tm_account_hash m = node_hash n"
    and "recompute_node_hash H n \<noteq> node_hash n"
  shows "replay_chunk H S null_sink True c () txdb = None \<and>
    (\<forall>bytes. parse_chunk H bytes = Inr (c, []) \<and> bytes ! 4 = format_version_streamed \<longrightarrow>
       replay_chunk_streaming H S null_sink True bytes () txdb = ofail (CheckpointNodeHash (node_hash n)))"
proof (intro conjI allI impI)
  show "replay_chunk H S null_sink True c () txdb = None" by (rule cyclic_replay [OF assms(1-4)])
  fix bytes
  assume "parse_chunk H bytes = Inr (c, []) \<and> bytes ! 4 = format_version_streamed"
  then obtain cr ns cp ls where cr: "reader_open bytes = Inr cr" "collect_body H cr = Inr (ns, cp, ls, [])"
    "c = assembled cr ns cp ls" using stream_reader_iff by metis
  then have "find (\<lambda>n. recompute_node_hash H n \<noteq> node_hash n) ns = Some n"
    using assms(1,5) by (simp add: assembled_def)
  then show "replay_chunk_streaming H S null_sink True bytes () txdb = ofail (CheckpointNodeHash (node_hash n))"
    by (rule streaming_rejects_node [OF cr(1,2)])
qed

definition cyclic_node :: shamap_node where
  "cyclic_node = \<lparr>node_hash = 9, node_type = Inner, node_content = full_content (9 # replicate 15 0)\<rparr>"

lemma cyclic_checkpoint_never_returns_witness:
  "replay_chunk length_sha (\<lambda>_. 0) null_sink True (fixture_chunk
     \<lparr>ck_checkpoint := [cyclic_node], ck_tx_maps := [(fixture_ledger 100 7 [])\<lparr>tm_account_hash := 9\<rparr>]\<rparr>)
     () None = None"
proof -
  have "node_children cyclic_node = node_children (fixture_root (9 # replicate 15 0))"
    "recompute_node_hash length_sha cyclic_node = recompute_node_hash length_sha (fixture_root (9 # replicate 15 0))"
    by (simp_all add: node_children_def fixture_root_def inner_from_node_def recompute_node_hash_def cyclic_node_def)
  then have "node_children cyclic_node = Inr [node_hash cyclic_node]"
    "recompute_node_hash length_sha cyclic_node \<noteq> node_hash cyclic_node"
    by (simp_all add: fixture_children fixture_consistent) (simp_all add: cyclic_node_def)
  from cyclic_checkpoint_never_returns [OF _ this(1) _ _ this(2)] show ?thesis
    by (simp add: cyclic_node_def)
qed

text \<open>
  The ledger table is merged, not replaced: a row already stored stays, a hash not yet
  stored gets the first of the new rows with that hash, and writing the same rows again
  changes nothing.
\<close>

theorem ledger_db_merge_idempotent:
  "write_ledger_db rows t = map_of (map (\<lambda>r. (lr_ledger_hash r, r)) rows) ++ t \<and>
   write_ledger_db rows (write_ledger_db rows t) = write_ledger_db rows t"
proof -
  have merge: "write_ledger_db rows t = map_of (map (\<lambda>r. (lr_ledger_hash r, r)) rows) ++ t" for t
    unfolding write_ledger_db_def
  proof (induction rows arbitrary: t)
    case (Cons r rows)
    then show ?case
      by (auto simp add: insert_or_ignore_def map_add_def fun_eq_iff split: option.splits)
  qed simp
  have "map_of (map (\<lambda>r. (lr_ledger_hash r, r)) rows) ++ (map_of (map (\<lambda>r. (lr_ledger_hash r, r)) rows) ++ t)
      = map_of (map (\<lambda>r. (lr_ledger_hash r, r)) rows) ++ t"
    by (auto simp add: fun_eq_iff map_add_def split: option.splits)
  then show ?thesis unfolding merge by simp
qed

end
