(* ===== verification/Import_Main.thy ===== *)
theory Import_Main
  imports Import_Gaps
begin

text \<open>
  The main function of the importer (crates/xrla-import/src/main.rs): its options, the loop
  over the chunk files with one sink for all of them, the order in which the results are
  published, and \<open>--verify-only\<close>. The world is the file system with chunks, stores and the
  transaction database, and the ledger tables by path.
\<close>

section \<open>Options and paths\<close>

record import_args =
  ia_chunks :: "string list"
  ia_dat :: "string option"
  ia_verify_only :: bool
  ia_skip_verify :: bool
  ia_ledger_db :: "string option"
  ia_txdb :: "string option"

record world =
  wd_files :: file_system
  wd_ledger_dbs :: "string \<rightharpoonup> ledger_table"

datatype main_error =
    ConflictingFlags
  | DatRequired
  | ImportFailed import_error

text \<open>
  \<open>Path::with_extension\<close> on a path in normal form (no trailing separator): the last component
  keeps what comes before its last dot, unless that dot is its first character.
\<close>

definition file_stem :: "string \<Rightarrow> string" where
  "file_stem name =
     (if CHR ''.'' \<notin> set name then name else
      let before = rev (tl (dropWhile (\<lambda>c. c \<noteq> CHR ''.'') (rev name)))
      in if before = [] then name else before)"

definition with_extension :: "string \<Rightarrow> string \<Rightarrow> string" where
  "with_extension p ext =
     (let name = rev (takeWhile (\<lambda>c. c \<noteq> CHR ''/'') (rev p));
          dir = take (length p - length name) p
      in if name = [] \<or> name = ''.'' \<or> name = ''..'' then p
         else dir @ file_stem name @ ''.'' @ ext)"

lemma with_extension_examples:
  "with_extension ''/db/nudb.dat'' ''key'' = ''/db/nudb.key''"
  "with_extension ''a.b/c'' ''key'' = ''a.b/c.key''" "with_extension ''.dat'' ''key'' = ''.dat.key''"
  by (simp_all add: with_extension_def file_stem_def Let_def)

section \<open>The chunk loop\<close>

type_synonym import_state = "(file_system \<times> nudb_sink) \<times> txdb_sink option \<times> ledger_db_row list"

definition import_one ::
  "sha512 \<Rightarrow> sha256_fn \<Rightarrow> xxh64 \<Rightarrow> bool \<Rightarrow> import_state \<Rightarrow> string \<Rightarrow> (import_error, import_state) run" where
  "import_one H S X verify st path =
     (let (sink, txdb, rows) = st in
      case fst sink path of
        None \<Rightarrow> ofail (ReadFailed Io)
      | Some bytes \<Rightarrow>
          obind (import_chunk H S (nudb_node_sink X) verify bytes sink txdb) (\<lambda>rp.
          oret (rp_sink rp, rp_txdb rp, rows @ rp_rows rp)))"

definition verify_one ::
  "sha512 \<Rightarrow> sha256_fn \<Rightarrow> file_system \<Rightarrow> nat \<Rightarrow> string \<Rightarrow> (import_error, nat) run" where
  "verify_one H S fs ledgers path =
     (case fs path of
        None \<Rightarrow> ofail (ReadFailed Io)
      | Some bytes \<Rightarrow>
          obind (import_chunk H S null_sink True bytes () None) (\<lambda>rp.
          oret (ledgers + (length (rp_rows rp) + 1))))"

text \<open>The total of ledgers is what \<open>verify_only\<close> prints.\<close>

definition verify_only ::
  "sha512 \<Rightarrow> sha256_fn \<Rightarrow> file_system \<Rightarrow> string list \<Rightarrow> (import_error, nat) run" where
  "verify_only H S fs paths = ofold (verify_one H S fs) 0 paths"

section \<open>main\<close>

definition create_txdb ::
  "table_file \<Rightarrow> file_system \<Rightarrow> string option \<Rightarrow> txdb_error + file_system \<times> txdb_sink option" where
  "create_txdb F fs path =
     (case path of
        None \<Rightarrow> Inr (fs, None)
      | Some p \<Rightarrow> rbind (txdb_create F fs p) (\<lambda>(fs, t). Inr (fs, Some t)))"

text \<open>Both sinks go out of scope unfinished.\<close>

definition drop_sinks :: "file_system \<Rightarrow> nudb_sink \<Rightarrow> txdb_sink option \<Rightarrow> file_system" where
  "drop_sinks fs sk txdb =
     (let fs = (case txdb of None \<Rightarrow> fs | Some t \<Rightarrow> txdb_drop (fs, t)) in sink_drop (fs, sk))"

definition write_rows :: "string option \<Rightarrow> ledger_db_row list \<Rightarrow> world \<Rightarrow> world" where
  "write_rows ledger_db rows w =
     (case ledger_db of
        None \<Rightarrow> w
      | Some p \<Rightarrow>
          let stored = (case wd_ledger_dbs w p of None \<Rightarrow> Map.empty | Some t \<Rightarrow> t) in
          w\<lparr>wd_ledger_dbs := (wd_ledger_dbs w)(p \<mapsto> write_ledger_db rows stored)\<rparr>)"

text \<open>
  After the loop: the transaction database is published, then the store, then the ledger
  rows. None when the modulus loop of the store does not return.
\<close>

definition publish ::
  "xxh64 \<Rightarrow> table_file \<Rightarrow> string option \<Rightarrow> string \<Rightarrow> world \<Rightarrow> import_state
     \<Rightarrow> (world \<times> (main_error + unit)) option" where
  "publish X F ledger_db key_path w st =
     (let ((fs, sk), txdb, rows) = st in
      case (case txdb of
              None \<Rightarrow> Inr fs
            | Some t \<Rightarrow> rbind (txdb_finish F (fs, t)) (\<lambda>st. Inr (txdb_drop st))) of
        Inl e \<Rightarrow> Some (w\<lparr>wd_files := drop_sinks fs sk txdb\<rparr>, Inl (ImportFailed (TxDbFailed e)))
      | Inr fs \<Rightarrow>
          Option.bind (sink_finish X (fs, sk) key_path) (\<lambda>st.
          Some (write_rows ledger_db rows (w\<lparr>wd_files := sink_drop st\<rparr>), Inr ())))"

text \<open>
  A chunk that fails has only appended to the temporary .dat, which the drop removes, so the
  files it leaves are those the loop started with, less the temporary ones.
\<close>

definition import_main ::
  "sha512 \<Rightarrow> sha256_fn \<Rightarrow> xxh64 \<Rightarrow> table_file \<Rightarrow> import_args \<Rightarrow> world
     \<Rightarrow> (world \<times> (main_error + unit)) option" where
  "import_main H S X F args w =
     (if ia_verify_only args then
        if ia_skip_verify args \<or> ia_dat args \<noteq> None \<or> ia_ledger_db args \<noteq> None \<or> ia_txdb args \<noteq> None
        then Some (w, Inl ConflictingFlags)
        else map_option (\<lambda>r. (w, case r of Inl e \<Rightarrow> Inl (ImportFailed e) | Inr _ \<Rightarrow> Inr ()))
               (verify_only H S (wd_files w) (ia_chunks args))
      else case ia_dat args of
        None \<Rightarrow> Some (w, Inl DatRequired)
      | Some dat \<Rightarrow>
          let key_path = with_extension dat ''key''; (fs, sk) = sink_create (wd_files w) dat in
          case create_txdb F fs (ia_txdb args) of
            Inl e \<Rightarrow> Some (w\<lparr>wd_files := drop_sinks fs sk None\<rparr>, Inl (ImportFailed (TxDbFailed e)))
          | Inr (fs, txdb) \<Rightarrow>
              Option.bind (ofold (import_one H S X (\<not> ia_skip_verify args)) ((fs, sk), txdb, []) (ia_chunks args))
                (\<lambda>r. case r of
                   Inl e \<Rightarrow> Some (w\<lparr>wd_files := drop_sinks fs sk txdb\<rparr>, Inl (ImportFailed e))
                 | Inr st \<Rightarrow> publish X F (ia_ledger_db args) key_path w st))"

section \<open>One chunk file\<close>

text \<open>The part of a file up to the footer parses as a chunk with a valid hash.\<close>

definition holds_chunk :: "sha512 \<Rightarrow> byte list \<Rightarrow> chunk \<Rightarrow> bool" where
  "holds_chunk H bytes c \<longleftrightarrow> (\<exists>f rest. bytes = f @ rest \<and> deserialize_chunk H f = Inr c)"

text \<open>A file holds at most one chunk: what follows a header is read by a parser that takes a prefix.\<close>

lemma consuming_split: "(\<And>x y. consuming (f x y)) \<Longrightarrow> consuming (case z of (x, y) \<Rightarrow> f x y)"
  by (cases z) simp

lemma consuming_if: "consuming p \<Longrightarrow> consuming q \<Longrightarrow> consuming (if b then p else q)"
  by simp

lemma holds_chunk_unique:
  assumes "holds_chunk H bytes c" and "holds_chunk H bytes c'"
  shows "c = c'"
proof -
  have part: "\<exists>f r s. bytes = f @ s \<and> parse_chunk H f = Inr (c, r)" if "holds_chunk H bytes c" for c
    using that by (auto simp add: holds_chunk_def deserialize_chunk_def rbind_eq_Inr)
  obtain f r s where f: "bytes = f @ s" "parse_chunk H f = Inr (c, r)" using part [OF assms(1)] by blast
  obtain f' r' s' where f': "bytes = f' @ s'" "parse_chunk H f' = Inr (c', r')" using part [OF assms(2)] by blast
  obtain v net a e cp h body where v: "v = format_version \<or> v = format_version_streamed"
    and data: "f = header_bytes v net a e cp h @ body"
    using parse_chunk_InrD [OF f(2)] by blast
  obtain v' net' a' e' cp' h' body' where data': "f' = header_bytes v' net' a' e' cp' h' @ body'"
    using parse_chunk_InrD [OF f'(2)] by blast
  have "take 81 bytes = header_bytes v net a e cp h" "take 81 bytes = header_bytes v' net' a' e' cp' h'"
    by (simp add: f(1) data) (simp add: f'(1) data')
  then have head: "f' = header_bytes v net a e cp h @ body'" using data' by simp
  let ?p = "pbind read_node_list (\<lambda>checkpoint.
     pbind (if v = format_version_streamed then read_body_streamed (unat (e - a))
            else read_body_blocks (unat (e - a))) (\<lambda>(deltas, tx_maps).
     pbind (read_exact 4) (\<lambda>footer.
     if footer \<noteq> magic_footer then pfail InvalidMagic else
     pret \<lparr>ck_network_id = net, ck_start_ledger = a, ck_end_ledger = e,
           ck_checkpoint_hash = cp, ck_chunk_hash = h, ck_checkpoint = checkpoint,
           ck_deltas = deltas, ck_tx_maps = tx_maps\<rparr>)))"
  have con: "consuming ?p"
    unfolding read_body_streamed_def read_body_blocks_def
    by (rule consuming_pbind consuming_split consuming_if consuming_node_list consuming_times consuming_delta
        consuming_tx_map consuming_ledger consuming_basic)+
  have "?p body = Inr (c, r)" "?p body' = Inr (c', r')"
    using f(2) f'(2) by (simp_all only: data head parse_chunk_header [OF v] split: if_split_asm) simp_all
  then have "?p (body @ s) = Inr (c, r @ s)" "?p (body' @ s') = Inr (c', r' @ s')"
    using consumingD [OF con] by fastforce+
  moreover have "body @ s = body' @ s'" using f(1) f'(1) by (simp add: data head)
  ultimately show ?thesis by simp
qed

lemma import_chunk_replays:
  assumes "import_chunk H S ops verify bytes sink txdb = oret rp"
  shows "\<exists>c. holds_chunk H bytes c \<and> replay_chunk H S ops verify c sink txdb = oret rp"
proof -
  obtain v where "detect_version bytes = Inr v"
    using assms by (auto simp add: import_chunk_def obind_eq_Inr)
  then consider "replay_chunk_streaming H S ops verify bytes sink txdb = oret rp"
    | c where "deserialize_chunk H bytes = Inr c" "replay_chunk H S ops verify c sink txdb = oret rp"
    using assms by (auto simp add: import_chunk_def obind_eq_Inr split: if_splits)
  then show ?thesis
  proof cases
    case 1
    from streaming_replay_sound [OF this] show ?thesis unfolding holds_chunk_def by blast
  next
    case (2 c)
    then show ?thesis unfolding holds_chunk_def by (metis append_Nil2)
  qed
qed

text \<open>The ledgers of a chunk reach the transaction database in order, the checkpoint first.\<close>

definition chunk_tx_maps :: "chunk \<Rightarrow> tx_map list" where
  "chunk_tx_maps c = hd (ck_tx_maps c) # map snd (chunk_ledgers c)"

definition txdb_writes :: "sha256_fn \<Rightarrow> txdb_sink option \<Rightarrow> tx_map list \<Rightarrow> import_error + txdb_sink option" where
  "txdb_writes S txdb ms = rfold (txdb_write S) txdb ms"

lemma replay_step_txdb:
  "replay_step H S ops verify rp (d, m) = Inr rp' \<Longrightarrow> txdb_write S (rp_txdb rp) m = Inr (rp_txdb rp')"
  by (auto simp add: replay_step_Inr write_ledger_outputs_def txdb_write_def Let_def rbind_eq_Inr split: if_splits)

lemma replay_steps_txdb:
  "rfold (replay_step H S ops verify) rp ls = Inr rp' \<Longrightarrow>
     rfold (txdb_write S) (rp_txdb rp) (map snd ls) = Inr (rp_txdb rp')"
proof (induction ls arbitrary: rp)
  case (Cons l ls)
  obtain d m where l: "l = (d, m)" by (cases l)
  obtain u where "replay_step H S ops verify rp (d, m) = Inr u" "rfold (replay_step H S ops verify) u ls = Inr rp'"
    using Cons.prems by (auto simp add: rbind_eq_Inr l)
  with Cons.IH [of u] replay_step_txdb [of H S ops verify rp d m u] show ?case by (simp add: l)
qed simp

lemma replay_chunk_txdb:
  assumes "replay_chunk H S ops verify c sink txdb = oret rp"
  shows "txdb_writes S txdb (chunk_tx_maps c) = Inr (rp_txdb rp)"
proof -
  from assms obtain cp ms rp0 sink' where ms: "ck_tx_maps c = cp # ms"
    and start: "start_replay H S ops (foldl insert_node Map.empty (ck_checkpoint c)) sink' txdb cp = Inr rp0"
    and steps: "rfold (replay_step H S ops verify) rp0 (zip (ck_deltas c) ms) = Inr rp"
    by (auto simp add: replay_chunk_parts replay_parts_def)
  have "txdb_write S txdb cp = Inr (rp_txdb rp0)" using start by (auto simp add: start_replay_Inr)
  with replay_steps_txdb [OF steps] ms show ?thesis
    by (simp add: txdb_writes_def chunk_tx_maps_def chunk_ledgers_def)
qed

section \<open>The sink does not change what is accepted\<close>

text \<open>Sinks that accept every write: both sinks here, and what a replay on one says of another.\<close>

locale total_sink = node_sink_laws +
  assumes accepts: "\<exists>s'. ns_write_node ops s h v = Inr s'"
begin

lemma sink_nodes_accepted: "\<exists>s'. rfold (sink_node ops) s ns = Inr s'"
proof (induction ns arbitrary: s)
  case (Cons n ns)
  obtain u where "sink_node ops s n = Inr u"
    using accepts [of s "fst (node_entry n)" "snd (node_entry n)"] by (auto simp add: sink_node_entry sink_entry_def)
  with Cons.IH [of u] show ?case by simp
qed simp

end

interpretation nudb_sink: total_sink "nudb_node_sink X" for X
  by unfold_locales (simp add: nudb_node_sink_def)

interpretation no_sink: total_sink null_sink
  by unfold_locales (simp add: null_sink_def)

definition same_ledgers :: "'s replay \<Rightarrow> 't replay \<Rightarrow> bool" where
  "same_ledgers rp rp' \<longleftrightarrow>
     rp_state rp = rp_state rp' \<and> rp_rows rp = rp_rows rp' \<and> rp_root rp = rp_root rp' \<and>
     rp_prev_hash rp = rp_prev_hash rp' \<and> rp_txdb rp' = None"

context total_sink begin

lemma step_repeats:
  assumes "replay_step H S ops' verify rp l = Inr u" and "same_ledgers rp rp'"
  shows "\<exists>u'. replay_step H S' ops verify rp' l = Inr u' \<and> same_ledgers u u'"
proof -
  obtain d m where l: "l = (d, m)" by (cases l)
  from assms(1) obtain state sink1 new_root tx_root nodes where
    delta: "apply_delta ops' verify d (rp_state rp, rp_sink rp) = Inr (state, sink1)"
    and seq: "tm_ledger_seq m = ld_ledger_seq d"
    and root: "find_new_root (diff_added (ld_diff d)) (rp_root rp) = Inr new_root"
    and tree: "build_tx_tree H (tm_txns m) = Inr (tx_root, nodes)"
    and ok: "verify \<Longrightarrow> verify_ledger H m (diff_added (ld_diff d)) new_root tx_root (rp_prev_hash rp) = Inr ()"
    and u: "rp_state u = state" "rp_rows u = rp_rows rp @ [ledger_row m (rp_prev_hash rp) tx_root new_root]"
      "rp_root u = new_root" "rp_prev_hash u = tm_ledger_hash m"
    unfolding l replay_step_Inr by auto
  obtain t1 where t1: "rfold (sink_node ops) (rp_sink rp') (diff_added (ld_diff d)) = Inr t1"
    using sink_nodes_accepted by blast
  obtain t2 where t2: "rfold (sink_node ops) t1 nodes = Inr t2" using sink_nodes_accepted by blast
  have "apply_delta ops verify d (rp_state rp', rp_sink rp') = Inr (state, t1)"
    using delta t1 assms(2) by (auto simp add: apply_delta_Inr same_ledgers_def)
  then have "replay_step H S' ops verify rp' (d, m) =
      Inr \<lparr>rp_state = state, rp_rows = rp_rows rp' @ [ledger_row m (rp_prev_hash rp') tx_root new_root],
           rp_sink = t2, rp_txdb = None, rp_root = new_root, rp_prev_hash = tm_ledger_hash m\<rparr>"
    using seq root tree ok t2 assms(2)
    by (auto simp add: replay_step_Inr same_ledgers_def write_ledger_outputs_def)
  then show ?thesis using u assms(2) by (simp add: l same_ledgers_def)
qed

lemma steps_repeat:
  "rfold (replay_step H S ops' verify) rp ls = Inr u \<Longrightarrow> same_ledgers rp rp' \<Longrightarrow>
     \<exists>u'. rfold (replay_step H S' ops verify) rp' ls = Inr u' \<and> same_ledgers u u'"
proof (induction ls arbitrary: rp rp')
  case (Cons l ls)
  obtain v where v: "replay_step H S ops' verify rp l = Inr v" "rfold (replay_step H S ops' verify) v ls = Inr u"
    using Cons.prems(1) by (auto simp add: rbind_eq_Inr)
  obtain v' where "replay_step H S' ops verify rp' l = Inr v'" "same_ledgers v v'"
    using step_repeats [OF v(1) Cons.prems(2)] by blast
  with Cons.IH [OF v(2)] show ?case by simp
qed simp

lemma parts_repeat:
  assumes parts: "replay_parts H S ops' verify sink' txdb ns cp ls rp"
  shows "\<exists>rp'. replay_parts H S' ops verify sink None ns cp ls rp' \<and> same_ledgers rp rp'"
proof -
  let ?s = "foldl insert_node Map.empty ns"
  from parts obtain sink1 rp0 where start: "start_replay H S ops' ?s sink1 txdb cp = Inr rp0"
    and steps: "rfold (replay_step H S ops' verify) rp0 ls = Inr rp"
    by (auto simp add: replay_parts_def)
  obtain tx_root nodes where tree: "build_tx_tree H (tm_txns cp) = Inr (tx_root, nodes)"
    and rp0: "rp_state rp0 = ?s" "rp_rows rp0 = []" "rp_root rp0 = tm_account_hash cp"
      "rp_prev_hash rp0 = tm_ledger_hash cp"
    using start by (auto simp add: start_replay_Inr)
  obtain t1 t2 where t: "rfold (sink_node ops) sink ns = Inr t1" "rfold (sink_node ops) t1 nodes = Inr t2"
    using sink_nodes_accepted by metis
  let ?rp = "\<lparr>rp_state = ?s, rp_rows = [], rp_sink = t2, rp_txdb = None, rp_root = tm_account_hash cp,
      rp_prev_hash = tm_ledger_hash cp\<rparr>"
  have start': "start_replay H S' ops ?s t1 None cp = Inr ?rp"
    using tree t(2) by (simp add: start_replay_def txdb_write_def)
  have "same_ledgers rp0 ?rp" using rp0 by (simp add: same_ledgers_def)
  from steps_repeat [OF steps this]
  obtain rp' where rp': "rfold (replay_step H S' ops verify) ?rp ls = Inr rp'" "same_ledgers rp rp'" by blast
  have "replay_parts H S' ops verify sink None ns cp ls rp'"
    using parts t(1) start' rp' by (auto simp add: replay_parts_def same_ledgers_def)
  with rp'(2) show ?thesis by blast
qed

lemma import_repeats:
  assumes "import_chunk H S ops' verify bytes sink' txdb = oret rp"
  shows "\<exists>rp'. import_chunk H S' ops verify bytes sink None = oret rp' \<and> same_ledgers rp rp'"
proof -
  obtain v where v: "detect_version bytes = Inr v"
    using assms by (auto simp add: import_chunk_def obind_eq_Inr)
  show ?thesis
  proof (cases "v = format_version_streamed")
    case True
    then obtain cr ns cp ls rest where cr: "reader_open bytes = Inr cr" "collect_body H cr = Inr (ns, cp, ls, rest)"
      "replay_parts H S ops' verify sink' txdb ns cp ls rp"
      using assms v by (auto simp add: import_chunk_def replay_stream_parts)
    from parts_repeat [OF cr(3)] show ?thesis
      using True v cr(1,2) by (auto simp add: import_chunk_def replay_stream_parts)
  next
    case False
    then obtain c cp ms where c: "deserialize_chunk H bytes = Inr c" "ck_tx_maps c = cp # ms"
      "length (ck_deltas c) \<le> length ms"
      "replay_parts H S ops' verify sink' txdb (ck_checkpoint c) cp (zip (ck_deltas c) ms) rp"
      using assms v by (auto simp add: import_chunk_def replay_chunk_parts obind_eq_Inr)
    from parts_repeat [OF c(4)] show ?thesis
      using False v c(1-3) by (auto simp add: import_chunk_def replay_chunk_parts)
  qed
qed

end

section \<open>The loop over the chunks\<close>

lemma sink_write_node_frame [simp]:
  "sk_dat_tmp (snd (sink_write_node X st h v)) = sk_dat_tmp (snd st)"
  "p \<noteq> sk_dat_tmp (snd st) \<Longrightarrow> fst (sink_write_node X st h v) p = fst st p"
  by (auto simp add: sink_write_node_def Let_def append_file_def split: prod.splits)

lemma sink_write_all_frame [simp]:
  "sk_dat_tmp (snd (sink_write_all X st es)) = sk_dat_tmp (snd st)"
  "p \<noteq> sk_dat_tmp (snd st) \<Longrightarrow> fst (sink_write_all X st es) p = fst st p"
  unfolding sink_write_all_def by (induction es arbitrary: st) (auto split: prod.splits)

lemma sink_write_all_append:
  "sink_write_all X (sink_write_all X st es) es' = sink_write_all X st (es @ es')"
  by (simp add: sink_write_all_def)

text \<open>A chunk file together with the chunk it holds and the ledger rows its replay gives.\<close>

definition imported_from ::
  "sha512 \<Rightarrow> bool \<Rightarrow> file_system \<Rightarrow> string \<Rightarrow> chunk \<times> ledger_db_row list \<Rightarrow> bool" where
  "imported_from H verify fs path cr \<longleftrightarrow>
     (\<exists>bytes rp. fs path = Some bytes \<and> holds_chunk H bytes (fst cr) \<and>
        replay_chunk H (\<lambda>_. 0) null_sink verify (fst cr) () None = oret rp \<and> rp_rows rp = snd cr)"

definition all_entries :: "sha512 \<Rightarrow> bool \<Rightarrow> (chunk \<times> ledger_db_row list) list \<Rightarrow> (hash256 \<times> byte list) list" where
  "all_entries H with_db crs = concat (map (\<lambda>(c, rows). chunk_entries H with_db c rows) crs)"

definition all_tx_maps :: "(chunk \<times> ledger_db_row list) list \<Rightarrow> tx_map list" where
  "all_tx_maps crs = concat (map (\<lambda>(c, _). chunk_tx_maps c) crs)"

definition all_rows :: "(chunk \<times> ledger_db_row list) list \<Rightarrow> ledger_db_row list" where
  "all_rows crs = concat (map snd crs)"

lemma replay_discard:
  assumes "replay_chunk H S ops verify c sink txdb = oret rp"
  shows "\<exists>rp'. replay_chunk H S' null_sink verify c () None = oret rp' \<and> rp_rows rp' = rp_rows rp"
proof -
  from assms obtain cp ms where ms: "ck_tx_maps c = cp # ms" "length (ck_deltas c) \<le> length ms"
    "replay_parts H S ops verify sink txdb (ck_checkpoint c) cp (zip (ck_deltas c) ms) rp"
    by (auto simp add: replay_chunk_parts)
  obtain rp' where "replay_parts H S' null_sink verify () None (ck_checkpoint c) cp (zip (ck_deltas c) ms) rp'"
    "same_ledgers rp rp'"
    using no_sink.parts_repeat [OF ms(3)] by blast
  with ms show ?thesis by (auto simp add: replay_chunk_parts same_ledgers_def)
qed

lemma imported_from_unique:
  "imported_from H verify fs path cr \<Longrightarrow> imported_from H verify fs path cr' \<Longrightarrow> cr = cr'"
  unfolding imported_from_def using holds_chunk_unique by (fastforce intro!: prod_eqI)

lemma import_one_Inr:
  assumes "import_one H S X verify (sink, txdb, rows) path = oret st'"
  shows "\<exists>c rs txdb'. imported_from H verify (fst sink) path (c, rs) \<and>
    st' = (sink_write_all X sink (chunk_entries H (txdb \<noteq> None) c rs), txdb', rows @ rs) \<and>
    txdb_writes S txdb (chunk_tx_maps c) = Inr txdb'"
proof -
  from assms obtain bytes rp where b: "fst sink path = Some bytes"
    "import_chunk H S (nudb_node_sink X) verify bytes sink txdb = oret rp"
    "st' = (rp_sink rp, rp_txdb rp, rows @ rp_rows rp)"
    by (auto simp add: import_one_def obind_eq_Inr split: option.splits)
  obtain c where c: "holds_chunk H bytes c" "replay_chunk H S (nudb_node_sink X) verify c sink txdb = oret rp"
    using import_chunk_replays [OF b(2)] by blast
  have "imported_from H verify (fst sink) path (c, rp_rows rp)"
    using b(1) c(1) replay_discard [OF c(2)] unfolding imported_from_def by force
  then show ?thesis using b(3) replayed_sink [OF c(2)] replay_chunk_txdb [OF c(2)] by blast
qed

lemma txdb_writes_append:
  "txdb_writes S txdb (ms @ ns) = rbind (txdb_writes S txdb ms) (\<lambda>t. txdb_writes S t ns)"
  by (simp add: txdb_writes_def rfold_append)

lemma txdb_writes_None:
  "txdb_writes S txdb ms = Inr txdb' \<Longrightarrow> txdb' = None \<longleftrightarrow> txdb = None"
  unfolding txdb_writes_def
proof (induction ms arbitrary: txdb)
  case (Cons m ms)
  then obtain u where "txdb_write S txdb m = Inr u" "rfold (txdb_write S) u ms = Inr txdb'"
    by (auto simp add: rbind_eq_Inr)
  with Cons.IH [of u] txdb_write_Inr [of S txdb m u] show ?case by simp
qed simp

lemma import_all_Inr:
  assumes "ofold (import_one H S X verify) (sink, txdb, rows) paths = oret st'"
    and "sk_dat_tmp (snd sink) \<notin> set paths"
  shows "\<exists>crs txdb'. list_all2 (imported_from H verify (fst sink)) paths crs \<and>
    st' = (sink_write_all X sink (all_entries H (txdb \<noteq> None) crs), txdb', rows @ all_rows crs) \<and>
    txdb_writes S txdb (all_tx_maps crs) = Inr txdb'"
  using assms
proof (induction paths arbitrary: sink txdb rows)
  case Nil
  then show ?case
    by (intro exI [of _ "[]"] exI [of _ txdb])
      (simp add: all_entries_def all_rows_def all_tx_maps_def sink_write_all_def txdb_writes_def)
next
  case (Cons path paths)
  then obtain u where u: "import_one H S X verify (sink, txdb, rows) path = oret u"
    "ofold (import_one H S X verify) u paths = oret st'" by (auto simp add: obind_eq_Inr)
  obtain c rs txdb1 where c: "imported_from H verify (fst sink) path (c, rs)"
    "u = (sink_write_all X sink (chunk_entries H (txdb \<noteq> None) c rs), txdb1, rows @ rs)"
    "txdb_writes S txdb (chunk_tx_maps c) = Inr txdb1"
    using import_one_Inr [OF u(1)] by blast
  let ?sink = "sink_write_all X sink (chunk_entries H (txdb \<noteq> None) c rs)"
  have tmp: "sk_dat_tmp (snd ?sink) \<notin> set paths" using Cons.prems(2) by simp
  obtain crs txdb' where crs: "list_all2 (imported_from H verify (fst ?sink)) paths crs"
    "st' = (sink_write_all X ?sink (all_entries H (txdb1 \<noteq> None) crs), txdb', (rows @ rs) @ all_rows crs)"
    "txdb_writes S txdb1 (all_tx_maps crs) = Inr txdb'"
    using Cons.IH [OF u(2) [unfolded c(2)] tmp] by blast
  have "fst ?sink z = fst sink z" if "z \<in> set paths" for z
    using that Cons.prems(2) by (intro sink_write_all_frame(2)) auto
  then have "list_all2 (imported_from H verify (fst sink)) paths crs"
    using crs(1) by (elim list.rel_mono_strong) (simp add: imported_from_def)
  then have "list_all2 (imported_from H verify (fst sink)) (path # paths) ((c, rs) # crs)" using c(1) by simp
  moreover have "st' = (sink_write_all X sink (all_entries H (txdb \<noteq> None) ((c, rs) # crs)), txdb',
      rows @ all_rows ((c, rs) # crs))"
    using crs(2) txdb_writes_None [OF c(3)] by (simp add: sink_write_all_append all_entries_def all_rows_def)
  moreover have "txdb_writes S txdb (all_tx_maps ((c, rs) # crs)) = Inr txdb'"
    using c(3) crs(3) by (simp add: all_tx_maps_def txdb_writes_append)
  ultimately show ?case by blast
qed

section \<open>The rows of the replayed ledgers\<close>

text \<open>
  The row of ledger \<open>m\<close> with parent \<open>parent\<close>, field by field. In a verified replay the account
  hash is the recorded one and the fields of the row hash to its own LedgerHash.
\<close>

definition row_of_ledger :: "sha512 \<Rightarrow> bool \<Rightarrow> tx_map \<Rightarrow> tx_map \<Rightarrow> ledger_db_row \<Rightarrow> bool" where
  "row_of_ledger H verify parent m row \<longleftrightarrow>
     lr_ledger_hash row = tm_ledger_hash m \<and> lr_ledger_seq row = tm_ledger_seq m \<and>
     lr_prev_hash row = tm_ledger_hash parent \<and> lr_total_coins row = tm_drops m \<and>
     lr_closing_time row = tm_close_time m \<and> lr_prev_closing_time row = tm_parent_close_time m \<and>
     lr_close_time_resolution row = tm_close_time_resolution m \<and> lr_close_flags row = tm_close_flags m \<and>
     (\<exists>nodes. build_tx_tree H (tm_txns m) = Inr (lr_trans_hash row, nodes)) \<and>
     (verify \<longrightarrow> lr_account_hash row = tm_account_hash m \<and>
        calculate_ledger_hash H (row_input row) = lr_ledger_hash row)"

text \<open>One row for every ledger of the chunk but the checkpoint ledger, in order.\<close>

definition rows_of_chunk :: "sha512 \<Rightarrow> bool \<Rightarrow> chunk \<Rightarrow> ledger_db_row list \<Rightarrow> bool" where
  "rows_of_chunk H verify c rows \<longleftrightarrow>
     length rows = length (ck_deltas c) \<and>
     (\<forall>i < length rows. row_of_ledger H verify (ck_tx_maps c ! i) (ck_tx_maps c ! Suc i) (rows ! i))"

lemma replay_step_row:
  assumes "replay_step H S ops verify rp (d, m) = Inr rp'" and "rp_prev_hash rp = tm_ledger_hash parent"
  shows "\<exists>row. rp_rows rp' = rp_rows rp @ [row] \<and> row_of_ledger H verify parent m row \<and>
    rp_prev_hash rp' = tm_ledger_hash m"
proof -
  from assms(1) obtain state new_root tx_root nodes sink txdb where
    tree: "build_tx_tree H (tm_txns m) = Inr (tx_root, nodes)"
    and ver: "verify \<longrightarrow> verify_ledger H m (diff_added (ld_diff d)) new_root tx_root (rp_prev_hash rp) = Inr ()"
    and rp': "rp' = \<lparr>rp_state = state, rp_rows = rp_rows rp @ [ledger_row m (rp_prev_hash rp) tx_root new_root],
       rp_sink = sink, rp_txdb = txdb, rp_root = new_root, rp_prev_hash = tm_ledger_hash m\<rparr>"
    unfolding replay_step_Inr by blast
  have "row_of_ledger H verify parent m (ledger_row m (rp_prev_hash rp) tx_root new_root)"
    using tree ver assms(2)
    by (auto simp add: row_of_ledger_def ledger_row_def row_input_def hash_input_def verify_ledger_Inr)
  then show ?thesis by (simp add: rp')
qed

lemma replay_steps_rows:
  "rfold (replay_step H S ops verify) rp ls = Inr rp' \<Longrightarrow> rp_prev_hash rp = tm_ledger_hash cp \<Longrightarrow>
     \<exists>rows. rp_rows rp' = rp_rows rp @ rows \<and> length rows = length ls \<and>
       (\<forall>i < length ls. row_of_ledger H verify ((cp # map snd ls) ! i) (snd (ls ! i)) (rows ! i))"
proof (induction ls arbitrary: rp cp)
  case (Cons l ls)
  obtain d m where l: "l = (d, m)" by (cases l)
  obtain u where u: "replay_step H S ops verify rp (d, m) = Inr u" "rfold (replay_step H S ops verify) u ls = Inr rp'"
    using Cons.prems(1) by (auto simp add: rbind_eq_Inr l)
  obtain row where row: "rp_rows u = rp_rows rp @ [row]" "row_of_ledger H verify cp m row"
    "rp_prev_hash u = tm_ledger_hash m"
    using replay_step_row [OF u(1) Cons.prems(2)] by blast
  obtain rows where "rp_rows rp' = rp_rows u @ rows" "length rows = length ls"
    "\<forall>i < length ls. row_of_ledger H verify ((m # map snd ls) ! i) (snd (ls ! i)) (rows ! i)"
    using Cons.IH [OF u(2) row(3)] by blast
  with row(1,2) show ?case
    by (intro exI [of _ "row # rows"]) (simp add: l All_less_Suc2)
qed simp

lemma replay_chunk_rows:
  assumes "replay_chunk H S ops verify c sink txdb = oret rp"
  shows "rows_of_chunk H verify c (rp_rows rp)"
proof -
  from assms obtain cp ms rp0 sink' where ms: "ck_tx_maps c = cp # ms" "length (ck_deltas c) \<le> length ms"
    and start: "start_replay H S ops (foldl insert_node Map.empty (ck_checkpoint c)) sink' txdb cp = Inr rp0"
    and steps: "rfold (replay_step H S ops verify) rp0 (zip (ck_deltas c) ms) = Inr rp"
    by (auto simp add: replay_chunk_parts replay_parts_def)
  have "rp_prev_hash rp0 = tm_ledger_hash cp" "rp_rows rp0 = []" using start by (auto simp add: start_replay_Inr)
  with replay_steps_rows [OF steps, of cp] have len: "length (rp_rows rp) = length (ck_deltas c)"
    and rows: "\<forall>i < length (ck_deltas c). row_of_ledger H verify
      ((cp # map snd (zip (ck_deltas c) ms)) ! i) (ms ! i) (rp_rows rp ! i)"
    using ms(2) by auto
  have "(cp # map snd (zip (ck_deltas c) ms)) ! i = (cp # ms) ! i" if "i < length (ck_deltas c)" for i
    using that ms(2) by (cases i) simp_all
  with rows len ms(1) show ?thesis by (simp add: rows_of_chunk_def)
qed

text \<open>A stored row keeps its place; of the new rows under one LedgerHash the first is kept.\<close>

lemma write_ledger_db_lookup:
  "write_ledger_db rows t h = (case t h of None \<Rightarrow> find (\<lambda>row. lr_ledger_hash row = h) rows | Some row \<Rightarrow> Some row)"
  unfolding write_ledger_db_def
  by (induction rows arbitrary: t) (auto simp add: insert_or_ignore_def split: option.splits)

section \<open>What main publishes\<close>

definition tables_for :: "sha256_fn \<Rightarrow> tx_map list \<Rightarrow> tx_tables" where
  "tables_for S ms =
     \<lparr>tt_transactions = map_of (rev (map (\<lambda>(m, tx). transaction_row S m tx) (ledger_transactions ms))),
      tt_account_transactions = concat (map (\<lambda>(m, tx). account_rows S m tx) (ledger_transactions ms))\<rparr>"

lemma txdb_writes_tables:
  assumes "txdb_writes S (Some t) ms = Inr txdb'" and "td_conn t = Some schema_tables"
  shows "txdb' = Some (wrote S t (ledger_transactions ms)) \<and>
    td_conn (wrote S t (ledger_transactions ms)) = Some (tables_for S ms)"
proof -
  have some: "txdb_writes S (Some t) ms = rbind (rlift TxDbFailed (rfold (txdb_write_ledger S) t ms)) (\<lambda>t. Inr (Some t))" for t
    unfolding txdb_writes_def
  proof (induction ms arbitrary: t)
    case (Cons m ms)
    then show ?case by (cases "txdb_write_ledger S t m") (simp_all add: txdb_write_def rlift_def)
  qed (simp add: rlift_def)
  have conn: "td_conn t \<noteq> None" using assms(2) by simp
  have "rfold (txdb_write_ledger S) t ms = Inr (wrote S t (ledger_transactions ms))"
    using assms(1) txdb_ledgers_wrote [OF conn, of ms S] by (auto simp add: some rlift_def split: if_splits)
  then show ?thesis
    using assms by (simp add: some rlift_def wrote_def schema_tables_def tables_for_def)
qed

lemma sink_inv_other:
  assumes "sink_inv X fs0 p M (fs, sk)" and "q \<noteq> tmp_path p"
  shows "sink_inv X (fs0(q := v)) p M (fs(q := v), sk)"
  using assms by (auto simp add: sink_inv_def fun_upd_twist)

lemma sink_inv_rename:
  assumes "sink_inv X fs0 p M (fs, sk)" and "q \<noteq> tmp_path p" and "r \<noteq> tmp_path p"
  shows "\<exists>fs1. sink_inv X fs1 p M (rename_file fs q r, sk)"
  unfolding rename_file_def using sink_inv_other [OF sink_inv_other [OF assms(1,3)] assms(2)] by blast

text \<open>A created sink, after any number of writes that fit.\<close>

lemma sink_written:
  assumes "sink_inv X fs0 p Map.empty (fs, snd (sink_create fs1 p))" and "store_fits es"
    and "sink_write_all X (fs, snd (sink_create fs1 p)) es = (fs', sk)"
  shows "sink_inv X fs0 p (map_of es) (fs', sk) \<and> length (sk_placed sk) < 2 ^ 43 \<and>
    unat (sk_offset sk) + 34 * length (sk_placed sk) < lim48"
proof -
  let ?st = "(fs, snd (sink_create fs1 p))"
  have o: "unat (sk_offset (snd ?st)) = 92" "sk_placed (snd ?st) = []"
    by (simp_all add: sink_create_def Let_def dat_header_size_def)
  have fits: "92 + sum_list (map record_bytes es) + 34 * length es < lim48"
    using assms(2) by (simp only: store_fits_def)
  then have "unat (sk_offset (snd ?st)) + sum_list (map record_bytes es) < lim48" using o(1) by linarith
  from sink_write_all_inv [OF assms(1) this]
  have inv: "sink_inv X fs0 p (map_of es) (fs', sk)"
    and off: "unat (sk_offset sk) \<le> 92 + sum_list (map record_bytes es)" and n: "length (sk_placed sk) \<le> length es"
    using o by (simp_all add: assms(3))
  have "34 * length es < lim48" using fits by linarith
  then have "length (sk_placed sk) < 2 ^ 43" using n by simp
  moreover have "unat (sk_offset sk) + 34 * length (sk_placed sk) < lim48" using off n fits by linarith
  ultimately show ?thesis using inv by blast
qed

lemma sink_write_all_final [simp]: "sk_dat_final (snd (sink_write_all X st es)) = sk_dat_final (snd st)"
  unfolding sink_write_all_def
proof (induction es arbitrary: st)
  case (Cons e es)
  have "sk_dat_final (snd (sink_write_node X st h v)) = sk_dat_final (snd st)" for h v
    by (auto simp add: sink_write_node_def Let_def split: prod.splits)
  with Cons.IH show ?case by (simp split: prod.splits)
qed simp

lemma swap_run_frame:
  "q \<notin> {sp_dat_tmp P, sp_dat_final P, sp_key_tmp P, sp_key P, sp_key_bak P} \<Longrightarrow> swap_run P key fs q = fs q"
  by (simp add: swap_run_def Let_def rename_file_def remove_file_def)

lemma sink_finish_frame:
  assumes "sink_finish X (fs, sk) k = Some st"
    and "q \<notin> {sk_dat_tmp sk, sk_dat_final sk, tmp_path k, k, k @ ''.bak''}"
  shows "sink_drop st q = fs q"
  using assms swap_run_frame [of q "swap_paths_for sk k"]
  by (auto simp add: sink_finish_def sink_drop_def swap_paths_for_def bind_eq_Some_conv)

definition store_serves ::
  "xxh64 \<Rightarrow> file_system \<Rightarrow> string \<Rightarrow> string \<Rightarrow> (hash256 \<times> byte list) list \<Rightarrow> bool" where
  "store_serves X fs dat key es \<longleftrightarrow>
     (\<exists>D k s. fs dat = Some D \<and> fs key = Some k \<and> shard_open D k = Some (Inr s) \<and>
        (\<forall>h. fetch X s h = Some (Inr (map_of es h))))"

text \<open>The paths main writes are different, and no chunk is read from a temporary one.\<close>

definition import_paths :: "import_args \<Rightarrow> string \<Rightarrow> bool" where
  "import_paths args dat \<longleftrightarrow>
     (let key = with_extension dat ''key'';
          stores = [tmp_path dat, dat, tmp_path key, key, key @ ''.bak''];
          dbs = (case ia_txdb args of None \<Rightarrow> [] | Some p \<Rightarrow> [tmp_path p, p])
      in distinct (stores @ dbs) \<and> set (ia_chunks args) \<inter> {tmp_path dat} = {} \<and>
         set (ia_chunks args) \<inter> set dbs = {})"

lemma import_main_loop:
  assumes "import_main H S X F args w = Some (w', Inr ())" and "ia_dat args = Some dat"
  shows "\<exists>fs txdb st. create_txdb F (fst (sink_create (wd_files w) dat)) (ia_txdb args) = Inr (fs, txdb) \<and>
    ofold (import_one H S X (\<not> ia_skip_verify args)) ((fs, snd (sink_create (wd_files w) dat)), txdb, []) (ia_chunks args) = oret st \<and>
    publish X F (ia_ledger_db args) (with_extension dat ''key'') w st = Some (w', Inr ())"
proof -
  obtain fs0 sk where sk: "sink_create (wd_files w) dat = (fs0, sk)" by (cases "sink_create (wd_files w) dat")
  have "\<not> ia_verify_only args" using assms by (auto simp add: import_main_def)
  then have main: "(case create_txdb F fs0 (ia_txdb args) of
      Inl e \<Rightarrow> Some (w\<lparr>wd_files := drop_sinks fs0 sk None\<rparr>, Inl (ImportFailed (TxDbFailed e)))
    | Inr (fs, txdb) \<Rightarrow>
        Option.bind (ofold (import_one H S X (\<not> ia_skip_verify args)) ((fs, sk), txdb, []) (ia_chunks args))
          (\<lambda>r. case r of
             Inl e \<Rightarrow> Some (w\<lparr>wd_files := drop_sinks fs sk txdb\<rparr>, Inl (ImportFailed e))
           | Inr st \<Rightarrow> publish X F (ia_ledger_db args) (with_extension dat ''key'') w st)) = Some (w', Inr ())"
    using assms by (simp add: import_main_def sk Let_def)
  then obtain fs txdb where db: "create_txdb F fs0 (ia_txdb args) = Inr (fs, txdb)"
    by (cases "create_txdb F fs0 (ia_txdb args)") auto
  then obtain r where r: "ofold (import_one H S X (\<not> ia_skip_verify args)) ((fs, sk), txdb, []) (ia_chunks args) = Some r"
    "(case r of Inl e \<Rightarrow> Some (w\<lparr>wd_files := drop_sinks fs sk txdb\<rparr>, Inl (ImportFailed e))
      | Inr st \<Rightarrow> publish X F (ia_ledger_db args) (with_extension dat ''key'') w st) = Some (w', Inr ())"
    using main by (auto simp add: bind_eq_Some_conv)
  then obtain st where "r = Inr st" by (cases r) auto
  with db r sk show ?thesis by (intro exI [of _ fs] exI [of _ txdb] exI [of _ st]) simp
qed

lemma publish_Inr:
  assumes "publish X F ledger_db key_path w ((fs, sk), txdb, rows) = Some (w', Inr ())"
  shows "\<exists>fs1 st. (case txdb of None \<Rightarrow> fs1 = fs
      | Some t \<Rightarrow> \<exists>c. td_conn t = Some c \<and> fs1 = rename_file (fs(td_tmp t \<mapsto> F c)) (td_tmp t) (td_dest t)) \<and>
    sink_finish X (fs1, sk) key_path = Some st \<and> wd_files w' = sink_drop st \<and>
    (\<forall>p. ledger_db = Some p \<longrightarrow> wd_ledger_dbs w' p =
       Some (write_ledger_db rows (case wd_ledger_dbs w p of None \<Rightarrow> Map.empty | Some t \<Rightarrow> t)))"
proof -
  define fin where "fin = (case txdb of None \<Rightarrow> Inr fs
      | Some t \<Rightarrow> rbind (txdb_finish F (fs, t)) (\<lambda>st. Inr (txdb_drop st)))"
  obtain fs1 where fs1: "fin = Inr fs1"
    using assms by (cases fin) (auto simp add: publish_def fin_def)
  then obtain st where st: "sink_finish X (fs1, sk) key_path = Some st"
    "w' = write_rows ledger_db rows (w\<lparr>wd_files := sink_drop st\<rparr>)"
    using assms by (auto simp add: publish_def fin_def bind_eq_Some_conv)
  have "case txdb of None \<Rightarrow> fs1 = fs
      | Some t \<Rightarrow> \<exists>c. td_conn t = Some c \<and> fs1 = rename_file (fs(td_tmp t \<mapsto> F c)) (td_tmp t) (td_dest t)"
    using fs1 by (auto simp add: fin_def txdb_finish_def txdb_drop_def split: option.splits)
  moreover have "wd_files w' = sink_drop st" using st(2) by (simp add: write_rows_def Let_def split: option.splits)
  moreover have "wd_ledger_dbs w' p = Some (write_ledger_db rows (case wd_ledger_dbs w p of None \<Rightarrow> Map.empty | Some t \<Rightarrow> t))"
    if "ledger_db = Some p" for p using that st(2) by (simp add: write_rows_def Let_def)
  ultimately show ?thesis using st(1) by blast
qed

text \<open>The sink and the database as the loop starts: nothing written, other files as before.\<close>

lemma created_sinks:
  assumes "create_txdb F (fst (sink_create fs0 dat)) path = Inr (fs, txdb)"
    and "\<And>p. path = Some p \<Longrightarrow> tmp_path p \<noteq> tmp_path dat"
  shows "\<exists>fs1. sink_inv X fs1 dat Map.empty (fs, snd (sink_create fs0 dat))"
    and "q \<noteq> tmp_path dat \<Longrightarrow> \<forall>p. path = Some p \<longrightarrow> q \<noteq> tmp_path p \<Longrightarrow> fs q = fs0 q"
    and "case path of None \<Rightarrow> txdb = None
      | Some p \<Rightarrow> \<exists>t. txdb = Some t \<and> td_conn t = Some schema_tables \<and> td_tmp t = tmp_path p \<and> td_dest t = p"
proof -
  let ?fs = "fst (sink_create fs0 dat)"
  have inv: "sink_inv X fs0 dat Map.empty (?fs, snd (sink_create fs0 dat))" by (simp add: sink_create_inv)
  have frame: "?fs q = fs0 q" if "q \<noteq> tmp_path dat" for q
    using that by (simp add: sink_create_def Let_def append_file_def)
  show "case path of None \<Rightarrow> txdb = None
      | Some p \<Rightarrow> \<exists>t. txdb = Some t \<and> td_conn t = Some schema_tables \<and> td_tmp t = tmp_path p \<and> td_dest t = p"
    using assms(1)
    by (auto simp add: create_txdb_def txdb_create_def rbind_eq_Inr Let_def split: option.splits if_splits)
  show "\<exists>fs1. sink_inv X fs1 dat Map.empty (fs, snd (sink_create fs0 dat))"
  proof (cases path)
    case None
    with assms(1) inv show ?thesis by (auto simp add: create_txdb_def)
  next
    case (Some p)
    then have "fs = ?fs(tmp_path p \<mapsto> F schema_tables)"
      using assms(1) by (auto simp add: create_txdb_def txdb_create_def rbind_eq_Inr Let_def remove_file_def split: if_splits)
    with sink_inv_other [OF inv assms(2) [OF Some]] show ?thesis by blast
  qed
  show "q \<noteq> tmp_path dat \<Longrightarrow> \<forall>p. path = Some p \<longrightarrow> q \<noteq> tmp_path p \<Longrightarrow> fs q = fs0 q"
    using assms(1) frame
    by (auto simp add: create_txdb_def txdb_create_def rbind_eq_Inr Let_def remove_file_def split: option.splits if_splits)
qed

text \<open>
  A successful run in its stages: the sinks \<open>fs\<close>, \<open>txdb\<close> after creation, \<open>fs1\<close>, \<open>sk1\<close> after
  the loop, \<open>fs2\<close> after the database is published, \<open>st2\<close> after the store is.
\<close>

definition import_stages ::
  "sha512 \<Rightarrow> sha256_fn \<Rightarrow> xxh64 \<Rightarrow> table_file \<Rightarrow> import_args \<Rightarrow> string \<Rightarrow> world \<Rightarrow> world
     \<Rightarrow> (chunk \<times> ledger_db_row list) list \<Rightarrow> file_system \<Rightarrow> file_system \<Rightarrow> file_system \<Rightarrow> nudb_sink
     \<Rightarrow> file_system \<times> nudb_sink \<Rightarrow> bool" where
  "import_stages H S X F args dat w w' crs fs fs1 fs2 sk1 st2 \<longleftrightarrow>
     (\<exists>fs0. sink_inv X fs0 dat Map.empty (fs, snd (sink_create (wd_files w) dat))) \<and>
     list_all2 (imported_from H (\<not> ia_skip_verify args) (wd_files w)) (ia_chunks args) crs \<and>
     sink_write_all X (fs, snd (sink_create (wd_files w) dat)) (all_entries H (ia_txdb args \<noteq> None) crs) = (fs1, sk1) \<and>
     sk_dat_tmp sk1 = tmp_path dat \<and> sk_dat_final sk1 = dat \<and>
     (case ia_txdb args of None \<Rightarrow> fs2 = fs1
      | Some p \<Rightarrow> fs2 = rename_file (fs1(tmp_path p \<mapsto> F (tables_for S (all_tx_maps crs)))) (tmp_path p) p) \<and>
     sink_finish X (fs2, sk1) (with_extension dat ''key'') = Some st2 \<and> wd_files w' = sink_drop st2 \<and>
     (\<forall>p. ia_ledger_db args = Some p \<longrightarrow> wd_ledger_dbs w' p =
       Some (write_ledger_db (all_rows crs) (case wd_ledger_dbs w p of None \<Rightarrow> Map.empty | Some t \<Rightarrow> t)))"

lemma import_runs_in_stages:
  assumes main: "import_main H S X F args w = Some (w', Inr ())" and dat: "ia_dat args = Some dat"
    and paths: "import_paths args dat"
  shows "\<exists>crs fs fs1 fs2 sk1 st2. import_stages H S X F args dat w w' crs fs fs1 fs2 sk1 st2"
proof -
  let ?key = "with_extension dat ''key''" and ?sk = "snd (sink_create (wd_files w) dat)"
  obtain fs txdb st where create: "create_txdb F (fst (sink_create (wd_files w) dat)) (ia_txdb args) = Inr (fs, txdb)"
    and loop: "ofold (import_one H S X (\<not> ia_skip_verify args)) ((fs, ?sk), txdb, []) (ia_chunks args) = oret st"
    and pub: "publish X F (ia_ledger_db args) ?key w st = Some (w', Inr ())"
    using import_main_loop [OF main dat] by blast
  have tmp: "sk_dat_tmp ?sk = tmp_path dat" "sk_dat_final ?sk = dat"
    by (simp_all add: sink_create_def Let_def)
  have apart: "\<And>p. ia_txdb args = Some p \<Longrightarrow> tmp_path p \<noteq> tmp_path dat"
    and no_tmp: "sk_dat_tmp (snd (fs, ?sk)) \<notin> set (ia_chunks args)"
    using paths by (auto simp add: import_paths_def Let_def tmp)
  note created = created_sinks [OF create apart]
  have with_db: "(txdb \<noteq> None) = (ia_txdb args \<noteq> None)" using created(3) by (cases "ia_txdb args") auto
  obtain crs txdb' where crs: "list_all2 (imported_from H (\<not> ia_skip_verify args) fs) (ia_chunks args) crs"
    and st: "st = (sink_write_all X (fs, ?sk) (all_entries H (ia_txdb args \<noteq> None) crs), txdb', all_rows crs)"
    and writes: "txdb_writes S txdb (all_tx_maps crs) = Inr txdb'"
    using import_all_Inr [OF loop no_tmp] unfolding with_db by auto
  obtain fs1 sk1 where written: "sink_write_all X (fs, ?sk) (all_entries H (ia_txdb args \<noteq> None) crs) = (fs1, sk1)"
    by (cases "sink_write_all X (fs, ?sk) (all_entries H (ia_txdb args \<noteq> None) crs)")
  have "sk_dat_tmp (snd (sink_write_all X (fs, ?sk) (all_entries H (ia_txdb args \<noteq> None) crs))) = tmp_path dat"
    "sk_dat_final (snd (sink_write_all X (fs, ?sk) (all_entries H (ia_txdb args \<noteq> None) crs))) = dat"
    by (simp_all only: sink_write_all_frame(1) sink_write_all_final snd_conv tmp)
  then have sk1: "sk_dat_tmp sk1 = tmp_path dat" "sk_dat_final sk1 = dat" by (simp_all only: written snd_conv)
  from publish_Inr [OF pub [unfolded st written]]
  obtain fs2 st2 where db: "case txdb' of None \<Rightarrow> fs2 = fs1
      | Some t \<Rightarrow> \<exists>c. td_conn t = Some c \<and> fs2 = rename_file (fs1(td_tmp t \<mapsto> F c)) (td_tmp t) (td_dest t)"
    and fin: "sink_finish X (fs2, sk1) ?key = Some st2" "wd_files w' = sink_drop st2"
    and rows: "\<forall>p. ia_ledger_db args = Some p \<longrightarrow> wd_ledger_dbs w' p =
       Some (write_ledger_db (all_rows crs) (case wd_ledger_dbs w p of None \<Rightarrow> Map.empty | Some t \<Rightarrow> t))"
    by blast
  have "case ia_txdb args of None \<Rightarrow> fs2 = fs1
      | Some p \<Rightarrow> fs2 = rename_file (fs1(tmp_path p \<mapsto> F (tables_for S (all_tx_maps crs)))) (tmp_path p) p"
  proof (cases "ia_txdb args")
    case None
    then show ?thesis using db with_db txdb_writes_None [OF writes] by (auto split: option.splits)
  next
    case (Some p)
    then obtain t where t: "txdb = Some t" "td_conn t = Some schema_tables" "td_tmp t = tmp_path p" "td_dest t = p"
      using created(3) by auto
    from txdb_writes_tables [OF writes [unfolded t(1)] t(2)] show ?thesis using Some db t by auto
  qed
  moreover have "list_all2 (imported_from H (\<not> ia_skip_verify args) (wd_files w)) (ia_chunks args) crs"
    using crs
  proof (elim list.rel_mono_strong)
    fix q cr
    assume "q \<in> set (ia_chunks args)" and i: "imported_from H (\<not> ia_skip_verify args) fs q cr"
    then have "fs q = wd_files w q"
      using paths by (intro created(2)) (auto simp add: import_paths_def Let_def)
    with i show "imported_from H (\<not> ia_skip_verify args) (wd_files w) q cr" by (simp add: imported_from_def)
  qed
  ultimately show ?thesis
    using created(1) written sk1 fin rows unfolding import_stages_def by blast
qed

section \<open>A run that succeeds\<close>

text \<open>After a loop that returns, an import whose entries fit the store succeeds.\<close>

lemma import_main_succeeds:
  assumes dat: "ia_dat args = Some dat" and "\<not> ia_verify_only args" and paths: "import_paths args dat"
    and create: "create_txdb F (fst (sink_create (wd_files w) dat)) (ia_txdb args) = Inr (fs, txdb)"
    and loop: "ofold (import_one H S X (\<not> ia_skip_verify args)) ((fs, snd (sink_create (wd_files w) dat)), txdb, [])
      (ia_chunks args) = oret (sink_write_all X (fs, snd (sink_create (wd_files w) dat)) es, txdb', rows)"
    and writes: "txdb_writes S txdb ms = Inr txdb'" and fits: "store_fits es"
  shows "\<exists>w'. import_main H S X F args w = Some (w', Inr ())"
proof -
  let ?key = "with_extension dat ''key''" and ?sk = "snd (sink_create (wd_files w) dat)"
  have apart: "\<And>p. ia_txdb args = Some p \<Longrightarrow> tmp_path p \<noteq> tmp_path dat"
    using paths by (auto simp add: import_paths_def Let_def)
  note created = created_sinks [OF create apart]
  obtain fs0 where inv0: "sink_inv X fs0 dat Map.empty (fs, ?sk)" using created(1) by blast
  obtain fs1 sk1 where w1: "sink_write_all X (fs, ?sk) es = (fs1, sk1)" by (cases "sink_write_all X (fs, ?sk) es")
  note inv = sink_written [OF inv0 fits w1]
  have "\<exists>fs2 fs3. (case txdb' of None \<Rightarrow> Inr fs1 | Some t \<Rightarrow> rbind (txdb_finish F (fs1, t)) (\<lambda>st. Inr (txdb_drop st))) = Inr fs2 \<and>
      sink_inv X fs3 dat (map_of es) (fs2, sk1)"
  proof (cases "ia_txdb args")
    case None
    then have "txdb' = None" using created(3) txdb_writes_None [OF writes] by simp
    with inv show ?thesis by auto
  next
    case (Some p)
    then obtain t where t: "txdb = Some t" "td_conn t = Some schema_tables" "td_tmp t = tmp_path p" "td_dest t = p"
      using created(3) by auto
    note tab = txdb_writes_tables [OF writes [unfolded t(1)] t(2)]
    have p: "tmp_path p \<noteq> tmp_path dat" "p \<noteq> tmp_path dat"
      using paths Some by (auto simp add: import_paths_def Let_def)
    let ?fs2 = "rename_file (fs1(tmp_path p \<mapsto> F (tables_for S ms))) (tmp_path p) p"
    obtain fs3 where "sink_inv X fs3 dat (map_of es) (?fs2, sk1)"
      using sink_inv_rename [OF sink_inv_other [OF conjunct1 [OF inv] p(1)] p] by blast
    with tab t show ?thesis
      by (intro exI [of _ ?fs2] exI [of _ fs3]) (simp add: txdb_finish_def txdb_drop_def)
  qed
  then obtain fs2 fs3 where fs2: "(case txdb' of None \<Rightarrow> Inr fs1
      | Some t \<Rightarrow> rbind (txdb_finish F (fs1, t)) (\<lambda>st. Inr (txdb_drop st))) = Inr fs2"
    "sink_inv X fs3 dat (map_of es) (fs2, sk1)" by blast
  have "store_paths_ok dat ?key"
    using paths by (auto simp add: import_paths_def Let_def store_paths_ok_def)
  from sink_finish_store [OF fs2(2) this] inv obtain st where "sink_finish X (fs2, sk1) ?key = Some st" by blast
  with fs2(1) have "\<exists>w'. publish X F (ia_ledger_db args) ?key w ((fs1, sk1), txdb', rows) = Some (w', Inr ())"
    by (simp add: publish_def)
  then show ?thesis
    using assms(1,2) create loop w1 by (simp add: import_main_def case_prod_beta Let_def)
qed

section \<open>A dry run\<close>

lemma import_one_repeats:
  assumes "import_one H S X True (sink, txdb, rows) path = oret st" and "fst sink path = fs path"
  shows "\<exists>k. verify_one H S' fs n path = oret k"
proof -
  from assms obtain bytes rp where b: "fs path = Some bytes"
    "import_chunk H S (nudb_node_sink X) True bytes sink txdb = oret rp"
    by (auto simp add: import_one_def obind_eq_Inr split: option.splits)
  from no_sink.import_repeats [OF b(2)] obtain rp' where "import_chunk H S' null_sink True bytes () None = oret rp'"
    by blast
  with b(1) show ?thesis by (simp add: verify_one_def)
qed

lemma verify_one_repeats:
  assumes "verify_one H S' fs n path = oret n'" and "fst sink path = fs path"
  shows "\<exists>es rs. import_one H S X True (sink, None, rows) path = oret (sink_write_all X sink es, None, rs)"
proof -
  from assms obtain bytes rp where b: "fst sink path = Some bytes"
    "import_chunk H S' null_sink True bytes () None = oret rp"
    by (auto simp add: verify_one_def obind_eq_Inr split: option.splits)
  from nudb_sink.import_repeats [OF b(2)] obtain rp' where
    rp': "import_chunk H S (nudb_node_sink X) True bytes sink None = oret rp'" "same_ledgers rp rp'"
    by blast
  have one: "import_one H S X True (sink, None, rows) path = oret (rp_sink rp', None, rows @ rp_rows rp')"
    using b(1) rp' by (simp add: import_one_def same_ledgers_def)
  obtain es where "rp_sink rp' = sink_write_all X sink es" using import_one_Inr [OF one] by blast
  with one show ?thesis by auto
qed

lemma loop_predicted:
  assumes "sk_dat_tmp (snd sink) \<notin> set paths" and "\<forall>p \<in> set paths. fst sink p = fs p"
  shows "(\<exists>n'. ofold (verify_one H S' fs) n paths = oret n') \<longleftrightarrow>
    (\<exists>st. ofold (import_one H S X True) (sink, None, rows) paths = oret st)"
  using assms
proof (induction paths arbitrary: sink n rows)
  case Nil
  then show ?case by simp
next
  case (Cons path paths)
  have fs: "fst sink path = fs path" using Cons.prems(2) by simp
  have rest: "(\<exists>n'. ofold (verify_one H S' fs) m paths = oret n') \<longleftrightarrow>
      (\<exists>st. ofold (import_one H S X True) (sink_write_all X sink es, None, rs) paths = oret st)" for m es rs
  proof (rule Cons.IH)
    show "sk_dat_tmp (snd (sink_write_all X sink es)) \<notin> set paths" using Cons.prems(1) by simp
    show "\<forall>p \<in> set paths. fst (sink_write_all X sink es) p = fs p"
    proof
      fix p assume p: "p \<in> set paths"
      then have "p \<noteq> sk_dat_tmp (snd sink)" using Cons.prems(1) by auto
      with p Cons.prems(2) show "fst (sink_write_all X sink es) p = fs p" by simp
    qed
  qed
  show ?case
  proof
    assume "\<exists>n'. ofold (verify_one H S' fs) n (path # paths) = oret n'"
    then obtain m n' where m: "verify_one H S' fs n path = oret m" "ofold (verify_one H S' fs) m paths = oret n'"
      by (auto simp add: obind_eq_Inr)
    from verify_one_repeats [OF m(1) fs, of S X rows] obtain es rs where
      "import_one H S X True (sink, None, rows) path = oret (sink_write_all X sink es, None, rs)" by blast
    with rest [of m es rs] m(2) show "\<exists>st. ofold (import_one H S X True) (sink, None, rows) (path # paths) = oret st"
      by auto
  next
    assume "\<exists>st. ofold (import_one H S X True) (sink, None, rows) (path # paths) = oret st"
    then obtain u st where u: "import_one H S X True (sink, None, rows) path = oret u"
      "ofold (import_one H S X True) u paths = oret st" by (auto simp add: obind_eq_Inr)
    obtain es rs where es: "u = (sink_write_all X sink es, None, rs)"
      using import_one_Inr [OF u(1)] by (auto simp add: txdb_writes_None)
    from import_one_repeats [where fs = fs, OF u(1) fs] obtain k where "verify_one H S' fs n path = oret k" by blast
    moreover have "\<exists>n'. ofold (verify_one H S' fs) k paths = oret n'"
      unfolding rest [of k es rs] using u(2) es by blast
    ultimately show "\<exists>n'. ofold (verify_one H S' fs) n (path # paths) = oret n'" by auto
  qed
qed

lemma dry_result:
  "map_option (\<lambda>r. (w, case r of Inl e \<Rightarrow> Inl (ImportFailed e) | Inr _ \<Rightarrow> Inr ())) m = Some (w, Inr ())
     \<longleftrightarrow> (\<exists>n. m = oret n)"
  by (cases m; cases "the m") auto

section \<open>The fixture as a file\<close>

definition fixture_world :: world where
  "fixture_world =
     \<lparr>wd_files = [''c.xrla'' \<mapsto> serialize_chunk length_sha fixture_chunk], wd_ledger_dbs = Map.empty\<rparr>"

definition fixture_args :: import_args where
  "fixture_args =
     \<lparr>ia_chunks = [''c.xrla''], ia_dat = Some ''a.dat'', ia_verify_only = False, ia_skip_verify = False,
      ia_ledger_db = Some ''l.db'', ia_txdb = None\<rparr>"

lemma fixture_paths: "import_paths fixture_args ''a.dat''"
  by (simp add: import_paths_def fixture_args_def with_extension_def file_stem_def tmp_path_def Let_def)

lemma fixture_parses:
  "\<exists>h. deserialize_chunk length_sha (serialize_chunk length_sha fixture_chunk) = Inr (fixture_chunk\<lparr>ck_chunk_hash := h\<rparr>)"
  using deserialize_serialize [OF canon_fixture(2), of length_sha] unfolding canon_fixture(1) by blast

lemma fixture_file_imports:
  assumes "\<And>s h v. \<exists>s'. ns_write_node ops s h v = Inr s'" and "txdb_open txdb"
  shows "\<exists>rp. replay_chunk length_sha S ops True fixture_chunk sink txdb = oret rp \<and>
    import_chunk length_sha S ops True (serialize_chunk length_sha fixture_chunk) sink txdb = oret rp"
proof -
  let ?bytes = "serialize_chunk length_sha fixture_chunk"
  obtain rp where rp: "replay_chunk length_sha S ops True fixture_chunk sink txdb = oret rp"
    using fixture_replays_db [OF assms] by blast
  obtain h where h: "deserialize_chunk length_sha ?bytes = Inr (fixture_chunk\<lparr>ck_chunk_hash := h\<rparr>)"
    using fixture_parses by blast
  have "replay_chunk length_sha S ops True (fixture_chunk\<lparr>ck_chunk_hash := h\<rparr>) sink txdb = oret rp"
    using rp by (simp add: replay_chunk_parts)
  moreover have "detect_version ?bytes = Inr format_version"
    by (simp add: detect_version_def serialize_chunk_def Let_def magic_header_def write_u8_def)
  ultimately have "import_chunk length_sha S ops True ?bytes sink txdb = oret rp"
    using h by (simp add: import_chunk_def format_version_def format_version_streamed_def)
  with rp show ?thesis by blast
qed

text \<open>The chunk and the row the file of the fixture stands for.\<close>

lemma fixture_imported:
  assumes "list_all2 (imported_from length_sha True (wd_files fixture_world)) [''c.xrla''] crs"
  shows "\<exists>h row. crs = [(fixture_chunk\<lparr>ck_chunk_hash := h\<rparr>, [row])] \<and> row_of_ledger length_sha True
    (fixture_ledger 100 7 []) (fixture_ledger 101 122 [touching_tx 2 0]) row"
proof -
  obtain c rows where crs: "crs = [(c, rows)]" "imported_from length_sha True (wd_files fixture_world) ''c.xrla'' (c, rows)"
    using assms by (auto simp add: list_all2_Cons1)
  then obtain rp where rp: "holds_chunk length_sha (serialize_chunk length_sha fixture_chunk) c"
    "replay_chunk length_sha (\<lambda>_. 0) null_sink True c () None = oret rp" "rp_rows rp = rows"
    by (auto simp add: imported_from_def fixture_world_def)
  obtain h where "holds_chunk length_sha (serialize_chunk length_sha fixture_chunk) (fixture_chunk\<lparr>ck_chunk_hash := h\<rparr>)"
    using fixture_parses unfolding holds_chunk_def by (metis append_Nil2)
  then have c: "c = fixture_chunk\<lparr>ck_chunk_hash := h\<rparr>" using holds_chunk_unique rp(1) by blast
  note rows = replay_chunk_rows [OF rp(2), unfolded rp(3) c]
  then obtain row where row: "rows = [row]"
    by (auto simp add: rows_of_chunk_def fixture_chunk_def length_Suc_conv)
  with rows have "row_of_ledger length_sha True (fixture_ledger 100 7 []) (fixture_ledger 101 122 [touching_tx 2 0]) row"
    by (simp add: rows_of_chunk_def fixture_chunk_def)
  with crs(1) c row show ?thesis by blast
qed

lemma fixture_all_entries:
  "all_entries length_sha with_db [(fixture_chunk\<lparr>ck_chunk_hash := h\<rparr>, [row])] = chunk_entries length_sha with_db fixture_chunk [row]"
  by (simp add: all_entries_def chunk_entries_def)

lemma fixture_dry_run:
  "import_main length_sha (\<lambda>_. 0) X F (fixture_args\<lparr>ia_verify_only := True, ia_dat := None, ia_ledger_db := None\<rparr>) fixture_world
     = Some (fixture_world, Inr ())"
proof -
  obtain rp where "import_chunk length_sha (\<lambda>_. 0) null_sink True (serialize_chunk length_sha fixture_chunk) () None = oret rp"
    using fixture_file_imports [OF no_sink.accepts, of None] by (auto simp add: txdb_open_def)
  then show ?thesis
    by (simp add: import_main_def fixture_args_def fixture_world_def verify_only_def verify_one_def)
qed

text \<open>The fixture imports, with or without the two databases.\<close>

lemma fixture_import:
  assumes "ia_chunks args = [''c.xrla'']" and "ia_dat args = Some ''a.dat''" and "\<not> ia_verify_only args"
    and "\<not> ia_skip_verify args" and paths: "import_paths args ''a.dat''"
  shows "\<exists>w'. import_main length_sha S X F args fixture_world = Some (w', Inr ())"
proof -
  let ?fs = "wd_files fixture_world" and ?sk = "snd (sink_create (wd_files fixture_world) ''a.dat'')"
  have frame: "fst (sink_create ?fs ''a.dat'') q = ?fs q" if "q \<noteq> tmp_path ''a.dat''" for q
    using that by (simp add: sink_create_def Let_def append_file_def)
  have db: "fst (sink_create ?fs ''a.dat'') p = None" "tmp_path p \<noteq> tmp_path ''a.dat''" "tmp_path p \<noteq> ''c.xrla''"
    if "ia_txdb args = Some p" for p
  proof -
    have "p \<noteq> tmp_path ''a.dat''" "p \<noteq> ''c.xrla''" "tmp_path p \<noteq> tmp_path ''a.dat''" "tmp_path p \<noteq> ''c.xrla''"
      using paths that assms(1) by (auto simp add: import_paths_def Let_def)
    then show "fst (sink_create ?fs ''a.dat'') p = None" "tmp_path p \<noteq> tmp_path ''a.dat''" "tmp_path p \<noteq> ''c.xrla''"
      by (simp_all add: frame) (simp add: fixture_world_def)
  qed
  then obtain fs txdb where create: "create_txdb F (fst (sink_create ?fs ''a.dat'')) (ia_txdb args) = Inr (fs, txdb)"
    by (cases "ia_txdb args") (auto simp add: create_txdb_def txdb_create_def Let_def)
  note created = created_sinks [OF create db(2)]
  have "txdb_open txdb" using created(3) by (cases "ia_txdb args") (auto simp add: txdb_open_def)
  then obtain rp where rp: "replay_chunk length_sha S (nudb_node_sink X) True fixture_chunk (fs, ?sk) txdb = oret rp"
    "import_chunk length_sha S (nudb_node_sink X) True (serialize_chunk length_sha fixture_chunk) (fs, ?sk) txdb = oret rp"
    using fixture_file_imports [OF nudb_sink.accepts] by blast
  obtain row where row: "rp_rows rp = [row]"
    using nudb_sink.replay_chunk_entries(2) [OF rp(1)] by (auto simp add: fixture_chunk_def length_Suc_conv)
  have "fs ''c.xrla'' = ?fs ''c.xrla''"
    by (rule created(2)) (use db(3) in \<open>auto simp add: tmp_path_def\<close>)
  then have "fs ''c.xrla'' = Some (serialize_chunk length_sha fixture_chunk)" by (simp add: fixture_world_def)
  then have "ofold (import_one length_sha S X True) ((fs, ?sk), txdb, []) [''c.xrla''] =
      oret (sink_write_all X (fs, ?sk) (chunk_entries length_sha (txdb \<noteq> None) fixture_chunk [row]), rp_txdb rp, [row])"
    using rp(2) row replayed_sink [OF rp(1)] by (simp add: import_one_def)
  from import_main_succeeds [OF assms(2,3) paths create _ replay_chunk_txdb [OF rp(1)] fixture_entries(1)] this
  show ?thesis using assms(1,4) by simp
qed

section \<open>Properties\<close>

text \<open>
  C6: One import of several chunks: when main succeeds, every chunk file holds a chunk that
  parses, has its chunk hash, and replays (with every check, unless skipped), and if the
  entries fit the store's offsets, the .dat and .key files open and serve for every hash the
  first value any of the chunks holds for it, and nothing else; nodes shared between chunks
  are stored once.
\<close>

theorem import_serves_every_chunk:
  assumes "import_main H S X F args w = Some (w', Inr ())" and "ia_dat args = Some dat" and "import_paths args dat"
  shows "\<exists>crs. list_all2 (imported_from H (\<not> ia_skip_verify args) (wd_files w)) (ia_chunks args) crs \<and>
    (store_fits (all_entries H (ia_txdb args \<noteq> None) crs) \<longrightarrow>
       store_serves X (wd_files w') dat (with_extension dat ''key'') (all_entries H (ia_txdb args \<noteq> None) crs))"
proof -
  from import_runs_in_stages [OF assms] obtain crs fs fs1 fs2 sk1 st2 where
    stages: "import_stages H S X F args dat w w' crs fs fs1 fs2 sk1 st2" by blast
  then obtain fs0 where inv0: "sink_inv X fs0 dat Map.empty (fs, snd (sink_create (wd_files w) dat))"
    and written: "sink_write_all X (fs, snd (sink_create (wd_files w) dat)) (all_entries H (ia_txdb args \<noteq> None) crs) = (fs1, sk1)"
    and fin: "sink_finish X (fs2, sk1) (with_extension dat ''key'') = Some st2" "wd_files w' = sink_drop st2"
    unfolding import_stages_def by blast
  let ?M = "map_of (all_entries H (ia_txdb args \<noteq> None) crs)"
  have "store_serves X (wd_files w') dat (with_extension dat ''key'') (all_entries H (ia_txdb args \<noteq> None) crs)"
    if fits: "store_fits (all_entries H (ia_txdb args \<noteq> None) crs)"
  proof -
    note inv = sink_written [OF inv0 fits written]
    have "\<exists>fs3. sink_inv X fs3 dat ?M (fs2, sk1)"
    proof (cases "ia_txdb args")
      case None
      with inv stages show ?thesis by (auto simp add: import_stages_def)
    next
      case (Some p)
      then have p: "tmp_path p \<noteq> tmp_path dat" "p \<noteq> tmp_path dat"
        using assms(3) by (auto simp add: import_paths_def Let_def)
      have "fs2 = rename_file (fs1(tmp_path p \<mapsto> F (tables_for S (all_tx_maps crs)))) (tmp_path p) p"
        using stages Some by (simp add: import_stages_def)
      with sink_inv_rename [OF sink_inv_other [OF conjunct1 [OF inv] p(1)] p] show ?thesis by metis
    qed
    then obtain fs3 where inv3: "sink_inv X fs3 dat ?M (fs2, sk1)" by blast
    have "store_paths_ok dat (with_extension dat ''key'')"
      using assms(3) by (auto simp add: import_paths_def Let_def store_paths_ok_def)
    from sink_finish_store [OF inv3 this] inv fin show ?thesis by (auto simp add: store_serves_def sink_drop_def)
  qed
  then show ?thesis using stages unfolding import_stages_def by blast
qed

lemma import_serves_every_chunk_witness:
  "\<exists>w' crs. import_main length_sha (\<lambda>_. 0) (\<lambda>_ _. 77) (\<lambda>_. []) fixture_args fixture_world = Some (w', Inr ()) \<and>
     list_all2 (imported_from length_sha True (wd_files fixture_world)) [''c.xrla''] crs"
proof -
  have "\<exists>w'. import_main length_sha (\<lambda>_. 0) (\<lambda>_ _. 77) (\<lambda>_. []) fixture_args fixture_world = Some (w', Inr ())"
    by (rule fixture_import [OF _ _ _ _ fixture_paths]) (simp_all add: fixture_args_def)
  then obtain w' where w': "import_main length_sha (\<lambda>_. 0) (\<lambda>_ _. 77) (\<lambda>_. []) fixture_args fixture_world = Some (w', Inr ())"
    by blast
  from import_serves_every_chunk [OF w' _ fixture_paths] w' show ?thesis by (auto simp add: fixture_args_def)
qed

text \<open>
  C16: The two databases of a successful import. The transaction database holds the rows of
  every transaction of every ledger of every chunk, the checkpoint ledgers included, in
  order. Of each chunk every ledger but the checkpoint ledger gives a row of the ledger table:
  its own header fields, the LedgerHash of the ledger before it, the root of its rebuilt
  transaction tree and, when verifying, the recorded account hash, so that the row hashes to
  its LedgerHash. The ledger table holds under each LedgerHash the row stored there before,
  or else the first of these rows.
\<close>

theorem import_fills_databases:
  assumes "import_main H S X F args w = Some (w', Inr ())" and "ia_dat args = Some dat" and "import_paths args dat"
  shows "\<exists>crs. list_all2 (imported_from H (\<not> ia_skip_verify args) (wd_files w)) (ia_chunks args) crs \<and>
    list_all (\<lambda>(c, rows). rows_of_chunk H (\<not> ia_skip_verify args) c rows) crs \<and>
    (\<forall>p. ia_txdb args = Some p \<longrightarrow> wd_files w' p = Some (F (tables_for S (all_tx_maps crs)))) \<and>
    (\<forall>p. ia_ledger_db args = Some p \<longrightarrow> (\<exists>t. wd_ledger_dbs w' p = Some t \<and>
       (\<forall>h. t h = (case Option.bind (wd_ledger_dbs w p) (\<lambda>t. t h) of
          None \<Rightarrow> find (\<lambda>row. lr_ledger_hash row = h) (all_rows crs) | Some row \<Rightarrow> Some row))))"
proof -
  from import_runs_in_stages [OF assms] obtain crs fs fs1 fs2 sk1 st2 where
    stages: "import_stages H S X F args dat w w' crs fs fs1 fs2 sk1 st2" by blast
  then have crs: "list_all2 (imported_from H (\<not> ia_skip_verify args) (wd_files w)) (ia_chunks args) crs"
    by (simp add: import_stages_def)
  have txdb: "wd_files w' p = Some (F (tables_for S (all_tx_maps crs)))" if p: "ia_txdb args = Some p" for p
  proof -
    have fs2: "fs2 = rename_file (fs1(tmp_path p \<mapsto> F (tables_for S (all_tx_maps crs)))) (tmp_path p) p"
      and fin: "sink_finish X (fs2, sk1) (with_extension dat ''key'') = Some st2" "wd_files w' = sink_drop st2"
      and sk1: "sk_dat_tmp sk1 = tmp_path dat" "sk_dat_final sk1 = dat"
      using stages p by (auto simp add: import_stages_def)
    have "wd_files w' p = fs2 p"
      unfolding fin(2) using assms(3) p sk1
      by (intro sink_finish_frame [OF fin(1)]) (auto simp add: import_paths_def Let_def)
    then show ?thesis by (simp add: fs2 rename_file_def)
  qed
  have rows: "list_all (\<lambda>(c, rows). rows_of_chunk H (\<not> ia_skip_verify args) c rows) crs"
    using crs replay_chunk_rows by (fastforce simp add: list_all2_conv_all_nth list_all_length imported_from_def)
  have table: "\<exists>t. wd_ledger_dbs w' p = Some t \<and>
       (\<forall>h. t h = (case Option.bind (wd_ledger_dbs w p) (\<lambda>t. t h) of
          None \<Rightarrow> find (\<lambda>row. lr_ledger_hash row = h) (all_rows crs) | Some row \<Rightarrow> Some row))"
    if "ia_ledger_db args = Some p" for p
    using stages that by (cases "wd_ledger_dbs w p") (simp_all add: import_stages_def write_ledger_db_lookup)
  from crs rows txdb table show ?thesis by blast
qed

definition fixture_db_args :: import_args where
  "fixture_db_args = fixture_args\<lparr>ia_txdb := Some ''t.db''\<rparr>"

text \<open>A file layout that keeps the number of the account rows.\<close>

definition count_accounts :: table_file where
  "count_accounts t = replicate (length (tt_account_transactions t)) 1"

lemma import_fills_databases_witness:
  "\<exists>w' t row. import_main length_sha (\<lambda>_. 0) (\<lambda>_ _. 77) count_accounts fixture_db_args fixture_world = Some (w', Inr ()) \<and>
     wd_files w' ''t.db'' = Some [1] \<and> wd_ledger_dbs w' ''l.db'' = Some t \<and> t 122 = Some row \<and>
     lr_ledger_seq row = 101 \<and> lr_prev_hash row = 7 \<and> lr_account_hash row = 516"
proof -
  have paths: "import_paths fixture_db_args ''a.dat''"
    by (simp add: import_paths_def fixture_db_args_def fixture_args_def with_extension_def file_stem_def tmp_path_def Let_def)
  have "\<exists>w'. import_main length_sha (\<lambda>_. 0) (\<lambda>_ _. 77) count_accounts fixture_db_args fixture_world = Some (w', Inr ())"
    by (rule fixture_import [OF _ _ _ _ paths]) (simp_all add: fixture_db_args_def fixture_args_def)
  then obtain w' where
    w': "import_main length_sha (\<lambda>_. 0) (\<lambda>_ _. 77) count_accounts fixture_db_args fixture_world = Some (w', Inr ())"
    by blast
  from import_fills_databases [OF w' _ paths] obtain crs t where
    crs: "list_all2 (imported_from length_sha True (wd_files fixture_world)) [''c.xrla''] crs"
    and db: "wd_files w' ''t.db'' = Some (count_accounts (tables_for (\<lambda>_. 0) (all_tx_maps crs)))"
    and t: "wd_ledger_dbs w' ''l.db'' = Some t" "\<And>h. t h = find (\<lambda>row. lr_ledger_hash row = h) (all_rows crs)"
    by (auto simp add: fixture_db_args_def fixture_args_def fixture_world_def)
  obtain h row where row: "crs = [(fixture_chunk\<lparr>ck_chunk_hash := h\<rparr>, [row])]" "row_of_ledger length_sha True
      (fixture_ledger 100 7 []) (fixture_ledger 101 122 [touching_tx 2 0]) row"
    using fixture_imported [OF crs] by blast
  have fields: "lr_ledger_hash row = 122" "lr_ledger_seq row = 101" "lr_prev_hash row = 7" "lr_account_hash row = 516"
    using row(2) by (simp_all add: row_of_ledger_def fixture_ledger_def)
  have "all_tx_maps crs = [fixture_ledger 100 7 [], fixture_ledger 101 122 [touching_tx 2 0]]"
    by (simp add: row(1) all_tx_maps_def chunk_tx_maps_def chunk_ledgers_def fixture_chunk_def)
  then have "wd_files w' ''t.db'' = Some [1]"
    using db by (simp add: count_accounts_def tables_for_def ledger_transactions_def fixture_ledger_def
        account_rows_def touching_summary)
  moreover have "t 122 = Some row" using t(2) fields(1) by (simp add: row(1) all_rows_def)
  ultimately show ?thesis using w' t(1) fields by blast
qed

text \<open>
  C7: A dry run predicts an import without transaction database whose chunk files are not
  its own temporary file: --verify-only accepts a list of chunk files exactly when the
  chunk loop of the verifying import does. The import of files it accepted never returns an
  error, and succeeds when the paths it writes are distinct and the entries of the chunks
  fit the store's offsets; an import of files it did not accept does not succeed. The dry run
  writes nothing.
\<close>

theorem dry_run_predicts_import:
  assumes "ia_dat args = Some dat" and "\<not> ia_verify_only args" and "\<not> ia_skip_verify args" and "ia_txdb args = None"
    and "tmp_path dat \<notin> set (ia_chunks args)"
    and "dry = args\<lparr>ia_verify_only := True, ia_dat := None, ia_ledger_db := None\<rparr>"
  shows "(import_main H S X F dry w = Some (w, Inr ()) \<longleftrightarrow>
      (\<exists>st. ofold (import_one H S X True) (sink_create (wd_files w) dat, None, []) (ia_chunks args) = oret st)) \<and>
    (import_main H S X F dry w = Some (w, Inr ()) \<longrightarrow>
      (\<exists>crs. list_all2 (imported_from H True (wd_files w)) (ia_chunks args) crs \<and>
         (import_paths args dat \<and> store_fits (all_entries H False crs) \<longrightarrow>
            (\<exists>w'. import_main H S X F args w = Some (w', Inr ()))))) \<and>
    (import_main H S X F dry w = Some (w, Inr ()) \<longrightarrow> (\<forall>w' e. import_main H S X F args w \<noteq> Some (w', Inl e))) \<and>
    (\<forall>w'. import_main H S X F args w = Some (w', Inr ()) \<longrightarrow> import_main H S X F dry w = Some (w, Inr ())) \<and>
    (\<forall>w' r. import_main H S X F dry w = Some (w', r) \<longrightarrow> w' = w)"
proof -
  obtain fs sk where sk: "sink_create (wd_files w) dat = (fs, sk)" by (cases "sink_create (wd_files w) dat")
  then have tmp: "sk_dat_tmp (snd (fs, sk)) = tmp_path dat"
    and frame: "\<And>p. p \<noteq> tmp_path dat \<Longrightarrow> fst (fs, sk) p = wd_files w p"
    by (auto simp add: sink_create_def Let_def append_file_def)
  have dry: "import_main H S X F dry w = map_option (\<lambda>r. (w, case r of Inl e \<Rightarrow> Inl (ImportFailed e) | Inr _ \<Rightarrow> Inr ()))
      (ofold (verify_one H S (wd_files w)) 0 (ia_chunks args))"
    using assms by (simp add: import_main_def verify_only_def)
  have "import_main H S X F dry w = Some (w, Inr ()) \<longleftrightarrow>
      (\<exists>n. ofold (verify_one H S (wd_files w)) 0 (ia_chunks args) = oret n)"
    by (simp only: dry dry_result)
  also have "\<dots> \<longleftrightarrow> (\<exists>st. ofold (import_one H S X True) ((fs, sk), None, []) (ia_chunks args) = oret st)"
  proof (rule loop_predicted)
    show "sk_dat_tmp (snd (fs, sk)) \<notin> set (ia_chunks args)" using tmp assms(5) by simp
    show "\<forall>p \<in> set (ia_chunks args). fst (fs, sk) p = wd_files w p"
      using assms(5) by (intro ballI frame) auto
  qed
  finally have iff: "import_main H S X F dry w = Some (w, Inr ()) \<longleftrightarrow>
      (\<exists>st. ofold (import_one H S X True) ((fs, sk), None, []) (ia_chunks args) = oret st)" .
  have loop: "\<exists>st. ofold (import_one H S X True) ((fs, sk), None, []) (ia_chunks args) = oret st"
    if "import_main H S X F args w = Some (w', Inr ())" for w'
    using import_main_loop [OF that assms(1)] assms(3,4) sk by (auto simp add: create_txdb_def)
  have never: "import_main H S X F args w \<noteq> Some (w', Inl e)"
    if "ofold (import_one H S X True) ((fs, sk), None, []) (ia_chunks args) = oret st" for st w' e
  proof -
    obtain sink txdb rows where st: "st = (sink, txdb, rows)" by (cases st)
    have "txdb = None"
      using import_all_Inr [OF that] tmp assms(5) st txdb_writes_None [of S None] by auto
    then show ?thesis
      using assms that by (auto simp add: import_main_def sk create_txdb_def st publish_def bind_eq_Some_conv split: prod.splits)
  qed
  have runs: "\<exists>crs. list_all2 (imported_from H True (wd_files w)) (ia_chunks args) crs \<and>
      (import_paths args dat \<and> store_fits (all_entries H False crs) \<longrightarrow>
         (\<exists>w'. import_main H S X F args w = Some (w', Inr ())))"
    if run: "ofold (import_one H S X True) ((fs, sk), None, []) (ia_chunks args) = oret st" for st
  proof -
    obtain crs txdb' where crs: "list_all2 (imported_from H True fs) (ia_chunks args) crs"
      "st = (sink_write_all X (fs, sk) (all_entries H False crs), txdb', all_rows crs)"
      "txdb_writes S None (all_tx_maps crs) = Inr txdb'"
      using import_all_Inr [OF run] tmp assms(5) by auto
    have "list_all2 (imported_from H True (wd_files w)) (ia_chunks args) crs"
      using crs(1)
    proof (elim list.rel_mono_strong)
      fix q cr
      assume "q \<in> set (ia_chunks args)" and i: "imported_from H True fs q cr"
      then have "fs q = wd_files w q" using frame [of q] assms(5) by auto
      with i show "imported_from H True (wd_files w) q cr" by (simp add: imported_from_def)
    qed
    moreover have "\<exists>w'. import_main H S X F args w = Some (w', Inr ())"
      if "import_paths args dat" "store_fits (all_entries H False crs)"
    proof (rule import_main_succeeds [OF assms(1,2) that(1) _ _ crs(3) that(2)])
      show "create_txdb F (fst (sink_create (wd_files w) dat)) (ia_txdb args) = Inr (fs, None)"
        by (simp add: create_txdb_def assms(4) sk)
      show "ofold (import_one H S X (\<not> ia_skip_verify args)) ((fs, snd (sink_create (wd_files w) dat)), None, [])
          (ia_chunks args) = oret (sink_write_all X (fs, snd (sink_create (wd_files w) dat)) (all_entries H False crs),
            txdb', all_rows crs)"
        using run assms(3) by (simp add: sk crs(2))
    qed
    ultimately show ?thesis by blast
  qed
  have "import_main H S X F dry w = Some (w', r) \<Longrightarrow> w' = w" for w' r
    unfolding dry by (cases "ofold (verify_one H S (wd_files w)) 0 (ia_chunks args)") simp_all
  with iff loop never runs show ?thesis unfolding sk by blast
qed

lemma dry_run_predicts_import_witness:
  "\<exists>w'. import_main length_sha (\<lambda>_. 0) (\<lambda>_ _. 77) (\<lambda>_. []) fixture_args fixture_world = Some (w', Inr ())"
proof -
  have "\<exists>crs. list_all2 (imported_from length_sha True (wd_files fixture_world)) (ia_chunks fixture_args) crs \<and>
      (import_paths fixture_args ''a.dat'' \<and> store_fits (all_entries length_sha False crs) \<longrightarrow>
        (\<exists>w'. import_main length_sha (\<lambda>_. 0) (\<lambda>_ _. 77) (\<lambda>_. []) fixture_args fixture_world = Some (w', Inr ())))"
    by (rule dry_run_predicts_import [THEN conjunct2, THEN conjunct1, THEN mp, OF _ _ _ _ _ refl fixture_dry_run])
      (simp_all add: fixture_args_def tmp_path_def)
  then obtain crs where crs: "list_all2 (imported_from length_sha True (wd_files fixture_world)) [''c.xrla''] crs"
    and runs: "store_fits (all_entries length_sha False crs) \<longrightarrow>
      (\<exists>w'. import_main length_sha (\<lambda>_. 0) (\<lambda>_ _. 77) (\<lambda>_. []) fixture_args fixture_world = Some (w', Inr ()))"
    using fixture_paths by (auto simp add: fixture_args_def)
  obtain h row where "crs = [(fixture_chunk\<lparr>ck_chunk_hash := h\<rparr>, [row])]" using fixture_imported [OF crs] by blast
  with runs show ?thesis using fixture_entries(1) [of False row] by (simp add: fixture_all_entries)
qed

end
