(* ===== verification/Export.thy ===== *)
theory Export
  imports Import_Main
begin

text \<open>
  The exporter of crates/xrla-export/src/main.rs: the ledger index it reads from SQLite, the
  running state, and the loop that writes a range of ledgers as chunk files with one walk of
  the state tree. The index is the list of rows the query returns, in SQLite's order, with
  their declared column types; \<open>D\<close> is the decoder of the crate hex; the clock, the device test
  and LZ4 are the parameters of the reader. Arithmetic on sequence numbers is that of u32 in
  a release build. An error carries the file system it leaves.
\<close>

section \<open>The ledger index\<close>

record sql_ledger =
  sq_ledger_hash :: string
  sq_ledger_seq :: int
  sq_prev_hash :: string
  sq_total_coins :: int
  sq_closing_time :: int
  sq_prev_closing_time :: int
  sq_close_time_res :: int
  sq_close_flags :: int
  sq_account_set_hash :: string
  sq_trans_set_hash :: string

record ledger_info =
  li_ledger_hash :: hash256
  li_account_hash :: hash256
  li_tx_hash :: hash256
  li_parent_hash :: hash256
  li_total_coins :: u64
  li_closing_time :: u32
  li_prev_closing_time :: u32
  li_close_time_resolution :: byte
  li_close_flags :: byte

datatype export_error =
    EndNotAfterStart
  | ZeroChunkSize
  | StoreNotOpened Nudb_Reader.reader_error
  | LedgerDbNotFound
  | LedgerNotInDb u32
  | InvalidHash u32
  | LedgerHashNotRecomputed u32 hash256 hash256
  | StoreReadFailed Nudb_Reader.reader_error

type_synonym hex_decode = "string \<Rightarrow> byte list option"

text \<open>\<open>str::trim\<close> on text without characters beyond ASCII.\<close>

definition is_white :: "char \<Rightarrow> bool" where
  "is_white c \<longleftrightarrow> c \<in> set [CHR 0x09, CHR 0x0A, CHR 0x0B, CHR 0x0C, CHR 0x0D, CHR '' '']"

definition trim :: "string \<Rightarrow> string" where
  "trim s = rev (dropWhile is_white (rev (dropWhile is_white s)))"

definition parse_hash :: "hex_decode \<Rightarrow> string \<Rightarrow> hash256 option" where
  "parse_hash D s =
     Option.bind (D (trim s)) (\<lambda>bytes. if length bytes \<noteq> 32 then None else Some (from_be_bytes bytes))"

text \<open>An integer column read as an unsigned type: out of range is an error.\<close>

definition column :: "int \<Rightarrow> 'a::len word option" where
  "column v = (if 0 \<le> v \<and> v < 2 ^ LENGTH('a) then Some (word_of_int v) else None)"

definition or_error :: "'e \<Rightarrow> 'a option \<Rightarrow> 'e + 'a" where
  "or_error e m = (case m of None \<Rightarrow> Inl e | Some x \<Rightarrow> Inr x)"

definition ledger_index_get :: "hex_decode \<Rightarrow> sql_ledger list \<Rightarrow> u32 \<Rightarrow> export_error + ledger_info" where
  "ledger_index_get D db seq =
     rbind (or_error (LedgerNotInDb seq) (find (\<lambda>r. sq_ledger_seq r = uint seq) db)) (\<lambda>r.
     rbind (or_error (LedgerNotInDb seq) (column (sq_total_coins r))) (\<lambda>coins.
     rbind (or_error (LedgerNotInDb seq) (column (sq_closing_time r))) (\<lambda>closing.
     rbind (or_error (LedgerNotInDb seq) (column (sq_prev_closing_time r))) (\<lambda>prev_closing.
     rbind (or_error (LedgerNotInDb seq) (column (sq_close_time_res r))) (\<lambda>resolution.
     rbind (or_error (LedgerNotInDb seq) (column (sq_close_flags r))) (\<lambda>flags.
     rbind (or_error (InvalidHash seq) (parse_hash D (sq_ledger_hash r))) (\<lambda>ledger_hash.
     rbind (or_error (InvalidHash seq) (parse_hash D (sq_account_set_hash r))) (\<lambda>account_hash.
     rbind (or_error (InvalidHash seq) (parse_hash D (sq_trans_set_hash r))) (\<lambda>tx_hash.
     rbind (or_error (InvalidHash seq) (parse_hash D (sq_prev_hash r))) (\<lambda>parent_hash.
     Inr \<lparr>li_ledger_hash = ledger_hash, li_account_hash = account_hash, li_tx_hash = tx_hash,
          li_parent_hash = parent_hash, li_total_coins = coins, li_closing_time = closing,
          li_prev_closing_time = prev_closing, li_close_time_resolution = resolution,
          li_close_flags = flags\<rparr>))))))))))"

definition info_hash :: "sha512 \<Rightarrow> ledger_info \<Rightarrow> u32 \<Rightarrow> hash256" where
  "info_hash H info seq =
     calculate_ledger_hash H
       \<lparr>lh_seq = seq, lh_drops = li_total_coins info, lh_parent_hash = li_parent_hash info,
        lh_tx_hash = li_tx_hash info, lh_account_hash = li_account_hash info,
        lh_parent_close_time = li_prev_closing_time info, lh_close_time = li_closing_time info,
        lh_close_time_resolution = li_close_time_resolution info, lh_close_flags = li_close_flags info\<rparr>"

definition verify_ledger_hash :: "sha512 \<Rightarrow> ledger_info \<Rightarrow> u32 \<Rightarrow> export_error + hash256" where
  "verify_ledger_hash H info seq =
     (let recomputed = info_hash H info seq in
      if recomputed \<noteq> li_ledger_hash info
      then Inl (LedgerHashNotRecomputed seq (li_ledger_hash info) recomputed) else Inr recomputed)"

section \<open>The running state\<close>

definition apply_diff :: "live_state \<Rightarrow> shamap_diff \<Rightarrow> live_state" where
  "apply_diff state diff = foldl insert_node (foldl remove_hash state (diff_deleted diff)) (diff_added diff)"

text \<open>\<open>state.values()\<close>: the writer sorts, so the order of the hash map does not matter.\<close>

definition state_values :: "live_state \<Rightarrow> shamap_node list" where
  "state_values state = map (\<lambda>h. the (state h)) (sorted_list_of_set (dom state))"

definition ledger_tx_map :: "u32 \<Rightarrow> hash256 \<Rightarrow> ledger_info \<Rightarrow> tx_record list \<Rightarrow> tx_map" where
  "ledger_tx_map seq ledger_hash info txns =
     \<lparr>tm_ledger_seq = seq, tm_ledger_hash = ledger_hash, tm_account_hash = li_account_hash info,
      tm_drops = li_total_coins info, tm_parent_close_time = li_prev_closing_time info,
      tm_close_time = li_closing_time info, tm_close_time_resolution = li_close_time_resolution info,
      tm_close_flags = li_close_flags info, tm_txns = txns\<rparr>"

section \<open>Writing chunks\<close>

record export_args =
  ea_start :: u32
  ea_end :: u32
  ea_out :: string
  ea_network_id :: u32
  ea_chunk_size :: u32

record export_state =
  ex_fs :: file_system
  ex_writer :: chunk_writer
  ex_state :: live_state
  ex_chunk_start :: u32
  ex_prev_account_hash :: hash256

text \<open>\<open>Path::join\<close> with a relative name.\<close>

definition path_join :: "string \<Rightarrow> string \<Rightarrow> string" where
  "path_join dir name = (if dir = [] \<or> last dir = CHR ''/'' then dir @ name else dir @ ''/'' @ name)"

definition chunk_end_for :: "export_args \<Rightarrow> u32 \<Rightarrow> u32" where
  "chunk_end_for args chunk_start = min (chunk_start + ea_chunk_size args - 1) (ea_end args)"

definition chunk_path :: "export_args \<Rightarrow> u32 \<Rightarrow> string" where
  "chunk_path args chunk_start =
     path_join (ea_out args) (chunk_filename (ea_network_id args) chunk_start (chunk_end_for args chunk_start))"

text \<open>A new chunk: its header, the checkpoint from the running state, its first transactions.\<close>

definition start_chunk ::
  "export_args \<Rightarrow> file_system \<Rightarrow> u32 \<Rightarrow> hash256 \<Rightarrow> live_state \<Rightarrow> tx_map \<Rightarrow> file_system \<times> chunk_writer" where
  "start_chunk args fs seq ledger_hash state m =
     writer_tx_map
       (writer_checkpoint
         (writer_create fs (chunk_path args seq) (ea_network_id args) seq (chunk_end_for args seq) ledger_hash)
         (state_values state)) m"

text \<open>An operation that fails while the files are \<open>fs\<close>.\<close>

definition or_leave :: "file_system \<Rightarrow> ('e \<Rightarrow> export_error) \<Rightarrow> ('e, 'a) run \<Rightarrow> (export_error \<times> file_system, 'a) run" where
  "or_leave fs g m = map_option (\<lambda>r. case r of Inl e \<Rightarrow> Inl (g e, fs) | Inr x \<Rightarrow> Inr x) m"

definition export_ledger ::
  "sha512 \<Rightarrow> node_lookup \<Rightarrow> export_args \<Rightarrow> export_state \<Rightarrow> u32 \<times> ledger_info \<times> hash256 \<times> shamap_diff
     \<Rightarrow> (export_error \<times> file_system, export_state) run" where
  "export_ledger H get args st ledger =
     (let (s, info, ledger_hash, diff) = ledger;
          state = apply_diff (ex_state st) diff;
          w = (ex_fs st, ex_writer st)
      in
      obind (or_leave (writer_drop w) StoreReadFailed (collect_transactions get (li_tx_hash info))) (\<lambda>txns.
      let m = ledger_tx_map s ledger_hash info txns in
      if s - ex_chunk_start st = ea_chunk_size args then
        let (st', _) = writer_finish H w; (fs, w) = start_chunk args (writer_drop st') s ledger_hash state m
        in oret \<lparr>ex_fs = fs, ex_writer = w, ex_state = state, ex_chunk_start = s,
                 ex_prev_account_hash = li_account_hash info\<rparr>
      else
        let (fs, w) = writer_tx_map (writer_delta w \<lparr>ld_ledger_seq = s, ld_diff = diff\<rparr>) m
        in oret \<lparr>ex_fs = fs, ex_writer = w, ex_state = state, ex_chunk_start = ex_chunk_start st,
                 ex_prev_account_hash = li_account_hash info\<rparr>))"

text \<open>The roots to diff: each ledger against the one before it.\<close>

fun root_pairs :: "hash256 \<Rightarrow> ledger_info list \<Rightarrow> (hash256 \<times> hash256) list" where
  "root_pairs running_prev [] = []"
| "root_pairs running_prev (info # infos) =
     (running_prev, li_account_hash info) # root_pairs (li_account_hash info) infos"

definition export_batch ::
  "sha512 \<Rightarrow> hex_decode \<Rightarrow> node_lookup \<Rightarrow> sql_ledger list \<Rightarrow> export_args \<Rightarrow> nat \<Rightarrow> u32 \<Rightarrow> u32 \<Rightarrow> export_state
     \<Rightarrow> (export_error \<times> file_system, export_state) run" where
  "export_batch H D get db args concurrency seq batch_end st =
     (let seqs = map of_nat [unat seq..<Suc (unat batch_end)];
          dropped = writer_drop (ex_fs st, ex_writer st)
      in
      obind (or_leave dropped id (omap (\<lambda>s. Some (ledger_index_get D db s)) seqs)) (\<lambda>infos.
      obind (or_leave dropped id (omap (\<lambda>(info, s). Some (verify_ledger_hash H info s)) (zip infos seqs))) (\<lambda>hashes.
      obind (or_leave dropped StoreReadFailed
               (diff_batch_concurrent get (root_pairs (ex_prev_account_hash st) infos) concurrency)) (\<lambda>diffs.
      ofold (export_ledger H get args) st (zip seqs (zip infos (zip hashes diffs)))))))"

partial_function (option) export_loop ::
  "sha512 \<Rightarrow> hex_decode \<Rightarrow> node_lookup \<Rightarrow> sql_ledger list \<Rightarrow> export_args \<Rightarrow> nat \<Rightarrow> u32 \<Rightarrow> export_state
     \<Rightarrow> (export_error \<times> file_system, export_state) run" where
  "export_loop H D get db args concurrency seq st =
     (if ea_end args < seq then oret st else
      let batch_size = of_nat (max concurrency 1);
          batch_end = min (seq + batch_size - 1) (ea_end args)
      in
      obind (export_batch H D get db args concurrency seq batch_end st) (\<lambda>st.
      export_loop H D get db args concurrency (batch_end + 1) st))"

text \<open>
  main, over the contents of the .dat and .key files, the rows of the ledger database (None
  when its path does not exist), and the file system the chunks go to.
\<close>

definition export_main ::
  "sha512 \<Rightarrow> xxh64 \<Rightarrow> lz4 \<Rightarrow> hex_decode \<Rightarrow> (nat \<Rightarrow> nat) \<Rightarrow> bool \<Rightarrow> export_args \<Rightarrow> (byte list \<times> byte list) list
     \<Rightarrow> sql_ledger list option \<Rightarrow> file_system \<Rightarrow> (export_error \<times> file_system, file_system) run" where
  "export_main H X L D elapsed shares_device args dats ledgers fs =
     (if ea_end args \<le> ea_start args then ofail (EndNotAfterStart, fs)
      else if ea_chunk_size args = 0 then ofail (ZeroChunkSize, fs)
      else
      obind (or_leave fs StoreNotOpened (nudb_open dats)) (\<lambda>shards.
      obind (or_leave fs id (Some (or_error LedgerDbNotFound ledgers))) (\<lambda>db.
      let get = get_node X L shards; start = ea_start args in
      obind (or_leave fs id (Some (ledger_index_get D db start))) (\<lambda>info.
      obind (or_leave fs id (Some (verify_ledger_hash H info start))) (\<lambda>ledger_hash.
      obind (or_leave fs StoreReadFailed (calibrate_concurrency get elapsed shares_device (li_account_hash info))) (\<lambda>concurrency.
      obind (or_leave fs StoreReadFailed (collect_reachable_concurrent get (li_account_hash info) concurrency)) (\<lambda>nodes.
      let state = foldl insert_node Map.empty nodes in
      obind (or_leave fs StoreReadFailed (collect_transactions get (li_tx_hash info))) (\<lambda>txns.
      let (fs, w) = start_chunk args fs start ledger_hash state (ledger_tx_map start ledger_hash info txns);
          st = \<lparr>ex_fs = fs, ex_writer = w, ex_state = state, ex_chunk_start = start,
                ex_prev_account_hash = li_account_hash info\<rparr>
      in
      obind (export_loop H D get db args concurrency (start + 1) st) (\<lambda>st.
      oret (writer_drop (fst (writer_finish H (ex_fs st, ex_writer st)))))))))))))"

end
