(* ===== verification/Export_Chunks.thy ===== *)
theory Export_Chunks
  imports Export
begin

text \<open>
  What the exporter writes. The source is an archive: for every sequence number of the range
  the row of the ledger, the nodes of its state tree and its transactions. The loop keeps an
  invariant: finished chunks are complete files, the open writer has received the checkpoint
  and one delta per ledger since, and the running state is the state of the last ledger.
\<close>

section \<open>The source\<close>

record archive =
  ar_info :: "u32 \<Rightarrow> ledger_info"
  ar_nodes :: "u32 \<Rightarrow> shamap_node list"
  ar_txns :: "u32 \<Rightarrow> tx_record list"

definition archived ::
  "sha512 \<Rightarrow> hex_decode \<Rightarrow> node_lookup \<Rightarrow> sql_ledger list \<Rightarrow> nat \<Rightarrow> nat \<Rightarrow> archive \<Rightarrow> bool" where
  "archived H D get db a b A \<longleftrightarrow>
     (\<forall>n. a \<le> n \<longrightarrow> n \<le> b \<longrightarrow>
        (let s = of_nat n; info = ar_info A s in
         ledger_index_get D db s = Inr info \<and> info_hash H info s = li_ledger_hash info \<and>
         li_account_hash info \<noteq> 0 \<and> tree get (li_account_hash info) (ar_nodes A s) \<and>
         distinct (map node_hash (ar_nodes A s)) \<and>
         collect_transactions get (li_tx_hash info) = oret (ar_txns A s)))"

lemma archivedD:
  assumes "archived H D get db a b A" and "a \<le> n" and "n \<le> b"
  shows "ledger_index_get D db (of_nat n) = Inr (ar_info A (of_nat n))"
    "verify_ledger_hash H (ar_info A (of_nat n)) (of_nat n) = Inr (li_ledger_hash (ar_info A (of_nat n)))"
    "li_account_hash (ar_info A (of_nat n)) \<noteq> 0"
    "tree get (li_account_hash (ar_info A (of_nat n))) (ar_nodes A (of_nat n))"
    "distinct (map node_hash (ar_nodes A (of_nat n)))"
    "collect_transactions get (li_tx_hash (ar_info A (of_nat n))) = oret (ar_txns A (of_nat n))"
  using assms by (simp_all add: archived_def verify_ledger_hash_def Let_def)

text \<open>The difference of a ledger to the one before it, and what is written for a ledger.\<close>

definition diff_at :: "node_lookup \<Rightarrow> archive \<Rightarrow> nat \<Rightarrow> shamap_diff" where
  "diff_at get A n =
     projr (the (diff_roots get (li_account_hash (ar_info A (of_nat (n - 1)))) (li_account_hash (ar_info A (of_nat n)))))"

definition tx_map_at :: "archive \<Rightarrow> nat \<Rightarrow> tx_map" where
  "tx_map_at A n =
     (let s = of_nat n in ledger_tx_map s (li_ledger_hash (ar_info A s)) (ar_info A s) (ar_txns A s))"

definition ledger_at :: "node_lookup \<Rightarrow> archive \<Rightarrow> nat \<Rightarrow> ledger_delta \<times> tx_map" where
  "ledger_at get A n = (\<lparr>ld_ledger_seq = of_nat n, ld_diff = diff_at get A n\<rparr>, tx_map_at A n)"

definition checkpoint_at :: "archive \<Rightarrow> nat \<Rightarrow> shamap_node list" where
  "checkpoint_at A n = state_values (node_map (ar_nodes A (of_nat n)))"

text \<open>What a writer has received for the chunk from \<open>c\<close> before ledger \<open>n\<close>.\<close>

definition chunk_ops :: "node_lookup \<Rightarrow> archive \<Rightarrow> nat \<Rightarrow> nat \<Rightarrow> writer_op list" where
  "chunk_ops get A c n = stream_ops (checkpoint_at A c) (tx_map_at A c) (map (ledger_at get A) [Suc c..<n])"

definition open_chunk ::
  "node_lookup \<Rightarrow> archive \<Rightarrow> export_args \<Rightarrow> file_system \<Rightarrow> nat \<Rightarrow> nat \<Rightarrow> file_system \<times> chunk_writer" where
  "open_chunk get A args fs c n =
     foldl writer_step
       (writer_create fs (chunk_path args (of_nat c)) (ea_network_id args) (of_nat c)
         (chunk_end_for args (of_nat c)) (li_ledger_hash (ar_info A (of_nat c))))
       (chunk_ops get A c n)"

definition chunk_written ::
  "sha512 \<Rightarrow> node_lookup \<Rightarrow> archive \<Rightarrow> export_args \<Rightarrow> file_system \<Rightarrow> nat \<Rightarrow> file_system" where
  "chunk_written H get A args fs c =
     writer_drop (fst (writer_finish H (open_chunk get A args fs c (Suc (unat (chunk_end_for args (of_nat c)))))))"

text \<open>The first ledgers of the chunks that start before \<open>n\<close>.\<close>

definition chunk_starts :: "export_args \<Rightarrow> nat \<Rightarrow> nat list" where
  "chunk_starts args n =
     filter (\<lambda>i. (i - unat (ea_start args)) mod unat (ea_chunk_size args) = 0) [unat (ea_start args)..<n]"

definition chunks_written ::
  "sha512 \<Rightarrow> node_lookup \<Rightarrow> archive \<Rightarrow> export_args \<Rightarrow> file_system \<Rightarrow> nat \<Rightarrow> file_system" where
  "chunks_written H get A args fs n = foldl (chunk_written H get A args) fs (chunk_starts args n)"

text \<open>The range leaves room for a batch below \<open>2 ^ 32\<close>, so the loop does not wrap.\<close>

definition steps_ok :: "export_args \<Rightarrow> bool" where
  "steps_ok args \<longleftrightarrow>
     ea_start args < ea_end args \<and> ea_chunk_size args \<noteq> 0 \<and> unat (ea_end args) + 64 < 2 ^ 32"

text \<open>The range and the chunk size leave room below \<open>2 ^ 32\<close>, so no sequence number wraps.\<close>

definition range_ok :: "export_args \<Rightarrow> bool" where
  "range_ok args \<longleftrightarrow>
     ea_start args < ea_end args \<and> ea_chunk_size args \<noteq> 0 \<and>
     unat (ea_end args) + unat (ea_chunk_size args) < 2 ^ 32 \<and> unat (ea_end args) + 64 < 2 ^ 32"

definition export_inv ::
  "sha512 \<Rightarrow> node_lookup \<Rightarrow> archive \<Rightarrow> export_args \<Rightarrow> file_system \<Rightarrow> nat \<Rightarrow> export_state \<Rightarrow> bool" where
  "export_inv H get A args fs n st \<longleftrightarrow>
     (\<exists>c. unat (ea_start args) \<le> c \<and> c < n \<and> n \<le> c + unat (ea_chunk_size args) \<and>
        (c - unat (ea_start args)) mod unat (ea_chunk_size args) = 0 \<and>
        ex_chunk_start st = of_nat c \<and> ex_state st = node_map (ar_nodes A (of_nat (n - 1))) \<and>
        ex_prev_account_hash st = li_account_hash (ar_info A (of_nat (n - 1))) \<and>
        (ex_fs st, ex_writer st) = open_chunk get A args (chunks_written H get A args fs c) c n)"

section \<open>Applying diffs\<close>

lemma foldl_remove_hash: "foldl remove_hash state hs = state |` (- set hs)"
  by (induction hs arbitrary: state) (auto simp add: remove_hash_def restrict_map_def fun_eq_iff)

lemma foldl_insert_node:
  "distinct (map node_hash ns) \<Longrightarrow> foldl insert_node state ns = state ++ node_map ns"
proof (induction ns arbitrary: state)
  case (Cons n ns)
  have "node_map ns (node_hash n) = None" using Cons.prems by (simp add: node_map_None)
  then have split: "state(node_hash n \<mapsto> n) ++ node_map ns = state ++ node_map (n # ns)"
    by (auto simp add: node_map_def map_add_def fun_eq_iff split: option.splits)
  have "foldl insert_node state (n # ns) = insert_node state n ++ node_map ns"
    using Cons.IH Cons.prems by simp
  also have "\<dots> = state ++ node_map (n # ns)" by (simp only: insert_node_def split)
  finally show ?case .
qed (simp add: node_map_def)

lemma node_map_mset:
  assumes "mset ns = mset ms" and "distinct (map node_hash ns)"
  shows "node_map ns = node_map ms"
proof -
  have d: "distinct (map node_hash ms)" using assms by (metis mset_eq_imp_distinct_iff mset_map)
  have "set ns = set ms" using assms(1) by (metis set_mset_mset)
  then show ?thesis
    unfolding node_map_def using assms(2) d by (intro map_of_inject_set [THEN iffD2]) (simp_all add: comp_def)
qed

lemma node_map_dom: "dom (node_map ns) = node_hash ` set ns"
  by (auto simp add: node_map_def dom_map_of_conv_image_fst image_image)

text \<open>The values of the state map, in the order of their hashes.\<close>

lemma state_values_node_map:
  assumes "distinct (map node_hash ns)"
  shows "mset (state_values (node_map ns)) = mset ns" and "sorted (map node_hash (state_values (node_map ns)))"
    and "distinct (map node_hash (state_values (node_map ns)))"
proof -
  let ?hs = "sorted_list_of_set (node_hash ` set ns)"
  have at: "node_map ns (node_hash n) = Some n" if "n \<in> set ns" for n
    using that assms by (simp add: node_map_def comp_def)
  have hashes: "map node_hash (state_values (node_map ns)) = ?hs"
    by (auto simp add: state_values_def node_map_dom at intro!: map_idI)
  show srt: "sorted (map node_hash (state_values (node_map ns)))"
    and dist: "distinct (map node_hash (state_values (node_map ns)))"
    by (simp_all add: hashes)
  have "distinct (state_values (node_map ns))" using dist by (simp add: distinct_map)
  moreover have "set (state_values (node_map ns)) = set ns"
    by (force simp add: state_values_def node_map_dom at image_image)
  moreover have "distinct ns" using assms by (simp add: distinct_map)
  ultimately show "mset (state_values (node_map ns)) = mset ns" by (simp add: set_eq_iff_mset_eq_distinct)
qed

context node_store
begin

lemma archived_diff:
  assumes "archived H D get db a b A" and "a < n" and "n \<le> b"
  shows "diff_roots get (li_account_hash (ar_info A (of_nat (n - 1)))) (li_account_hash (ar_info A (of_nat n)))
      = oret (diff_at get A n)"
    and "apply_diff (node_map (ar_nodes A (of_nat (n - 1)))) (diff_at get A n) = node_map (ar_nodes A (of_nat n))"
proof -
  let ?o = "of_nat (n - 1) :: u32" and ?n = "of_nat n :: u32"
  have "tree get (li_account_hash (ar_info A ?o)) (ar_nodes A ?o)" "distinct (map node_hash (ar_nodes A ?o))"
    "tree get (li_account_hash (ar_info A ?n)) (ar_nodes A ?n)" "distinct (map node_hash (ar_nodes A ?n))"
    using archivedD(4,5) [OF assms(1), of "n - 1"] archivedD(4,5) [OF assms(1), of n] assms(2,3) by simp_all
  note t = this
  obtain d D C where d: "diff_roots get (li_account_hash (ar_info A ?o)) (li_account_hash (ar_info A ?n)) = oret d"
    "mset (ar_nodes A ?n) = C + mset (diff_added d)"
    by (rule exE [OF diff_roots_effect [OF t(1,3)]]) (elim exE conjE, rule that)
  have at: "diff_at get A n = d" unfolding diff_at_def d(1) by simp
  show "diff_roots get (li_account_hash (ar_info A ?o)) (li_account_hash (ar_info A ?n)) = oret (diff_at get A n)"
    unfolding at by (rule d(1))
  obtain e where e: "diff_roots get (li_account_hash (ar_info A ?o)) (li_account_hash (ar_info A ?n)) = oret e"
    "(node_map (ar_nodes A ?o) |` (- set (diff_deleted e))) ++ node_map (diff_added e) = node_map (ar_nodes A ?n)"
    by (rule exE [OF diff_turns_old_into_new [OF t(1,3,2)]]) (elim conjE, rule that)
  obtain cs where "C = mset cs" using ex_mset by metis
  then have "mset (map node_hash (ar_nodes A ?n)) = mset (map node_hash (cs @ diff_added d))"
    using d(2) by simp
  then have "distinct (map node_hash (cs @ diff_added d))" using t(4) mset_eq_imp_distinct_iff by blast
  then have "distinct (map node_hash (diff_added d))" by simp
  then show "apply_diff (node_map (ar_nodes A ?o)) (diff_at get A n) = node_map (ar_nodes A ?n)"
    using e d(1) unfolding at by (simp add: apply_diff_def foldl_remove_hash foldl_insert_node)
qed

end

section \<open>The loop\<close>

lemma range_okD:
  assumes "range_ok args"
  shows "unat (ea_start args) < unat (ea_end args)" "0 < unat (ea_chunk_size args)"
    "unat (ea_end args) + unat (ea_chunk_size args) < 4294967296" "unat (ea_end args) + 64 < 4294967296"
  using assms by (auto simp add: range_ok_def word_less_nat_alt unat_gt_0)

lemma steps_okD:
  assumes "steps_ok args"
  shows "unat (ea_start args) < unat (ea_end args)" "0 < unat (ea_chunk_size args)"
    "unat (ea_end args) + 64 < 4294967296"
  using assms by (auto simp add: steps_ok_def word_less_nat_alt unat_gt_0)

lemma range_ok_steps: "range_ok args \<Longrightarrow> steps_ok args"
  by (simp add: range_ok_def steps_ok_def)

lemma chunk_end_unwrapped:
  assumes "0 < unat (ea_chunk_size args)" and "c + unat (ea_chunk_size args) \<le> 4294967296"
  shows "unat (chunk_end_for args (of_nat c)) = min (c + unat (ea_chunk_size args) - 1) (unat (ea_end args))"
proof -
  let ?k = "unat (ea_chunk_size args)"
  have "of_nat c + ea_chunk_size args - 1 = (of_nat (c + ?k - 1) :: u32)" using assms(1) by (simp add: of_nat_diff)
  moreover have "unat (of_nat (c + ?k - 1) :: u32) = c + ?k - 1" using assms by (intro unat_of_nat32) simp
  ultimately show ?thesis by (simp add: chunk_end_for_def min_def word_le_nat_alt)
qed

lemma unat_chunk_end:
  assumes "range_ok args" and "c \<le> unat (ea_end args)"
  shows "unat (chunk_end_for args (of_nat c)) = min (c + unat (ea_chunk_size args) - 1) (unat (ea_end args))"
  using range_okD [OF assms(1)] assms(2) by (intro chunk_end_unwrapped) simp_all

lemma chunk_ops_start: "chunk_ops get A c (Suc c) = [WCheckpoint (checkpoint_at A c), WTxMap (tx_map_at A c)]"
  by (simp add: chunk_ops_def stream_ops_def)

lemma open_chunk_next:
  assumes "Suc c \<le> n"
  shows "open_chunk get A args fs c (Suc n) =
    writer_tx_map (writer_delta (open_chunk get A args fs c n) \<lparr>ld_ledger_seq = of_nat n, ld_diff = diff_at get A n\<rparr>)
      (tx_map_at A n)"
  using assms by (simp add: open_chunk_def chunk_ops_def stream_ops_def ledger_at_def)

lemma start_chunk_opens:
  "start_chunk args fs (of_nat c) (li_ledger_hash (ar_info A (of_nat c))) (node_map (ar_nodes A (of_nat c))) (tx_map_at A c)
     = open_chunk get A args fs c (Suc c)"
  by (simp add: open_chunk_def chunk_ops_start start_chunk_def checkpoint_at_def)

lemma chunk_starts_next:
  assumes "unat (ea_start args) \<le> c" and "(c - unat (ea_start args)) mod unat (ea_chunk_size args) = 0"
    and "c < n" and "n \<le> c + unat (ea_chunk_size args)"
  shows "chunk_starts args n = chunk_starts args c @ [c]"
proof -
  let ?a = "unat (ea_start args)" and ?k = "unat (ea_chunk_size args)"
  have "[?a..<n] = [?a..<c] @ c # [Suc c..<n]"
    using assms(1,3) upt_add_eq_append [of ?a c "n - c"] upt_conv_Cons [of c n] by simp
  moreover have "(i - ?a) mod ?k \<noteq> 0" if "i \<in> set [Suc c..<n]" for i
  proof -
    define j where "j = i - c"
    then have j: "i = c + j" "0 < j" "j < ?k" using that assms(4) by auto
    then have "(i - ?a) mod ?k = ((c - ?a) + j) mod ?k" using assms(1) by simp
    also have "\<dots> = j" using assms(2) j by (metis add.right_neutral mod_add_left_eq mod_less add.commute)
    finally show ?thesis using j by simp
  qed
  ultimately show ?thesis using assms(2) by (simp add: chunk_starts_def)
qed

lemma chunks_written_next:
  assumes "unat (ea_start args) \<le> c" and "(c - unat (ea_start args)) mod unat (ea_chunk_size args) = 0"
    and "c < n" and "n \<le> c + unat (ea_chunk_size args)"
  shows "chunks_written H get A args fs n = chunk_written H get A args (chunks_written H get A args fs c) c"
  by (simp add: chunks_written_def chunk_starts_next [OF assms])

context node_store
begin

lemma export_ledger_step:
  assumes r: "steps_ok args" and A: "archived H D get db (unat (ea_start args)) (unat (ea_end args)) A"
    and inv: "export_inv H get A args fs n st" and n: "n \<le> unat (ea_end args)"
  shows "\<exists>st'. export_ledger H get args st (of_nat n, ar_info A (of_nat n), li_ledger_hash (ar_info A (of_nat n)), diff_at get A n)
      = oret st' \<and> export_inv H get A args fs (Suc n) st'"
proof -
  let ?a = "unat (ea_start args)" and ?k = "unat (ea_chunk_size args)" and ?i = "ar_info A (of_nat n)"
  obtain c where c: "?a \<le> c" "c < n" "n \<le> c + ?k" "(c - ?a) mod ?k = 0"
    and st: "ex_chunk_start st = of_nat c" "ex_state st = node_map (ar_nodes A (of_nat (n - 1)))"
      "(ex_fs st, ex_writer st) = open_chunk get A args (chunks_written H get A args fs c) c n"
    by (rule exE [OF inv [unfolded export_inv_def]]) (elim conjE, rule that)
  have an: "?a < n" using c(1,2) by simp
  have state: "apply_diff (ex_state st) (diff_at get A n) = node_map (ar_nodes A (of_nat n))"
    unfolding st(2) by (rule archived_diff(2) [OF A an n])
  have txns: "collect_transactions get (li_tx_hash ?i) = oret (ar_txns A (of_nat n))"
    by (rule archivedD(6) [OF A less_imp_le [OF an] n])
  have m: "ledger_tx_map (of_nat n) (li_ledger_hash ?i) ?i (ar_txns A (of_nat n)) = tx_map_at A n"
    by (simp add: tx_map_at_def Let_def)
  have size: "of_nat n - ex_chunk_start st = ea_chunk_size args \<longleftrightarrow> n = c + ?k"
  proof -
    have "of_nat n - of_nat c = (of_nat (n - c) :: u32)" using c(2) by (simp add: of_nat_diff)
    moreover have "unat (of_nat (n - c) :: u32) = n - c" using n steps_okD(3) [OF r] by (intro unat_of_nat32) simp
    ultimately show ?thesis using c(2) unfolding st(1) by (simp add: word_unat_eq_iff) linarith
  qed
  show ?thesis
  proof (cases "n = c + ?k")
    case True
    have last: "Suc (unat (chunk_end_for args (of_nat c))) = n"
      using chunk_end_unwrapped [of args c] c(2) n True steps_okD [OF r] by simp
    have closed: "writer_drop (fst (writer_finish H (ex_fs st, ex_writer st))) = chunks_written H get A args fs n"
      unfolding st(3) chunks_written_next [OF c(1,4,2,3)] chunk_written_def last ..
    obtain st1 h where fin: "writer_finish H (ex_fs st, ex_writer st) = (st1, h)" by (cases "writer_finish H (ex_fs st, ex_writer st)")
    obtain fs2 w2 where w2: "open_chunk get A args (chunks_written H get A args fs n) n (Suc n) = (fs2, w2)"
      by (cases "open_chunk get A args (chunks_written H get A args fs n) n (Suc n)")
    have start: "start_chunk args (writer_drop st1) (of_nat n) (li_ledger_hash ?i) (node_map (ar_nodes A (of_nat n))) (tx_map_at A n) = (fs2, w2)"
      using closed fin w2 by (simp add: start_chunk_opens [of _ _ _ A get])
    have "n - ?a = (c - ?a) + ?k" using c(1) True by simp
    then have "(n - ?a) mod ?k = 0" using c(4) by simp
    moreover have "export_ledger H get args st (of_nat n, ?i, li_ledger_hash ?i, diff_at get A n) =
        oret \<lparr>ex_fs = fs2, ex_writer = w2, ex_state = node_map (ar_nodes A (of_nat n)), ex_chunk_start = of_nat n,
              ex_prev_account_hash = li_account_hash ?i\<rparr>"
      by (simp add: export_ledger_def Let_def or_leave_def txns state size True [symmetric] m fin start)
    ultimately show ?thesis
      using an steps_okD(2) [OF r] w2 unfolding export_inv_def
      by (intro exI [of _ "\<lparr>ex_fs = fs2, ex_writer = w2, ex_state = node_map (ar_nodes A (of_nat n)),
          ex_chunk_start = of_nat n, ex_prev_account_hash = li_account_hash ?i\<rparr>"] conjI exI [of _ n]) simp_all
  next
    case False
    obtain fs2 w2 where w2: "open_chunk get A args (chunks_written H get A args fs c) c (Suc n) = (fs2, w2)"
      by (cases "open_chunk get A args (chunks_written H get A args fs c) c (Suc n)")
    have "writer_tx_map (writer_delta (ex_fs st, ex_writer st) \<lparr>ld_ledger_seq = of_nat n, ld_diff = diff_at get A n\<rparr>) (tx_map_at A n) = (fs2, w2)"
      using w2 c(2) unfolding st(3) by (simp add: open_chunk_next)
    then have "export_ledger H get args st (of_nat n, ?i, li_ledger_hash ?i, diff_at get A n) =
        oret \<lparr>ex_fs = fs2, ex_writer = w2, ex_state = node_map (ar_nodes A (of_nat n)), ex_chunk_start = ex_chunk_start st,
              ex_prev_account_hash = li_account_hash ?i\<rparr>"
      by (simp add: export_ledger_def Let_def or_leave_def txns state size False m)
    then show ?thesis
      using c False w2 st(1) unfolding export_inv_def
      by (intro exI [of _ "\<lparr>ex_fs = fs2, ex_writer = w2, ex_state = node_map (ar_nodes A (of_nat n)),
          ex_chunk_start = ex_chunk_start st, ex_prev_account_hash = li_account_hash ?i\<rparr>"] conjI exI [of _ c]) simp_all
  qed
qed

text \<open>The tuples a batch zips together, ledger by ledger.\<close>

lemma export_ledgers:
  assumes r: "steps_ok args" and A: "archived H D get db (unat (ea_start args)) (unat (ea_end args)) A"
    and "export_inv H get A args fs n st" and "n \<le> m" and "m \<le> Suc (unat (ea_end args))"
  shows "\<exists>st'. ofold (export_ledger H get args) st
      (map (\<lambda>i. (of_nat i, ar_info A (of_nat i), li_ledger_hash (ar_info A (of_nat i)), diff_at get A i)) [n..<m])
      = oret st' \<and> export_inv H get A args fs m st'"
  using assms(3-5)
proof (induction "m - n" arbitrary: n st)
  case 0
  then show ?case by simp
next
  case (Suc k)
  then have lt: "n < m" "k = m - Suc n" by simp_all
  obtain u where u: "export_ledger H get args st (of_nat n, ar_info A (of_nat n), li_ledger_hash (ar_info A (of_nat n)), diff_at get A n) = oret u"
    "export_inv H get A args fs (Suc n) u"
    using export_ledger_step [OF r A Suc.prems(1)] lt(1) Suc.prems(3) by auto
  have "Suc n \<le> m" using lt(1) by simp
  from Suc.hyps(1) [OF lt(2) u(2) this Suc.prems(3)] u(1) show ?case by (simp add: upt_conv_Cons [OF lt(1)])
qed

lemma root_pairs_at:
  "root_pairs (li_account_hash (ar_info A (of_nat (n - 1)))) (map (\<lambda>i. ar_info A (of_nat i)) [n..<m]) =
     map (\<lambda>i. (li_account_hash (ar_info A (of_nat (i - 1))), li_account_hash (ar_info A (of_nat i)))) [n..<m]"
proof (induction "m - n" arbitrary: n)
  case 0
  then show ?case by simp
next
  case (Suc k)
  then have lt: "n < m" "k = m - Suc n" by simp_all
  from Suc.hyps(1) [OF lt(2)] show ?case by (simp add: upt_conv_Cons [OF lt(1)])
qed

lemma omap_map: "(\<And>x. x \<in> set xs \<Longrightarrow> f (h x) = oret (g x)) \<Longrightarrow> omap f (map h xs) = oret (map g xs)"
  by (induction xs) simp_all

lemma export_batch_steps:
  assumes r: "steps_ok args" and A: "archived H D get db (unat (ea_start args)) (unat (ea_end args)) A"
    and inv: "export_inv H get A args fs n st" and n: "n \<le> m" "m \<le> unat (ea_end args)"
  shows "\<exists>st'. export_batch H D get db args concurrency (of_nat n) (of_nat m) st = oret st' \<and>
    export_inv H get A args fs (Suc m) st'"
proof -
  let ?is = "[n..<Suc m]" and ?acct = "\<lambda>i. li_account_hash (ar_info A (of_nat i))"
  have a: "unat (ea_start args) < n" and prev: "ex_prev_account_hash st = ?acct (n - 1)"
    using inv unfolding export_inv_def by auto
  have unat: "unat (of_nat n :: u32) = n" "unat (of_nat m :: u32) = m"
    using n steps_okD(3) [OF r] by (simp_all add: unat_of_nat32)
  have at: "unat (ea_start args) \<le> i" "unat (ea_start args) < i" "i \<le> unat (ea_end args)" if "i \<in> set ?is" for i
    using that a n by auto
  have infos: "omap (\<lambda>s. Some (ledger_index_get D db s)) (map of_nat ?is) = oret (map (\<lambda>i. ar_info A (of_nat i)) ?is)"
    by (rule omap_map) (simp only: archivedD(1) [OF A at(1,3)])
  have "omap (\<lambda>(info, s). Some (verify_ledger_hash H info s)) (map (\<lambda>i. (ar_info A (of_nat i), of_nat i)) ?is)
      = oret (map (\<lambda>i. li_ledger_hash (ar_info A (of_nat i))) ?is)"
    by (rule omap_map) (simp only: prod.case archivedD(2) [OF A at(1,3)])
  then have hashes: "omap (\<lambda>(info, s). Some (verify_ledger_hash H info s)) (zip (map (\<lambda>i. ar_info A (of_nat i)) ?is) (map of_nat ?is))
      = oret (map (\<lambda>i. li_ledger_hash (ar_info A (of_nat i))) ?is)"
    by (simp only: zip_map_map zip_same_conv_map map_map comp_def prod.case)
  have diffs: "diff_batch_concurrent get (root_pairs (ex_prev_account_hash st) (map (\<lambda>i. ar_info A (of_nat i)) ?is)) concurrency
      = oret (map (diff_at get A) ?is)"
    unfolding prev root_pairs_at diff_batch_concurrent_def
    by (rule omap_map) (simp only: prod.case archived_diff(1) [OF A at(2,3)])
  have zips: "zip (map of_nat ?is) (zip (map (\<lambda>i. ar_info A (of_nat i)) ?is)
      (zip (map (\<lambda>i. li_ledger_hash (ar_info A (of_nat i))) ?is) (map (diff_at get A) ?is))) =
      map (\<lambda>i. (of_nat i, ar_info A (of_nat i), li_ledger_hash (ar_info A (of_nat i)), diff_at get A i)) ?is"
    by (simp only: zip_map_map zip_same_conv_map map_map comp_def prod.case)
  have "Suc m \<le> Suc (unat (ea_end args))" "n \<le> Suc m" using n by simp_all
  from export_ledgers [OF r A inv this(2,1)] show ?thesis
    unfolding export_batch_def Let_def unat infos hashes
    by (simp only: or_leave_def infos hashes diffs zips option.map sum.case obind_simps)
qed

lemma export_loop_steps:
  assumes r: "steps_ok args" and A: "archived H D get db (unat (ea_start args)) (unat (ea_end args)) A"
    and "concurrency \<le> 64" and "export_inv H get A args fs n st" and "n \<le> Suc (unat (ea_end args))"
  shows "\<exists>st'. export_loop H D get db args concurrency (of_nat n) st = oret st' \<and>
    export_inv H get A args fs (Suc (unat (ea_end args))) st'"
  using assms(4,5)
proof (induction "Suc (unat (ea_end args)) - n" arbitrary: n st rule: less_induct)
  case less
  let ?b = "unat (ea_end args)"
  have small: "?b + 64 < 4294967296" by (rule steps_okD(3) [OF r])
  have un: "unat (of_nat n :: u32) = n" using less.prems(2) small by (intro unat_of_nat32) simp
  show ?case
  proof (cases "?b < n")
    case True
    then have "ea_end args < of_nat n" by (simp add: word_less_nat_alt un)
    moreover have "n = Suc ?b" using True less.prems(2) by simp
    ultimately show ?thesis using less.prems(1) by (subst export_loop.simps) simp
  next
    case False
    let ?m = "min (n + max concurrency 1 - 1) ?b"
    have more: "\<not> ea_end args < of_nat n" using False by (simp add: word_less_nat_alt un)
    have "of_nat n + of_nat (max concurrency 1) - 1 = (of_nat (n + max concurrency 1 - 1) :: u32)"
      by (simp add: of_nat_diff)
    moreover have "unat (of_nat (n + max concurrency 1 - 1) :: u32) = n + max concurrency 1 - 1"
      using assms(3) False small by (intro unat_of_nat32) simp
    ultimately have batch_end: "min (of_nat n + of_nat (max concurrency 1) - 1) (ea_end args) = of_nat ?m"
      by (simp add: min_def word_le_nat_alt)
    have m: "n \<le> ?m" "?m \<le> ?b" using False by simp_all
    obtain u where u: "export_batch H D get db args concurrency (of_nat n) (of_nat ?m) st = oret u"
      "export_inv H get A args fs (Suc ?m) u"
      using export_batch_steps [OF r A less.prems(1) m] by blast
    have "Suc ?b - Suc ?m < Suc ?b - n" "Suc ?m \<le> Suc ?b" using m by linarith+
    from less.hyps [OF this(1) u(2) this(2)] obtain st' where
      st': "export_loop H D get db args concurrency (of_nat (Suc ?m)) u = oret st'"
      "export_inv H get A args fs (Suc ?b) st'" by blast
    have "export_loop H D get db args concurrency (of_nat n) st = oret st'"
      using st'(1) more u(1) by (subst export_loop.simps) (simp only: if_False Let_def batch_end obind_simps of_nat_Suc add.commute)
    with st'(2) show ?thesis by blast
  qed
qed

end

end
