(* ===== verification/Export_Files.thy ===== *)
theory Export_Files
  imports Export_Chunks
begin

text \<open>
  The run of the exporter as a whole, and the files it leaves: the chunk names of one run are
  different, each holds the chunk of its range, and no other file changes.
\<close>

section \<open>The run\<close>

context node_store
begin

lemma reachable_state:
  assumes "tree get h ns" and "h \<noteq> 0" and "nodes_of get (Collect (reach get h)) ms"
  shows "foldl insert_node Map.empty ms = node_map ns"
proof -
  have ms: "distinct (map node_hash ms)" "node_hash ` set ms = node_hash ` set ns" "from_store get ms"
    using assms(3) tree_reachable [OF assms(1,2)] by (auto simp add: nodes_of_def from_store_def)
  have "node_map ms k = node_map ns k" for k
  proof (cases "node_map ms k")
    case None
    then have "node_map ns k = None" unfolding node_map_None by (simp add: ms(2))
    with None show ?thesis by simp
  next
    case (Some n)
    then have "node_map ns k = Some n"
      using ms(2) by (simp add: node_map_from_store [OF ms(3)] node_map_from_store [OF tree_from_store [OF assms(1)]])
    with Some show ?thesis by simp
  qed
  then show ?thesis using foldl_insert_node [OF ms(1), of Map.empty] by (simp add: fun_eq_iff)
qed

lemma export_inv_start:
  assumes "steps_ok args"
    and "open_chunk get A args fs (unat (ea_start args)) (Suc (unat (ea_start args))) = (fs1, w)"
  shows "export_inv H get A args fs (Suc (unat (ea_start args)))
    \<lparr>ex_fs = fs1, ex_writer = w, ex_state = node_map (ar_nodes A (ea_start args)), ex_chunk_start = ea_start args,
     ex_prev_account_hash = li_account_hash (ar_info A (ea_start args))\<rparr>"
  using steps_okD(2) [OF assms(1)] assms(2) unfolding export_inv_def
  by (intro exI [of _ "unat (ea_start args)"]) (simp add: chunks_written_def chunk_starts_def)

lemma export_inv_end:
  assumes "range_ok args" and "export_inv H get A args fs (Suc (unat (ea_end args))) st"
  shows "writer_drop (fst (writer_finish H (ex_fs st, ex_writer st))) =
    chunks_written H get A args fs (Suc (unat (ea_end args)))"
proof -
  let ?b = "unat (ea_end args)"
  obtain c where c: "unat (ea_start args) \<le> c" "c < Suc ?b" "Suc ?b \<le> c + unat (ea_chunk_size args)"
      "(c - unat (ea_start args)) mod unat (ea_chunk_size args) = 0"
    and st: "(ex_fs st, ex_writer st) = open_chunk get A args (chunks_written H get A args fs c) c (Suc ?b)"
    by (rule exE [OF assms(2) [unfolded export_inv_def]]) (elim conjE, rule that)
  have "unat (chunk_end_for args (of_nat c)) = ?b"
    using unat_chunk_end [OF assms(1), of c] c(2,3) by simp
  then show ?thesis
    unfolding chunks_written_next [OF c(1,4,2,3)] chunk_written_def st by simp
qed

end

text \<open>The run ends in the invariant after the last ledger, with the last writer to finish.\<close>

lemma export_main_ends:
  assumes r: "steps_ok args" and opened: "nudb_open dats = oret shards"
    and A: "archived H D (get_node X L shards) db (unat (ea_start args)) (unat (ea_end args)) A"
  shows "\<exists>st. export_main H X L D elapsed shares_device args dats (Some db) fs =
      oret (writer_drop (fst (writer_finish H (ex_fs st, ex_writer st)))) \<and>
    export_inv H (get_node X L shards) A args fs (Suc (unat (ea_end args))) st"
proof -
  let ?get = "get_node X L shards" and ?a = "ea_start args"
  let ?i = "ar_info A ?a" and ?m = "tx_map_at A (unat ?a)"
  have again: "(of_nat (unat ?a) :: u32) = ?a" by simp
  note at = archivedD [OF A order_refl less_imp_le [OF steps_okD(1) [OF r]], unfolded again]
  have complete: "complete_tree ?get (li_account_hash ?i)" by (rule tree_complete [OF at(4,3)])
  obtain k where k: "calibrate_concurrency ?get elapsed shares_device (li_account_hash ?i) = oret k" "k \<le> 64"
    using calibrate_complete [OF complete, of elapsed "if shares_device then [1, 2, 4] else [1, 2, 4, 8, 16, 32]"]
    by (auto simp add: calibrate_concurrency_def split: if_splits)
  obtain ns where ns: "collect_reachable_concurrent ?get (li_account_hash ?i) k = oret ns"
    "nodes_of ?get (Collect (reach ?get (li_account_hash ?i))) ns"
    using nudb.collect_reachable_concurrent_complete [OF complete] by blast
  have state: "foldl insert_node Map.empty ns = node_map (ar_nodes A ?a)"
    by (rule nudb.reachable_state [OF at(4,3) ns(2)])
  obtain fs1 w where w: "open_chunk ?get A args fs (unat ?a) (Suc (unat ?a)) = (fs1, w)"
    by (cases "open_chunk ?get A args fs (unat ?a) (Suc (unat ?a))")
  have m: "ledger_tx_map ?a (li_ledger_hash ?i) ?i (ar_txns A ?a) = ?m" by (simp add: tx_map_at_def Let_def)
  have start: "start_chunk args fs ?a (li_ledger_hash ?i) (node_map (ar_nodes A ?a)) ?m = (fs1, w)"
    using start_chunk_opens [of args fs "unat ?a" A ?get] w by simp
  let ?st = "\<lparr>ex_fs = fs1, ex_writer = w, ex_state = node_map (ar_nodes A ?a), ex_chunk_start = ?a,
     ex_prev_account_hash = li_account_hash ?i\<rparr>"
  have "Suc (unat ?a) \<le> Suc (unat (ea_end args))" using steps_okD(1) [OF r] by simp
  from nudb.export_loop_steps [OF r A k(2) nudb.export_inv_start [OF r w] this]
  obtain st where st: "export_loop H D ?get db args k (?a + 1) ?st = oret st"
    "export_inv H ?get A args fs (Suc (unat (ea_end args))) st" by (auto simp add: add.commute)
  have range: "\<not> ea_end args \<le> ?a" "ea_chunk_size args \<noteq> 0" using r by (auto simp add: steps_ok_def not_le)
  have "export_main H X L D elapsed shares_device args dats (Some db) fs =
      oret (writer_drop (fst (writer_finish H (ex_fs st, ex_writer st))))"
    unfolding export_main_def Let_def
    by (simp only: range if_False or_leave_def opened option.map sum.case obind_simps or_error_def option.case
        at(1,2,6) k(1) ns(1) state m start prod.case st(1))
  with st(2) show ?thesis by blast
qed

lemma export_main_writes:
  assumes "range_ok args" and "nudb_open dats = oret shards"
    and "archived H D (get_node X L shards) db (unat (ea_start args)) (unat (ea_end args)) A"
  shows "export_main H X L D elapsed shares_device args dats (Some db) fs =
    oret (chunks_written H (get_node X L shards) A args fs (Suc (unat (ea_end args))))"
proof -
  obtain st where "export_main H X L D elapsed shares_device args dats (Some db) fs =
      oret (writer_drop (fst (writer_finish H (ex_fs st, ex_writer st))))"
    and "export_inv H (get_node X L shards) A args fs (Suc (unat (ea_end args))) st"
    using export_main_ends [OF range_ok_steps [OF assms(1)] assms(2,3)] by blast
  with nudb.export_inv_end [OF assms(1)] show ?thesis by simp
qed


section \<open>File names\<close>

definition dec_value :: "string \<Rightarrow> nat" where
  "dec_value s = foldl (\<lambda>v c. v * 10 + (of_char c - 48)) 0 s"

lemma dec_value_dec_digits: "dec_value (dec_digits n) = n"
proof (induction n rule: dec_digits.induct)
  case (1 n)
  show ?case
  proof (cases "n < 10")
    case True
    then show ?thesis by (simp add: dec_digits.simps [of n] dec_value_def)
  next
    case False
    then have "dec_value (dec_digits (n div 10)) = n div 10" using 1 by simp
    with False show ?thesis by (simp add: dec_digits.simps [of n] dec_value_def)
  qed
qed

lemma dec_value_pad10: "dec_value (pad10 n) = n"
proof -
  have "foldl (\<lambda>v c. v * 10 + (of_char c - 48)) 0 (replicate k (CHR ''0'')) = (0 :: nat)" for k
    by (induction k) simp_all
  then show ?thesis using dec_value_dec_digits by (simp add: pad10_def dec_value_def)
qed

lemma length_dec_digits: "n < 10 ^ k \<Longrightarrow> 0 < k \<Longrightarrow> length (dec_digits n) \<le> k"
proof (induction n arbitrary: k rule: dec_digits.induct)
  case (1 n)
  show ?case
  proof (cases "n < 10")
    case True
    then show ?thesis using "1.prems" by (simp add: dec_digits.simps [of n])
  next
    case False
    then obtain j where j: "k = Suc j" "0 < j" using "1.prems" by (cases k; cases "k - 1") auto
    then have "n div 10 < 10 ^ j" using "1.prems"(1) by (simp add: less_mult_imp_div_less mult.commute)
    from "1.IH" [OF False this j(2)] False j(1) show ?thesis by (simp add: dec_digits.simps [of n])
  qed
qed

lemma length_pad10: "length (pad10 (unat (s :: u32))) = 10"
proof -
  have "unat s < 10 ^ 10" using unat_less32 [of s] by simp
  from length_dec_digits [OF this] show ?thesis by (simp add: pad10_def)
qed

lemma chunk_filename_start:
  assumes "chunk_filename net s e = chunk_filename net s' e'"
  shows "s = s'"
proof -
  have "pad10 (unat s) = pad10 (unat s')"
    using assms append_eq_append_conv [of "pad10 (unat s)" "pad10 (unat s')"]
    by (simp add: chunk_filename_def length_pad10)
  then have "unat s = unat s'" by (metis dec_value_pad10)
  then show ?thesis by (simp add: word_unat_eq_iff)
qed

lemma chunk_path_start: "chunk_path args s = chunk_path args s' \<Longrightarrow> s = s'"
  by (auto simp add: chunk_path_def path_join_def split: if_splits dest: chunk_filename_start)

lemma chunk_path_not_tmp: "chunk_path args s \<noteq> p @ ''.tmp''"
proof
  assume "chunk_path args s = p @ ''.tmp''"
  then have "last (chunk_path args s) = CHR ''p''" by simp
  then show False by (simp add: chunk_path_def path_join_def chunk_filename_def split: if_splits)
qed

section \<open>File contents\<close>

text \<open>The ledgers and the bytes of the chunk that starts at \<open>c\<close>.\<close>

definition chunk_last :: "export_args \<Rightarrow> nat \<Rightarrow> nat" where
  "chunk_last args c = unat (chunk_end_for args (of_nat c))"

definition chunk_rest :: "node_lookup \<Rightarrow> archive \<Rightarrow> export_args \<Rightarrow> nat \<Rightarrow> (ledger_delta \<times> tx_map) list" where
  "chunk_rest get A args c = map (ledger_at get A) [Suc c..<Suc (chunk_last args c)]"

definition exported_body :: "node_lookup \<Rightarrow> archive \<Rightarrow> export_args \<Rightarrow> nat \<Rightarrow> byte list" where
  "exported_body get A args c = stream_body (checkpoint_at A c) (tx_map_at A c) (chunk_rest get A args c)"

definition exported_bytes :: "sha512 \<Rightarrow> node_lookup \<Rightarrow> archive \<Rightarrow> export_args \<Rightarrow> nat \<Rightarrow> byte list" where
  "exported_bytes H get A args c =
     header_bytes format_version_streamed (ea_network_id args) (of_nat c) (chunk_end_for args (of_nat c))
       (li_ledger_hash (ar_info A (of_nat c))) (sha512half H (exported_body get A args c)) @ exported_body get A args c"

definition exported_chunk :: "sha512 \<Rightarrow> node_lookup \<Rightarrow> archive \<Rightarrow> export_args \<Rightarrow> nat \<Rightarrow> chunk" where
  "exported_chunk H get A args c =
     stream_chunk (ea_network_id args) (of_nat c) (chunk_end_for args (of_nat c))
       (li_ledger_hash (ar_info A (of_nat c))) (sha512half H (exported_body get A args c))
       (checkpoint_at A c) (tx_map_at A c) (chunk_rest get A args c)"

lemma chunk_written_file:
  "chunk_written H get A args fs c =
     fs(chunk_path args (of_nat c) \<mapsto> exported_bytes H get A args c, chunk_path args (of_nat c) @ ''.tmp'' := None)"
  using stream_file_eq [of H fs "chunk_path args (of_nat c)" "ea_network_id args" "of_nat c"
      "chunk_end_for args (of_nat c)" "li_ledger_hash (ar_info A (of_nat c))" "checkpoint_at A c" "tx_map_at A c"
      "chunk_rest get A args c"]
  by (simp add: chunk_written_def open_chunk_def chunk_ops_def stream_file_def exported_bytes_def exported_body_def
      chunk_rest_def chunk_last_def del: upt_Suc)

lemma written_chunk_stays:
  assumes "c \<in> set cs" and "\<forall>c \<in> set cs. c < 4294967296"
  shows "foldl (chunk_written H get A args) fs cs (chunk_path args (of_nat c)) = Some (exported_bytes H get A args c)"
  using assms
proof (induction cs rule: rev_induct)
  case (snoc x cs)
  show ?case
  proof (cases "c = x")
    case True
    then show ?thesis by (simp add: chunk_written_file)
  next
    case False
    have "c < 4294967296" "x < 4294967296" using snoc.prems by auto
    then have "unat (of_nat c :: u32) = c" "unat (of_nat x :: u32) = x" by (simp_all only: unat_of_nat32)
    then have "chunk_path args (of_nat c) \<noteq> chunk_path args (of_nat x)" using False chunk_path_start by metis
    then show ?thesis using False snoc by (simp add: chunk_written_file chunk_path_not_tmp)
  qed
qed simp

lemma other_files_stay:
  "\<forall>c \<in> set cs. p \<noteq> chunk_path args (of_nat c) \<and> p \<noteq> chunk_path args (of_nat c) @ ''.tmp'' \<Longrightarrow>
     foldl (chunk_written H get A args) fs cs p = fs p"
  by (induction cs arbitrary: fs) (simp_all add: chunk_written_file)

lemma chunk_start_bounds:
  assumes "range_ok args" and "c \<in> set (chunk_starts args (Suc (unat (ea_end args))))"
  shows "unat (ea_start args) \<le> c" "c \<le> unat (ea_end args)" "c < 4294967296"
  using assms(2) range_okD(4) [OF assms(1)] by (auto simp add: chunk_starts_def)

lemma chunk_last_bounds:
  assumes "range_ok args" and "c \<le> unat (ea_end args)"
  shows "c \<le> chunk_last args c" "chunk_last args c \<le> unat (ea_end args)"
    "unat (chunk_end_for args (of_nat c) - of_nat c) = chunk_last args c - c"
proof -
  note r = range_okD [OF assms(1)] and e = unat_chunk_end [OF assms]
  show le: "c \<le> chunk_last args c" "chunk_last args c \<le> unat (ea_end args)"
    using assms(2) r(2) by (simp_all add: chunk_last_def e)
  have "unat (of_nat c :: u32) = c" using assms(2) r(4) by (intro unat_of_nat32) simp
  moreover have "of_nat c \<le> chunk_end_for args (of_nat c)"
    using le(1) calculation by (simp add: word_le_nat_alt chunk_last_def)
  ultimately show "unat (chunk_end_for args (of_nat c) - of_nat c) = chunk_last args c - c"
    by (simp add: unat_sub chunk_last_def)
qed

text \<open>The sizes the length fields of the format can hold.\<close>

definition archive_fits :: "nat \<Rightarrow> nat \<Rightarrow> archive \<Rightarrow> bool" where
  "archive_fits a b A \<longleftrightarrow>
     (\<forall>n. a \<le> n \<longrightarrow> n \<le> b \<longrightarrow>
        list_all wf_node (ar_nodes A (of_nat n)) \<and> length (ar_nodes A (of_nat n)) < 4294967296 \<and>
        wf_tx_map (tx_map_at A n))"

context node_store
begin

lemma diff_at_effect:
  assumes "archived H D get db a b A" and "a < n" and "n \<le> b"
  shows "\<exists>D C. mset (diff_deleted (diff_at get A n)) = image_mset node_hash D \<and>
    mset (ar_nodes A (of_nat (n - 1))) = C + D \<and>
    mset (ar_nodes A (of_nat n)) = C + mset (diff_added (diff_at get A n)) \<and>
    under {li_account_hash (ar_info A (of_nat n))} (diff_added (diff_at get A n)) \<and>
    (li_account_hash (ar_info A (of_nat (n - 1))) \<noteq> li_account_hash (ar_info A (of_nat n)) \<longrightarrow>
       li_account_hash (ar_info A (of_nat n)) \<in> node_hash ` set (diff_added (diff_at get A n))) \<and>
    sorted (map node_hash (diff_added (diff_at get A n))) \<and> sorted (diff_deleted (diff_at get A n))"
proof -
  let ?o = "of_nat (n - 1) :: u32" and ?n = "of_nat n :: u32"
  have t: "tree get (li_account_hash (ar_info A ?o)) (ar_nodes A ?o)" "tree get (li_account_hash (ar_info A ?n)) (ar_nodes A ?n)"
    "li_account_hash (ar_info A ?n) \<noteq> 0"
    using archivedD(4) [OF assms(1), of "n - 1"] archivedD(3,4) [OF assms(1), of n] assms(2,3) by simp_all
  obtain d D C where d: "diff_roots get (li_account_hash (ar_info A ?o)) (li_account_hash (ar_info A ?n)) = oret d"
    "sorted (map node_hash (diff_added d))" "sorted (diff_deleted d)" "mset (diff_deleted d) = image_mset node_hash D"
    "mset (ar_nodes A ?o) = C + D" "mset (ar_nodes A ?n) = C + mset (diff_added d)"
    "under {li_account_hash (ar_info A ?n)} (diff_added d)"
    "li_account_hash (ar_info A ?o) \<noteq> li_account_hash (ar_info A ?n) \<longrightarrow> li_account_hash (ar_info A ?n) \<noteq> 0 \<longrightarrow>
       li_account_hash (ar_info A ?n) \<in> node_hash ` set (diff_added d)"
    by (rule exE [OF diff_roots_effect [OF t(1,2)]]) (elim exE conjE, rule that)
  have "diff_at get A n = d" unfolding diff_at_def d(1) by simp
  with d t(3) show ?thesis by blast
qed

lemma diff_at_added: 
  assumes "archived H D get db a b A" and "a < n" and "n \<le> b"
  shows "set (diff_added (diff_at get A n)) \<subseteq> set (ar_nodes A (of_nat n))"
    and "length (diff_added (diff_at get A n)) \<le> length (ar_nodes A (of_nat n))"
    and "length (diff_deleted (diff_at get A n)) \<le> length (ar_nodes A (of_nat (n - 1)))"
    and "set (diff_deleted (diff_at get A n)) \<subseteq> node_hash ` set (ar_nodes A (of_nat (n - 1)))"
proof -
  obtain D C where d: "mset (diff_deleted (diff_at get A n)) = image_mset node_hash D"
    "mset (ar_nodes A (of_nat (n - 1))) = C + D" "mset (ar_nodes A (of_nat n)) = C + mset (diff_added (diff_at get A n))"
    by (rule exE [OF diff_at_effect [OF assms]]) (elim exE conjE, rule that)
  show "set (diff_added (diff_at get A n)) \<subseteq> set (ar_nodes A (of_nat n))"
    using arg_cong [OF d(3), of set_mset] by auto
  show "length (diff_added (diff_at get A n)) \<le> length (ar_nodes A (of_nat n))"
    using arg_cong [OF d(3), of size] by simp
  show "length (diff_deleted (diff_at get A n)) \<le> length (ar_nodes A (of_nat (n - 1)))"
    using arg_cong [OF d(1), of size] arg_cong [OF d(2), of size] by simp
  show "set (diff_deleted (diff_at get A n)) \<subseteq> node_hash ` set (ar_nodes A (of_nat (n - 1)))"
    using arg_cong [OF d(1), of set_mset] arg_cong [OF d(2), of set_mset] by auto
qed

lemma wf_written:
  assumes A: "archived H D get db a b A" and fits: "archive_fits a b A" and c: "a \<le> c" "c \<le> b" and n: "n \<le> Suc b"
  shows "list_all wf_node (checkpoint_at A c)" "length (checkpoint_at A c) < 4294967296" "wf_tx_map (tx_map_at A c)"
    "list_all (\<lambda>(d, m). wf_delta d \<and> wf_tx_map m) (map (ledger_at get A) [Suc c..<n])"
proof -
  have fit: "list_all wf_node (ar_nodes A (of_nat n))" "length (ar_nodes A (of_nat n)) < 4294967296" "wf_tx_map (tx_map_at A n)"
    if "a \<le> n" "n \<le> b" for n
    using fits that unfolding archive_fits_def by simp_all
  have cp: "mset (checkpoint_at A c) = mset (ar_nodes A (of_nat c))"
    unfolding checkpoint_at_def by (rule state_values_node_map(1) [OF archivedD(5) [OF A c]])
  have "set (checkpoint_at A c) = set (ar_nodes A (of_nat c))" "length (checkpoint_at A c) = length (ar_nodes A (of_nat c))"
    using arg_cong [OF cp, of set_mset] arg_cong [OF cp, of size] by simp_all
  then show "length (checkpoint_at A c) < 4294967296" "list_all wf_node (checkpoint_at A c)"
    using fit [OF c] by (simp_all add: list_all_iff)
  show "wf_tx_map (tx_map_at A c)" by (rule fit(3) [OF c])
  have "wf_delta (fst (ledger_at get A i)) \<and> wf_tx_map (snd (ledger_at get A i))" if "i \<in> set [Suc c..<n]" for i
  proof -
    have i: "a < i" "i \<le> b" using that c(1) n by auto
    have "length (ar_nodes A (of_nat (i - 1))) < 4294967296" using i by (intro fit(2)) simp_all
    with i diff_at_added [OF A i] fit [OF less_imp_le [OF i(1)] i(2)] show ?thesis
      by (auto simp add: ledger_at_def wf_delta_def list_all_iff)
  qed
  then show "list_all (\<lambda>(d, m). wf_delta d \<and> wf_tx_map m) (map (ledger_at get A) [Suc c..<n])"
    by (auto simp add: list_all_iff split_def)
qed

lemma wf_exported:
  assumes r: "range_ok args" and A: "archived H D get db (unat (ea_start args)) (unat (ea_end args)) A"
    and fits: "archive_fits (unat (ea_start args)) (unat (ea_end args)) A"
    and c: "unat (ea_start args) \<le> c" "c \<le> unat (ea_end args)"
  shows "wf_stream (of_nat c) (chunk_end_for args (of_nat c)) (checkpoint_at A c) (tx_map_at A c) (chunk_rest get A args c)"
proof -
  note last = chunk_last_bounds [OF r c(2)]
  have "Suc (chunk_last args c) \<le> Suc (unat (ea_end args))" using last(2) by simp
  from wf_written [OF A fits c this] last show ?thesis
    by (simp add: wf_stream_def chunk_rest_def del: upt_Suc)
qed

lemma exported_file_parses:
  assumes "range_ok args" and "archived H D get db (unat (ea_start args)) (unat (ea_end args)) A"
    and "archive_fits (unat (ea_start args)) (unat (ea_end args)) A"
    and "unat (ea_start args) \<le> c" "c \<le> unat (ea_end args)"
  shows "deserialize_chunk H (exported_bytes H get A args c) = Inr (exported_chunk H get A args c)"
  unfolding exported_bytes_def exported_chunk_def exported_body_def
  by (rule deserialize_stream_body [OF wf_exported [OF assms]])

end

end
