(* ===== verification/Export_Correct.thy ===== *)
theory Export_Correct
  imports Export_Files
begin

text \<open>
  The properties of the exporter: the files of a run, and that the importer's verification
  accepts each of them when the source is genuine. The last section shows what the header of
  a chunk says when the chunk size is too large for 32 bits.
\<close>

section \<open>Trees are acyclic\<close>

lemma tree_child_smaller:
  "tree get h ns \<Longrightarrow> n \<in> set ns \<Longrightarrow> node_children n = Inr cs \<Longrightarrow> c \<in> set cs \<Longrightarrow>
     \<exists>ms. tree get c ms \<and> set ms \<subseteq> set ns \<and> length ms < length ns"
proof (induction rule: tree.induct)
  case (tree_node h m ds nss)
  show ?case
  proof (cases "n \<in> set (concat nss)")
    case True
    then obtain ks where ks: "ks \<in> set nss" "n \<in> set ks" by auto
    then obtain i where i: "i < length nss" "nss ! i = ks" unfolding in_set_conv_nth by blast
    have "i < length ds" using i(1) list_all2_lengthD [OF tree_node.IH] by simp
    with list_all2_nthD [OF tree_node.IH this] i(2) ks(2) tree_node.prems(2,3)
    obtain ms where ms: "tree get c ms" "set ms \<subseteq> set ks" "length ms < length ks" by auto
    have "set ks \<subseteq> set (concat nss)" using ks(1) by auto
    moreover have "length ks \<le> length (concat nss)"
      using ks(1) by (simp add: length_concat member_le_sum_list)
    ultimately show ?thesis using ms by (intro exI [of _ ms]) auto
  next
    case False
    then have "n = m" using tree_node.prems(1) by auto
    then have "c \<in> set ds" using tree_node.hyps(3) tree_node.prems(2,3) by simp
    then obtain i where i: "i < length ds" "ds ! i = c" unfolding in_set_conv_nth by blast
    then have "i < length nss" "tree get c (nss ! i)"
      using list_all2_lengthD [OF tree_node.IH] list_all2_nthD [OF tree_node.IH] by auto
    moreover from this have "nss ! i \<in> set nss" by simp
    moreover from this have "length (nss ! i) \<le> length (concat nss)"
      by (simp add: length_concat member_le_sum_list)
    ultimately show ?thesis by (intro exI [of _ "nss ! i"]) auto
  qed
qed simp

lemma tree_root_not_child:
  "tree get h ns \<Longrightarrow> n \<in> set ns \<Longrightarrow> node_children n = Inr cs \<Longrightarrow> h \<notin> set cs"
  by (metis tree_child_smaller tree_unique less_irrefl)

lemma tree_has_children: "tree get h ns \<Longrightarrow> n \<in> set ns \<Longrightarrow> \<exists>cs. node_children n = Inr cs"
proof (induction rule: tree.induct)
  case (tree_node h m ds nss)
  show ?case
  proof (cases "n = m")
    case False
    with tree_node.prems obtain ks where "ks \<in> set nss" "n \<in> set ks" by auto
    then obtain i where "i < length nss" "n \<in> set (nss ! i)" by (metis in_set_conv_nth)
    then show ?thesis using list_all2_nthD2 [OF tree_node.IH] by blast
  qed (use tree_node.hyps in simp)
qed simp

context node_store
begin

lemma tree_closed:
  assumes "tree get h ns" and "n \<in> set ns"
  shows "\<exists>cs. node_children n = Inr cs \<and> set cs \<subseteq> node_hash ` set ns"
proof -
  obtain cs where cs: "node_children n = Inr cs" using tree_has_children [OF assms] by blast
  have "c \<in> node_hash ` set ns" if c: "c \<in> set cs" for c
  proof -
    obtain ms where ms: "tree get c ms" "set ms \<subseteq> set ns" using tree_child_smaller [OF assms cs c] by blast
    from treeE [OF ms(1) node_children_nonzero [OF cs c]] obtain m where "get c = oret m" "m \<in> set ms"
      by (metis in_set_conv_decomp)
    with ms(2) get_hash show ?thesis by blast
  qed
  with cs show ?thesis by blast
qed

text \<open>A tree of a store is a tree of every store, and of the live state, that holds its nodes.\<close>

lemma tree_transfer:
  "tree get h ns \<Longrightarrow> (\<forall>n \<in> set ns. get' (node_hash n) = oret n) \<Longrightarrow> tree get' h ns"
proof (induction rule: tree.induct)
  case (tree_node h n cs nss)
  have "\<forall>ks \<in> set nss. \<forall>n \<in> set ks. get' (node_hash n) = oret n" using tree_node.prems by auto
  then have "\<forall>i < length nss. \<forall>n \<in> set (nss ! i). get' (node_hash n) = oret n" using nth_mem by blast
  then have "list_all2 (tree get') cs nss"
    using tree_node.IH by (simp add: list_all2_conv_all_nth)
  moreover have "get' h = oret n" using tree_node.prems get_hash [OF tree_node.hyps(2)] by simp
  ultimately show ?case using tree_node.hyps by (intro tree.tree_node) simp_all
qed (simp add: tree_empty)

lemma tree_in_state:
  "tree get h ns \<Longrightarrow> (\<forall>n \<in> set ns. state (node_hash n) = Some n) \<Longrightarrow> tree (state_lookup state) h ns"
  by (rule tree_transfer) simp_all

end

lemma state_tree_complete:
  assumes "node_store get" and "tree get h ns" and "h \<noteq> 0" and "distinct (map node_hash ns)"
  shows "check_tree_complete h (node_map ns) = oret ()"
proof (rule tree_checks [OF _ assms(3)])
  show "tree (state_lookup (node_map ns)) h ns"
    using node_store.tree_in_state [OF assms(1,2)] node_map_distinct [OF assms(4)] by simp
  show "length ns = card (dom (node_map ns))"
    using distinct_card [OF assms(4)] by (simp add: node_map_dom)
qed

section \<open>The root of an added subtree\<close>

text \<open>\<open>plain\<close>: the inner nodes are full ones, as every reader of the source decodes them.\<close>

definition plain :: "shamap_node list \<Rightarrow> bool" where
  "plain ns \<longleftrightarrow> (\<forall>n \<in> set ns. is_inner (node_type n) \<longrightarrow> node_type n = Inner)"

lemma referenced_by_children:
  assumes "plain ns" and "n \<in> set ns" and "node_children n = Inr cs"
  shows "referenced_by n = set cs"
  using assms by (auto simp add: plain_def referenced_by_def node_children_def inner_from_node_def rbind_eq_Inr split: if_splits sum.splits)

lemma distinct_singleton:
  assumes "distinct l" and "set l = {r}"
  shows "l = [r]"
proof (cases l)
  case (Cons x xs)
  with assms have "x = r" "r \<notin> set xs" "set xs \<subseteq> {r}" by auto
  then have "xs = []" by (cases xs) auto
  with Cons \<open>x = r\<close> show ?thesis by simp
qed (use assms(2) in simp)

lemma find_new_root_tree:
  assumes t: "tree get h ns" and A: "set A \<subseteq> set ns" "distinct (map node_hash A)" "under {h} A" and plain: "plain ns"
    and root: "r \<in> set A" "node_hash r = h" "node_type r = Inner"
  shows "find_new_root A old = Inr h"
proof -
  let ?R = "\<Union> (referenced_by ` set A)"
  have ref: "referenced_by n = set cs" if "n \<in> set A" "node_children n = Inr cs" for n cs
    using referenced_by_children [OF plain] that A(1) by blast
  have top: "h \<notin> ?R"
  proof
    assume "h \<in> ?R"
    then obtain n where n: "n \<in> set A" "h \<in> referenced_by n" by blast
    then obtain cs where "node_children n = Inr cs" using tree_has_children [OF t] A(1) by blast
    with n ref tree_root_not_child [OF t] A(1) show False by blast
  qed
  have only: "node_hash n = h" if "n \<in> set A" "node_hash n \<notin> ?R" for n
  proof (rule ccontr)
    assume "node_hash n \<noteq> h"
    with A(3) that(1) obtain p cs where "p \<in> set A" "node_children p = Inr cs" "node_hash n \<in> set cs"
      unfolding under_def by blast
    with ref that(2) show False by blast
  qed
  let ?P = "\<lambda>n. node_hash n \<notin> ?R"
  have only_root: "filter ?P (filter (\<lambda>n. node_type n = Inner) A) = [r]"
  proof -
    let ?l = "filter ?P (filter (\<lambda>n. node_type n = Inner) A)"
    have set: "set ?l = {r}"
    proof
      show "set ?l \<subseteq> {r}"
      proof
        fix n assume "n \<in> set ?l"
        then have n: "n \<in> set A" "node_hash n \<notin> ?R" by simp_all
        have "node_hash n = node_hash r" using only [OF n] root(2) by simp
        with n(1) root(1) A(2) have "n = r" by (metis distinct_map inj_onD)
        then show "n \<in> {r}" by simp
      qed
      show "{r} \<subseteq> set ?l" using root top by simp
    qed
    have "distinct ?l" using A(2) by (simp add: distinct_map)
    from distinct_singleton [OF this set] show ?thesis .
  qed
  have "A \<noteq> []" using root(1) by auto
  then show ?thesis
    unfolding find_new_root_def Let_def only_root by (simp only: if_False list.map list.case root(2))
qed

section \<open>A genuine source\<close>

text \<open>
  What the exporter itself does not check: the nodes carry their own hashes, the transactions
  rebuild the TransSetHash and carry their own ids, and each ledger names its parent.
\<close>

definition genuine :: "sha512 \<Rightarrow> nat \<Rightarrow> nat \<Rightarrow> archive \<Rightarrow> bool" where
  "genuine H a b A \<longleftrightarrow>
     (\<forall>n. a \<le> n \<longrightarrow> n \<le> b \<longrightarrow>
        (let info = ar_info A (of_nat n); ns = ar_nodes A (of_nat n) in
         self_consistent H ns \<and> plain ns \<and>
         (\<exists>r \<in> set ns. node_hash r = li_account_hash info \<and> node_type r = Inner) \<and>
         (\<exists>nodes. build_tx_tree H (ar_txns A (of_nat n)) = Inr (li_tx_hash info, nodes)) \<and>
         authentic H (tx_map_at A n) \<and>
         (a < n \<longrightarrow> li_parent_hash info = li_ledger_hash (ar_info A (of_nat (n - 1))))))"

lemma genuineD:
  assumes "genuine H a b A" and "a \<le> n" and "n \<le> b"
  shows "self_consistent H (ar_nodes A (of_nat n))" "plain (ar_nodes A (of_nat n))"
    "\<exists>r \<in> set (ar_nodes A (of_nat n)). node_hash r = li_account_hash (ar_info A (of_nat n)) \<and> node_type r = Inner"
    "\<exists>nodes. build_tx_tree H (ar_txns A (of_nat n)) = Inr (li_tx_hash (ar_info A (of_nat n)), nodes)"
    "authentic H (tx_map_at A n)"
    "a < n \<Longrightarrow> li_parent_hash (ar_info A (of_nat n)) = li_ledger_hash (ar_info A (of_nat (n - 1)))"
  using assms unfolding genuine_def Let_def by blast+

text \<open>The row of the ledger table that the source has for a ledger.\<close>

definition archive_row :: "archive \<Rightarrow> nat \<Rightarrow> ledger_db_row" where
  "archive_row A n =
     (let i = ar_info A (of_nat n) in
      \<lparr>lr_ledger_hash = li_ledger_hash i, lr_ledger_seq = of_nat n, lr_prev_hash = li_parent_hash i,
       lr_total_coins = li_total_coins i, lr_closing_time = li_closing_time i,
       lr_prev_closing_time = li_prev_closing_time i,
       lr_close_time_resolution = li_close_time_resolution i, lr_close_flags = li_close_flags i,
       lr_account_hash = li_account_hash i, lr_trans_hash = li_tx_hash i\<rparr>)"

text \<open>The state of a replay of the chunk that starts at \<open>c\<close>, after ledger \<open>n\<close>.\<close>

definition replay_at :: "archive \<Rightarrow> nat \<Rightarrow> nat \<Rightarrow> unit replay" where
  "replay_at A c n =
     \<lparr>rp_state = node_map (ar_nodes A (of_nat n)), rp_rows = map (archive_row A) [Suc c..<Suc n],
      rp_sink = (), rp_txdb = None, rp_root = li_account_hash (ar_info A (of_nat n)),
      rp_prev_hash = li_ledger_hash (ar_info A (of_nat n))\<rparr>"

lemma tx_map_at_fields:
  "tm_ledger_seq (tx_map_at A n) = of_nat n" "tm_txns (tx_map_at A n) = ar_txns A (of_nat n)"
  "tm_ledger_hash (tx_map_at A n) = li_ledger_hash (ar_info A (of_nat n))"
  "tm_account_hash (tx_map_at A n) = li_account_hash (ar_info A (of_nat n))"
  by (simp_all add: tx_map_at_def ledger_tx_map_def Let_def)

lemma node_map_held: "h \<in> node_hash ` set ns \<Longrightarrow> node_map ns h \<noteq> None"
  by (simp add: node_map_None)

lemma archive_row_eq:
  "ledger_row (tx_map_at A n) (li_parent_hash (ar_info A (of_nat n))) (li_tx_hash (ar_info A (of_nat n)))
     (li_account_hash (ar_info A (of_nat n))) = archive_row A n"
  by (simp add: ledger_row_def archive_row_def tx_map_at_def ledger_tx_map_def Let_def)

lemma info_hash_input:
  "calculate_ledger_hash H (hash_input (tx_map_at A n) (li_parent_hash (ar_info A (of_nat n)))
     (li_tx_hash (ar_info A (of_nat n))) (li_account_hash (ar_info A (of_nat n)))) =
   info_hash H (ar_info A (of_nat n)) (of_nat n)"
  by (simp add: info_hash_def hash_input_def tx_map_at_def ledger_tx_map_def Let_def)

context node_store
begin

lemma exported_root_found:
  assumes A: "archived H D get db a b A" and G: "genuine H a b A" and n: "a < n" "n \<le> b"
  shows "find_new_root (diff_added (diff_at get A n)) (li_account_hash (ar_info A (of_nat (n - 1)))) =
    Inr (li_account_hash (ar_info A (of_nat n)))"
proof -
  let ?A = "diff_added (diff_at get A n)" and ?h = "li_account_hash (ar_info A (of_nat n))"
    and ?old = "li_account_hash (ar_info A (of_nat (n - 1)))" and ?ns = "ar_nodes A (of_nat n)"
  note le = less_imp_le [OF n(1)]
  obtain D C where d: "mset ?ns = C + mset ?A" "under {?h} ?A" "?old \<noteq> ?h \<longrightarrow> ?h \<in> node_hash ` set ?A"
    by (rule exE [OF diff_at_effect [OF A n]]) (elim exE conjE, rule that)
  note sub = diff_at_added(1) [OF A n] and at = archivedD [OF A le n(2)]
  obtain cs where "C = mset cs" using ex_mset by metis
  then have "mset (map node_hash ?ns) = mset (map node_hash (cs @ ?A))" using d(1) by simp
  then have "distinct (map node_hash (cs @ ?A))" using at(5) mset_eq_imp_distinct_iff by blast
  then have dist: "distinct (map node_hash ?A)" by simp
  obtain r0 where r0: "r0 \<in> set ?ns" "node_hash r0 = ?h" "node_type r0 = Inner"
    using genuineD(3) [OF G le n(2)] by blast
  show ?thesis
  proof (cases "?h \<in> node_hash ` set ?A")
    case True
    then obtain r where r: "r \<in> set ?A" "node_hash r = ?h" by auto
    have "r = r0" using r sub r0(1,2) at(5) by (metis distinct_map inj_onD subsetD)
    with r r0 show ?thesis
      by (intro find_new_root_tree [OF at(4) sub dist d(2) genuineD(2) [OF G le n(2)]]) simp_all
  next
    case False
    then have same: "?old = ?h" using d(3) by blast
    have "?A = []"
      using archived_diff(1) [OF A n] unfolding same
      by (auto simp add: diff_roots_def diff_nodes.simps dest!: arg_cong [of _ "diff_at get A n" diff_added])
    then show ?thesis unfolding same by (simp only: find_new_root_def simp_thms if_True)
  qed
qed


lemma exported_ledger_verifies:
  assumes A: "archived H D get db a b A" and G: "genuine H a b A" and n: "a < n" "n \<le> b" and c: "c < n"
  shows "replay_step H S null_sink True (replay_at A c (n - 1)) (ledger_at get A n) = Inr (replay_at A c n)"
proof -
  let ?d = "diff_at get A n" and ?i = "ar_info A (of_nat n)" and ?ns = "ar_nodes A (of_nat n)"
  let ?os = "ar_nodes A (of_nat (n - 1))"
  note le = less_imp_le [OF n(1)]
  note at = archivedD [OF A le n(2)] and g = genuineD [OF G le n(2)] and sub = diff_at_added [OF A n]
  have kept: "foldl insert_node (foldl remove_hash (node_map ?os) (diff_deleted ?d)) (diff_added ?d) = node_map ?ns"
    using archived_diff(2) [OF A n] unfolding apply_diff_def .
  have children: "check_added_children (of_nat n) (diff_added ?d) (diff_deleted ?d) (node_map ?ns) = Inr ()"
    unfolding check_added_children_Inr
  proof (intro ballI impI)
    fix m assume "m \<in> set (diff_added ?d)"
    then have "m \<in> set ?ns" using sub(1) by (rule set_rev_mp)
    from tree_closed [OF at(4) this] show "\<exists>cs. node_children m = Inr cs \<and> (\<forall>k \<in> set cs. node_map ?ns k \<noteq> None)"
      by (elim exE conjE, intro exI conjI ballI node_map_held) (assumption, erule (1) subsetD)
  qed
  have deleted: "\<forall>h \<in> set (diff_deleted ?d). node_map ?os h \<noteq> None"
    by (intro ballI node_map_held) (erule subsetD [OF sub(4)])
  have delta: "apply_delta null_sink True \<lparr>ld_ledger_seq = of_nat n, ld_diff = ?d\<rparr> (node_map ?os, ()) =
      Inr (node_map ?ns, ())"
    unfolding apply_delta_Inr ledger_delta.select_convs
    by (intro conjI impI deleted) (simp_all only: kept children null_sink_nodes)
  obtain nodes where nodes: "build_tx_tree H (ar_txns A (of_nat n)) = Inr (li_tx_hash ?i, nodes)" using g(4) by blast
  have "self_consistent H (diff_added ?d)" using g(1) sub(1) by (auto simp add: self_consistent_def)
  then have verified: "verify_ledger H (tx_map_at A n) (diff_added ?d) (li_account_hash ?i) (li_tx_hash ?i)
      (li_ledger_hash (ar_info A (of_nat (n - 1)))) = Inr ()"
    unfolding verify_ledger_Inr g(6) [OF n(1), symmetric] info_hash_input
    using g(5) at(2) by (simp add: tx_map_at_fields verify_ledger_hash_def Let_def split: if_splits)
  have outputs: "write_ledger_outputs S null_sink () None m p t r = Inr ((), None)" for m p t r
    by (simp add: write_ledger_outputs_def)
  have rows: "map (archive_row A) [Suc c..<Suc (n - 1)] @ [archive_row A n] = map (archive_row A) [Suc c..<Suc n]"
    using c n(1) by simp
  have row: "ledger_row (tx_map_at A n) (li_ledger_hash (ar_info A (of_nat (n - 1)))) (li_tx_hash ?i) (li_account_hash ?i)
      = archive_row A n"
    unfolding g(6) [OF n(1), symmetric] by (rule archive_row_eq)
  have split: "ledger_at get A n = (fst (ledger_at get A n), tx_map_at A n)" by (simp add: ledger_at_def)
  show ?thesis
    by (subst split, subst replay_step_Inr, rule exI [of _ "node_map ?ns"], rule exI [of _ "()"],
      rule exI [of _ "li_account_hash ?i"], rule exI [of _ "li_tx_hash ?i"], rule exI [of _ nodes],
      intro exI [of _ "()"] exI [of _ None] conjI)
      (simp_all only: replay_at_def replay.select_convs delta tx_map_at_fields ledger_at_def fst_conv
        ledger_delta.select_convs exported_root_found [OF A G n] nodes null_sink_nodes verified outputs rows row simp_thms)
qed

lemma exported_ledgers_verify:
  assumes A: "archived H D get db a b A" and G: "genuine H a b A" and c: "a \<le> c" and n: "c \<le> n" "n \<le> b"
  shows "rfold (replay_step H S null_sink True) (replay_at A c c) (map (ledger_at get A) [Suc c..<Suc n]) =
    Inr (replay_at A c n)"
  using n
proof (induction n rule: dec_induct)
  case (step n)
  have "rfold (replay_step H S null_sink True) (replay_at A c c) (map (ledger_at get A) [Suc c..<Suc n]) = Inr (replay_at A c n)"
    using step by simp
  moreover have "replay_step H S null_sink True (replay_at A c n) (ledger_at get A (Suc n)) = Inr (replay_at A c (Suc n))"
    using exported_ledger_verifies [OF A G, of "Suc n" c] c step by simp
  moreover have "[Suc c..<Suc (Suc n)] = [Suc c..<Suc n] @ [Suc n]" using step by simp
  ultimately show ?case by (simp add: rfold_append del: upt_Suc)
qed simp

lemma exported_parts:
  assumes A: "archived H D get db a b A" and G: "genuine H a b A" and c: "a \<le> c" and n: "c \<le> n" "n \<le> b"
  shows "replay_parts H S null_sink True () None (checkpoint_at A c) (tx_map_at A c)
    (map (ledger_at get A) [Suc c..<Suc n]) (replay_at A c n)"
proof -
  let ?ns = "ar_nodes A (of_nat c)" and ?i = "ar_info A (of_nat c)"
  have cb: "c \<le> b" using n by simp
  note at = archivedD [OF A c cb] and g = genuineD [OF G c cb]
  note top = archivedD [OF A le_trans [OF c n(1)] n(2)]
  note cp = state_values_node_map [OF at(5), folded checkpoint_at_def]
  have state: "foldl insert_node Map.empty (checkpoint_at A c) = node_map ?ns"
    using foldl_insert_node [OF cp(3)] node_map_mset [OF cp(1,3)] by simp
  obtain nodes where nodes: "build_tx_tree H (ar_txns A (of_nat c)) = Inr (li_tx_hash ?i, nodes)" using g(4) by blast
  have "node_map ?ns (li_account_hash ?i) \<noteq> None" using g(3) by (intro node_map_held) (metis image_eqI)
  moreover have "\<forall>m \<in> set (checkpoint_at A c). recompute_node_hash H m = node_hash m"
    using g(1) cp(1) unfolding self_consistent_def by (metis set_mset_mset)
  moreover have "start_replay H S null_sink (node_map ?ns) () None (tx_map_at A c) = Inr (replay_at A c c)"
    unfolding start_replay_Inr
    by (intro exI [of _ None] exI [of _ "li_tx_hash ?i"] exI [of _ nodes] exI [of _ "()"])
      (simp add: txdb_write_def tx_map_at_fields nodes null_sink_nodes replay_at_def)
  ultimately show ?thesis
    using exported_ledgers_verify [OF A G c n, of S] g(5)
      state_tree_complete [OF node_store_axioms at(4,3,5)] state_tree_complete [OF node_store_axioms top(4,3,5)]
    by (intro replay_partsI [OF null_sink_nodes state])
      (simp_all only: tx_map_at_fields verify_txns_Inr replay_at_def replay.select_convs not_False_eq_True)
qed

end

section \<open>The files verify\<close>

lemma sort_key_sorted: "sorted (map f xs) \<Longrightarrow> sort_key f xs = xs"
  by (induction xs) (simp_all add: insort_is_Cons)

lemma collected_sorted:
  assumes "collect_transactions get tx_root = oret txns"
  shows "sorted (map tx_hash txns)"
  using assms by (auto simp add: collect_transactions_def obind_eq_Inr split: if_splits)

text \<open>The lists a chunk holds were sorted by the exporter already.\<close>

lemma ledger_at_canonical:
  assumes "node_store get" and "archived H D get db a b A" and "a < n" and "n \<le> b"
  shows "canon_delta (fst (ledger_at get A n)) = fst (ledger_at get A n)"
proof -
  have "sorted (map node_hash (diff_added (diff_at get A n)))" "sorted (diff_deleted (diff_at get A n))"
    by (rule exE [OF node_store.diff_at_effect [OF assms]], elim exE conjE, assumption)+
  then show ?thesis by (simp add: canon_delta_def ledger_at_def sort_key_sorted sorted_sort_id)
qed

lemma tx_map_at_canonical:
  assumes "archived H D get db a b A" and "a \<le> n" and "n \<le> b"
  shows "canon_tx_map (tx_map_at A n) = tx_map_at A n"
  using collected_sorted [OF archivedD(6) [OF assms]]
  by (simp add: canon_tx_map_def tx_map_at_fields sort_key_sorted)

lemma streamed_header:
  "detect_version (header_bytes format_version_streamed net s e cp h @ body) = Inr format_version_streamed"
  "(header_bytes format_version_streamed net s e cp h @ body) ! 4 = format_version_streamed"
  by (simp_all add: detect_version_def header_bytes_def magic_header_def write_defs)

context node_store
begin

lemma exported_chunk_fields:
  assumes r: "range_ok args" and A: "archived H D get db (unat (ea_start args)) (unat (ea_end args)) A"
    and c: "unat (ea_start args) \<le> c" "c \<le> unat (ea_end args)"
  shows "ck_checkpoint (exported_chunk H get A args c) = checkpoint_at A c"
    and "ck_deltas (exported_chunk H get A args c) = map fst (chunk_rest get A args c)"
    and "ck_tx_maps (exported_chunk H get A args c) = tx_map_at A c # map snd (chunk_rest get A args c)"
proof -
  note last = chunk_last_bounds [OF r c(2)]
  have canon: "canon_delta (fst (ledger_at get A n)) = fst (ledger_at get A n)"
    "canon_tx_map (snd (ledger_at get A n)) = snd (ledger_at get A n)"
    if "n \<in> set [Suc c..<Suc (chunk_last args c)]" for n
  proof -
    have n: "unat (ea_start args) < n" "n \<le> unat (ea_end args)" using that c(1) last(2) by auto
    show "canon_delta (fst (ledger_at get A n)) = fst (ledger_at get A n)"
      by (rule ledger_at_canonical [OF node_store_axioms A n])
    show "canon_tx_map (snd (ledger_at get A n)) = snd (ledger_at get A n)"
      using tx_map_at_canonical [OF A less_imp_le [OF n(1)] n(2)] by (simp add: ledger_at_def)
  qed
  show "ck_checkpoint (exported_chunk H get A args c) = checkpoint_at A c"
    using state_values_node_map(2) [OF archivedD(5) [OF A c]]
    by (simp add: exported_chunk_def stream_chunk_def checkpoint_at_def sort_key_sorted)
  show "ck_deltas (exported_chunk H get A args c) = map fst (chunk_rest get A args c)"
    and "ck_tx_maps (exported_chunk H get A args c) = tx_map_at A c # map snd (chunk_rest get A args c)"
    using canon by (simp_all add: exported_chunk_def stream_chunk_def chunk_rest_def tx_map_at_canonical [OF A c] del: upt_Suc)
qed

text \<open>Importing an exported file is replaying its chunk, whatever the sink.\<close>

lemma exported_file_imports:
  assumes "range_ok args" and "archived H D get db (unat (ea_start args)) (unat (ea_end args)) A"
    and "archive_fits (unat (ea_start args)) (unat (ea_end args)) A"
    and "unat (ea_start args) \<le> c" "c \<le> unat (ea_end args)"
  shows "import_chunk H S ops verify (exported_bytes H get A args c) sink txdb = oret rp \<longleftrightarrow>
    replay_chunk H S ops verify (exported_chunk H get A args c) sink txdb = oret rp"
proof -
  have "parse_chunk H (exported_bytes H get A args c) = Inr (exported_chunk H get A args c, [])"
    unfolding exported_bytes_def exported_chunk_def exported_body_def
    by (rule parse_stream_body [OF wf_exported [OF assms]])
  then have "replay_chunk_streaming H S ops verify (exported_bytes H get A args c) sink txdb = oret rp \<longleftrightarrow>
      replay_chunk H S ops verify (exported_chunk H get A args c) sink txdb = oret rp"
    by (rule streaming_replay_iff) (simp add: exported_bytes_def streamed_header)
  then show ?thesis by (simp add: import_chunk_def exported_bytes_def streamed_header)
qed

lemma exported_file_verifies:
  assumes r: "range_ok args" and A: "archived H D get db (unat (ea_start args)) (unat (ea_end args)) A"
    and fits: "archive_fits (unat (ea_start args)) (unat (ea_end args)) A"
    and G: "genuine H (unat (ea_start args)) (unat (ea_end args)) A"
    and c: "unat (ea_start args) \<le> c" "c \<le> unat (ea_end args)"
  shows "import_chunk H S null_sink True (exported_bytes H get A args c) () None =
    oret (replay_at A c (chunk_last args c))"
  unfolding exported_file_imports [OF r A fits c] replay_chunk_parts exported_chunk_fields [OF r A c]
  using exported_parts [OF A G c(1) chunk_last_bounds(1,2) [OF r c(2)], of S]
  by (intro exI [of _ "tx_map_at A c"] exI [of _ "map snd (chunk_rest get A args c)"] conjI)
    (simp_all only: chunk_rest_def zip_map_fst_snd length_map order_refl simp_thms)

end

section \<open>The chunks cover the range\<close>

lemma chunk_grid:
  assumes "0 < unat (ea_chunk_size args)"
  shows "concat (map (\<lambda>c. [c..<c + unat (ea_chunk_size args)])
      (chunk_starts args (unat (ea_start args) + j * unat (ea_chunk_size args)))) =
    [unat (ea_start args)..<unat (ea_start args) + j * unat (ea_chunk_size args)]"
proof (induction j)
  case 0
  then show ?case by (simp add: chunk_starts_def)
next
  case (Suc j)
  let ?a = "unat (ea_start args)" and ?k = "unat (ea_chunk_size args)"
  have "chunk_starts args (?a + Suc j * ?k) = chunk_starts args (?a + j * ?k) @ [?a + j * ?k]"
    by (rule chunk_starts_next) (use assms in simp_all)
  moreover have "[?a..<?a + Suc j * ?k] = [?a..<?a + j * ?k] @ [?a + j * ?k..<?a + j * ?k + ?k]"
    using upt_add_eq_append [of ?a "?a + j * ?k" ?k] by (simp add: add.commute add.left_commute)
  ultimately show ?case using Suc.IH by simp
qed

lemma chunks_cover:
  assumes "range_ok args"
  shows "concat (map (\<lambda>c. [c..<Suc (chunk_last args c)]) (chunk_starts args (Suc (unat (ea_end args))))) =
    [unat (ea_start args)..<Suc (unat (ea_end args))]"
proof -
  let ?a = "unat (ea_start args)" and ?b = "unat (ea_end args)" and ?k = "unat (ea_chunk_size args)"
  note r = range_okD [OF assms]
  define j where "j = (?b - ?a) div ?k"
  define c where "c = ?a + j * ?k"
  have c: "c \<le> ?b" "?b < c + ?k"
  proof -
    have "j * ?k \<le> ?b - ?a" unfolding j_def by (rule div_times_less_eq_dividend)
    then show "c \<le> ?b" using r(1) by (simp add: c_def)
    have "?b - ?a < Suc j * ?k" unfolding j_def using r(2) by (metis dividend_less_div_times mult_Suc)
    then show "?b < c + ?k" using r(1) by (simp add: c_def)
  qed
  have starts: "chunk_starts args (Suc ?b) = chunk_starts args c @ [c]"
    by (rule chunk_starts_next) (use c in \<open>simp_all add: c_def\<close>)
  have full: "Suc (chunk_last args i) = i + ?k" if "i \<in> set (chunk_starts args c)" for i
  proof -
    have i: "?a \<le> i" "i < c" "(i - ?a) mod ?k = 0" using that by (auto simp add: chunk_starts_def)
    have "i - ?a < j * ?k" using i(1,2) by (simp add: c_def)
    moreover obtain q where q: "i - ?a = q * ?k" using i(3) by (metis mod_0_imp_dvd dvd_div_mult_self)
    ultimately have "q < j" using r(2) by simp
    then have "Suc q * ?k \<le> j * ?k" by (intro mult_le_mono1) simp
    then have "i + ?k \<le> c" using q i(1) by (simp add: c_def)
    then have "i + ?k \<le> ?b" using c(1) by simp
    then show ?thesis using unat_chunk_end [OF assms, of i] r(2) by (simp add: chunk_last_def)
  qed
  have "map (\<lambda>c. [c..<Suc (chunk_last args c)]) (chunk_starts args c) = map (\<lambda>c. [c..<c + ?k]) (chunk_starts args c)"
    using full by (intro map_cong refl) (simp only:)
  moreover have "concat (map (\<lambda>c. [c..<c + ?k]) (chunk_starts args c)) = [?a..<c]"
    unfolding c_def by (rule chunk_grid [OF r(2)])
  moreover have "chunk_last args c = ?b"
    using unat_chunk_end [OF assms c(1)] c(2) by (simp add: chunk_last_def)
  moreover have "[?a..<Suc ?b] = [?a..<c] @ [c..<Suc ?b]"
    using upt_add_eq_append [of ?a c "Suc ?b - c"] c(1) by (simp add: c_def del: upt_Suc)
  ultimately show ?thesis
    unfolding starts by (simp only: map_append concat_append list.map concat.simps append_Nil2)
qed

text \<open>A chunk size that passes the end of the 32-bit numbers.\<close>

lemma chunk_end_wraps:
  assumes "2 ^ 32 < unat c + unat (ea_chunk_size args)"
  shows "chunk_end_for args c < c"
proof -
  have "unat (c + ea_chunk_size args - 1) < unat c"
  proof -
    have k: "unat (ea_chunk_size args) < 2 ^ 32" "0 < unat (ea_chunk_size args)"
      using unat_less32 [of "ea_chunk_size args"] unat_less32 [of c] assms by simp_all
    have "c + ea_chunk_size args - 1 = of_nat (unat c + unat (ea_chunk_size args) - 1)"
      using k(2) by (simp add: of_nat_diff)
    moreover have "unat (of_nat (unat c + unat (ea_chunk_size args) - 1) :: u32) =
        unat c + unat (ea_chunk_size args) - 1 - 2 ^ 32"
    proof -
      have "unat c + unat (ea_chunk_size args) - 1 - 2 ^ 32 < 2 ^ 32" using k(1) unat_less32 [of c] by simp
      moreover have "2 ^ 32 \<le> unat c + unat (ea_chunk_size args) - 1" using assms by simp
      ultimately have "(unat c + unat (ea_chunk_size args) - 1) mod 2 ^ 32 = unat c + unat (ea_chunk_size args) - 1 - 2 ^ 32"
        by (simp add: le_mod_geq)
      then show ?thesis by (simp add: unat_of_nat)
    qed
    ultimately show ?thesis using k assms by simp
  qed
  then have "c + ea_chunk_size args - 1 < c" by (simp add: word_less_nat_alt)
  then show ?thesis by (simp add: chunk_end_for_def min_less_iff_disj)
qed

text \<open>The one chunk of such a run, and why no reader gets to its end.\<close>

definition oversized :: "export_args \<Rightarrow> bool" where
  "oversized args \<longleftrightarrow>
     ea_start args < ea_end args \<and> unat (ea_end args) + 64 < 2 ^ 32 \<and>
     2 ^ 32 < unat (ea_start args) + unat (ea_chunk_size args)"

lemma oversizedD:
  assumes "oversized args"
  shows "steps_ok args" "unat (ea_end args) - unat (ea_start args) + 1 < unat (ea_chunk_size args)"
    "chunk_end_for args (ea_start args) < ea_start args"
    "unat (chunk_end_for args (ea_start args) - ea_start args) = unat (ea_chunk_size args) - 1"
proof -
  have big: "2 ^ 32 < unat (ea_start args) + unat (ea_chunk_size args)" "unat (ea_end args) + 64 < 4294967296"
    and lt: "unat (ea_start args) < unat (ea_end args)"
    using assms by (auto simp add: oversized_def word_less_nat_alt)
  then show size: "unat (ea_end args) - unat (ea_start args) + 1 < unat (ea_chunk_size args)" by simp
  then show "steps_ok args" using assms by (auto simp add: oversized_def steps_ok_def)
  show wraps: "chunk_end_for args (ea_start args) < ea_start args" by (rule chunk_end_wraps [OF big(1)])
  moreover have "ea_start args < ea_end args" using assms by (simp add: oversized_def)
  ultimately have "chunk_end_for args (ea_start args) = ea_start args + ea_chunk_size args - 1"
    by (auto simp add: chunk_end_for_def min_def split: if_splits)
  moreover have "1 \<le> ea_chunk_size args" using size by (simp add: word_le_nat_alt)
  ultimately show "unat (chunk_end_for args (ea_start args) - ea_start args) = unat (ea_chunk_size args) - 1"
    by (simp add: unat_sub)
qed

lemma read_times_stops:
  "read_times m p b = Inr (xs, r) \<Longrightarrow> p r = Inl e \<Longrightarrow> m < n \<Longrightarrow> read_times n p b = Inl e"
proof (induction m arbitrary: b xs n)
  case 0
  then show ?case by (cases n) (simp_all add: pbind_def)
next
  case (Suc m)
  obtain k where k: "n = Suc k" "m < k" using Suc.prems(3) by (cases n) auto
  obtain x r1 ys where x: "p b = Inr (x, r1)" "read_times m p r1 = Inr (ys, r)"
    using Suc.prems(1) by (auto simp add: pbind_eq_Inr)
  from Suc.IH [OF x(2) Suc.prems(2) k(2)] x(1) show ?case by (simp add: k(1) pbind_def)
qed

lemma no_ledger_in_footer: "read_ledger magic_footer = Inl UnexpectedEof"
  by (simp add: read_ledger_def read_delta_def pbind_def read_u32be_def read_exact_def magic_footer_def)

lemma stream_parts_short:
  assumes "length ns < 4294967296" and "list_all wf_node ns" and "wf_tx_map m0"
    and "list_all (\<lambda>(d, m). wf_delta d \<and> wf_tx_map m) ls" and "length ls < n"
  shows "stream_parts n (stream_body ns m0 ls) = Inl UnexpectedEof"
proof -
  have "read_times (length ls) read_ledger (concat (map (\<lambda>(d, m). write_delta d @ write_tx_map m) ls) @ magic_footer)
      = Inr (map (map_prod canon_delta canon_tx_map) ls, magic_footer)"
    using ledgerc.times_enc [OF assms(4), of magic_footer] by (simp add: map_prod_def)
  from read_times_stops [OF this no_ledger_in_footer assms(5)]
  have "read_times n read_ledger (concat (map (\<lambda>(d, m). write_delta d @ write_tx_map m) ls) @ magic_footer)
      = Inl UnexpectedEof" .
  then show ?thesis
    using read_node_list_write [OF assms(1,2)] txmapc.dec_enc [OF assms(3)]
    by (simp add: stream_parts_def stream_body_def pbind_def)
qed

lemma oversized_run:
  assumes over: "oversized args" and opened: "nudb_open dats = oret shards"
    and A: "archived H D (get_node X L shards) db (unat (ea_start args)) (unat (ea_end args)) A"
  shows "\<exists>h body. export_main H X L D elapsed shares_device args dats (Some db) fs =
      oret (fs(chunk_path args (ea_start args) \<mapsto>
            header_bytes format_version_streamed (ea_network_id args) (ea_start args) (chunk_end_for args (ea_start args)) h
              (sha512half H body) @ body,
          chunk_path args (ea_start args) @ ''.tmp'' := None)) \<and>
    body = stream_body (checkpoint_at A (unat (ea_start args))) (tx_map_at A (unat (ea_start args)))
      (map (ledger_at (get_node X L shards) A) [Suc (unat (ea_start args))..<Suc (unat (ea_end args))])"
proof -
  let ?get = "get_node X L shards" and ?a = "unat (ea_start args)" and ?b = "unat (ea_end args)"
    and ?k = "unat (ea_chunk_size args)"
  note o = oversizedD [OF over]
  obtain st where run: "export_main H X L D elapsed shares_device args dats (Some db) fs =
      oret (writer_drop (fst (writer_finish H (ex_fs st, ex_writer st))))"
    and inv: "export_inv H ?get A args fs (Suc ?b) st"
    using export_main_ends [OF o(1) opened A] by blast
  obtain c where c: "?a \<le> c" "c < Suc ?b" "(c - ?a) mod ?k = 0"
    and st: "(ex_fs st, ex_writer st) = open_chunk ?get A args (chunks_written H ?get A args fs c) c (Suc ?b)"
    by (rule exE [OF inv [unfolded export_inv_def]]) (elim conjE, rule that)
  have "c - ?a < ?k" using c(2) o(2) by simp
  then have "c = ?a" using c(1,3) by simp
  then have st: "(ex_fs st, ex_writer st) = open_chunk ?get A args fs ?a (Suc ?b)"
    using st by (simp add: chunks_written_def chunk_starts_def)
  show ?thesis
    unfolding run st
    using stream_file_eq [of H fs "chunk_path args (ea_start args)" "ea_network_id args" "ea_start args"
        "chunk_end_for args (ea_start args)" "li_ledger_hash (ar_info A (ea_start args))" "checkpoint_at A ?a" "tx_map_at A ?a"
        "map (ledger_at ?get A) [Suc ?a..<Suc ?b]"]
    by (intro exI [of _ "li_ledger_hash (ar_info A (ea_start args))"] exI conjI)
      (simp add: open_chunk_def chunk_ops_def stream_file_def del: upt_Suc, rule refl)
qed

end
