(* ===== verification/Export_Properties.thy ===== *)
theory Export_Properties
  imports Export_Correct
begin

text \<open>
  The properties of the exporter, on a source of two ledgers whose state differs in one leaf.
  Its hash function is the sum of the input's bytes, shifted to the half that sha512half
  keeps, and its hash columns are decoded as hexadecimal.
\<close>

section \<open>A source to export\<close>

definition sum_sha :: sha512 where
  "sum_sha b = of_nat (sum_list (map unat b) * 2 ^ 256)"

lemma sum_sha: "length b < 2 ^ 200 \<Longrightarrow> sha512half sum_sha b = of_nat (sum_list (map unat b))"
proof -
  assume len: "length b < 2 ^ 200"
  have "unat x \<le> 255" for x :: byte using unat_byte_less [of x] by linarith
  then have "sum_list (map unat b) \<le> sum_list (map (\<lambda>_. 255) b)" by (rule sum_list_mono)
  then have "sum_list (map unat b) < 2 ^ 256" using len by (simp add: sum_list_triv)
  then have "unat (sum_sha b) = sum_list (map unat b) * 2 ^ 256"
    unfolding sum_sha_def unat_of_nat by simp
  then show ?thesis by (simp only: sha512half_div nonzero_mult_div_cancel_right) simp
qed

definition hex_digit :: "char \<Rightarrow> nat option" where
  "hex_digit c =
     (let k = of_char c :: nat in
      if 48 \<le> k \<and> k \<le> 57 then Some (k - 48) else if 97 \<le> k \<and> k \<le> 102 then Some (k - 87) else None)"

fun hex_bytes :: hex_decode where
  "hex_bytes [] = Some []"
| "hex_bytes [c] = None"
| "hex_bytes (c # d # s) =
     Option.bind (hex_digit c) (\<lambda>x. Option.bind (hex_digit d) (\<lambda>y. map_option ((#) (of_nat (16 * x + y))) (hex_bytes s)))"

definition hex_column :: "string \<Rightarrow> string" where
  "hex_column s = replicate 60 (CHR ''0'') @ s"

definition source_leaf :: "nat \<Rightarrow> shamap_node" where
  "source_leaf k = \<lparr>node_hash = of_nat k, node_type = AccountState, node_content = [of_nat k]\<rparr>"

definition source_root :: "nat \<Rightarrow> shamap_node" where
  "source_root k =
     \<lparr>node_hash = of_nat (228 + k), node_type = Inner, node_content = full_content (of_nat k # replicate 15 0)\<rparr>"

definition source_row :: "int \<Rightarrow> string \<Rightarrow> string \<Rightarrow> string \<Rightarrow> sql_ledger" where
  "source_row seq h parent account =
     \<lparr>sq_ledger_hash = hex_column h, sq_ledger_seq = seq, sq_prev_hash = hex_column parent, sq_total_coins = 0,
      sq_closing_time = 0, sq_prev_closing_time = 0, sq_close_time_res = 0, sq_close_flags = 0,
      sq_account_set_hash = hex_column account, sq_trans_set_hash = hex_column ''0000''\<rparr>"

definition source_db :: "sql_ledger list" where
  "source_db = [source_row 100 ''0242'' ''0000'' ''00e9'', source_row 101 ''0288'' ''0242'' ''00ea'']"

definition source_info :: "hash256 \<Rightarrow> hash256 \<Rightarrow> hash256 \<Rightarrow> ledger_info" where
  "source_info h parent account =
     \<lparr>li_ledger_hash = h, li_account_hash = account, li_tx_hash = 0, li_parent_hash = parent, li_total_coins = 0,
      li_closing_time = 0, li_prev_closing_time = 0, li_close_time_resolution = 0, li_close_flags = 0\<rparr>"

definition source_archive :: archive where
  "source_archive =
     \<lparr>ar_info = \<lambda>s. if s = 100 then source_info 578 0 233 else source_info 648 578 234,
      ar_nodes = \<lambda>s. if s = 100 then [source_leaf 5, source_root 5] else [source_leaf 6, source_root 6],
      ar_txns = \<lambda>_. []\<rparr>"

text \<open>Evaluating the bytes of a number given as a numeral.\<close>

lemma nat_be_numeral: "nat_be (numeral k) v = nat_be (pred_numeral k) (v div 256) @ [of_nat v]"
  by (simp only: numeral_eq_Suc [of k] nat_be.simps)

lemma replicate_numeral_Cons: "replicate (numeral k) x = x # replicate (pred_numeral k) x"
  by (simp only: numeral_eq_Suc [of k] replicate_Suc)

lemma source_columns:
  "parse_hash hex_bytes (hex_column ''0000'') = Some 0" "parse_hash hex_bytes (hex_column ''0242'') = Some 578"
  "parse_hash hex_bytes (hex_column ''0288'') = Some 648" "parse_hash hex_bytes (hex_column ''00e9'') = Some 233"
  "parse_hash hex_bytes (hex_column ''00ea'') = Some 234"
  by (simp_all add: parse_hash_def hex_column_def trim_def is_white_def hex_digit_def replicate_numeral_Cons from_be_bytes_def be_nat_def)

lemma source_index:
  "ledger_index_get hex_bytes source_db 100 = Inr (source_info 578 0 233)"
  "ledger_index_get hex_bytes source_db 101 = Inr (source_info 648 578 234)"
  by (simp_all add: ledger_index_get_def source_db_def source_row_def source_info_def column_def or_error_def source_columns)

lemma source_hashes:
  "info_hash sum_sha (source_info 578 0 233) 100 = 578" "info_hash sum_sha (source_info 648 578 234) 101 = 648"
  by (simp_all add: info_hash_def calculate_ledger_hash_def source_info_def sum_sha ledger_header_object_def
      to_be_bytes_def nat_be_numeral sum_list_replicate)

definition source_nodes :: "shamap_node list" where
  "source_nodes = [source_leaf 5, source_root 5, source_leaf 6, source_root 6]"

lemma source_store:
  "\<exists>dats shards. nudb_open dats = oret shards \<and> serves (get_node (\<lambda>_ _. 77) (\<lambda>_ _. None) shards) source_nodes"
proof -
  have "list_all storable source_nodes" "store_fits (map node_entry source_nodes)"
    by (simp_all add: source_nodes_def source_leaf_def source_root_def storable_def store_fits_def node_entry_def
        record_bytes_def encode_wire_to_value_def encode_object_to_value_def hash_prefix_inner_node_def)
  from written_store_serves [OF this sample_paths_ok] show ?thesis by metis
qed

lemma source_children:
  "node_children (source_leaf k) = Inr []"
  "(of_nat k :: hash256) \<noteq> 0 \<Longrightarrow> node_children (source_root k) = Inr [of_nat k]"
  by (simp_all add: node_children_def source_root_def source_leaf_def inner_from_node_def
      from_full_bytes_full_content child_hashes_def map_filter_simps opt_hash_def numeral_eq_Suc)

lemma source_tree:
  assumes "get (of_nat k) = oret (source_leaf k)" and "get (of_nat (228 + k)) = oret (source_root k)"
    and "(of_nat k :: hash256) \<noteq> 0" "(of_nat (228 + k) :: hash256) \<noteq> 0"
  shows "tree get (of_nat (228 + k)) [source_leaf k, source_root k]"
proof -
  have "tree get (of_nat k) (concat [] @ [source_leaf k])"
    by (rule tree_node) (use assms source_children in simp_all)
  then have "tree get (of_nat (228 + k)) (concat [[source_leaf k]] @ [source_root k])"
    by (intro tree_node [where cs = "[of_nat k]"]) (use assms source_children(2) in simp_all)
  then show ?thesis by simp
qed

definition source_args :: export_args where
  "source_args = \<lparr>ea_start = 100, ea_end = 101, ea_out = ''out'', ea_network_id = 1, ea_chunk_size = 2\<rparr>"

lemma source_range: "range_ok source_args"
  by (simp add: range_ok_def source_args_def)

lemma source_seqs: "100 \<le> n \<Longrightarrow> n \<le> 101 \<Longrightarrow> n = 100 \<or> n = (101 :: nat)"
  by auto

lemma source_archived:
  assumes "serves get source_nodes"
  shows "archived sum_sha hex_bytes get source_db 100 101 source_archive"
proof -
  have "distinct (map node_hash source_nodes)" by (simp add: source_nodes_def source_leaf_def source_root_def)
  then have "\<forall>n \<in> set source_nodes. get (node_hash n) = oret n" using serves_stored [OF assms] by blast
  then have get: "get 5 = oret (source_leaf 5)" "get 233 = oret (source_root 5)"
    "get 6 = oret (source_leaf 6)" "get 234 = oret (source_root 6)"
    by (simp_all add: source_nodes_def source_leaf_def source_root_def)
  have "tree get 233 [source_leaf 5, source_root 5]" "tree get 234 [source_leaf 6, source_root 6]"
    using source_tree [of get 5] source_tree [of get 6] get by simp_all
  then show ?thesis
    unfolding archived_def Let_def
    by (auto dest!: source_seqs simp add: source_archive_def source_index source_hashes)
      (simp_all add: source_info_def source_leaf_def source_root_def collect_transactions_def)
qed

lemma source_genuine: "genuine sum_sha 100 101 source_archive"
proof -
  have "recompute_node_hash sum_sha (source_leaf k) = of_nat k" if "k < 256" for k
    using that by (simp add: recompute_node_hash_def source_leaf_def sum_sha unat_of_nat_byte)
  moreover have "recompute_node_hash sum_sha (source_root k) = of_nat (228 + k)" if "k = 5 \<or> k = 6" for k
  proof -
    have len: "length (hash_prefix_inner_node @ full_content (of_nat k # replicate 15 0)) < 2 ^ 200"
      by (simp add: hash_prefix_inner_node_def)
    have "sum_list (map unat (to_be_bytes (of_nat k :: hash256))) = k"
      using that by (elim disjE) (simp_all add: to_be_bytes_def nat_be_numeral sum_list_replicate)
    moreover have "sum_list (map unat (to_be_bytes (0 :: hash256))) = 0"
      by (simp add: to_be_bytes_def sum_list_replicate)
    ultimately have "sum_list (map unat (full_content (of_nat k # replicate 15 0))) = k"
      by (simp only: full_content_def list.map concat.simps map_append sum_list_append map_replicate_const
          replicate_numeral_Cons pred_numeral_simps numeral_One) simp
    then show ?thesis
      using sum_sha [OF len] by (simp add: recompute_node_hash_def source_root_def hash_prefix_inner_node_def)
  qed
  ultimately have "self_consistent sum_sha [source_leaf 5, source_root 5]" "self_consistent sum_sha [source_leaf 6, source_root 6]"
    by (simp_all add: self_consistent_def) (simp_all add: source_leaf_def source_root_def)
  then show ?thesis
    unfolding genuine_def Let_def
    by (auto dest!: source_seqs simp add: source_archive_def)
      (auto simp add: plain_def source_leaf_def source_root_def source_info_def build_tx_tree_def authentic_def
        tx_map_at_def ledger_tx_map_def Let_def)
qed

lemma source_fits: "archive_fits 100 101 source_archive"
  unfolding archive_fits_def
  by (auto dest!: source_seqs simp add: source_archive_def source_leaf_def source_root_def wf_node_def
      wf_tx_map_def tx_map_at_def ledger_tx_map_def Let_def)

section \<open>Properties\<close>

text \<open>
  C9: An export of a complete source, with any chunk size that leaves the sequence numbers below
  \<open>2 ^ 32\<close>, succeeds whatever the clock and the device test say, and leaves one file per chunk: under the name of its network, first and
  last ledger is a file that deserialize_chunk reads back as the chunk with the whole state
  as checkpoint, one diff per further ledger and the transactions of each ledger. The chunks
  hold every ledger of the range once, in order, and no other file changes.
\<close>

theorem export_writes_every_chunk:
  assumes "range_ok args" and "nudb_open dats = oret shards"
    and "archived H D (get_node X L shards) db (unat (ea_start args)) (unat (ea_end args)) A"
    and "archive_fits (unat (ea_start args)) (unat (ea_end args)) A"
  shows "\<exists>fs'. export_main H X L D elapsed shares_device args dats (Some db) fs = oret fs' \<and>
    (\<forall>c \<in> set (chunk_starts args (Suc (unat (ea_end args)))). \<exists>bytes.
       fs' (chunk_path args (of_nat c)) = Some bytes \<and>
       deserialize_chunk H bytes = Inr (exported_chunk H (get_node X L shards) A args c)) \<and>
    concat (map (\<lambda>c. [c..<Suc (chunk_last args c)]) (chunk_starts args (Suc (unat (ea_end args))))) =
      [unat (ea_start args)..<Suc (unat (ea_end args))] \<and>
    (\<forall>p. (\<forall>c \<in> set (chunk_starts args (Suc (unat (ea_end args)))).
       p \<noteq> chunk_path args (of_nat c) \<and> p \<noteq> chunk_path args (of_nat c) @ ''.tmp'') \<longrightarrow> fs' p = fs p)"
proof -
  let ?fs' = "chunks_written H (get_node X L shards) A args fs (Suc (unat (ea_end args)))"
    and ?cs = "chunk_starts args (Suc (unat (ea_end args)))"
  note bounds = chunk_start_bounds [OF assms(1)]
  have "\<forall>c \<in> set ?cs. ?fs' (chunk_path args (of_nat c)) = Some (exported_bytes H (get_node X L shards) A args c) \<and>
      deserialize_chunk H (exported_bytes H (get_node X L shards) A args c) =
        Inr (exported_chunk H (get_node X L shards) A args c)"
    using written_chunk_stays bounds nudb.exported_file_parses [OF assms(1,3,4)] by (simp add: chunks_written_def)
  moreover have "\<forall>p. (\<forall>c \<in> set ?cs. p \<noteq> chunk_path args (of_nat c) \<and> p \<noteq> chunk_path args (of_nat c) @ ''.tmp'') \<longrightarrow>
      ?fs' p = fs p"
    by (simp add: chunks_written_def other_files_stay)
  ultimately show ?thesis
    using export_main_writes [OF assms(1-3), of elapsed shares_device fs] chunks_cover [OF assms(1)] by blast
qed

lemma export_writes_every_chunk_witness:
  "\<exists>dats fs'. export_main sum_sha (\<lambda>_ _. 77) (\<lambda>_ _. None) hex_bytes (\<lambda>_. 1000) True source_args dats (Some source_db)
      Map.empty = oret fs' \<and>
    (\<exists>bytes c. fs' ''out/xrla_1_0000000100_0000000101.xrla'' = Some bytes \<and> deserialize_chunk sum_sha bytes = Inr c \<and>
      ck_start_ledger c = 100 \<and> ck_end_ledger c = 101)"
proof -
  obtain dats shards where s: "nudb_open dats = oret shards"
    "serves (get_node (\<lambda>_ _. 77) (\<lambda>_ _. None) shards) source_nodes" using source_store by blast
  have range: "unat (ea_start source_args) = 100" "unat (ea_end source_args) = 101" by (simp_all add: source_args_def)
  have starts: "chunk_starts source_args 102 = [100]"
    by (simp add: chunk_starts_def source_args_def upt_conv_Cons)
  note A = source_archived [OF s(2)]
  have path: "chunk_path source_args 100 = ''out/xrla_1_0000000100_0000000101.xrla''"
    by (simp add: chunk_path_def path_join_def source_args_def chunk_filename_def chunk_end_for_def pad10_def dec_digits.simps
        char_of_def bit_iff_odd replicate_numeral_Cons)
  have c: "ck_start_ledger (exported_chunk sum_sha get source_archive source_args 100) = 100"
    "ck_end_ledger (exported_chunk sum_sha get source_archive source_args 100) = 101" for get
    by (simp_all add: exported_chunk_def stream_chunk_def chunk_end_for_def source_args_def)
  from export_writes_every_chunk [OF source_range s(1), of sum_sha hex_bytes "\<lambda>_ _. 77" "\<lambda>_ _. None" source_db
      source_archive "\<lambda>_. 1000" True Map.empty] range A source_fits
  obtain fs' where "export_main sum_sha (\<lambda>_ _. 77) (\<lambda>_ _. None) hex_bytes (\<lambda>_. 1000) True source_args dats (Some source_db)
      Map.empty = oret fs'"
    "\<exists>bytes. fs' (chunk_path source_args 100) = Some bytes \<and> deserialize_chunk sum_sha bytes =
      Inr (exported_chunk sum_sha (get_node (\<lambda>_ _. 77) (\<lambda>_ _. None) shards) source_archive source_args 100)"
    by (auto simp add: starts)
  then show ?thesis unfolding path using c by blast
qed

text \<open>
  C8: What is exported from a genuine source verifies: when the nodes of the source carry their
  own hashes, the transactions rebuild the stored tree roots and the rows name their parents,
  every chunk file of the run passes the importer's replay with all checks on. The replay
  rebuilds exactly the rows of the source's ledger table after the checkpoint, and ends in
  exactly the state of the chunk's last ledger.
\<close>

theorem exported_chunks_verify:
  assumes "range_ok args" and "nudb_open dats = oret shards"
    and "archived H D (get_node X L shards) db (unat (ea_start args)) (unat (ea_end args)) A"
    and "archive_fits (unat (ea_start args)) (unat (ea_end args)) A"
    and "genuine H (unat (ea_start args)) (unat (ea_end args)) A"
  shows "\<exists>fs'. export_main H X L D elapsed shares_device args dats (Some db) fs = oret fs' \<and>
    (\<forall>c \<in> set (chunk_starts args (Suc (unat (ea_end args)))). \<exists>bytes rp.
       fs' (chunk_path args (of_nat c)) = Some bytes \<and>
       import_chunk H S null_sink True bytes () None = oret rp \<and>
       rp_rows rp = map (archive_row A) [Suc c..<Suc (chunk_last args c)] \<and>
       rp_state rp = node_map (ar_nodes A (of_nat (chunk_last args c))))"
proof (rule exI, rule conjI, rule export_main_writes [OF assms(1-3)], intro ballI)
  fix c assume c: "c \<in> set (chunk_starts args (Suc (unat (ea_end args))))"
  note bounds = chunk_start_bounds [OF assms(1)]
  have "chunks_written H (get_node X L shards) A args fs (Suc (unat (ea_end args))) (chunk_path args (of_nat c)) =
      Some (exported_bytes H (get_node X L shards) A args c)"
    using written_chunk_stays [OF c] bounds(3) by (simp add: chunks_written_def)
  moreover have "import_chunk H S null_sink True (exported_bytes H (get_node X L shards) A args c) () None =
      oret (replay_at A c (chunk_last args c))"
    by (rule nudb.exported_file_verifies [OF assms(1,3,4,5) bounds(1,2) [OF c]])
  ultimately show "\<exists>bytes rp.
      chunks_written H (get_node X L shards) A args fs (Suc (unat (ea_end args))) (chunk_path args (of_nat c)) = Some bytes \<and>
      import_chunk H S null_sink True bytes () None = oret rp \<and>
      rp_rows rp = map (archive_row A) [Suc c..<Suc (chunk_last args c)] \<and>
      rp_state rp = node_map (ar_nodes A (of_nat (chunk_last args c)))"
    by (intro exI [of _ "exported_bytes H (get_node X L shards) A args c"]
        exI [of _ "replay_at A c (chunk_last args c)"] conjI) (simp_all del: upt_Suc add: replay_at_def)
qed

lemma exported_chunks_verify_witness:
  "\<exists>dats fs' bytes rp. export_main sum_sha (\<lambda>_ _. 77) (\<lambda>_ _. None) hex_bytes (\<lambda>_. 1000) False source_args dats
      (Some source_db) Map.empty = oret fs' \<and> fs' (chunk_path source_args 100) = Some bytes \<and>
    import_chunk sum_sha (\<lambda>_. 0) null_sink True bytes () None = oret rp \<and>
    rp_state rp = node_map [source_leaf 6, source_root 6]"
proof -
  obtain dats shards where s: "nudb_open dats = oret shards"
    "serves (get_node (\<lambda>_ _. 77) (\<lambda>_ _. None) shards) source_nodes" using source_store by blast
  have range: "unat (ea_start source_args) = 100" "unat (ea_end source_args) = 101" by (simp_all add: source_args_def)
  have starts: "chunk_starts source_args 102 = [100]"
    by (simp add: chunk_starts_def source_args_def upt_conv_Cons)
  have last: "chunk_last source_args 100 = 101" by (simp add: chunk_last_def chunk_end_for_def source_args_def)
  have nodes: "ar_nodes source_archive 101 = [source_leaf 6, source_root 6]" by (simp add: source_archive_def)
  from exported_chunks_verify [OF source_range s(1), of sum_sha hex_bytes "\<lambda>_ _. 77" "\<lambda>_ _. None" source_db
      source_archive "\<lambda>_. 1000" False Map.empty "\<lambda>_. 0"] range source_archived [OF s(2)] source_fits source_genuine
  show ?thesis by (auto simp add: starts last nodes simp del: upt_Suc)
qed

text \<open>
  C39: A chunk size that takes the first ledger past \<open>2 ^ 32\<close> is accepted: the export of a complete
  source (its lists fit the length fields, its range ends more than 64 ledgers below \<open>2 ^ 32\<close>)
  succeeds and leaves one file, whose header names a last ledger before the first one.
  The reader takes the difference for the number of ledgers, so neither the buffered nor the
  streaming reader accepts the file, and no import of it succeeds.
\<close>

theorem oversized_chunk_size_wraps_header:
  assumes "oversized args" and "nudb_open dats = oret shards"
    and "archived H D (get_node X L shards) db (unat (ea_start args)) (unat (ea_end args)) A"
    and "archive_fits (unat (ea_start args)) (unat (ea_end args)) A"
  shows "\<exists>bytes cr. export_main H X L D elapsed shares_device args dats (Some db) fs =
      oret (fs(chunk_path args (ea_start args) \<mapsto> bytes, chunk_path args (ea_start args) @ ''.tmp'' := None)) \<and>
    reader_open bytes = Inr cr \<and> cr_start_ledger cr = ea_start args \<and> cr_end_ledger cr < cr_start_ledger cr \<and>
    (\<forall>c. deserialize_chunk H bytes \<noteq> Inr c) \<and> (\<forall>z. collect_body H cr \<noteq> Inr z) \<and>
    (\<forall>rp. import_chunk H S ops verify bytes sink txdb \<noteq> oret rp)"
proof -
  let ?get = "get_node X L shards" and ?a = "unat (ea_start args)" and ?b = "unat (ea_end args)"
  let ?ls = "map (ledger_at ?get A) [Suc ?a..<Suc ?b]" and ?e = "chunk_end_for args (ea_start args)"
  note over = oversizedD [OF assms(1)]
  have ab: "?a \<le> ?b" using steps_okD(1) [OF over(1)] by simp
  obtain h body where run: "export_main H X L D elapsed shares_device args dats (Some db) fs =
      oret (fs(chunk_path args (ea_start args) \<mapsto>
            header_bytes format_version_streamed (ea_network_id args) (ea_start args) ?e h (sha512half H body) @ body,
          chunk_path args (ea_start args) @ ''.tmp'' := None))"
    and body: "body = stream_body (checkpoint_at A ?a) (tx_map_at A ?a) ?ls"
    using oversized_run [OF assms(1-3)] by blast
  let ?bytes = "header_bytes format_version_streamed (ea_network_id args) (ea_start args) ?e h (sha512half H body) @ body"
  let ?cr = "opened (ea_network_id args) (ea_start args) ?e h (sha512half H body) body"
  have "length ?ls < unat (?e - ea_start args)" using over(2,4) by (simp add: less_diff_conv del: upt_Suc)
  from stream_parts_short [OF _ _ _ _ this] nudb.wf_written [OF assms(3,4) order_refl ab order_refl]
  have short: "stream_parts (unat (?e - ea_start args)) body = Inl UnexpectedEof" by (simp add: body)
  have cr: "reader_open ?bytes = Inr ?cr" by (rule reader_open_header)
  have streaming: "collect_body H ?cr \<noteq> Inr z" for z
    using short by (cases z) (auto simp add: collect_body_opened)
  have buffered: "deserialize_chunk H ?bytes \<noteq> Inr c" for c
    using short by (auto simp add: deserialize_chunk_def rbind_eq_Inr parse_chunk_stream)
  have "?bytes ! 4 = format_version_streamed" "5 \<le> length ?bytes" by (simp_all add: streamed_header)
  then have "detect_version ?bytes = Inr format_version_streamed" by (simp add: detect_version_def)
  then have "import_chunk H S ops verify ?bytes sink txdb \<noteq> oret rp" for rp
    using cr streaming by (auto simp add: import_chunk_def replay_stream_parts)
  with run cr streaming buffered over(3) show ?thesis
    by (intro exI [of _ ?bytes] exI [of _ ?cr]) (simp add: opened_def)
qed

lemma oversized_chunk_size_wraps_header_witness:
  "\<exists>dats fs' bytes cr. export_main sum_sha (\<lambda>_ _. 77) (\<lambda>_ _. None) hex_bytes (\<lambda>_. 1000) True
      (source_args\<lparr>ea_chunk_size := 4294967295\<rparr>) dats (Some source_db) Map.empty = oret fs' \<and>
    fs' (chunk_path (source_args\<lparr>ea_chunk_size := 4294967295\<rparr>) 100) = Some bytes \<and>
    reader_open bytes = Inr cr \<and> cr_end_ledger cr < 100 \<and> (\<forall>c. deserialize_chunk sum_sha bytes \<noteq> Inr c)"
proof -
  let ?args = "source_args\<lparr>ea_chunk_size := 4294967295\<rparr>"
  obtain dats shards where s: "nudb_open dats = oret shards"
    "serves (get_node (\<lambda>_ _. 77) (\<lambda>_ _. None) shards) source_nodes" using source_store by blast
  have over: "oversized ?args" by (simp add: oversized_def source_args_def)
  have range: "unat (ea_start ?args) = 100" "unat (ea_end ?args) = 101" "ea_start ?args = 100"
    by (simp_all add: source_args_def)
  have tmp: "chunk_path ?args 100 \<noteq> chunk_path ?args 100 @ ''.tmp''" by simp
  obtain bytes cr where "export_main sum_sha (\<lambda>_ _. 77) (\<lambda>_ _. None) hex_bytes (\<lambda>_. 1000) True ?args dats (Some source_db)
        Map.empty = oret (Map.empty(chunk_path ?args 100 \<mapsto> bytes, chunk_path ?args 100 @ ''.tmp'' := None))"
      "reader_open bytes = Inr cr" "cr_start_ledger cr = 100" "cr_end_ledger cr < cr_start_ledger cr"
      "\<forall>c. deserialize_chunk sum_sha bytes \<noteq> Inr c"
    using oversized_chunk_size_wraps_header [OF over s(1), of sum_sha hex_bytes "\<lambda>_ _. 77" "\<lambda>_ _. None" source_db
        source_archive "\<lambda>_. 1000" True Map.empty "\<lambda>_. 0" null_sink True "()" None]
      source_archived [OF s(2)] source_fits unfolding range(3) range(1) [unfolded range(3)] range(2) by blast
  with tmp show ?thesis
    by (intro exI [of _ dats] exI [of _ "Map.empty(chunk_path ?args 100 \<mapsto> bytes, chunk_path ?args 100 @ ''.tmp'' := None)"]
        exI [of _ bytes] exI [of _ cr] conjI) simp_all
qed

end
