(* ===== verification/Round_Trip.thy ===== *)
theory Round_Trip
  imports Export_Properties
begin

text \<open>
  The exporter and the importer together: the chunk files of an export, imported into a fresh
  store, give a store that serves the same archive. The lemmas say which nodes the import of
  an exported chunk writes, that the chunks of a run together write every node of every
  ledger's state and transaction tree, and that the trees of the source are trees of any
  store that serves these nodes.
\<close>

section \<open>The nodes of an archive\<close>

definition tx_nodes :: "sha512 \<Rightarrow> archive \<Rightarrow> nat \<Rightarrow> shamap_node list" where
  "tx_nodes H A n = (case build_tx_tree H (ar_txns A (of_nat n)) of Inl _ \<Rightarrow> [] | Inr (_, nodes) \<Rightarrow> nodes)"

definition archive_nodes :: "sha512 \<Rightarrow> nat \<Rightarrow> nat \<Rightarrow> archive \<Rightarrow> shamap_node set" where
  "archive_nodes H a b A = (\<Union>n \<in> {a..b}. set (ar_nodes A (of_nat n)) \<union> set (tx_nodes H A n))"

text \<open>
  What a store needs to hold an archive: no two different nodes of the range with one hash,
  and no node of a transaction tree with hash zero.
\<close>

definition collision_free :: "sha512 \<Rightarrow> nat \<Rightarrow> nat \<Rightarrow> archive \<Rightarrow> bool" where
  "collision_free H a b A \<longleftrightarrow>
     inj_on node_hash (archive_nodes H a b A) \<and>
     (\<forall>n. a \<le> n \<longrightarrow> n \<le> b \<longrightarrow> (\<forall>m \<in> set (tx_nodes H A n). node_hash m \<noteq> 0))"

lemma tx_nodes_storable: "list_all storable (tx_nodes H A n)"
  by (auto simp add: tx_nodes_def built_tree_storable split: sum.split)

lemma tree_entries_at: "tree_entries H (tx_map_at A n) = map node_entry (tx_nodes H A n)"
  by (simp add: tree_entries_def tx_nodes_def tx_map_at_fields split: sum.split)

text \<open>The nodes written for the ledgers up to \<open>k\<close> of the chunk that starts at \<open>c\<close>, and for a run.\<close>

definition span_nodes :: "sha512 \<Rightarrow> node_lookup \<Rightarrow> archive \<Rightarrow> nat \<Rightarrow> nat \<Rightarrow> shamap_node list" where
  "span_nodes H get A c k =
     checkpoint_at A c @ tx_nodes H A c @
     concat (map (\<lambda>n. diff_added (diff_at get A n) @ tx_nodes H A n) [Suc c..<Suc k])"

definition written_nodes :: "sha512 \<Rightarrow> node_lookup \<Rightarrow> archive \<Rightarrow> export_args \<Rightarrow> shamap_node list" where
  "written_nodes H get A args =
     concat (map (\<lambda>c. span_nodes H get A c (chunk_last args c)) (chunk_starts args (Suc (unat (ea_end args)))))"

context node_store
begin

lemma span_covers:
  assumes A: "archived H D get db a b A" and c: "a \<le> c" and k: "c \<le> k" "k \<le> b"
  shows "set (span_nodes H get A c k) = archive_nodes H c k A"
  using k
proof (induction k rule: dec_induct)
  case base
  have "set (checkpoint_at A c) = set (ar_nodes A (of_nat c))"
    using state_values_node_map(1) [OF archivedD(5) [OF A c base]] unfolding checkpoint_at_def by (metis set_mset_mset)
  then show ?case by (simp add: span_nodes_def archive_nodes_def)
next
  case (step k)
  let ?n = "Suc k"
  have n: "a < ?n" "?n \<le> b" using c step by simp_all
  obtain D C where d: "mset (ar_nodes A (of_nat k)) = C + D"
    "mset (ar_nodes A (of_nat ?n)) = C + mset (diff_added (diff_at get A ?n))"
    by (rule exE [OF diff_at_effect [OF A n]]) (elim exE conjE, rule that, simp_all)
  have old: "set (ar_nodes A (of_nat k)) = set_mset C \<union> set_mset D"
    and new: "set (ar_nodes A (of_nat ?n)) = set_mset C \<union> set (diff_added (diff_at get A ?n))"
    using arg_cong [OF d(1), of set_mset] arg_cong [OF d(2), of set_mset] by (simp_all del: of_nat_Suc)
  have "archive_nodes H c ?n A =
      archive_nodes H c k A \<union> (set (ar_nodes A (of_nat ?n)) \<union> set (tx_nodes H A ?n))"
    using step(1) by (simp add: archive_nodes_def atLeastAtMostSuc_conv Un_commute del: of_nat_Suc)
  moreover have "set (ar_nodes A (of_nat k)) \<subseteq> archive_nodes H c k A"
    using step(1) by (auto simp add: archive_nodes_def)
  moreover have "set (span_nodes H get A c ?n) =
      set (span_nodes H get A c k) \<union> set (diff_added (diff_at get A ?n)) \<union> set (tx_nodes H A ?n)"
    using step(1) by (simp add: span_nodes_def Un_assoc)
  ultimately show ?case using step old new by auto
qed

lemma written_covers:
  assumes r: "range_ok args" and A: "archived H D get db (unat (ea_start args)) (unat (ea_end args)) A"
  shows "set (written_nodes H get A args) = archive_nodes H (unat (ea_start args)) (unat (ea_end args)) A"
proof -
  let ?a = "unat (ea_start args)" and ?b = "unat (ea_end args)" and ?cs = "chunk_starts args (Suc (unat (ea_end args)))"
  have "set (span_nodes H get A c (chunk_last args c)) = archive_nodes H c (chunk_last args c) A" if "c \<in> set ?cs" for c
    using chunk_start_bounds [OF r that] chunk_last_bounds [OF r] by (intro span_covers [OF A]) simp_all
  then have "set (written_nodes H get A args) = (\<Union>c \<in> set ?cs. archive_nodes H c (chunk_last args c) A)"
    by (simp add: written_nodes_def)
  also have "\<dots> = (\<Union>n \<in> (\<Union>c \<in> set ?cs. {c..chunk_last args c}). set (ar_nodes A (of_nat n)) \<union> set (tx_nodes H A n))"
    by (simp add: archive_nodes_def)
  also have "(\<Union>c \<in> set ?cs. {c..chunk_last args c}) = {?a..?b}"
    using arg_cong [OF chunks_cover [OF r], of set] by (simp add: atLeastLessThanSuc_atLeastAtMost del: upt_Suc)
  finally show ?thesis by (simp add: archive_nodes_def)
qed

end

section \<open>Importing the exported chunks\<close>

lemma span_entries:
  assumes "length rows = length ns"
  shows "concat (map (ledger_entries H False) (zip (map (ledger_at get A) ns) rows)) =
    map node_entry (concat (map (\<lambda>n. diff_added (diff_at get A n) @ tx_nodes H A n) ns))"
  using assms
  by (induction rows ns rule: list_induct2) (simp_all add: ledger_entries_def ledger_at_def tree_entries_at)

definition rows_after :: "archive \<Rightarrow> export_args \<Rightarrow> nat \<Rightarrow> ledger_db_row list" where
  "rows_after A args c = map (archive_row A) [Suc c..<Suc (chunk_last args c)]"

context node_store
begin

lemma exported_chunk_entries:
  assumes r: "range_ok args" and A: "archived H D get db (unat (ea_start args)) (unat (ea_end args)) A"
    and c: "unat (ea_start args) \<le> c" "c \<le> unat (ea_end args)"
  shows "chunk_entries H False (exported_chunk H get A args c) (rows_after A args c) =
    map node_entry (span_nodes H get A c (chunk_last args c))"
proof -
  have "length (rows_after A args c) = length [Suc c..<Suc (chunk_last args c)]"
    by (simp add: rows_after_def del: upt_Suc)
  from span_entries [OF this, of H get A] show ?thesis
    unfolding chunk_entries_def replay_entries_def exported_chunk_fields [OF r A c] list.sel zip_map_fst_snd
    by (simp add: chunk_rest_def span_nodes_def tree_entries_at del: upt_Suc)
qed

lemma import_exported_one:
  assumes r: "range_ok args" and A: "archived H D get db (unat (ea_start args)) (unat (ea_end args)) A"
    and fits: "archive_fits (unat (ea_start args)) (unat (ea_end args)) A"
    and G: "genuine H (unat (ea_start args)) (unat (ea_end args)) A"
    and c: "unat (ea_start args) \<le> c" "c \<le> unat (ea_end args)"
    and stored: "fst sink path = Some (exported_bytes H get A args c)"
  shows "import_one H S X True (sink, None, rows) path =
    oret (sink_write_all X sink (map node_entry (span_nodes H get A c (chunk_last args c))), None, rows @ rows_after A args c)"
proof -
  obtain rp where rp: "import_chunk H S (nudb_node_sink X) True (exported_bytes H get A args c) sink None = oret rp"
    "same_ledgers (replay_at A c (chunk_last args c)) rp"
    using nudb_sink.import_repeats [OF exported_file_verifies [OF r A fits G c]] by blast
  then have "rp_rows rp = rows_after A args c" "rp_txdb rp = None"
    by (simp_all add: same_ledgers_def replay_at_def rows_after_def)
  moreover have "rp_sink rp = sink_write_all X sink (map node_entry (span_nodes H get A c (chunk_last args c)))"
    using replayed_sink [OF rp(1) [unfolded exported_file_imports [OF r A fits c]]] exported_chunk_entries [OF r A c]
      calculation(1) by simp
  ultimately show ?thesis using rp(1) stored by (simp add: import_one_def)
qed

lemma import_exported_all:
  assumes r: "range_ok args" and A: "archived H D get db (unat (ea_start args)) (unat (ea_end args)) A"
    and fits: "archive_fits (unat (ea_start args)) (unat (ea_end args)) A"
    and G: "genuine H (unat (ea_start args)) (unat (ea_end args)) A"
    and cs: "\<forall>c \<in> set cs. unat (ea_start args) \<le> c \<and> c \<le> unat (ea_end args)"
    and stored: "\<forall>c \<in> set cs. path c \<noteq> sk_dat_tmp (snd sink) \<and> fst sink (path c) = Some (exported_bytes H get A args c)"
  shows "ofold (import_one H S X True) (sink, None, rows) (map path cs) =
    oret (sink_write_all X sink (map node_entry (concat (map (\<lambda>c. span_nodes H get A c (chunk_last args c)) cs))), None,
      rows @ concat (map (rows_after A args) cs))"
  using cs stored
proof (induction cs arbitrary: sink rows)
  case Nil
  then show ?case by (simp add: sink_write_all_def)
next
  case (Cons c cs)
  let ?sink = "sink_write_all X sink (map node_entry (span_nodes H get A c (chunk_last args c)))"
  have "\<forall>c \<in> set cs. path c \<noteq> sk_dat_tmp (snd ?sink) \<and> fst ?sink (path c) = Some (exported_bytes H get A args c)"
    using Cons.prems(2) by simp
  from Cons.IH [OF _ this] have "ofold (import_one H S X True) (?sink, None, rows @ rows_after A args c) (map path cs) =
      oret (sink_write_all X ?sink (map node_entry (concat (map (\<lambda>c. span_nodes H get A c (chunk_last args c)) cs))), None,
        (rows @ rows_after A args c) @ concat (map (rows_after A args) cs))"
    using Cons.prems(1) by simp
  moreover have "import_one H S X True (sink, None, rows) (path c) = oret (?sink, None, rows @ rows_after A args c)"
    using Cons.prems by (intro import_exported_one [OF r A fits G]) simp_all
  ultimately show ?case by (simp add: sink_write_all_append)
qed

end

section \<open>The store as a source\<close>

lemma ofold_cong: "(\<And>x d. x \<in> set xs \<Longrightarrow> f d x = g d x) \<Longrightarrow> ofold f d xs = ofold g d xs"
proof (induction xs arbitrary: d)
  case (Cons x xs)
  then have "(\<lambda>d. ofold f d xs) = (\<lambda>d. ofold g d xs)" by (simp add: fun_eq_iff)
  with Cons.prems show ?case by simp
qed simp

lemma served:
  assumes "serves get' ns" and "inj_on node_hash (set ns)" and "n \<in> set ns"
  shows "get' (node_hash n) = oret n"
proof -
  obtain m where m: "node_map ns (node_hash n) = Some m"
    using assms(3) node_map_None [of ns "node_hash n"] by (cases "node_map ns (node_hash n)") auto
  with node_map_in [OF m] assms(2,3) have "m = n" by (simp add: inj_on_def)
  with m assms(1) show ?thesis by (simp add: serves_def)
qed

lemma archive_nodesI:
  "a \<le> n \<Longrightarrow> n \<le> b \<Longrightarrow> set (ar_nodes A (of_nat n)) \<subseteq> archive_nodes H a b A"
  "a \<le> n \<Longrightarrow> n \<le> b \<Longrightarrow> set (tx_nodes H A n) \<subseteq> archive_nodes H a b A"
  by (auto simp add: archive_nodes_def)

context node_store
begin

lemma archived_transfer:
  assumes A: "archived H D get db a b A" and G: "genuine H a b A" and ok: "collision_free H a b A"
    and get': "node_store get'" and holds: "\<forall>m \<in> archive_nodes H a b A. get' (node_hash m) = oret m"
  shows "archived H D get' db a b A"
  unfolding archived_def Let_def
proof (intro allI impI conjI)
  fix n assume n: "a \<le> n" "n \<le> b"
  note at = archivedD [OF A n]
  show "ledger_index_get D db (of_nat n) = Inr (ar_info A (of_nat n))" "li_account_hash (ar_info A (of_nat n)) \<noteq> 0"
    "distinct (map node_hash (ar_nodes A (of_nat n)))"
    "info_hash H (ar_info A (of_nat n)) (of_nat n) = li_ledger_hash (ar_info A (of_nat n))"
    using at(1,3,5) A n by (simp_all add: archived_def Let_def)
  show "tree get' (li_account_hash (ar_info A (of_nat n))) (ar_nodes A (of_nat n))"
    using tree_transfer [OF at(4)] holds archive_nodesI(1) [OF n, of A H] by blast
  obtain nodes where b: "build_tx_tree H (ar_txns A (of_nat n)) = Inr (li_tx_hash (ar_info A (of_nat n)), nodes)"
    using genuineD(4) [OF G n] by blast
  then have nodes: "tx_nodes H A n = nodes" by (simp add: tx_nodes_def)
  have "stored get' nodes"
    using holds archive_nodesI(2) [OF n, of H A] ok n unfolding nodes [symmetric] stored_def collision_free_def by blast
  from node_store.collect_transactions_built [OF get' b this collected_wf [OF at(6)]]
  show "collect_transactions get' (li_tx_hash (ar_info A (of_nat n))) = oret (ar_txns A (of_nat n))"
    by (simp add: sort_key_sorted [OF collected_sorted [OF at(6)]])
qed

text \<open>Two stores that hold the nodes of two trees give the same difference.\<close>

lemma diff_to_empty_transfer:
  assumes get': "node_store get'" and old: "tree get old os" and holds: "\<forall>n \<in> set os. get' (node_hash n) = oret n"
  shows "diff_nodes get' old 0 d = diff_nodes get old 0 d"
proof (cases "old = 0")
  case False
  with collect_deleted_tree [OF old] node_store.collect_deleted_tree [OF get' tree_transfer [OF old holds]]
  show ?thesis by (simp add: diff_nodes_cases)
qed (simp add: diff_nodes_cases)

lemma diff_nodes_transfer:
  assumes get': "node_store get'"
  shows "tree get new ns \<Longrightarrow> tree get old os \<Longrightarrow> (\<forall>n \<in> set ns \<union> set os. get' (node_hash n) = oret n) \<Longrightarrow>
    diff_nodes get' old new d = diff_nodes get old new d"
proof (induction arbitrary: old os d rule: tree.induct)
  case tree_empty
  show ?case by (rule diff_to_empty_transfer [OF get' tree_empty.prems(1)]) (use tree_empty.prems(2) in blast)
next
  case (tree_node new n cs nss)
  have kids: "list_all2 (tree get) cs nss" using tree_node.IH by (rule list_all2_mono) blast
  then have new: "tree get new (concat nss @ [n])" using tree_node.hyps by (intro tree.tree_node)
  then have new': "tree get' new (concat nss @ [n])" using tree_transfer tree_node.prems(2) by blast
  have old': "tree get' old os" using tree_transfer [OF tree_node.prems(1)] tree_node.prems(2) by blast
  note added = collect_added_tree [OF new] collect_added_tree [OF new']
  note deleted = collect_deleted_tree [OF tree_node.prems(1)] node_store.collect_deleted_tree [OF get' old']
  show ?case
  proof (cases "old = 0 \<or> old = new")
    case True
    then show ?thesis using tree_node.hyps(1) added by (auto simp add: diff_nodes_cases)
  next
    case False
    then have ne: "old \<noteq> new" "old \<noteq> 0" by simp_all
    obtain m ds mss where m: "get old = oret m" "node_children m = Inr ds" "list_all2 (tree get) ds mss" "os = concat mss @ [m]"
      by (rule treeE [OF tree_node.prems(1) ne(2)])
    have get: "get' new = oret n" "get' old = oret m"
      using tree_node.prems(2) get_hash [OF tree_node.hyps(2)] get_hash [OF m(1)] m(4) by auto
    show ?thesis
    proof (cases "is_inner (node_type n) \<and> is_inner (node_type m)")
      case True
      then obtain ni mi where i: "inner_from_node n = Inr ni" "inner_from_node m = Inr mi"
        "cs = child_hashes ni" "ds = child_hashes mi"
        using tree_node.hyps(3) m(2) by (auto simp add: node_children_Inr)
      obtain kss where kss: "length kss = 16" "\<And>i. i < 16 \<Longrightarrow> tree get (child_or_zero ni i) (kss ! i)"
        "concat kss = concat nss"
        using inner_slot_trees [OF i(1)] kids i(3) by blast
      obtain lss where lss: "length lss = 16" "\<And>i. i < 16 \<Longrightarrow> tree get (child_or_zero mi i) (lss ! i)"
        "concat lss = concat mss"
        using inner_slot_trees [OF i(2)] m(3) i(4) by blast
      have slot: "diff_nodes get' (child_or_zero mi k) (child_or_zero ni k) d =
          diff_nodes get (child_or_zero mi k) (child_or_zero ni k) d" if k: "k < 16" for k d
      proof -
        have "kss ! k \<in> set kss" "lss ! k \<in> set lss" using k kss(1) lss(1) by simp_all
        then have "set (kss ! k) \<subseteq> set (concat nss)" "set (lss ! k) \<subseteq> set (concat mss)"
          unfolding kss(3) [symmetric] lss(3) [symmetric] by auto
        then have holds: "\<forall>n \<in> set (kss ! k) \<union> set (lss ! k). get' (node_hash n) = oret n"
          using tree_node.prems(2) m(4) by auto
        show ?thesis
        proof (cases "child_or_zero ni k = 0")
          case True
          then show ?thesis using diff_to_empty_transfer [OF get' lss(2) [OF k]] holds by simp
        next
          case False
          then have "child_or_zero ni k \<in> set cs" using child_or_zero_in [OF i(1) k] i(3) by simp
          then obtain j where j: "j < length cs" "cs ! j = child_or_zero ni k" unfolding in_set_conv_nth by blast
          note at = list_all2_nthD [OF tree_node.IH j(1), unfolded j(2)]
          have "nss ! j = kss ! k" using at kss(2) [OF k] tree_unique by blast
          with at lss(2) [OF k] holds show ?thesis by simp
        qed
      qed
      have "ofold (\<lambda>d k. diff_nodes get' (child_or_zero mi k) (child_or_zero ni k) d) d [0..<16] =
          ofold (\<lambda>d k. diff_nodes get (child_or_zero mi k) (child_or_zero ni k) d) d [0..<16]"
        by (rule ofold_cong) (simp_all add: slot)
      then show ?thesis
        using diff_nodes_inner [OF ne(1) tree_node.hyps(1) ne(2) tree_node.hyps(2) m(1) i(1,2)]
          diff_nodes_inner [OF ne(1) tree_node.hyps(1) ne(2) get i(1,2)] True by simp
    next
      case False
      then show ?thesis
        using ne tree_node.hyps(1,2) m(1) get added deleted by (simp add: diff_nodes_replace)
    qed
  qed
qed

lemma diff_at_transfer:
  assumes A: "archived H D get db a b A" and get': "node_store get'"
    and holds: "\<forall>m \<in> archive_nodes H a b A. get' (node_hash m) = oret m" and n: "a < n" "n \<le> b"
  shows "diff_at get' A n = diff_at get A n"
proof -
  have old: "a \<le> n - 1" "n - 1 \<le> b" and new: "a \<le> n" using n by simp_all
  have "\<forall>m \<in> set (ar_nodes A (of_nat n)) \<union> set (ar_nodes A (of_nat (n - 1))). get' (node_hash m) = oret m"
    using holds archive_nodesI(1) [OF new n(2), of A H] archive_nodesI(1) [OF old, of A H] by blast
  from diff_nodes_transfer [OF get' archivedD(4) [OF A new n(2)] archivedD(4) [OF A old] this]
  show ?thesis by (simp add: diff_at_def diff_roots_def)
qed

lemma exported_bytes_transfer:
  assumes r: "range_ok args" and A: "archived H D get db (unat (ea_start args)) (unat (ea_end args)) A"
    and get': "node_store get'"
    and holds: "\<forall>m \<in> archive_nodes H (unat (ea_start args)) (unat (ea_end args)) A. get' (node_hash m) = oret m"
    and c: "unat (ea_start args) \<le> c" "c \<le> unat (ea_end args)"
  shows "exported_bytes H get' A args c = exported_bytes H get A args c"
proof -
  have "ledger_at get' A n = ledger_at get A n" if "n \<in> set [Suc c..<Suc (chunk_last args c)]" for n
  proof -
    have "unat (ea_start args) < n" "n \<le> unat (ea_end args)" using that c(1) chunk_last_bounds(2) [OF r c(2)] by auto
    from diff_at_transfer [OF A get' holds this] show ?thesis by (simp add: ledger_at_def)
  qed
  then have "chunk_rest get' A args c = chunk_rest get A args c"
    unfolding chunk_rest_def by (intro map_cong refl)
  then show ?thesis by (simp add: exported_bytes_def exported_body_def)
qed

end

section \<open>The import of a run\<close>

text \<open>The options of a verifying import of all chunk files of an export, in order.\<close>

definition imports_export :: "export_args \<Rightarrow> import_args \<Rightarrow> string \<Rightarrow> bool" where
  "imports_export args ia dat \<longleftrightarrow>
     ia_chunks ia = map (\<lambda>c. chunk_path args (of_nat c)) (chunk_starts args (Suc (unat (ea_end args)))) \<and>
     ia_dat ia = Some dat \<and> \<not> ia_verify_only ia \<and> \<not> ia_skip_verify ia \<and> ia_txdb ia = None \<and>
     import_paths ia dat"

text \<open>What the import leaves: a store that opens and serves exactly the nodes \<open>ns\<close>.\<close>

definition holds_nodes :: "xxh64 \<Rightarrow> file_system \<Rightarrow> string \<Rightarrow> shamap_node list \<Rightarrow> (byte list \<times> byte list) list \<Rightarrow> shard list \<Rightarrow> bool" where
  "holds_nodes X fs dat ns dats shards \<longleftrightarrow>
     (\<exists>D key. fs dat = Some D \<and> fs (with_extension dat ''key'') = Some key \<and> dats = [(D, key)]) \<and>
     nudb_open dats = oret shards \<and> (\<forall>L. serves (get_node X L shards) ns)"

context node_store
begin

lemma exported_run_imports:
  assumes r: "range_ok args" and A: "archived H D get db (unat (ea_start args)) (unat (ea_end args)) A"
    and fits: "archive_fits (unat (ea_start args)) (unat (ea_end args)) A"
    and G: "genuine H (unat (ea_start args)) (unat (ea_end args)) A"
    and files: "\<forall>c \<in> set (chunk_starts args (Suc (unat (ea_end args)))).
       wd_files w (chunk_path args (of_nat c)) = Some (exported_bytes H get A args c)"
    and nodes: "list_all storable (written_nodes H get A args)" "store_fits (map node_entry (written_nodes H get A args))"
    and ia: "imports_export args ia dat"
  shows "\<exists>fs' dats shards. import_main H S X F ia w =
      Some (write_rows (ia_ledger_db ia) (concat (map (rows_after A args) (chunk_starts args (Suc (unat (ea_end args))))))
        (w\<lparr>wd_files := fs'\<rparr>), Inr ()) \<and>
    holds_nodes X fs' dat (written_nodes H get A args) dats shards"
proof -
  let ?cs = "chunk_starts args (Suc (unat (ea_end args)))" and ?path = "\<lambda>c. chunk_path args (of_nat c)"
  let ?key = "with_extension dat ''key''" and ?es = "map node_entry (written_nodes H get A args)"
  obtain fs sk where sk: "sink_create (wd_files w) dat = (fs, sk)" by (cases "sink_create (wd_files w) dat")
  then have tmp: "sk_dat_tmp sk = tmp_path dat" and frame: "\<And>p. p \<noteq> tmp_path dat \<Longrightarrow> fs p = wd_files w p"
    by (auto simp add: sink_create_def Let_def append_file_def)
  have path: "?path c \<noteq> tmp_path dat" for c by (simp add: tmp_path_def chunk_path_not_tmp)
  have bounds: "\<forall>c \<in> set ?cs. unat (ea_start args) \<le> c \<and> c \<le> unat (ea_end args)"
    using chunk_start_bounds [OF r] by blast
  have "\<forall>c \<in> set ?cs. ?path c \<noteq> sk_dat_tmp (snd (fs, sk)) \<and> fst (fs, sk) (?path c) = Some (exported_bytes H get A args c)"
    using files path frame tmp by simp
  from import_exported_all [OF r A fits G bounds this, of S X "[]"]
  have loop: "ofold (import_one H S X True) ((fs, sk), None, []) (map ?path ?cs) =
      oret (sink_write_all X (fs, sk) ?es, None, concat (map (rows_after A args) ?cs))"
    by (simp add: written_nodes_def)
  obtain fs1 sk1 where w1: "sink_write_all X (fs, sk) ?es = (fs1, sk1)" by (cases "sink_write_all X (fs, sk) ?es")
  have inv0: "sink_inv X (wd_files w) dat Map.empty (fs, snd (sink_create (wd_files w) dat))"
    using sink_create_inv [of X "wd_files w" dat] by (simp add: sk)
  have "sink_write_all X (fs, snd (sink_create (wd_files w) dat)) ?es = (fs1, sk1)" using w1 by (simp add: sk)
  note inv = sink_written [OF inv0 nodes(2) this]
  have "store_paths_ok dat ?key" using ia by (auto simp add: imports_export_def import_paths_def Let_def store_paths_ok_def)
  from sink_finish_store [OF conjunct1 [OF inv] this] inv
  obtain fs2 sk2 D' key s where fin: "sink_finish X (fs1, sk1) ?key = Some (fs2, sk2)" "sk_finished sk2"
    "fs2 dat = Some D'" "fs2 ?key = Some key" "shard_open D' key = Some (Inr s)"
    "\<forall>h. fetch X s h = Some (Inr (map_of ?es h))" by blast
  have "sink_drop (fs2, sk2) = fs2" using fin(2) by (simp add: sink_drop_def)
  then have "import_main H S X F ia w =
      Some (write_rows (ia_ledger_db ia) (concat (map (rows_after A args) ?cs)) (w\<lparr>wd_files := fs2\<rparr>), Inr ())"
    using ia loop w1 fin(1) by (simp add: import_main_def imports_export_def sk create_txdb_def publish_def)
  moreover have "holds_nodes X fs2 dat (written_nodes H get A args) [(D', key)] [s]"
    using fin get_node_serves [OF nodes(1)] by (simp add: holds_nodes_def nudb_open_def)
  ultimately show ?thesis by blast
qed

end

text \<open>An export and the import of its files, from the source to the store that is left.\<close>

lemma export_then_import:
  assumes r: "range_ok args" and opened: "nudb_open dats = oret shards"
    and A: "archived H D (get_node X L shards) db (unat (ea_start args)) (unat (ea_end args)) A"
    and fits: "archive_fits (unat (ea_start args)) (unat (ea_end args)) A"
    and G: "genuine H (unat (ea_start args)) (unat (ea_end args)) A"
    and ok: "collision_free H (unat (ea_start args)) (unat (ea_end args)) A"
    and size: "store_fits (map node_entry (written_nodes H (get_node X L shards) A args))"
    and ia: "imports_export args ia dat"
  shows "\<exists>fs1 fs2 dats' shards'.
    export_main H X L D elapsed shares_device args dats (Some db) (wd_files w) = oret fs1 \<and>
    (\<forall>c \<in> set (chunk_starts args (Suc (unat (ea_end args)))).
       fs1 (chunk_path args (of_nat c)) = Some (exported_bytes H (get_node X L shards) A args c)) \<and>
    import_main H S X' F ia (w\<lparr>wd_files := fs1\<rparr>) =
      Some (write_rows (ia_ledger_db ia) (concat (map (rows_after A args) (chunk_starts args (Suc (unat (ea_end args))))))
        (w\<lparr>wd_files := fs2\<rparr>), Inr ()) \<and>
    holds_nodes X' fs2 dat (written_nodes H (get_node X L shards) A args) dats' shards' \<and>
    (\<forall>L'. \<forall>m \<in> archive_nodes H (unat (ea_start args)) (unat (ea_end args)) A.
       get_node X' L' shards' (node_hash m) = oret m)"
proof -
  let ?get = "get_node X L shards" and ?a = "unat (ea_start args)" and ?b = "unat (ea_end args)"
  let ?fs1 = "chunks_written H ?get A args (wd_files w) (Suc ?b)" and ?ns = "written_nodes H (get_node X L shards) A args"
  note ex = export_main_writes [OF r opened A, of elapsed shares_device "wd_files w"]
  have files: "\<forall>c \<in> set (chunk_starts args (Suc ?b)).
      ?fs1 (chunk_path args (of_nat c)) = Some (exported_bytes H ?get A args c)"
    using written_chunk_stays chunk_start_bounds(3) [OF r] by (simp add: chunks_written_def)
  have all: "set ?ns = archive_nodes H ?a ?b A" by (rule nudb.written_covers [OF r A])
  have "storable m" if m: "m \<in> archive_nodes H ?a ?b A" for m
  proof -
    obtain n where n: "?a \<le> n" "n \<le> ?b" "m \<in> set (ar_nodes A (of_nat n)) \<union> set (tx_nodes H A n)"
      using m by (auto simp add: archive_nodes_def)
    then show ?thesis
      using nudb.tree_from_store [OF archivedD(4) [OF A n(1,2)]] tx_nodes_storable [of H A n] get_node_storable
      by (auto simp add: from_store_def list_all_iff)
  qed
  then have storable: "list_all storable ?ns" by (simp add: list_all_iff all)
  have world: "w\<lparr>wd_files := ?fs1, wd_files := fs\<rparr> = w\<lparr>wd_files := fs\<rparr>" for fs by simp
  have "\<forall>c \<in> set (chunk_starts args (Suc ?b)). wd_files (w\<lparr>wd_files := ?fs1\<rparr>) (chunk_path args (of_nat c)) =
      Some (exported_bytes H ?get A args c)" using files by simp
  note run = nudb.exported_run_imports [OF r A fits G this storable size ia, of S X' F, unfolded world]
  obtain fs2 dats' shards' where imp: "import_main H S X' F ia (w\<lparr>wd_files := ?fs1\<rparr>) =
      Some (write_rows (ia_ledger_db ia) (concat (map (rows_after A args) (chunk_starts args (Suc ?b))))
        (w\<lparr>wd_files := fs2\<rparr>), Inr ())" "holds_nodes X' fs2 dat ?ns dats' shards'"
    by (rule exE [OF run]) (elim exE conjE, rule that)
  have inj: "inj_on node_hash (set ?ns)" using ok by (simp add: collision_free_def all)
  have "get_node X' L' shards' (node_hash m) = oret m" if "m \<in> archive_nodes H ?a ?b A" for L' m
    using imp(2) served [OF _ inj] that by (simp add: holds_nodes_def all)
  with ex files imp show ?thesis by blast
qed

section \<open>The small source, exported and imported\<close>

definition round_args :: import_args where
  "round_args =
     \<lparr>ia_chunks = [''out/xrla_1_0000000100_0000000101.xrla''], ia_dat = Some ''a.dat'', ia_verify_only = False,
      ia_skip_verify = False, ia_ledger_db = Some ''l.db'', ia_txdb = None\<rparr>"

lemma source_starts: "chunk_starts source_args 102 = [100]" "chunk_last source_args 100 = 101"
  by (simp_all add: chunk_starts_def source_args_def upt_conv_Cons chunk_last_def chunk_end_for_def)

lemma source_path: "chunk_path source_args 100 = ''out/xrla_1_0000000100_0000000101.xrla''"
  by (simp add: chunk_path_def path_join_def source_args_def chunk_filename_def chunk_end_for_def pad10_def dec_digits.simps
      char_of_def bit_iff_odd replicate_numeral_Cons)

lemma source_bounds: "unat (ea_start source_args) = 100" "unat (ea_end source_args) = 101"
  by (simp_all add: source_args_def)

lemma round_imports: "imports_export source_args round_args ''a.dat''"
proof -
  have "ia_chunks round_args = map (\<lambda>c. chunk_path source_args (of_nat c)) (chunk_starts source_args (Suc (unat (ea_end source_args))))"
    by (simp add: source_bounds source_starts source_path round_args_def)
  moreover have "import_paths round_args ''a.dat''"
    by (simp add: import_paths_def round_args_def with_extension_def file_stem_def tmp_path_def Let_def)
  ultimately show ?thesis by (simp add: imports_export_def) (simp add: round_args_def)
qed

lemma source_tx_nodes: "tx_nodes H source_archive n = []"
  by (simp add: tx_nodes_def source_archive_def build_tx_tree_def)

lemma source_archive_nodes: "archive_nodes H 100 101 source_archive = set source_nodes"
proof -
  have "{100..101 :: nat} = {100, 101}" by auto
  moreover have "ar_nodes source_archive 100 = [source_leaf 5, source_root 5]"
    "ar_nodes source_archive 101 = [source_leaf 6, source_root 6]" by (simp_all add: source_archive_def)
  ultimately show ?thesis by (auto simp add: archive_nodes_def source_tx_nodes source_nodes_def)
qed

lemma source_collision_free: "collision_free H 100 101 source_archive"
proof -
  have "inj_on node_hash (set source_nodes)"
    by (simp add: source_nodes_def source_leaf_def source_root_def)
  then show ?thesis by (simp add: collision_free_def source_archive_nodes source_tx_nodes)
qed

lemma source_written_fits:
  assumes "archived sum_sha hex_bytes (get_node X L shards) source_db 100 101 source_archive"
  shows "store_fits (map node_entry (written_nodes sum_sha (get_node X L shards) source_archive source_args))"
proof -
  let ?get = "get_node X L shards"
  let ?ns = "written_nodes sum_sha ?get source_archive source_args"
  have ns: "?ns = checkpoint_at source_archive 100 @ diff_added (diff_at ?get source_archive 101)"
    by (simp add: written_nodes_def source_bounds source_starts span_nodes_def source_tx_nodes)
  have "length (checkpoint_at source_archive 100) = 2"
    using arg_cong [OF state_values_node_map(1) [OF archivedD(5) [OF assms, of 100]], of size]
    by (simp add: checkpoint_at_def source_archive_def)
  moreover have "length (diff_added (diff_at ?get source_archive 101)) \<le> 2"
    using nudb.diff_at_added(2) [OF assms, of 101] by (simp add: source_archive_def)
  ultimately have len: "length ?ns \<le> 4" by (simp add: ns)
  have "set ?ns = set source_nodes"
    using nudb.written_covers [OF source_range, of sum_sha hex_bytes X L shards source_db source_archive] assms
    by (simp add: source_bounds source_archive_nodes)
  then have "\<forall>n \<in> set ?ns. record_bytes (node_entry n) \<le> 1000"
    by (simp add: source_nodes_def source_leaf_def source_root_def node_entry_def record_bytes_def
        encode_wire_to_value_def encode_object_to_value_def hash_prefix_inner_node_def)
  then have "sum_list (map (\<lambda>n. record_bytes (node_entry n)) ?ns) \<le> sum_list (map (\<lambda>_. 1000) ?ns)"
    by (intro sum_list_mono) blast
  then have "sum_list (map record_bytes (map node_entry ?ns)) \<le> 4000"
    using len by (simp add: sum_list_triv comp_def)
  with len show ?thesis by (simp add: store_fits_def)
qed

section \<open>Properties\<close>

text \<open>
  C4: The archive survives the trip through the chunk files: when the range of a genuine source
  is exported and the files are imported with all checks into a fresh store, both programs
  succeed, the .dat and .key left behind open, and the store serves exactly the nodes of the
  range's state and transaction trees: it is a complete source of the same archive, ledger by
  ledger, root by root, transaction by transaction. The ledger table receives the source's
  row of every ledger but the first of each chunk.
\<close>

theorem import_restores_archive:
  assumes "range_ok args" and "nudb_open dats = oret shards"
    and "archived H D (get_node X L shards) db (unat (ea_start args)) (unat (ea_end args)) A"
    and "archive_fits (unat (ea_start args)) (unat (ea_end args)) A"
    and "genuine H (unat (ea_start args)) (unat (ea_end args)) A"
    and "collision_free H (unat (ea_start args)) (unat (ea_end args)) A"
    and "store_fits (map node_entry (written_nodes H (get_node X L shards) A args))"
    and "imports_export args ia dat"
  shows "\<exists>fs1 w' dats' shards' ns.
    export_main H X L D elapsed shares_device args dats (Some db) (wd_files w) = oret fs1 \<and>
    import_main H S X' F ia (w\<lparr>wd_files := fs1\<rparr>) = Some (w', Inr ()) \<and>
    holds_nodes X' (wd_files w') dat ns dats' shards' \<and>
    set ns = archive_nodes H (unat (ea_start args)) (unat (ea_end args)) A \<and>
    archived H D (get_node X' L' shards') db (unat (ea_start args)) (unat (ea_end args)) A \<and>
    (\<forall>p. ia_ledger_db ia = Some p \<longrightarrow> wd_ledger_dbs w' p =
       Some (write_ledger_db (concat (map (rows_after A args) (chunk_starts args (Suc (unat (ea_end args))))))
         (case wd_ledger_dbs w p of None \<Rightarrow> Map.empty | Some t \<Rightarrow> t)))"
proof -
  let ?rows = "concat (map (rows_after A args) (chunk_starts args (Suc (unat (ea_end args)))))"
  from export_then_import [OF assms, where elapsed = elapsed and shares_device = shares_device and w = w and S = S
      and X' = X' and F = F]
  obtain fs1 fs2 dats' shards' where ex: "export_main H X L D elapsed shares_device args dats (Some db) (wd_files w) = oret fs1"
    and imp: "import_main H S X' F ia (w\<lparr>wd_files := fs1\<rparr>) = Some (write_rows (ia_ledger_db ia) ?rows (w\<lparr>wd_files := fs2\<rparr>), Inr ())"
    and ns: "holds_nodes X' fs2 dat (written_nodes H (get_node X L shards) A args) dats' shards'"
    and get: "\<And>L'. \<forall>m \<in> archive_nodes H (unat (ea_start args)) (unat (ea_end args)) A. get_node X' L' shards' (node_hash m) = oret m"
    by blast
  let ?w = "write_rows (ia_ledger_db ia) ?rows (w\<lparr>wd_files := fs2\<rparr>)"
  have "archived H D (get_node X' L' shards') db (unat (ea_start args)) (unat (ea_end args)) A"
    using get by (intro nudb.archived_transfer [OF assms(3,5,6)] nudb.node_store_axioms)
  moreover have "holds_nodes X' (wd_files ?w) dat (written_nodes H (get_node X L shards) A args) dats' shards'"
    using ns by (simp add: write_rows_def Let_def split: option.split)
  moreover have "\<forall>p. ia_ledger_db ia = Some p \<longrightarrow> wd_ledger_dbs ?w p =
      Some (write_ledger_db ?rows (case wd_ledger_dbs w p of None \<Rightarrow> Map.empty | Some t \<Rightarrow> t))"
    by (simp add: write_rows_def Let_def)
  ultimately show ?thesis using ex imp nudb.written_covers [OF assms(1,3)] by blast
qed

lemma import_restores_archive_witness:
  "\<exists>dats fs1 w' dats' shards' ns.
    export_main sum_sha (\<lambda>_ _. 77) (\<lambda>_ _. None) hex_bytes (\<lambda>_. 1000) True source_args dats (Some source_db) Map.empty =
      oret fs1 \<and>
    import_main sum_sha (\<lambda>_. 0) (\<lambda>_ _. 77) (\<lambda>_. []) round_args \<lparr>wd_files = fs1, wd_ledger_dbs = Map.empty\<rparr> =
      Some (w', Inr ()) \<and>
    holds_nodes (\<lambda>_ _. 77) (wd_files w') ''a.dat'' ns dats' shards' \<and> set ns = set source_nodes \<and>
    archived sum_sha hex_bytes (get_node (\<lambda>_ _. 77) (\<lambda>_ _. None) shards') source_db 100 101 source_archive \<and>
    wd_ledger_dbs w' ''l.db'' = Some (write_ledger_db [archive_row source_archive 101] Map.empty)"
proof -
  obtain dats shards where s: "nudb_open dats = oret shards"
    "serves (get_node (\<lambda>_ _. 77) (\<lambda>_ _. None) shards) source_nodes" using source_store by blast
  note A = source_archived [OF s(2)]
  have rows: "concat (map (rows_after source_archive source_args) (chunk_starts source_args (Suc 101))) =
      [archive_row source_archive 101]"
    by (simp add: source_starts rows_after_def)
  let ?w = "\<lparr>wd_files = Map.empty, wd_ledger_dbs = Map.empty\<rparr>"
  have w: "wd_files ?w = Map.empty" "?w\<lparr>wd_files := fs\<rparr> = \<lparr>wd_files = fs, wd_ledger_dbs = Map.empty\<rparr>"
    "wd_ledger_dbs ?w = Map.empty" for fs by simp_all
  note run = import_restores_archive [OF source_range s(1), unfolded source_bounds, OF A source_fits source_genuine
      source_collision_free source_written_fits [OF A] round_imports, where elapsed = "\<lambda>_. 1000" and shares_device = True
      and w = ?w and S = "\<lambda>_. 0" and X' = "\<lambda>_ _. 77" and F = "\<lambda>_. []" and L' = "\<lambda>_ _. None",
      unfolded w source_archive_nodes rows]
  show ?thesis
    by (rule exE [OF run], elim exE conjE, intro exI conjI, assumption+) (simp add: round_args_def)
qed

text \<open>
  C5: Nothing is lost on the way back: exporting the same range again from the store the import
  has left, with any number of workers and whatever the other files are, writes the same chunk
  files as the first export, byte for byte, the chunk hashes included.
\<close>

theorem reexport_reproduces_chunks:
  assumes "range_ok args" and "nudb_open dats = oret shards"
    and "archived H D (get_node X L shards) db (unat (ea_start args)) (unat (ea_end args)) A"
    and "archive_fits (unat (ea_start args)) (unat (ea_end args)) A"
    and "genuine H (unat (ea_start args)) (unat (ea_end args)) A"
    and "collision_free H (unat (ea_start args)) (unat (ea_end args)) A"
    and "store_fits (map node_entry (written_nodes H (get_node X L shards) A args))"
    and "imports_export args ia dat"
  shows "\<exists>fs1 w' D' key fs2.
    export_main H X L D elapsed shares_device args dats (Some db) (wd_files w) = oret fs1 \<and>
    import_main H S X' F ia (w\<lparr>wd_files := fs1\<rparr>) = Some (w', Inr ()) \<and>
    wd_files w' dat = Some D' \<and> wd_files w' (with_extension dat ''key'') = Some key \<and>
    export_main H X' L' D elapsed' shares_device' args [(D', key)] (Some db) fs = oret fs2 \<and>
    (\<forall>c \<in> set (chunk_starts args (Suc (unat (ea_end args)))).
       fs1 (chunk_path args (of_nat c)) \<noteq> None \<and> fs2 (chunk_path args (of_nat c)) = fs1 (chunk_path args (of_nat c)))"
proof -
  let ?a = "unat (ea_start args)" and ?b = "unat (ea_end args)"
  let ?cs = "chunk_starts args (Suc (unat (ea_end args)))"
  let ?rows = "concat (map (rows_after A args) ?cs)"
  from export_then_import [OF assms, where elapsed = elapsed and shares_device = shares_device and w = w and S = S
      and X' = X' and F = F]
  obtain fs1 fs2 dats' shards' where ex: "export_main H X L D elapsed shares_device args dats (Some db) (wd_files w) = oret fs1"
    and files: "\<forall>c \<in> set ?cs. fs1 (chunk_path args (of_nat c)) = Some (exported_bytes H (get_node X L shards) A args c)"
    and imp: "import_main H S X' F ia (w\<lparr>wd_files := fs1\<rparr>) = Some (write_rows (ia_ledger_db ia) ?rows (w\<lparr>wd_files := fs2\<rparr>), Inr ())"
    and ns: "holds_nodes X' fs2 dat (written_nodes H (get_node X L shards) A args) dats' shards'"
    and get: "\<And>L'. \<forall>m \<in> archive_nodes H ?a ?b A. get_node X' L' shards' (node_hash m) = oret m"
    by blast
  obtain D' key where dat: "fs2 dat = Some D'" "fs2 (with_extension dat ''key'') = Some key" "dats' = [(D', key)]"
    and opened: "nudb_open dats' = oret shards'" using ns unfolding holds_nodes_def by blast
  let ?w = "write_rows (ia_ledger_db ia) ?rows (w\<lparr>wd_files := fs2\<rparr>)" and ?get' = "get_node X' L' shards'"
  have wd: "wd_files ?w = fs2" by (simp add: write_rows_def Let_def split: option.split)
  have A': "archived H D ?get' db ?a ?b A"
    using get by (intro nudb.archived_transfer [OF assms(3,5,6)] nudb.node_store_axioms)
  let ?fs3 = "chunks_written H ?get' A args fs (Suc ?b)"
  have again: "export_main H X' L' D elapsed' shares_device' args [(D', key)] (Some db) fs = oret ?fs3"
    by (rule export_main_writes [OF assms(1) opened [unfolded dat(3)] A'])
  have "?fs3 (chunk_path args (of_nat c)) = fs1 (chunk_path args (of_nat c))" if c: "c \<in> set ?cs" for c
  proof -
    note b = chunk_start_bounds [OF assms(1)]
    have "?fs3 (chunk_path args (of_nat c)) = Some (exported_bytes H ?get' A args c)"
      using written_chunk_stays [OF c] b(3) by (simp add: chunks_written_def)
    moreover have "exported_bytes H ?get' A args c = exported_bytes H (get_node X L shards) A args c"
      by (rule nudb.exported_bytes_transfer [OF assms(1,3) nudb.node_store_axioms get b(1,2) [OF c]])
    ultimately show ?thesis using files c by simp
  qed
  with ex imp again files dat(1,2) show ?thesis
    by (intro exI [of _ fs1] exI [of _ ?w] exI [of _ D'] exI [of _ key] exI [of _ ?fs3]) (simp add: wd)
qed

lemma reexport_reproduces_chunks_witness:
  "\<exists>dats fs1 w' D' key fs2.
    export_main sum_sha (\<lambda>_ _. 77) (\<lambda>_ _. None) hex_bytes (\<lambda>_. 1000) True source_args dats (Some source_db) Map.empty =
      oret fs1 \<and>
    import_main sum_sha (\<lambda>_. 0) (\<lambda>_ _. 78) (\<lambda>_. []) round_args \<lparr>wd_files = fs1, wd_ledger_dbs = Map.empty\<rparr> =
      Some (w', Inr ()) \<and>
    export_main sum_sha (\<lambda>_ _. 78) (\<lambda>_ _. None) hex_bytes (\<lambda>_. 0) False source_args [(D', key)] (Some source_db) Map.empty =
      oret fs2 \<and>
    fs1 (chunk_path source_args 100) \<noteq> None \<and> fs2 (chunk_path source_args 100) = fs1 (chunk_path source_args 100)"
proof -
  obtain dats shards where s: "nudb_open dats = oret shards"
    "serves (get_node (\<lambda>_ _. 77) (\<lambda>_ _. None) shards) source_nodes" using source_store by blast
  note A = source_archived [OF s(2)]
  let ?w = "\<lparr>wd_files = Map.empty, wd_ledger_dbs = Map.empty\<rparr>"
  have w: "wd_files ?w = Map.empty" "?w\<lparr>wd_files := fs\<rparr> = \<lparr>wd_files = fs, wd_ledger_dbs = Map.empty\<rparr>" for fs
    by simp_all
  have starts: "set (chunk_starts source_args (Suc 101)) = {100}" by (simp add: source_starts)
  note run = reexport_reproduces_chunks [OF source_range s(1), unfolded source_bounds, OF A source_fits source_genuine
      source_collision_free source_written_fits [OF A] round_imports, where elapsed = "\<lambda>_. 1000" and shares_device = True
      and w = ?w and S = "\<lambda>_. 0" and X' = "\<lambda>_ _. 78" and F = "\<lambda>_. []" and L' = "\<lambda>_ _. None"
      and elapsed' = "\<lambda>_. 0" and shares_device' = False and fs = Map.empty, unfolded w starts]
  show ?thesis
    by (rule exE [OF run], elim exE conjE, intro exI conjI, assumption+) simp_all
qed

end
