(* ===== verification/Index_Build.thy ===== *)
theory Index_Build
  imports Export_Properties
begin

text \<open>
  The builder of the per-chunk index of crates/xrla-index/src/build.rs and schema.rs: it
  streams a chunk once, inserts one row per transaction and affected account, and gives the
  index its name only after the chunk hash was verified. SQLite's tables are lists of keys and
  values with unique keys; how a file holds them is the parameter \<open>F\<close>, and \<open>E\<close> is encode_upper
  of the crate hex. File and SQLite operations do not fail here. Arithmetic is that of a
  release build.
\<close>

section \<open>Schema\<close>

definition schema_version :: nat where
  "schema_version = 1"

definition rule_id :: string where
  "rule_id = ''xrpld-getAffectedAccounts/1''"

record index_tables =
  it_meta :: "(string \<times> string) list"
  it_account_tx :: "((account_id \<times> u32 \<times> u32) \<times> hash256) list"
  it_locator :: "(hash256 \<times> u32 \<times> u32) list"

type_synonym index_file = "index_tables \<Rightarrow> byte list"

definition index_schema :: index_tables where
  "index_schema = \<lparr>it_meta = [], it_account_tx = [], it_locator = []\<rparr>"

text \<open>INSERT under a primary key.\<close>

definition insert_unique :: "('k \<times> 'v) list \<Rightarrow> 'k \<Rightarrow> 'v \<Rightarrow> ('k \<times> 'v) list option" where
  "insert_unique t k v = (if k \<in> set (map fst t) then None else Some (t @ [(k, v)]))"

datatype index_error =
    IndexExists
  | ChunkFileMissing
  | ChunkNotOpened Chunk_Reader.reader_error
  | ChunkUnreadable chunk_error
  | LedgerOutOfOrder u32 u32
  | TxIdMismatch u32 hash256
  | MetaUndecodable u32 hash256 meta_error
  | NoTransactionIndex u32 hash256
  | DuplicateAccountRow u32 hash256
  | DuplicateTransaction hash256
  | IndexNotContiguous u32 nat u32 nat
  | LedgersMissing u32 u32
  | ChunkHashUnverified chunk_error
  | NotADatabase
  | MetaMissing string
  | NotComplete
  | WrongSchema string
  | WrongRule string
  | NotANumber string

section \<open>The sink\<close>

record index_sink =
  ix_tables :: index_tables
  ix_start_ledger :: u32
  ix_ledgers :: u32
  ix_txs :: u64
  ix_rows :: u64
  ix_indices :: "u32 list"

definition index_sink_new :: "u32 \<Rightarrow> index_sink" where
  "index_sink_new start_ledger =
     \<lparr>ix_tables = index_schema, ix_start_ledger = start_ledger, ix_ledgers = 0, ix_txs = 0, ix_rows = 0,
      ix_indices = []\<rparr>"

definition index_account :: "u32 \<Rightarrow> u32 \<Rightarrow> hash256 \<Rightarrow> index_sink \<Rightarrow> account_id \<Rightarrow> index_error + index_sink" where
  "index_account seq n h sk account =
     (case insert_unique (it_account_tx (ix_tables sk)) (account, seq, n) h of
        None \<Rightarrow> Inl (DuplicateAccountRow seq h)
      | Some t \<Rightarrow> Inr (sk\<lparr>ix_tables := (ix_tables sk)\<lparr>it_account_tx := t\<rparr>, ix_rows := ix_rows sk + 1\<rparr>))"

definition index_tx :: "sha512 \<Rightarrow> u32 \<Rightarrow> index_sink \<Rightarrow> tx_record \<Rightarrow> index_error + index_sink" where
  "index_tx H seq sk t =
     (if calculate_tx_id H (tx_blob t) \<noteq> tx_hash t then Inl (TxIdMismatch seq (tx_hash t)) else
      rbind (rlift (MetaUndecodable seq (tx_hash t)) (summarize_meta (meta_blob t))) (\<lambda>summary.
      case ms_transaction_index summary of
        None \<Rightarrow> Inl (NoTransactionIndex seq (tx_hash t))
      | Some n \<Rightarrow>
          rbind (rfold (index_account seq n (tx_hash t)) (sk\<lparr>ix_indices := ix_indices sk @ [n]\<rparr>)
                   (ms_affected_accounts summary)) (\<lambda>sk.
          case insert_unique (it_locator (ix_tables sk)) (tx_hash t) (seq, n) of
            None \<Rightarrow> Inl (DuplicateTransaction (tx_hash t))
          | Some l \<Rightarrow> Inr (sk\<lparr>ix_tables := (ix_tables sk)\<lparr>it_locator := l\<rparr>, ix_txs := ix_txs sk + 1\<rparr>))))"

text \<open>The sorted indices of a ledger must be 0, 1, 2 and so on.\<close>

definition check_contiguous :: "u32 \<Rightarrow> u32 list \<Rightarrow> index_error + unit" where
  "check_contiguous seq indices =
     (case find (\<lambda>(i, n). unat n \<noteq> i) (enumerate 0 (sort indices)) of
        None \<Rightarrow> Inr ()
      | Some (i, n) \<Rightarrow> Inl (IndexNotContiguous seq (length indices) n i))"

definition index_ledger :: "sha512 \<Rightarrow> index_sink \<Rightarrow> tx_map \<Rightarrow> index_error + index_sink" where
  "index_ledger H sk m =
     (let seq = tm_ledger_seq m; expected = ix_start_ledger sk + ix_ledgers sk in
      if seq \<noteq> expected then Inl (LedgerOutOfOrder expected seq) else
      rbind (rfold (index_tx H seq) (sk\<lparr>ix_indices := []\<rparr>) (tm_txns m)) (\<lambda>sk.
      rbind (check_contiguous seq (ix_indices sk)) (\<lambda>_.
      Inr (sk\<lparr>ix_ledgers := ix_ledgers sk + 1\<rparr>))))"

section \<open>Building\<close>

record build_report =
  br_network_id :: u32
  br_start_ledger :: u32
  br_end_ledger :: u32
  br_chunk_hash :: hash256
  br_ledgers :: u32
  br_transactions :: u64
  br_rows :: u64

text \<open>The chunk streamed into a new sink, up to the check of its hash.\<close>

definition index_chunk :: "sha512 \<Rightarrow> chunk_reader \<Rightarrow> index_error + index_sink" where
  "index_chunk H cr =
     (let start_ledger = cr_start_ledger cr; total_ledgers = cr_end_ledger cr - start_ledger + 1 in
      rbind (rlift ChunkUnreadable (reader_checkpoint (\<lambda>_ _. ()) () cr)) (\<lambda>(_, cr).
      rbind (rlift ChunkUnreadable (reader_checkpoint_tx_map cr)) (\<lambda>(cp, cr).
      rbind (index_ledger H (index_sink_new start_ledger) cp) (\<lambda>sk.
      rbind (drain ChunkUnreadable (\<lambda>sk (delta, m). index_ledger H sk m) sk cr) (\<lambda>(sk, cr).
      if ix_ledgers sk \<noteq> total_ledgers then Inl (LedgersMissing total_ledgers (ix_ledgers sk)) else
      rbind (rlift ChunkHashUnverified (reader_finish H cr)) (\<lambda>_. Inr sk))))))"

definition index_report :: "chunk_reader \<Rightarrow> index_sink \<Rightarrow> build_report" where
  "index_report cr sk =
     \<lparr>br_network_id = cr_network_id cr, br_start_ledger = cr_start_ledger cr,
      br_end_ledger = cr_end_ledger cr, br_chunk_hash = reader_chunk_hash cr, br_ledgers = ix_ledgers sk,
      br_transactions = ix_txs sk, br_rows = ix_rows sk\<rparr>"

definition index_meta_rows :: "(byte list \<Rightarrow> string) \<Rightarrow> build_report \<Rightarrow> (string \<times> string) list" where
  "index_meta_rows E r =
     [(''schema_version'', dec_digits schema_version),
      (''rule_id'', rule_id),
      (''network_id'', dec_digits (unat (br_network_id r))),
      (''start_ledger'', dec_digits (unat (br_start_ledger r))),
      (''end_ledger'', dec_digits (unat (br_end_ledger r))),
      (''chunk_hash'', E (to_be_bytes (br_chunk_hash r))),
      (''ledgers'', dec_digits (unat (br_ledgers r))),
      (''transactions'', dec_digits (unat (br_transactions r))),
      (''rows'', dec_digits (unat (br_rows r))),
      (''complete'', ''1'')]"

text \<open>The result with the file system it leaves; the guard removes the temporary file.\<close>

definition build_index ::
  "sha512 \<Rightarrow> (byte list \<Rightarrow> string) \<Rightarrow> index_file \<Rightarrow> file_system \<Rightarrow> string \<Rightarrow> string \<Rightarrow> bool
     \<Rightarrow> (index_error + build_report) \<times> file_system" where
  "build_index H E F fs chunk_file out_file force =
     (if fs out_file \<noteq> None \<and> \<not> force then (Inl IndexExists, fs) else
      case fs chunk_file of None \<Rightarrow> (Inl ChunkFileMissing, fs) | Some bytes \<Rightarrow>
      case reader_open bytes of Inl e \<Rightarrow> (Inl (ChunkNotOpened e), fs) | Inr cr \<Rightarrow>
      let tmp = tmp_path out_file;
          fs = (remove_file fs tmp)(tmp \<mapsto> F index_schema)
      in case index_chunk H cr of
           Inl e \<Rightarrow> (Inl e, remove_file fs tmp)
         | Inr sk \<Rightarrow>
             let report = index_report cr sk;
                 tables = (ix_tables sk)\<lparr>it_meta := index_meta_rows E report\<rparr>
             in (Inr report, rename_file (fs(tmp \<mapsto> F tables)) tmp out_file))"

section \<open>What a successful sink holds\<close>

definition indexable :: "sha512 \<Rightarrow> tx_record \<Rightarrow> bool" where
  "indexable H t \<longleftrightarrow>
     calculate_tx_id H (tx_blob t) = tx_hash t \<and>
     (\<exists>s n. summarize_meta (meta_blob t) = Inr s \<and> ms_transaction_index s = Some n)"

definition tx_index :: "tx_record \<Rightarrow> u32" where
  "tx_index t = the (ms_transaction_index (projr (summarize_meta (meta_blob t))))"

definition tx_accounts :: "tx_record \<Rightarrow> account_id list" where
  "tx_accounts t = ms_affected_accounts (projr (summarize_meta (meta_blob t)))"

definition account_keys :: "u32 \<Rightarrow> tx_record \<Rightarrow> ((account_id \<times> u32 \<times> u32) \<times> hash256) list" where
  "account_keys seq t = map (\<lambda>a. ((a, seq, tx_index t), tx_hash t)) (tx_accounts t)"

definition unique_keys :: "index_tables \<Rightarrow> bool" where
  "unique_keys t \<longleftrightarrow> distinct (map fst (it_account_tx t)) \<and> distinct (map fst (it_locator t))"

text \<open>The sink after the transactions \<open>ts\<close> of ledger \<open>seq\<close>.\<close>

definition put_txs :: "u32 \<Rightarrow> index_sink \<Rightarrow> tx_record list \<Rightarrow> index_sink" where
  "put_txs seq sk ts =
     sk\<lparr>ix_tables := (ix_tables sk)\<lparr>it_account_tx := it_account_tx (ix_tables sk) @ concat (map (account_keys seq) ts),
          it_locator := it_locator (ix_tables sk) @ map (\<lambda>t. (tx_hash t, seq, tx_index t)) ts\<rparr>,
        ix_txs := ix_txs sk + of_nat (length ts),
        ix_rows := ix_rows sk + of_nat (length (concat (map (account_keys seq) ts))),
        ix_indices := ix_indices sk @ map tx_index ts\<rparr>"

lemma put_txs_simps [simp]:
  "ix_indices (put_txs seq sk ts) = ix_indices sk @ map tx_index ts"
  "ix_ledgers (put_txs seq sk ts) = ix_ledgers sk" "ix_start_ledger (put_txs seq sk ts) = ix_start_ledger sk"
  by (simp_all add: put_txs_def)

lemma put_txs_Nil [simp]: "put_txs seq sk [] = sk"
  by (simp add: put_txs_def)

lemma put_txs_append: "put_txs seq (put_txs seq sk ts) us = put_txs seq sk (ts @ us)"
  by (simp add: put_txs_def add.assoc)

lemma index_accounts_Inr:
  assumes "distinct (map fst (it_account_tx (ix_tables sk)))"
  shows "rfold (index_account seq n h) sk as = Inr sk' \<longleftrightarrow>
    distinct (map fst (it_account_tx (ix_tables sk)) @ map (\<lambda>a. (a, seq, n)) as) \<and>
    sk' = sk\<lparr>ix_tables := (ix_tables sk)\<lparr>it_account_tx := it_account_tx (ix_tables sk) @ map (\<lambda>a. ((a, seq, n), h)) as\<rparr>,
             ix_rows := ix_rows sk + of_nat (length as)\<rparr>"
  using assms
proof (induction as arbitrary: sk)
  case Nil
  then show ?case by (auto simp add: eq_commute)
next
  case (Cons a as)
  let ?t = "it_account_tx (ix_tables sk)"
  show ?case
  proof (cases "(a, seq, n) \<in> set (map fst ?t)")
    case True
    then show ?thesis by (auto simp add: index_account_def insert_unique_def)
  next
    case False
    let ?sk = "sk\<lparr>ix_tables := (ix_tables sk)\<lparr>it_account_tx := ?t @ [((a, seq, n), h)]\<rparr>, ix_rows := ix_rows sk + 1\<rparr>"
    have "index_account seq n h sk a = Inr ?sk" using False by (simp add: index_account_def insert_unique_def)
    moreover have "distinct (map fst (it_account_tx (ix_tables ?sk)))" using Cons.prems False by simp
    from Cons.IH [OF this] have "rfold (index_account seq n h) ?sk as = Inr sk' \<longleftrightarrow>
      distinct (map fst (?t @ [((a, seq, n), h)]) @ map (\<lambda>a. (a, seq, n)) as) \<and>
      sk' = sk\<lparr>ix_tables := (ix_tables sk)\<lparr>it_account_tx := ?t @ map (\<lambda>a. ((a, seq, n), h)) (a # as)\<rparr>,
               ix_rows := ix_rows sk + of_nat (length (a # as))\<rparr>"
      by (simp add: add.assoc)
    ultimately show ?thesis by simp
  qed
qed

lemma index_tx_Inr:
  assumes "unique_keys (ix_tables sk)"
  shows "index_tx H seq sk t = Inr sk' \<longleftrightarrow>
    indexable H t \<and> sk' = put_txs seq sk [t] \<and> unique_keys (ix_tables sk')"
proof (cases "indexable H t")
  case False
  then show ?thesis
    by (auto simp add: index_tx_def indexable_def rbind_eq_Inr split: if_splits option.splits)
next
  case True
  then obtain s n where s: "calculate_tx_id H (tx_blob t) = tx_hash t" "summarize_meta (meta_blob t) = Inr s"
    "ms_transaction_index s = Some n" by (auto simp add: indexable_def)
  have at: "tx_index t = n" "tx_accounts t = ms_affected_accounts s" using s by (simp_all add: tx_index_def tx_accounts_def)
  have "index_tx H seq sk t = Inr sk' \<longleftrightarrow> sk' = put_txs seq sk [t] \<and> unique_keys (ix_tables sk')"
    using s assms
    by (auto simp add: index_tx_def rbind_eq_Inr index_accounts_Inr insert_unique_def unique_keys_def put_txs_def
        account_keys_def at comp_def split: if_splits) force
  with True show ?thesis by blast
qed

lemma unique_keys_put: "unique_keys (ix_tables (put_txs seq sk ts)) \<Longrightarrow> unique_keys (ix_tables sk)"
  by (simp add: unique_keys_def put_txs_def)

lemma index_txs_Inr:
  assumes "unique_keys (ix_tables sk)"
  shows "rfold (index_tx H seq) sk ts = Inr sk' \<longleftrightarrow>
    list_all (indexable H) ts \<and> sk' = put_txs seq sk ts \<and> unique_keys (ix_tables sk')"
  using assms
proof (induction ts arbitrary: sk)
  case Nil
  then show ?case by auto
next
  case (Cons t ts)
  let ?sk = "put_txs seq sk [t]"
  have put: "put_txs seq ?sk ts = put_txs seq sk (t # ts)" by (simp add: put_txs_append)
  show ?case
  proof (cases "indexable H t \<and> unique_keys (ix_tables ?sk)")
    case True
    then have "index_tx H seq sk t = Inr ?sk" using index_tx_Inr [OF Cons.prems] by simp
    with Cons.IH [of ?sk] True show ?thesis by (simp add: put)
  next
    case False
    then have no: "index_tx H seq sk t \<noteq> Inr u" for u using index_tx_Inr [OF Cons.prems, of H seq t u] by auto
    have "\<not> (list_all (indexable H) (t # ts) \<and> unique_keys (ix_tables (put_txs seq sk (t # ts))))"
      using False unique_keys_put [of seq ?sk ts] by (auto simp add: put)
    with no show ?thesis by (auto simp add: rbind_eq_Inr)
  qed
qed

lemma check_contiguous_Inr:
  "check_contiguous seq ns = Inr u \<longleftrightarrow> (\<forall>i < length ns. unat (sort ns ! i) = i)"
proof -
  have "check_contiguous seq ns = Inr u \<longleftrightarrow> find (\<lambda>(i, n). unat n \<noteq> i) (enumerate 0 (sort ns)) = None"
    unfolding check_contiguous_def by (auto split: option.splits)
  also have "\<dots> \<longleftrightarrow> (\<forall>(i, n) \<in> set (enumerate 0 (sort ns)). unat n = i)"
    by (auto simp add: find_None_iff)
  also have "\<dots> \<longleftrightarrow> (\<forall>i < length ns. unat (sort ns ! i) = i)"
    by (simp add: all_set_conv_all_nth nth_enumerate_eq)
  finally show ?thesis .
qed

text \<open>The ledgers of a chunk that the builder accepts, from the sequence number \<open>start\<close>.\<close>

definition ledger_indexable :: "sha512 \<Rightarrow> u32 \<Rightarrow> tx_map \<Rightarrow> bool" where
  "ledger_indexable H seq m \<longleftrightarrow>
     tm_ledger_seq m = seq \<and> list_all (indexable H) (tm_txns m) \<and>
     (\<forall>i < length (tm_txns m). unat (sort (map tx_index (tm_txns m)) ! i) = i)"

definition put_ledgers :: "index_sink \<Rightarrow> tx_map list \<Rightarrow> index_sink" where
  "put_ledgers sk ms =
     sk\<lparr>ix_tables := (ix_tables sk)
          \<lparr>it_account_tx := it_account_tx (ix_tables sk) @
              concat (map (\<lambda>(m, t). account_keys (tm_ledger_seq m) t) (ledger_transactions ms)),
           it_locator := it_locator (ix_tables sk) @
              map (\<lambda>(m, t). (tx_hash t, tm_ledger_seq m, tx_index t)) (ledger_transactions ms)\<rparr>,
        ix_ledgers := ix_ledgers sk + of_nat (length ms),
        ix_txs := ix_txs sk + of_nat (length (ledger_transactions ms)),
        ix_rows := ix_rows sk +
          of_nat (length (concat (map (\<lambda>(m, t). account_keys (tm_ledger_seq m) t) (ledger_transactions ms)))),
        ix_indices := (if ms = [] then ix_indices sk else map tx_index (tm_txns (last ms)))\<rparr>"

lemma put_ledgers_Nil [simp]: "put_ledgers sk [] = sk"
  by (simp add: put_ledgers_def ledger_transactions_def)

lemma put_ledgers_append: "put_ledgers (put_ledgers sk ms) ns = put_ledgers sk (ms @ ns)"
  by (simp add: put_ledgers_def ledger_transactions_def add.assoc)

lemma index_ledger_Inr:
  assumes "unique_keys (ix_tables sk)"
  shows "index_ledger H sk m = Inr sk' \<longleftrightarrow>
    ledger_indexable H (ix_start_ledger sk + ix_ledgers sk) m \<and> sk' = put_ledgers sk [m] \<and> unique_keys (ix_tables sk')"
proof -
  let ?sk = "sk\<lparr>ix_indices := []\<rparr>"
  let ?p = "put_txs (tm_ledger_seq m) ?sk (tm_txns m)"
  have p: "put_ledgers sk [m] = ?p\<lparr>ix_ledgers := ix_ledgers ?p + 1\<rparr>"
    by (simp add: put_txs_def put_ledgers_def ledger_transactions_def comp_def)
  have "unique_keys (ix_tables ?sk)" using assms by simp
  then show ?thesis
    unfolding index_ledger_def Let_def p ledger_indexable_def
    by (auto simp add: rbind_eq_Inr index_txs_Inr check_contiguous_Inr)
qed

lemma unique_keys_put_ledgers: "unique_keys (ix_tables (put_ledgers sk ms)) \<Longrightarrow> unique_keys (ix_tables sk)"
  by (simp add: unique_keys_def put_ledgers_def)

lemma index_ledgers_Inr:
  assumes "unique_keys (ix_tables sk)"
  shows "rfold (index_ledger H) sk ms = Inr sk' \<longleftrightarrow>
    (\<forall>i < length ms. ledger_indexable H (ix_start_ledger sk + ix_ledgers sk + of_nat i) (ms ! i)) \<and>
    sk' = put_ledgers sk ms \<and> unique_keys (ix_tables sk')"
  using assms
proof (induction ms arbitrary: sk)
  case Nil
  then show ?case by auto
next
  case (Cons m ms)
  let ?sk = "put_ledgers sk [m]" and ?seq = "ix_start_ledger sk + ix_ledgers sk"
  have put: "put_ledgers ?sk ms = put_ledgers sk (m # ms)" by (simp add: put_ledgers_append)
  have seqs: "(\<forall>i < length (m # ms). ledger_indexable H (?seq + of_nat i) ((m # ms) ! i)) \<longleftrightarrow>
      ledger_indexable H ?seq m \<and>
      (\<forall>i < length ms. ledger_indexable H (ix_start_ledger ?sk + ix_ledgers ?sk + of_nat i) (ms ! i))"
    by (simp add: All_less_Suc2 put_ledgers_def add.assoc)
  show ?case
  proof (cases "ledger_indexable H ?seq m \<and> unique_keys (ix_tables ?sk)")
    case True
    then have "index_ledger H sk m = Inr ?sk" using index_ledger_Inr [OF Cons.prems] by simp
    with Cons.IH [of ?sk] True show ?thesis unfolding seqs by (simp add: put)
  next
    case False
    then have no: "index_ledger H sk m \<noteq> Inr u" for u using index_ledger_Inr [OF Cons.prems, of H m u] by auto
    have "\<not> (ledger_indexable H ?seq m \<and> unique_keys (ix_tables (put_ledgers sk (m # ms))))"
      using False unique_keys_put_ledgers [of ?sk ms] by (auto simp add: put)
    with no show ?thesis unfolding seqs by (auto simp add: rbind_eq_Inr)
  qed
qed

text \<open>A chunk the builder accepts, and its tables.\<close>

definition chunk_indexable :: "sha512 \<Rightarrow> chunk \<Rightarrow> bool" where
  "chunk_indexable H c \<longleftrightarrow>
     (\<forall>i < length (ck_tx_maps c). ledger_indexable H (ck_start_ledger c + of_nat i) (ck_tx_maps c ! i)) \<and>
     unique_keys (ix_tables (put_ledgers (index_sink_new (ck_start_ledger c)) (ck_tx_maps c)))"

lemma rfold_snd: "rfold (\<lambda>s (d, m). f s m) s ls = rfold f s (map snd ls)"
  by (induction ls arbitrary: s) auto

lemma collected_length:
  assumes "reader_open bytes = Inr cr" and "collect_body H cr = Inr (ns, m0, ls, rest)"
  shows "length ls = unat (cr_end_ledger cr - cr_start_ledger cr)"
proof -
  obtain net s e cp h body where cr: "cr = opened net s e cp h body" using reader_open_InrD [OF assms(1)] by blast
  from assms(2) have "\<exists>r. stream_parts (unat (e - s)) body = Inr ((ns, m0, ls), r)"
    unfolding cr collect_body_opened by blast
  then show ?thesis
    by (auto simp add: stream_parts_def pbind_eq_Inr cr opened_def read_times_length)
qed

text \<open>The count of ledgers always agrees with the header, so LedgersMissing is never reported.\<close>

lemma index_chunk_Inr:
  assumes "reader_open bytes = Inr cr"
  shows "index_chunk H cr = Inr sk \<longleftrightarrow>
    (\<exists>ns m0 ls rest. collect_body H cr = Inr (ns, m0, ls, rest) \<and>
       chunk_indexable H (assembled cr ns m0 ls) \<and> sk = put_ledgers (index_sink_new (cr_start_ledger cr)) (m0 # map snd ls))"
proof -
  let ?new = "index_sink_new (cr_start_ledger cr)" and ?total = "cr_end_ledger cr - cr_start_ledger cr + 1"
  have keys: "unique_keys (ix_tables ?new)" by (simp add: index_sink_new_def index_schema_def unique_keys_def)
  have fold: "(\<exists>s1. index_ledger H ?new m0 = Inr s1 \<and> rfold (index_ledger H) s1 (map snd ls) = Inr sk) \<longleftrightarrow>
      chunk_indexable H (assembled cr ns m0 ls) \<and> sk = put_ledgers ?new (m0 # map snd ls)" for m0 ls ns
  proof -
    have "(\<exists>s1. index_ledger H ?new m0 = Inr s1 \<and> rfold (index_ledger H) s1 (map snd ls) = Inr sk) \<longleftrightarrow>
        rfold (index_ledger H) ?new (m0 # map snd ls) = Inr sk" by (auto simp add: rbind_eq_Inr)
    then show ?thesis
      unfolding index_ledgers_Inr [OF keys] by (auto simp add: chunk_indexable_def assembled_def index_sink_new_def)
  qed
  have total: "ix_ledgers (put_ledgers ?new (m0 # map snd ls)) = ?total"
    if "collect_body H cr = Inr (ns, m0, ls, rest)" for ns m0 ls rest
    using collected_length [OF assms that] by (simp add: put_ledgers_def index_sink_new_def)
  have "index_chunk H cr = Inr sk \<longleftrightarrow>
    (\<exists>ns m0 ls rest. collect_body H cr = Inr (ns, m0, ls, rest) \<and> ix_ledgers sk = ?total \<and>
       (\<exists>s1. index_ledger H ?new m0 = Inr s1 \<and> rfold (index_ledger H) s1 (map snd ls) = Inr sk))"
    unfolding index_chunk_def Let_def collect_body_Inr
    by (auto simp add: reader_checkpoint_eq rbind_eq_Inr drain_Inr rfold_snd)
  also have "\<dots> \<longleftrightarrow> (\<exists>ns m0 ls rest. collect_body H cr = Inr (ns, m0, ls, rest) \<and>
       chunk_indexable H (assembled cr ns m0 ls) \<and> sk = put_ledgers ?new (m0 # map snd ls))"
  proof -
    have "collect_body H cr = Inr (ns, m0, ls, rest) \<and> ix_ledgers sk = ?total \<and>
        (\<exists>s1. index_ledger H ?new m0 = Inr s1 \<and> rfold (index_ledger H) s1 (map snd ls) = Inr sk) \<longleftrightarrow>
      collect_body H cr = Inr (ns, m0, ls, rest) \<and>
        chunk_indexable H (assembled cr ns m0 ls) \<and> sk = put_ledgers ?new (m0 # map snd ls)" for ns m0 ls rest
      unfolding fold [where ns = ns] using total [of ns m0 ls rest] by blast
    then show ?thesis by (simp only:)
  qed
  finally show ?thesis .
qed

end
