(* ===== verification/Index_Query.thy ===== *)
theory Index_Query
  imports Index_Build "HOL-Library.Product_Lexorder"
begin

text \<open>
  The reader of the per-chunk index and the command line over it: query.rs and main.rs of
  crates/xrla-index/src. A query filters the rows of the account table by account, range of
  ledgers and marker, orders them by ledger and transaction index in one direction, and cuts
  the list at the limit. \<open>G\<close> reads the tables of an index file, \<open>D\<close> is decode of the crate hex.
\<close>

section \<open>Markers\<close>

datatype marker = Marker (marker_ledger_seq: u32) (marker_txn_seq: u32)

text \<open>SQL's comparison of row values.\<close>

instantiation marker :: linorder
begin

definition less_eq_marker :: "marker \<Rightarrow> marker \<Rightarrow> bool" where
  "less_eq_marker m n \<longleftrightarrow>
     (marker_ledger_seq m, marker_txn_seq m) \<le> (marker_ledger_seq n, marker_txn_seq n)"

definition less_marker :: "marker \<Rightarrow> marker \<Rightarrow> bool" where
  "less_marker m n \<longleftrightarrow>
     (marker_ledger_seq m, marker_txn_seq m) < (marker_ledger_seq n, marker_txn_seq n)"

instance
  by standard (auto simp add: less_eq_marker_def less_marker_def marker.expand)

end

lemma marker_less [simp]: "Marker l t < Marker k u \<longleftrightarrow> l < k \<or> l = k \<and> t < u"
  by (auto simp add: less_marker_def)

section \<open>Numbers and strings\<close>

text \<open>\<open>parse\<close> of an unsigned integer type with \<open>bound\<close> values.\<close>

definition is_digit :: "char \<Rightarrow> bool" where
  "is_digit c \<longleftrightarrow> 48 \<le> (of_char c :: nat) \<and> (of_char c :: nat) \<le> 57"

definition parse_unsigned :: "nat \<Rightarrow> string \<Rightarrow> nat option" where
  "parse_unsigned bound s =
     (let ds = (case s of c # r \<Rightarrow> if c = CHR ''+'' then r else s | [] \<Rightarrow> []) in
      if ds = [] \<or> \<not> list_all is_digit ds then None
      else if dec_value ds < bound then Some (dec_value ds) else None)"

definition parse_u32 :: "string \<Rightarrow> u32 option" where
  "parse_u32 s = map_option of_nat (parse_unsigned (2 ^ 32) s)"

definition parse_u64 :: "string \<Rightarrow> u64 option" where
  "parse_u64 s = map_option of_nat (parse_unsigned (2 ^ 64) s)"

definition split_once :: "char \<Rightarrow> string \<Rightarrow> (string \<times> string) option" where
  "split_once c s =
     (case dropWhile (\<lambda>d. d \<noteq> c) s of [] \<Rightarrow> None | _ # r \<Rightarrow> Some (takeWhile (\<lambda>d. d \<noteq> c) s, r))"

section \<open>Opening an index\<close>

record index_meta =
  im_network_id :: u32
  im_start_ledger :: u32
  im_end_ledger :: u32
  im_chunk_hash :: string
  im_ledgers :: u64
  im_transactions :: u64
  im_rows :: u64
  im_rule_id :: string

record index =
  idx_tables :: index_tables
  idx_meta :: index_meta

definition meta_get :: "(string \<rightharpoonup> string) \<Rightarrow> string \<Rightarrow> index_error + string" where
  "meta_get kv k = (case kv k of None \<Rightarrow> Inl (MetaMissing k) | Some v \<Rightarrow> Inr v)"

definition meta_num :: "(string \<rightharpoonup> string) \<Rightarrow> string \<Rightarrow> index_error + u64" where
  "meta_num kv k =
     rbind (meta_get kv k) (\<lambda>v. case parse_u64 v of None \<Rightarrow> Inl (NotANumber k) | Some n \<Rightarrow> Inr n)"

definition index_open :: "index_tables \<Rightarrow> index_error + index" where
  "index_open t =
     (let kv = foldl (\<lambda>kv (k, v). kv(k \<mapsto> v)) Map.empty (it_meta t) in
      rbind (meta_get kv ''complete'') (\<lambda>complete.
      if complete \<noteq> ''1'' then Inl NotComplete else
      rbind (meta_get kv ''schema_version'') (\<lambda>version.
      if version \<noteq> dec_digits schema_version then Inl (WrongSchema version) else
      rbind (meta_get kv ''rule_id'') (\<lambda>rule.
      if rule \<noteq> rule_id then Inl (WrongRule rule) else
      rbind (meta_num kv ''network_id'') (\<lambda>network_id.
      rbind (meta_num kv ''start_ledger'') (\<lambda>start_ledger.
      rbind (meta_num kv ''end_ledger'') (\<lambda>end_ledger.
      rbind (meta_get kv ''chunk_hash'') (\<lambda>chunk_hash.
      rbind (meta_num kv ''ledgers'') (\<lambda>ledgers.
      rbind (meta_num kv ''transactions'') (\<lambda>transactions.
      rbind (meta_num kv ''rows'') (\<lambda>rows.
      Inr \<lparr>idx_tables = t,
           idx_meta = \<lparr>im_network_id = ucast network_id, im_start_ledger = ucast start_ledger,
             im_end_ledger = ucast end_ledger, im_chunk_hash = chunk_hash, im_ledgers = ledgers,
             im_transactions = transactions, im_rows = rows, im_rule_id = rule\<rparr>\<rparr>)))))))))))"

definition index_open_file ::
  "(byte list \<Rightarrow> index_tables option) \<Rightarrow> file_system \<Rightarrow> string \<Rightarrow> index_error + index" where
  "index_open_file G fs p =
     (case Option.bind (fs p) G of None \<Rightarrow> Inl NotADatabase | Some t \<Rightarrow> index_open t)"

section \<open>Queries\<close>

record account_tx_row =
  row_ledger_seq :: u32
  row_txn_seq :: u32
  row_tx_hash :: hash256

type_synonym table_row = "(account_id \<times> u32 \<times> u32) \<times> hash256"

definition row_key :: "table_row \<Rightarrow> marker" where
  "row_key r = (case r of ((a, l, t), h) \<Rightarrow> Marker l t)"

definition map_row :: "table_row \<Rightarrow> account_tx_row" where
  "map_row r = (case r of ((a, l, t), h) \<Rightarrow> \<lparr>row_ledger_seq = l, row_txn_seq = t, row_tx_hash = h\<rparr>)"

text \<open>LIMIT over a signed number: a negative one is no limit.\<close>

definition sql_limit :: "u64 \<Rightarrow> 'a list \<Rightarrow> 'a list" where
  "sql_limit limit xs = (if sint limit < 0 then xs else take (nat (sint limit)) xs)"

definition account_tx ::
  "index_tables \<Rightarrow> account_id \<Rightarrow> u32 \<Rightarrow> u32 \<Rightarrow> u64 \<Rightarrow> bool \<Rightarrow> marker option \<Rightarrow> account_tx_row list" where
  "account_tx t account lo hi limit forward marker =
     (if limit = 0 then [] else
      let rows = filter (\<lambda>((a, l, n), h). a = account \<and> lo \<le> l \<and> l \<le> hi) (it_account_tx t);
          rows = (case marker of
                    None \<Rightarrow> rows
                  | Some m \<Rightarrow> filter (\<lambda>r. if forward then m < row_key r else row_key r < m) rows);
          ordered = sort_key row_key rows
      in map map_row (sql_limit limit (if forward then ordered else rev ordered)))"

definition locate_tx :: "index_tables \<Rightarrow> hash256 \<Rightarrow> (u32 \<times> u32) option" where
  "locate_tx t h = map_of (it_locator t) h"

section \<open>The command line\<close>

datatype index_cmd =
    Build string "string option" bool
  | Query string string "u32 option" "u32 option" u64 bool "string option"
  | Tx string string
  | Stats string

text \<open>What a command prints, as data.\<close>

datatype index_output =
    Built string build_report
  | Rows "account_tx_row list" "marker option"
  | Located "(u32 \<times> u32) option"
  | Meta index_meta

datatype cmd_error =
    IndexError index_error
  | BadAddress address_error
  | BadMarker string
  | BadHash string
  | UnwrapOfNone

definition parse_marker :: "string \<Rightarrow> cmd_error + marker" where
  "parse_marker s =
     (case split_once (CHR '':'') s of
        None \<Rightarrow> Inl (BadMarker s)
      | Some (l, t) \<Rightarrow>
          (case parse_u32 l of None \<Rightarrow> Inl (BadMarker s) | Some l \<Rightarrow>
           case parse_u32 t of None \<Rightarrow> Inl (BadMarker s) | Some t \<Rightarrow> Inr (Marker l t)))"

definition query_marker :: "string option \<Rightarrow> cmd_error + marker option" where
  "query_marker marker =
     (case marker of None \<Rightarrow> Inr None | Some s \<Rightarrow> rbind (parse_marker s) (\<lambda>m. Inr (Some m)))"

text \<open>The rows printed, and the marker of the line \<open>more may follow\<close> after a full page.\<close>

definition run_query ::
  "sha256_fn \<Rightarrow> index \<Rightarrow> string \<Rightarrow> u32 option \<Rightarrow> u32 option \<Rightarrow> u64 \<Rightarrow> bool \<Rightarrow> string option
     \<Rightarrow> cmd_error + index_output" where
  "run_query S idx account from_ledger to_ledger limit forward marker =
     rbind (rlift BadAddress (classic_address_to_account_id S account)) (\<lambda>account_id.
     let lo = (case from_ledger of None \<Rightarrow> im_start_ledger (idx_meta idx) | Some l \<Rightarrow> l);
         hi = (case to_ledger of None \<Rightarrow> im_end_ledger (idx_meta idx) | Some l \<Rightarrow> l)
     in rbind (query_marker marker) (\<lambda>m.
     let rows = account_tx (idx_tables idx) account_id lo hi limit forward m in
     if of_nat (length rows) = limit
     then (case rev rows of
             [] \<Rightarrow> Inl UnwrapOfNone
           | r # _ \<Rightarrow> Inr (Rows rows (Some (Marker (row_ledger_seq r) (row_txn_seq r)))))
     else Inr (Rows rows None)))"

definition index_main ::
  "sha512 \<Rightarrow> sha256_fn \<Rightarrow> (byte list \<Rightarrow> string) \<Rightarrow> hex_decode \<Rightarrow> index_file \<Rightarrow> (byte list \<Rightarrow> index_tables option)
     \<Rightarrow> index_cmd \<Rightarrow> file_system \<Rightarrow> (cmd_error + index_output) \<times> file_system" where
  "index_main H S E D F G cmd fs =
     (case cmd of
        Build chunk_file out_file force \<Rightarrow>
          let out_path = (case out_file of None \<Rightarrow> with_extension chunk_file ''xidx'' | Some p \<Rightarrow> p);
              (r, fs') = build_index H E F fs chunk_file out_path force
          in (rbind (rlift IndexError r) (\<lambda>report. Inr (Built out_path report)), fs')
      | Query p account from_ledger to_ledger limit forward marker \<Rightarrow>
          (rbind (rlift IndexError (index_open_file G fs p)) (\<lambda>idx.
           run_query S idx account from_ledger to_ledger limit forward marker), fs)
      | Tx p h \<Rightarrow>
          (rbind (rlift IndexError (index_open_file G fs p)) (\<lambda>idx.
           case parse_hash D h of None \<Rightarrow> Inl (BadHash h) | Some h \<Rightarrow> Inr (Located (locate_tx (idx_tables idx) h))), fs)
      | Stats p \<Rightarrow>
          (rbind (rlift IndexError (index_open_file G fs p)) (\<lambda>idx. Inr (Meta (idx_meta idx))), fs))"

end
