(* ===== verification/Index_Pages.thy ===== *)
theory Index_Pages
  imports Index_Query
begin

text \<open>
  Paging through the index. Both directions of a query follow a strict order on markers, so the
  page after a marker is what lies behind that row in the ordered history, and the pages that a
  client gets by passing on the printed markers add up to the whole history.
\<close>

section \<open>A strict order to page by\<close>

locale pager =
  fixes before :: "marker \<Rightarrow> marker \<Rightarrow> bool"
  assumes irrefl: "\<not> before m m"
    and trans: "before l m \<Longrightarrow> before m n \<Longrightarrow> before l n"
begin

lemma asym: "before m n \<Longrightarrow> \<not> before n m"
  using irrefl trans by blast

lemma rows_after:
  "sorted_wrt (\<lambda>r s. before (row_key r) (row_key s)) xs \<Longrightarrow> i < length xs \<Longrightarrow>
     filter (\<lambda>r. before (row_key (xs ! i)) (row_key r)) xs = drop (Suc i) xs"
proof (induction xs arbitrary: i)
  case (Cons x xs)
  show ?case
  proof (cases i)
    case 0
    with Cons.prems show ?thesis by (simp add: irrefl filter_id_conv)
  next
    case (Suc j)
    then have "\<not> before (row_key (xs ! j)) (row_key x)" using Cons.prems asym by simp
    with Cons Suc show ?thesis by simp
  qed
qed simp

lemma fewer_after:
  assumes "r \<in> set xs" and "before m (row_key r)"
  shows "length (filter (\<lambda>s. before (row_key r) (row_key s)) xs) < length (filter (\<lambda>s. before m (row_key s)) xs)"
  using assms(1)
proof (induction xs)
  case (Cons x xs)
  have le: "length (filter (\<lambda>s. before (row_key r) (row_key s)) ys) \<le> length (filter (\<lambda>s. before m (row_key s)) ys)" for ys
    using trans [OF assms(2)] by (induction ys) auto
  show ?case
  proof (cases "x = r")
    case True
    with le [of xs] assms(2) show ?thesis by (simp add: irrefl)
  next
    case False
    with Cons show ?thesis using trans [OF assms(2)] by auto
  qed
qed simp

end

text \<open>The two directions of a query.\<close>

definition after :: "bool \<Rightarrow> marker \<Rightarrow> marker \<Rightarrow> bool" where
  "after forward m n \<longleftrightarrow> (if forward then m < n else n < m)"

interpretation pages: pager "after forward" for forward
  by unfold_locales (auto simp add: after_def split: if_splits)

section \<open>The ordered history\<close>

definition history :: "index_tables \<Rightarrow> account_id \<Rightarrow> u32 \<Rightarrow> u32 \<Rightarrow> bool \<Rightarrow> table_row list" where
  "history t account lo hi forward =
     (let ordered = sort_key row_key (filter (\<lambda>((a, l, n), h). a = account \<and> lo \<le> l \<and> l \<le> hi) (it_account_tx t))
      in if forward then ordered else rev ordered)"

definition behind :: "bool \<Rightarrow> marker option \<Rightarrow> table_row list \<Rightarrow> table_row list" where
  "behind forward m rows = (case m of None \<Rightarrow> rows | Some m \<Rightarrow> filter (\<lambda>r. after forward m (row_key r)) rows)"

lemma account_tx_history:
  "account_tx t account lo hi limit forward m =
     (if limit = 0 then [] else map map_row (sql_limit limit (behind forward m (history t account lo hi forward))))"
  by (simp add: account_tx_def history_def behind_def Let_def after_def filter_sort split: option.splits flip: rev_filter)

lemma sql_limit_take:
  assumes "limit \<noteq> 0"
  obtains n where "sql_limit limit xs = take n xs" "0 < n" "n < length xs \<Longrightarrow> of_nat n = limit"
proof (cases "sint limit < 0")
  case True
  then show ?thesis using that [of "Suc (length xs)"] by (simp add: sql_limit_def)
next
  case False
  have "of_nat (nat (sint limit)) = limit" using False by simp
  moreover have "0 < nat (sint limit)" using False assms calculation by (cases "nat (sint limit)") auto
  ultimately show ?thesis using False that [of "nat (sint limit)"] by (simp add: sql_limit_def)
qed

lemma set_history:
  "set (history t account lo hi forward) = {((a, l, n), h) \<in> set (it_account_tx t). a = account \<and> lo \<le> l \<and> l \<le> hi}"
  by (auto simp add: history_def Let_def)

lemma history_ordered:
  assumes "distinct (map fst (it_account_tx t))"
  shows "sorted_wrt (\<lambda>r s. after forward (row_key r) (row_key s)) (history t account lo hi forward)"
proof -
  let ?rows = "filter (\<lambda>((a, l, n), h). a = account \<and> lo \<le> l \<and> l \<le> hi) (it_account_tx t)"
  have "distinct (map fst ?rows)" using assms by (rule distinct_map_filter)
  then have "distinct (map row_key ?rows)"
    by (force simp add: distinct_map inj_on_def row_key_def)
  then have "sorted_wrt (<) (map row_key (sort_key row_key ?rows))"
    by (simp add: strict_sorted_iff distinct_map)
  then have "sorted_wrt (\<lambda>r s. row_key r < row_key s) (sort_key row_key ?rows)" by (simp add: sorted_wrt_map)
  then show ?thesis by (simp add: history_def Let_def after_def sorted_wrt_rev)
qed

section \<open>Following the markers\<close>

text \<open>A client that passes the printed marker on until a page comes without one.\<close>

definition next_marker :: "u64 \<Rightarrow> account_tx_row list \<Rightarrow> marker option" where
  "next_marker limit rows =
     (if of_nat (length rows) = limit \<and> rows \<noteq> []
      then Some (Marker (row_ledger_seq (last rows)) (row_txn_seq (last rows))) else None)"

lemma map_row_key: "Marker (row_ledger_seq (map_row r)) (row_txn_seq (map_row r)) = row_key r"
  by (simp add: map_row_def row_key_def split_def)

lemma next_page_shorter:
  assumes "next_marker limit (account_tx t account lo hi limit forward m) = Some k"
  shows "length (behind forward (Some k) (history t account lo hi forward)) <
    length (behind forward m (history t account lo hi forward))"
proof -
  let ?xs = "history t account lo hi forward"
  have ne: "limit \<noteq> 0" "behind forward m ?xs \<noteq> []" using assms
    by (auto simp add: next_marker_def account_tx_history sql_limit_def split: if_splits)
  obtain n where n: "sql_limit limit (behind forward m ?xs) = take n (behind forward m ?xs)" "0 < n"
    using sql_limit_take [OF ne(1)] by blast
  let ?r = "last (take n (behind forward m ?xs))"
  have ne': "take n (behind forward m ?xs) \<noteq> []" using ne(2) n(2) by simp
  then have "?r \<in> set (behind forward m ?xs)" by (meson last_in_set in_set_takeD)
  then have r: "?r \<in> set ?xs" "\<And>l. m = Some l \<Longrightarrow> after forward l (row_key ?r)"
    by (auto simp add: behind_def split: option.splits)
  have k: "k = row_key ?r"
    using assms ne' by (auto simp add: next_marker_def account_tx_history ne(1) n(1) last_map map_row_key split: if_splits)
  show ?thesis
  proof (cases m)
    case None
    have "length (filter (\<lambda>s. after forward (row_key ?r) (row_key s)) ?xs) < length ?xs"
      using r(1) pages.irrefl by (intro length_filter_less) auto
    with None k show ?thesis by (simp add: behind_def)
  next
    case (Some l)
    with pages.fewer_after [OF r(1) r(2) [OF Some]] k show ?thesis by (simp add: behind_def)
  qed
qed

function all_pages ::
  "index_tables \<Rightarrow> account_id \<Rightarrow> u32 \<Rightarrow> u32 \<Rightarrow> u64 \<Rightarrow> bool \<Rightarrow> marker option \<Rightarrow> account_tx_row list list" where
  "all_pages t account lo hi limit forward m =
     (let page = account_tx t account lo hi limit forward m in
      case next_marker limit page of
        None \<Rightarrow> [page]
      | Some k \<Rightarrow> page # all_pages t account lo hi limit forward (Some k))"
  by pat_completeness auto
termination
  by (relation "measure (\<lambda>(t, account, lo, hi, limit, forward, m). length (behind forward m (history t account lo hi forward)))")
    (simp_all add: next_page_shorter)

declare all_pages.simps [simp del]

lemma pages_from:
  assumes "distinct (map fst (it_account_tx t))" and "limit \<noteq> 0"
    and "behind forward m (history t account lo hi forward) = drop k (history t account lo hi forward)"
  shows "concat (all_pages t account lo hi limit forward m) = map map_row (drop k (history t account lo hi forward))"
  using assms(3)
proof (induction "length (behind forward m (history t account lo hi forward))" arbitrary: m k rule: less_induct)
  case less
  let ?xs = "history t account lo hi forward"
  obtain n where n: "sql_limit limit (drop k ?xs) = take n (drop k ?xs)" "0 < n"
    "n < length (drop k ?xs) \<Longrightarrow> of_nat n = limit"
    using sql_limit_take [OF assms(2), of "drop k ?xs"] by blast
  let ?page = "map map_row (take n (drop k ?xs))"
  have page: "account_tx t account lo hi limit forward m = ?page"
    by (simp add: account_tx_history assms(2) less.prems n(1))
  show ?case
  proof (cases "next_marker limit ?page")
    case None
    have "take n (drop k ?xs) = drop k ?xs"
    proof (cases "n < length (drop k ?xs)")
      case True
      then have "of_nat (length ?page) = limit" "?page \<noteq> []" using n(2,3) by auto
      with None show ?thesis by (simp add: next_marker_def)
    qed simp
    with None page show ?thesis by (subst all_pages.simps) (simp add: Let_def)
  next
    case (Some l)
    have ne: "take n (drop k ?xs) \<noteq> []" using Some by (auto simp add: next_marker_def split: if_splits)
    define i where "i = k + length (take n (drop k ?xs)) - 1"
    have "0 < length (take n (drop k ?xs))" using ne by (simp only: length_greater_0_conv) simp
    then have i: "i < length ?xs" "Suc i = k + length (take n (drop k ?xs))" by (auto simp add: i_def)
    define j where "j = length (take n (drop k ?xs)) - 1"
    have j: "i = k + j" "j < n" "k \<le> length ?xs"
      using n(2) ne \<open>0 < length (take n (drop k ?xs))\<close> by (auto simp add: i_def j_def)
    have "last (take n (drop k ?xs)) = take n (drop k ?xs) ! j"
      unfolding j_def by (rule last_conv_nth [OF ne])
    also have "\<dots> = ?xs ! i" using j by simp
    finally have last: "last (take n (drop k ?xs)) = ?xs ! i" .
    then have l: "l = row_key (?xs ! i)"
      using Some ne last by (auto simp add: next_marker_def last_map map_row_key split: if_splits)
    have rest: "behind forward (Some l) ?xs = drop (Suc i) ?xs"
      using pages.rows_after [OF history_ordered [OF assms(1)] i(1)] by (simp add: behind_def l)
    have "length (behind forward (Some l) ?xs) < length (behind forward m ?xs)"
      by (rule next_page_shorter [where limit = limit]) (simp add: page Some)
    from less.hyps [OF this rest] have "concat (all_pages t account lo hi limit forward (Some l)) = map map_row (drop (Suc i) ?xs)" .
    moreover have "take n ys @ drop (length (take n ys)) ys = ys" for ys :: "table_row list"
      by (cases "n \<le> length ys") simp_all
    then have "take n (drop k ?xs) @ drop (Suc i) ?xs = drop k ?xs"
      unfolding i(2) add.commute [of k] by (simp only: drop_drop [symmetric])
    ultimately show ?thesis
      using Some page by (subst all_pages.simps) (simp add: Let_def flip: map_append)
  qed
qed

end
