(* ===== verification/Index_Correct.thy ===== *)
theory Index_Correct
  imports Index_Pages
begin

text \<open>
  What holds of the index: the outcomes of a build, the rows of a built index as the summaries
  of the chunk's transactions, that it opens, and the invariant its tables keep.
\<close>

section \<open>Numbers\<close>

lemma dec_digits_parse: "list_all is_digit (dec_digits n)" "dec_digits n \<noteq> []"
proof (induction n rule: dec_digits.induct)
  case (1 n)
  have digit: "is_digit (char_of (48 + k))" if "k < 10" for k :: nat
    using that by (simp add: is_digit_def)
  show "list_all is_digit (dec_digits n)" "dec_digits n \<noteq> []"
    using 1 digit [of n] digit [of "n mod 10"] by (simp_all add: dec_digits.simps [of n])
qed

lemma parse_dec_digits: "n < bound \<Longrightarrow> parse_unsigned bound (dec_digits n) = Some n"
proof -
  assume n: "n < bound"
  obtain c r where c: "dec_digits n = c # r" using dec_digits_parse(2) by (cases "dec_digits n") auto
  have "is_digit c" using dec_digits_parse(1) [of n] by (simp add: c)
  then have "c \<noteq> CHR ''+''" by (auto simp add: is_digit_def)
  then show ?thesis
    using n dec_digits_parse(1) [of n] dec_value_dec_digits [of n] by (simp add: parse_unsigned_def c)
qed

lemma parse_u64_digits: "n < 2 ^ 64 \<Longrightarrow> parse_u64 (dec_digits n) = Some (of_nat n)"
  by (simp add: parse_u64_def parse_dec_digits)

lemma parse_u64_words:
  "parse_u64 (dec_digits (unat (w :: u64))) = Some w"
  "parse_u64 (dec_digits (unat (v :: u32))) = Some (ucast v)"
proof -
  show "parse_u64 (dec_digits (unat w)) = Some w" using unsigned_less [of w, where 'a = nat] by (simp add: parse_u64_digits)
  have "unat v < 2 ^ 64" using unat_less32 [of v] by simp
  then show "parse_u64 (dec_digits (unat v)) = Some (ucast v)" by (simp add: parse_u64_digits unsigned_ucast_eq)
qed

text \<open>A marker printed by the command line is read back.\<close>

lemma printed_marker_parses:
  "parse_marker (dec_digits (unat l) @ '':'' @ dec_digits (unat t)) = Inr (Marker l t)"
proof -
  have no: "\<forall>d \<in> set (dec_digits n). d \<noteq> CHR '':''" for n
    using dec_digits_parse(1) [of n] by (auto simp add: list_all_iff is_digit_def)
  have "split_once (CHR '':'') (dec_digits (unat l) @ '':'' @ dec_digits (unat t)) =
      Some (dec_digits (unat l), dec_digits (unat t))"
    using no [of "unat l"] by (simp add: split_once_def)
  moreover have "parse_u32 (dec_digits (unat v)) = Some v" for v :: u32
    using unat_less32 [of v] by (simp add: parse_u32_def parse_dec_digits)
  ultimately show ?thesis by (simp add: parse_marker_def)
qed

section \<open>Opening a built index\<close>

definition report_meta :: "(byte list \<Rightarrow> string) \<Rightarrow> build_report \<Rightarrow> index_meta" where
  "report_meta E r =
     \<lparr>im_network_id = br_network_id r, im_start_ledger = br_start_ledger r, im_end_ledger = br_end_ledger r,
      im_chunk_hash = E (to_be_bytes (br_chunk_hash r)), im_ledgers = ucast (br_ledgers r),
      im_transactions = br_transactions r, im_rows = br_rows r, im_rule_id = rule_id\<rparr>"

lemma ucast_ucast32 [simp]: "ucast (ucast (v :: u32) :: u64) = v"
  by transfer simp

lemma index_open_built:
  "index_open (t\<lparr>it_meta := index_meta_rows E r\<rparr>) =
     Inr \<lparr>idx_tables = t\<lparr>it_meta := index_meta_rows E r\<rparr>, idx_meta = report_meta E r\<rparr>"
  by (simp add: index_open_def index_meta_rows_def meta_get_def meta_num_def parse_u64_words report_meta_def)

section \<open>The outcome of a build\<close>

lemma tmp_renamed:
  "rename_file ((remove_file fs (tmp_path p))(tmp_path p \<mapsto> b)) (tmp_path p) p =
     fs(p \<mapsto> b, tmp_path p := None)"
  by (auto simp add: rename_file_def remove_file_def fun_eq_iff)

definition built_tables :: "(byte list \<Rightarrow> string) \<Rightarrow> chunk_reader \<Rightarrow> index_sink \<Rightarrow> index_tables" where
  "built_tables E cr sk = (ix_tables sk)\<lparr>it_meta := index_meta_rows E (index_report cr sk)\<rparr>"

lemma build_index_Inr:
  "build_index H E F fs chunk_file out_file force = (Inr report, fs') \<longleftrightarrow>
     (fs out_file = None \<or> force) \<and>
     (\<exists>bytes cr sk. fs chunk_file = Some bytes \<and> reader_open bytes = Inr cr \<and> index_chunk H cr = Inr sk \<and>
        report = index_report cr sk \<and>
        fs' = fs(out_file \<mapsto> F (built_tables E cr sk), tmp_path out_file := None))"
  by (cases "fs out_file \<noteq> None \<and> \<not> force")
    (auto simp add: build_index_def Let_def tmp_renamed built_tables_def split: option.splits sum.splits)

lemma build_index_Inl:
  assumes "build_index H E F fs chunk_file out_file force = (Inl e, fs')"
  shows "fs' = fs \<or> fs' = fs(tmp_path out_file := None)"
  using assms
  by (auto simp add: build_index_def Let_def remove_file_def split: if_splits option.splits sum.splits)

lemma built_from_chunk:
  assumes "reader_open bytes = Inr cr" and "index_chunk H cr = Inr sk"
  obtains c where "holds_chunk H bytes c" "chunk_indexable H c"
    "sk = put_ledgers (index_sink_new (ck_start_ledger c)) (ck_tx_maps c)"
    "cr_start_ledger cr = ck_start_ledger c" "cr_end_ledger cr = ck_end_ledger c" "cr_network_id cr = ck_network_id c"
    "reader_chunk_hash cr = ck_chunk_hash c"
proof -
  obtain ns m0 ls rest where c: "collect_body H cr = Inr (ns, m0, ls, rest)"
    "chunk_indexable H (assembled cr ns m0 ls)" "sk = put_ledgers (index_sink_new (cr_start_ledger cr)) (m0 # map snd ls)"
    using assms(2) unfolding index_chunk_Inr [OF assms(1)] by blast
  have "holds_chunk H bytes (assembled cr ns m0 ls)"
    using stream_reader_sound [OF assms(1) c(1)] by (auto simp add: holds_chunk_def)
  with c that show ?thesis by (auto simp add: assembled_def)
qed

text \<open>A file that ends with the footer of its chunk holds one chunk only.\<close>

lemma index_of_file:
  assumes "reader_open bytes = Inr cr" and "index_chunk H cr = Inr sk" and "parse_chunk H bytes = Inr (c, [])"
  shows "chunk_indexable H c" "sk = put_ledgers (index_sink_new (ck_start_ledger c)) (ck_tx_maps c)"
proof -
  have "bytes ! 4 = format_version_streamed"
    using reader_open_InrD [OF assms(1)] streamed_header(2) by blast
  with assms(3) have "parse_chunk H bytes = Inr (c, []) \<and> bytes ! 4 = format_version_streamed" ..
  then obtain ns m0 ls where c: "collect_body H cr = Inr (ns, m0, ls, [])" "c = assembled cr ns m0 ls"
    unfolding stream_reader_iff [symmetric] assms(1) by auto
  from index_chunk_Inr [OF assms(1)] assms(2) c show "chunk_indexable H c"
    "sk = put_ledgers (index_sink_new (ck_start_ledger c)) (ck_tx_maps c)"
    by (auto simp add: assembled_def)
qed

section \<open>The rows of a built index\<close>

lemma summary_of:
  assumes "chunk_indexable H c" and "m \<in> set (ck_tx_maps c)" and "t \<in> set (tm_txns m)"
  shows "\<exists>s. summarize_meta (meta_blob t) = Inr s \<and> ms_transaction_index s = Some (tx_index t) \<and>
    ms_affected_accounts s = tx_accounts t \<and> calculate_tx_id H (tx_blob t) = tx_hash t"
proof -
  obtain i where "i < length (ck_tx_maps c)" "ck_tx_maps c ! i = m" using assms(2) unfolding in_set_conv_nth by blast
  then have "list_all (indexable H) (tm_txns m)" using assms(1) by (auto simp add: chunk_indexable_def ledger_indexable_def)
  with assms(3) show ?thesis by (auto simp add: list_all_iff indexable_def tx_index_def tx_accounts_def)
qed

lemma built_rows:
  "it_account_tx (ix_tables (put_ledgers (index_sink_new s) ms)) =
     concat (map (\<lambda>(m, t). account_keys (tm_ledger_seq m) t) (ledger_transactions ms))"
  "it_locator (ix_tables (put_ledgers (index_sink_new s) ms)) =
     map (\<lambda>(m, t). (tx_hash t, tm_ledger_seq m, tx_index t)) (ledger_transactions ms)"
  by (simp_all add: put_ledgers_def index_sink_new_def index_schema_def)

lemma in_ledger_transactions: "(m, t) \<in> set (ledger_transactions ms) \<longleftrightarrow> m \<in> set ms \<and> t \<in> set (tm_txns m)"
  by (auto simp add: ledger_transactions_def)

text \<open>The transactions that affected an account in a range of ledgers, as rows.\<close>

definition affecting :: "chunk \<Rightarrow> account_id \<Rightarrow> u32 \<Rightarrow> u32 \<Rightarrow> account_tx_row set" where
  "affecting c account lo hi =
     {\<lparr>row_ledger_seq = tm_ledger_seq m, row_txn_seq = n, row_tx_hash = tx_hash t\<rparr> | m t s n.
        m \<in> set (ck_tx_maps c) \<and> t \<in> set (tm_txns m) \<and> lo \<le> tm_ledger_seq m \<and> tm_ledger_seq m \<le> hi \<and>
        summarize_meta (meta_blob t) = Inr s \<and> ms_transaction_index s = Some n \<and>
        account \<in> set (ms_affected_accounts s)}"

lemma built_history:
  assumes "chunk_indexable H c"
    and "it_account_tx t = it_account_tx (ix_tables (put_ledgers (index_sink_new s) (ck_tx_maps c)))"
  shows "map_row ` set (history t account lo hi forward) = affecting c account lo hi"
proof -
  have "r \<in> set (it_account_tx t) \<longleftrightarrow>
      (\<exists>m x. m \<in> set (ck_tx_maps c) \<and> x \<in> set (tm_txns m) \<and> r \<in> set (account_keys (tm_ledger_seq m) x))" for r
    by (simp add: assms(2) built_rows Bex_def in_ledger_transactions)
  then have "map_row ` set (history t account lo hi forward) =
    {\<lparr>row_ledger_seq = tm_ledger_seq m, row_txn_seq = tx_index x, row_tx_hash = tx_hash x\<rparr> | m x.
       m \<in> set (ck_tx_maps c) \<and> x \<in> set (tm_txns m) \<and> lo \<le> tm_ledger_seq m \<and> tm_ledger_seq m \<le> hi \<and>
       account \<in> set (tx_accounts x)}"
    unfolding set_history by (force simp add: account_keys_def map_row_def image_def)
  also have "\<dots> = affecting c account lo hi"
    unfolding affecting_def using summary_of [OF assms(1)] by fastforce
  finally show ?thesis .
qed

lemma built_locator:
  assumes "unique_keys (ix_tables (put_ledgers (index_sink_new s) ms))"
    and "it_locator t = it_locator (ix_tables (put_ledgers (index_sink_new s) ms))"
  shows "locate_tx t h = Some k \<longleftrightarrow>
    (\<exists>m x. m \<in> set ms \<and> x \<in> set (tm_txns m) \<and> h = tx_hash x \<and> k = (tm_ledger_seq m, tx_index x))"
proof -
  have "distinct (map fst (it_locator t))" using assms by (simp add: unique_keys_def)
  then have "locate_tx t h = Some k \<longleftrightarrow> (h, k) \<in> set (it_locator t)" by (simp add: locate_tx_def)
  also have "\<dots> \<longleftrightarrow> (\<exists>m x. m \<in> set ms \<and> x \<in> set (tm_txns m) \<and> h = tx_hash x \<and> k = (tm_ledger_seq m, tx_index x))"
    by (auto simp add: assms(2) built_rows image_iff Bex_def in_ledger_transactions)
  finally show ?thesis .
qed

definition key_of_row :: "account_tx_row \<Rightarrow> marker" where
  "key_of_row r = Marker (row_ledger_seq r) (row_txn_seq r)"

lemma all_rows_ordered:
  assumes "distinct (map fst (it_account_tx t))"
  shows "sorted_wrt (\<lambda>r s. after forward (key_of_row r) (key_of_row s)) (account_tx t account lo hi (-1) forward None)"
  using history_ordered [OF assms, of forward account lo hi]
  by (simp add: account_tx_history behind_def sql_limit_def sorted_wrt_map key_of_row_def map_row_key)

section \<open>The invariant of the tables\<close>

definition index_wf :: "index_sink \<Rightarrow> bool" where
  "index_wf sk \<longleftrightarrow>
     unique_keys (ix_tables sk) \<and>
     (\<forall>((a, l, n), h) \<in> set (it_account_tx (ix_tables sk)). (h, l, n) \<in> set (it_locator (ix_tables sk))) \<and>
     ix_txs sk = of_nat (length (it_locator (ix_tables sk))) \<and>
     ix_rows sk = of_nat (length (it_account_tx (ix_tables sk)))"

lemma account_keys_located:
  "((a, l, n), h) \<in> set (account_keys seq t) \<Longrightarrow> (h, l, n) = (tx_hash t, seq, tx_index t)"
  by (auto simp add: account_keys_def)

lemma put_ledgers_wf:
  assumes "index_wf sk" and "unique_keys (ix_tables (put_ledgers sk ms))"
  shows "index_wf (put_ledgers sk ms)"
proof -
  have "(h, l, n) \<in> set (it_locator (ix_tables (put_ledgers sk ms)))"
    if "((a, l, n), h) \<in> set (it_account_tx (ix_tables (put_ledgers sk ms)))" for a l n h
  proof -
    from that consider "((a, l, n), h) \<in> set (it_account_tx (ix_tables sk))"
      | m x where "(m, x) \<in> set (ledger_transactions ms)" "((a, l, n), h) \<in> set (account_keys (tm_ledger_seq m) x)"
      by (auto simp add: put_ledgers_def)
    then show ?thesis
    proof cases
      case 1
      with assms(1) show ?thesis by (auto simp add: index_wf_def put_ledgers_def)
    next
      case (2 m x)
      from account_keys_located [OF 2(2)] 2(1) show ?thesis
        by (force simp add: put_ledgers_def)
    qed
  qed
  then have located: "\<forall>((a, l, n), h) \<in> set (it_account_tx (ix_tables (put_ledgers sk ms))).
      (h, l, n) \<in> set (it_locator (ix_tables (put_ledgers sk ms)))" by blast
  have "ix_txs (put_ledgers sk ms) = of_nat (length (it_locator (ix_tables (put_ledgers sk ms))))"
    "ix_rows (put_ledgers sk ms) = of_nat (length (it_account_tx (ix_tables (put_ledgers sk ms))))"
    using assms(1) by (simp_all add: index_wf_def put_ledgers_def)
  with located assms(2) show ?thesis unfolding index_wf_def by blast
qed

end
