(* ===== verification/Difftest.thy ===== *)
theory Difftest
  imports Index_Correct "HOL-Library.AList" "HOL-Library.List_Lexorder" "HOL-Library.Char_ord"
begin

text \<open>
  The differential tester of crates/xrla-difftest/src/main.rs: it compares the accounts and
  positions that the decoder, and optionally an index, give for the transactions of a range of
  ledgers with the rows of xrpld's transaction database. The database is the two tables it
  reads, each column with the NULL it may hold; how SQLite keeps them in a file is the parameter
  \<open>J\<close>, and \<open>G\<close> is that of an index. A BTreeSet is a set, a BTreeMap or HashMap an association
  list with unique keys. The counters count rows of a table, of which SQLite holds fewer than
  \<open>2 ^ 63\<close>, so they are numbers. Texts are ASCII. Arithmetic is that of a release build.
\<close>

section \<open>The database of xrpld\<close>

record diff_tx =
  dt_trans_id :: string
  dt_ledger_seq :: int
  dt_trans_type :: "string option"
  dt_txn_meta :: "byte list option"

record diff_account =
  da_trans_id :: string
  da_account :: "string option"
  da_txn_seq :: "int option"

record diff_db =
  db_transactions :: "diff_tx list"
  db_account_transactions :: "diff_account list"

datatype difftest_error =
    RangeReversed
  | DatabaseNotOpened
  | BadColumn
  | DiffIndexError index_error
  | OddHex string
  | BadHex string

text \<open>\<open>WHERE LedgerSeq BETWEEN ?1 AND ?2 ORDER BY LedgerSeq, TransID\<close>\<close>

definition rows_between :: "diff_db \<Rightarrow> u32 \<Rightarrow> u32 \<Rightarrow> diff_tx list" where
  "rows_between db lo hi =
     sort_key (\<lambda>r. (dt_ledger_seq r, dt_trans_id r))
       (filter (\<lambda>r. uint lo \<le> dt_ledger_seq r \<and> dt_ledger_seq r \<le> uint hi) (db_transactions db))"

definition ledgers_with_rows :: "diff_db \<Rightarrow> u32 \<Rightarrow> u32 \<Rightarrow> int" where
  "ledgers_with_rows db lo hi = int (length (remdups (map dt_ledger_seq (rows_between db lo hi))))"

definition account_rows_of :: "diff_db \<Rightarrow> string \<Rightarrow> diff_account list" where
  "account_rows_of db trans_id = filter (\<lambda>r. da_trans_id r = trans_id) (db_account_transactions db)"

section \<open>Text as hexadecimal\<close>

definition hex_upper_digit :: "nat \<Rightarrow> char" where
  "hex_upper_digit n = (if n < 10 then char_of (48 + n) else char_of (55 + n))"

definition hex_upper :: "byte list \<Rightarrow> string" where
  "hex_upper b = concat (map (\<lambda>x. [hex_upper_digit (unat x div 16), hex_upper_digit (unat x mod 16)]) b)"

definition to_digit16 :: "char \<Rightarrow> nat option" where
  "to_digit16 c =
     (let n = of_char c :: nat in
      if 48 \<le> n \<and> n \<le> 57 then Some (n - 48)
      else if 65 \<le> n \<and> n \<le> 70 then Some (n - 55)
      else if 97 \<le> n \<and> n \<le> 102 then Some (n - 87) else None)"

text \<open>\<open>u8::from_str_radix(_, 16)\<close> of two characters; the first may be a plus sign.\<close>

definition byte_from_hex :: "char \<Rightarrow> char \<Rightarrow> byte option" where
  "byte_from_hex c d =
     Option.bind (if c = CHR ''+'' then Some 0 else to_digit16 c) (\<lambda>h.
     Option.bind (to_digit16 d) (\<lambda>l. Some (of_nat (16 * h + l))))"

fun hex_pairs :: "string \<Rightarrow> byte list option" where
  "hex_pairs (c # d # s) = Option.bind (byte_from_hex c d) (\<lambda>b. Option.bind (hex_pairs s) (\<lambda>bs. Some (b # bs)))"
| "hex_pairs _ = Some []"

definition difftest_hex_decode :: "string \<Rightarrow> difftest_error + byte list" where
  "difftest_hex_decode s =
     (if length s mod 2 \<noteq> 0 then Inl (OddHex s) else or_error (BadHex s) (hex_pairs s))"

section \<open>The decoder against the rows of xrpld\<close>

definition required_types :: "string list" where
  "required_types =
     [''Payment'', ''TrustSet'', ''OfferCreate'', ''OfferCancel'', ''AMMDeposit'', ''NFTokenAcceptOffer'',
      ''SetRegularKey'', ''AccountDelete'']"

definition pseudo_types :: "string list" where
  "pseudo_types = [''EnableAmendment'', ''SetFee'', ''UNLModify'']"

record type_stats =
  ts_txs :: nat
  ts_with_missing :: nat
  ts_with_extra :: nat

datatype diff_example =
    NobodyExample u32 string string
  | MissingExample u32 string string "string set" "string set"
  | ExtraExample u32 string string "string set"
  | TxnSeqExample u32 string string int "int option"
  | DecodeExample u32 string string meta_error
  | NotInIndexExample u32 string
  | IndexMissingExample u32 string "string set"
  | IndexExtraExample u32 string "string set"
  | IndexSeqExample u32 string int u32
  | LedgerExample string u32 u32
  | LocatorExample u32 string "(u32 \<times> u32) option" "int option"
  | IndexOnlyExample u32 string

record rule_stats =
  rs_total :: nat
  rs_exact :: nat
  rs_decode_errors :: nat
  rs_missing_txs :: nat
  rs_extra_txs :: nat
  rs_missing_rows :: nat
  rs_extra_rows :: nat
  rs_txnseq_mismatch :: nat
  rs_no_xrpld_rows :: nat
  rs_unexplained_empty :: nat
  rs_per_type :: "(string \<times> type_stats) list"
  rs_ex_unexplained :: "diff_example list"
  rs_ex_missing :: "diff_example list"
  rs_ex_extra :: "diff_example list"
  rs_ex_errors :: "diff_example list"
  rs_ex_txnseq :: "diff_example list"

definition no_rule_stats :: rule_stats where
  "no_rule_stats =
     \<lparr>rs_total = 0, rs_exact = 0, rs_decode_errors = 0, rs_missing_txs = 0, rs_extra_txs = 0, rs_missing_rows = 0,
      rs_extra_rows = 0, rs_txnseq_mismatch = 0, rs_no_xrpld_rows = 0, rs_unexplained_empty = 0, rs_per_type = [],
      rs_ex_unexplained = [], rs_ex_missing = [], rs_ex_extra = [], rs_ex_errors = [], rs_ex_txnseq = []\<rparr>"

definition note_example :: "nat \<Rightarrow> diff_example \<Rightarrow> diff_example list \<Rightarrow> diff_example list" where
  "note_example examples e xs = (if length xs < examples then xs @ [e] else xs)"

text \<open>\<open>per_type.entry(t).or_default()\<close>, then a change of the entry.\<close>

definition update_type :: "string \<Rightarrow> (type_stats \<Rightarrow> type_stats) \<Rightarrow> (string \<times> type_stats) list \<Rightarrow> (string \<times> type_stats) list" where
  "update_type t f m =
     AList.update t
       (f (case map_of m t of None \<Rightarrow> \<lparr>ts_txs = 0, ts_with_missing = 0, ts_with_extra = 0\<rparr> | Some s \<Rightarrow> s)) m"

text \<open>xrpld's accounts of a transaction, its first TxnSeq and whether the others agree.\<close>

definition read_xrpld_row ::
  "string set \<times> int option \<times> bool \<Rightarrow> diff_account \<Rightarrow> difftest_error + string set \<times> int option \<times> bool" where
  "read_xrpld_row st r =
     (let (truth, truth_txnseq, consistent) = st in
      rbind (or_error BadColumn (da_account r)) (\<lambda>account.
      rbind (or_error BadColumn (da_txn_seq r)) (\<lambda>seq.
      Inr (insert account truth,
           (case truth_txnseq of None \<Rightarrow> Some seq | Some prev \<Rightarrow> Some prev),
           (case truth_txnseq of None \<Rightarrow> consistent | Some prev \<Rightarrow> if prev \<noteq> seq then False else consistent)))))"

definition xrpld_answer :: "diff_db \<Rightarrow> string \<Rightarrow> difftest_error + string set \<times> int option \<times> bool" where
  "xrpld_answer db trans_id = rfold read_xrpld_row ({}, None, True) (account_rows_of db trans_id)"

text \<open>
  The comparison of one decoded transaction: four checks, each of which counts and notes a
  difference and clears the flag \<open>ok\<close>.
\<close>

definition check_nobody ::
  "nat \<Rightarrow> u32 \<Rightarrow> string \<Rightarrow> string \<Rightarrow> string set \<Rightarrow> string set \<Rightarrow> rule_stats \<times> bool \<Rightarrow> rule_stats \<times> bool" where
  "check_nobody examples ledger trans_type trans_id truth ours st =
     (let (rs, ok) = st in
      if truth = {} \<and> ours = {} \<and> trans_type \<notin> set pseudo_types
      then (rs\<lparr>rs_unexplained_empty := rs_unexplained_empty rs + 1,
               rs_ex_unexplained := note_example examples (NobodyExample ledger trans_type trans_id) (rs_ex_unexplained rs)\<rparr>, False)
      else (rs, ok))"

definition check_missing ::
  "nat \<Rightarrow> u32 \<Rightarrow> string \<Rightarrow> string \<Rightarrow> string set \<Rightarrow> string set \<Rightarrow> rule_stats \<times> bool \<Rightarrow> rule_stats \<times> bool" where
  "check_missing examples ledger trans_type trans_id missing ours st =
     (let (rs, ok) = st in
      if missing \<noteq> {}
      then (rs\<lparr>rs_missing_txs := rs_missing_txs rs + 1, rs_missing_rows := rs_missing_rows rs + card missing,
               rs_per_type := update_type trans_type (\<lambda>s. s\<lparr>ts_with_missing := ts_with_missing s + 1\<rparr>) (rs_per_type rs),
               rs_ex_missing := note_example examples (MissingExample ledger trans_type trans_id missing ours) (rs_ex_missing rs)\<rparr>, False)
      else (rs, ok))"

definition check_extra ::
  "nat \<Rightarrow> u32 \<Rightarrow> string \<Rightarrow> string \<Rightarrow> string set \<Rightarrow> rule_stats \<times> bool \<Rightarrow> rule_stats \<times> bool" where
  "check_extra examples ledger trans_type trans_id extra st =
     (let (rs, ok) = st in
      if extra \<noteq> {}
      then (rs\<lparr>rs_extra_txs := rs_extra_txs rs + 1, rs_extra_rows := rs_extra_rows rs + card extra,
               rs_per_type := update_type trans_type (\<lambda>s. s\<lparr>ts_with_extra := ts_with_extra s + 1\<rparr>) (rs_per_type rs),
               rs_ex_extra := note_example examples (ExtraExample ledger trans_type trans_id extra) (rs_ex_extra rs)\<rparr>, False)
      else (rs, ok))"

definition check_txnseq ::
  "nat \<Rightarrow> u32 \<Rightarrow> string \<Rightarrow> string \<Rightarrow> int option \<Rightarrow> bool \<Rightarrow> u32 option \<Rightarrow> rule_stats \<times> bool \<Rightarrow> rule_stats \<times> bool" where
  "check_txnseq examples ledger trans_type trans_id truth_txnseq consistent transaction_index st =
     (let (rs, ok) = st in
      case truth_txnseq of
        None \<Rightarrow> (rs, ok)
      | Some seq \<Rightarrow>
          let ours_seq = map_option uint transaction_index in
          if \<not> consistent \<or> ours_seq \<noteq> Some seq
          then (rs\<lparr>rs_txnseq_mismatch := rs_txnseq_mismatch rs + 1,
                   rs_ex_txnseq := note_example examples (TxnSeqExample ledger trans_type trans_id seq ours_seq) (rs_ex_txnseq rs)\<rparr>, False)
          else (rs, ok))"

definition compare_summary ::
  "sha256_fn \<Rightarrow> nat \<Rightarrow> u32 \<Rightarrow> string \<Rightarrow> string \<Rightarrow> string set \<times> int option \<times> bool \<Rightarrow> meta_summary
     \<Rightarrow> rule_stats \<Rightarrow> rule_stats" where
  "compare_summary S examples ledger trans_type trans_id answer summary rs =
     (let (truth, truth_txnseq, consistent) = answer;
          ours = account_id_to_classic_address S ` set (ms_affected_accounts summary);
          missing = truth - ours;
          extra = ours - truth;
          st = (rs, True);
          st = check_nobody examples ledger trans_type trans_id truth ours st;
          st = check_missing examples ledger trans_type trans_id missing ours st;
          st = check_extra examples ledger trans_type trans_id extra st;
          (rs, ok) = check_txnseq examples ledger trans_type trans_id truth_txnseq consistent (ms_transaction_index summary) st
      in if ok then rs\<lparr>rs_exact := rs_exact rs + 1\<rparr> else rs)"

definition compare_row :: "sha256_fn \<Rightarrow> nat \<Rightarrow> diff_db \<Rightarrow> rule_stats \<Rightarrow> diff_tx \<Rightarrow> difftest_error + rule_stats" where
  "compare_row S examples db rs row =
     rbind (or_error BadColumn (column (dt_ledger_seq row))) (\<lambda>ledger.
     let trans_id = dt_trans_id row;
         trans_type = (case dt_trans_type row of None \<Rightarrow> '''' | Some t \<Rightarrow> t);
         meta = (case dt_txn_meta row of None \<Rightarrow> [] | Some m \<Rightarrow> m);
         rs = rs\<lparr>rs_total := rs_total rs + 1,
                 rs_per_type := update_type trans_type (\<lambda>s. s\<lparr>ts_txs := ts_txs s + 1\<rparr>) (rs_per_type rs)\<rparr>
     in rbind (xrpld_answer db trans_id) (\<lambda>answer.
     let rs = (if fst answer = {} then rs\<lparr>rs_no_xrpld_rows := rs_no_xrpld_rows rs + 1\<rparr> else rs) in
     Inr (case summarize_meta meta of
            Inl e \<Rightarrow> rs\<lparr>rs_decode_errors := rs_decode_errors rs + 1,
                         rs_ex_errors := note_example examples (DecodeExample ledger trans_type trans_id e) (rs_ex_errors rs)\<rparr>
          | Inr summary \<Rightarrow> compare_summary S examples ledger trans_type trans_id answer summary rs)))"

definition compare_rule ::
  "sha256_fn \<Rightarrow> nat \<Rightarrow> diff_db \<Rightarrow> u32 \<Rightarrow> u32 \<Rightarrow> difftest_error + rule_stats" where
  "compare_rule S examples db lo hi = rfold (compare_row S examples db) no_rule_stats (rows_between db lo hi)"

definition absent_types :: "rule_stats \<Rightarrow> string list" where
  "absent_types rs = filter (\<lambda>t. map_of (rs_per_type rs) t = None) required_types"

definition rule_ok :: "rule_stats \<Rightarrow> bool" where
  "rule_ok rs \<longleftrightarrow>
     rs_decode_errors rs = 0 \<and> rs_missing_txs rs = 0 \<and> rs_extra_txs rs = 0 \<and> rs_txnseq_mismatch rs = 0 \<and>
     rs_unexplained_empty rs = 0"

section \<open>An index against the rows of xrpld\<close>

record index_entry =
  ie_ledger :: u32
  ie_txn_seq :: u32
  ie_accounts :: "string set"

definition collect_entry ::
  "sha256_fn \<Rightarrow> (string \<times> index_entry) list \<Rightarrow> (account_id \<times> u32 \<times> u32) \<times> hash256 \<Rightarrow> (string \<times> index_entry) list" where
  "collect_entry S by_tx row =
     (let ((account, ledger, txn_seq), h) = row;
          i = hex_upper (to_be_bytes h);
          e = (case map_of by_tx i of None \<Rightarrow> \<lparr>ie_ledger = 0, ie_txn_seq = 0, ie_accounts = {}\<rparr> | Some e \<Rightarrow> e)
      in AList.update i \<lparr>ie_ledger = ledger, ie_txn_seq = txn_seq,
                         ie_accounts = insert (account_id_to_classic_address S account) (ie_accounts e)\<rparr> by_tx)"

definition index_entries :: "sha256_fn \<Rightarrow> index_tables \<Rightarrow> u32 \<Rightarrow> u32 \<Rightarrow> (string \<times> index_entry) list" where
  "index_entries S t lo hi =
     foldl (collect_entry S) [] (filter (\<lambda>((a, l, n), h). lo \<le> l \<and> l \<le> hi) (it_account_tx t))"

record index_stats =
  is_total :: nat
  is_exact :: nat
  is_missing_tx :: nat
  is_missing_rows :: nat
  is_extra_tx :: nat
  is_extra_rows :: nat
  is_seq_bad :: nat
  is_ledger_bad :: nat
  is_locator_bad :: nat
  is_not_in_index :: nat
  is_index_only :: nat
  is_examples :: "diff_example list"

definition no_index_stats :: index_stats where
  "no_index_stats =
     \<lparr>is_total = 0, is_exact = 0, is_missing_tx = 0, is_missing_rows = 0, is_extra_tx = 0, is_extra_rows = 0,
      is_seq_bad = 0, is_ledger_bad = 0, is_locator_bad = 0, is_not_in_index = 0, is_index_only = 0, is_examples = []\<rparr>"

definition note_index :: "nat \<Rightarrow> diff_example \<Rightarrow> index_stats \<Rightarrow> index_stats" where
  "note_index examples e st = st\<lparr>is_examples := note_example examples e (is_examples st)\<rparr>"

text \<open>xrpld's accounts of a transaction and its last TxnSeq.\<close>

definition read_xrpld_last ::
  "string set \<times> int option \<Rightarrow> diff_account \<Rightarrow> difftest_error + string set \<times> int option" where
  "read_xrpld_last st r =
     (let (truth, truth_seq) = st in
      rbind (or_error BadColumn (da_account r)) (\<lambda>account.
      rbind (or_error BadColumn (da_txn_seq r)) (\<lambda>seq.
      Inr (insert account truth, Some seq))))"

definition xrpld_last :: "diff_db \<Rightarrow> string \<Rightarrow> difftest_error + string set \<times> int option" where
  "xrpld_last db trans_id = rfold read_xrpld_last ({}, None) (account_rows_of db trans_id)"

text \<open>One transaction against its entry: the checks, each with the flag \<open>ok\<close>.\<close>

definition entry_missing ::
  "nat \<Rightarrow> u32 \<Rightarrow> string \<Rightarrow> string set \<Rightarrow> index_stats \<times> bool \<Rightarrow> index_stats \<times> bool" where
  "entry_missing examples ledger trans_id missing state =
     (let (st, ok) = state in
      if missing \<noteq> {}
      then (note_index examples (IndexMissingExample ledger trans_id missing)
              (st\<lparr>is_missing_tx := is_missing_tx st + 1, is_missing_rows := is_missing_rows st + card missing\<rparr>), False)
      else (st, ok))"

definition entry_extra ::
  "nat \<Rightarrow> u32 \<Rightarrow> string \<Rightarrow> string set \<Rightarrow> index_stats \<times> bool \<Rightarrow> index_stats \<times> bool" where
  "entry_extra examples ledger trans_id extra state =
     (let (st, ok) = state in
      if extra \<noteq> {}
      then (note_index examples (IndexExtraExample ledger trans_id extra)
              (st\<lparr>is_extra_tx := is_extra_tx st + 1, is_extra_rows := is_extra_rows st + card extra\<rparr>), False)
      else (st, ok))"

definition entry_seq ::
  "nat \<Rightarrow> u32 \<Rightarrow> string \<Rightarrow> int option \<Rightarrow> u32 \<Rightarrow> index_stats \<times> bool \<Rightarrow> index_stats \<times> bool" where
  "entry_seq examples ledger trans_id truth_seq txn_seq state =
     (let (st, ok) = state in
      case truth_seq of
        None \<Rightarrow> (st, ok)
      | Some s \<Rightarrow>
          if s \<noteq> uint txn_seq
          then (note_index examples (IndexSeqExample ledger trans_id s txn_seq) (st\<lparr>is_seq_bad := is_seq_bad st + 1\<rparr>), False)
          else (st, ok))"

definition entry_ledger ::
  "nat \<Rightarrow> u32 \<Rightarrow> string \<Rightarrow> u32 \<Rightarrow> index_stats \<times> bool \<Rightarrow> index_stats \<times> bool" where
  "entry_ledger examples ledger trans_id found state =
     (let (st, ok) = state in
      if found \<noteq> ledger
      then (note_index examples (LedgerExample trans_id ledger found) (st\<lparr>is_ledger_bad := is_ledger_bad st + 1\<rparr>), False)
      else (st, ok))"

definition compare_entry ::
  "nat \<Rightarrow> u32 \<Rightarrow> string \<Rightarrow> string set \<times> int option \<Rightarrow> index_entry option \<Rightarrow> index_stats \<Rightarrow> index_stats \<times> bool" where
  "compare_entry examples ledger trans_id answer entry st =
     (let (truth, truth_seq) = answer in
      case entry of
        None \<Rightarrow>
          if truth \<noteq> {}
          then (note_index examples (NotInIndexExample ledger trans_id) (st\<lparr>is_not_in_index := is_not_in_index st + 1\<rparr>), False)
          else (st, True)
      | Some e \<Rightarrow>
          let state = (st, True);
              state = entry_missing examples ledger trans_id (truth - ie_accounts e) state;
              state = entry_extra examples ledger trans_id (ie_accounts e - truth) state;
              state = entry_seq examples ledger trans_id truth_seq (ie_txn_seq e) state
          in entry_ledger examples ledger trans_id (ie_ledger e) state)"

text \<open>The lookup in the locator; a hash that is not 32 bytes long is no key of the table.\<close>

definition diff_locate :: "index_tables \<Rightarrow> byte list \<Rightarrow> (u32 \<times> u32) option" where
  "diff_locate t hash = (if length hash = 32 then locate_tx t (from_be_bytes hash) else None)"

definition locator_agrees :: "u32 \<Rightarrow> int option \<Rightarrow> (u32 \<times> u32) option \<Rightarrow> bool" where
  "locator_agrees ledger truth_seq located =
     (case (located, truth_seq) of
        (Some (l, s), Some ts) \<Rightarrow> l = ledger \<and> uint s = ts
      | (Some (l, s), None) \<Rightarrow> l = ledger
      | _ \<Rightarrow> False)"

definition check_locator ::
  "nat \<Rightarrow> u32 \<Rightarrow> string \<Rightarrow> int option \<Rightarrow> (u32 \<times> u32) option \<Rightarrow> index_stats \<times> bool \<Rightarrow> index_stats \<times> bool" where
  "check_locator examples ledger trans_id truth_seq located state =
     (let (st, ok) = state in
      if locator_agrees ledger truth_seq located then (st, ok)
      else (note_index examples (LocatorExample ledger trans_id located truth_seq)
              (st\<lparr>is_locator_bad := is_locator_bad st + 1\<rparr>), False))"

definition compare_index_row ::
  "nat \<Rightarrow> diff_db \<Rightarrow> index_tables \<Rightarrow> (string \<times> index_entry) list \<times> index_stats \<Rightarrow> diff_tx
     \<Rightarrow> difftest_error + (string \<times> index_entry) list \<times> index_stats" where
  "compare_index_row examples db t state row =
     (let (by_tx, st) = state; trans_id = dt_trans_id row in
      rbind (or_error BadColumn (column (dt_ledger_seq row))) (\<lambda>ledger.
      let st = st\<lparr>is_total := is_total st + 1\<rparr> in
      rbind (xrpld_last db trans_id) (\<lambda>answer.
      let checked = compare_entry examples ledger trans_id answer (map_of by_tx trans_id) st;
          by_tx = AList.delete trans_id by_tx in
      rbind (difftest_hex_decode trans_id) (\<lambda>hash.
      let (st, ok) = check_locator examples ledger trans_id (snd answer) (diff_locate t hash) checked
      in Inr (by_tx, if ok then st\<lparr>is_exact := is_exact st + 1\<rparr> else st)))))"

text \<open>What is left in the map at the end is counted, and listed without regard to the earlier examples.\<close>

definition count_index_only :: "nat \<Rightarrow> (string \<times> index_entry) list \<times> index_stats \<Rightarrow> index_stats" where
  "count_index_only examples state =
     (let (by_tx, st) = state in
      st\<lparr>is_index_only := length by_tx,
         is_examples := is_examples st @ map (\<lambda>(h, e). IndexOnlyExample (ie_ledger e) h) (take examples by_tx)\<rparr>)"

definition index_stats_ok :: "index_stats \<Rightarrow> bool" where
  "index_stats_ok st \<longleftrightarrow>
     is_missing_tx st = 0 \<and> is_extra_tx st = 0 \<and> is_not_in_index st = 0 \<and> is_seq_bad st = 0 \<and>
     is_ledger_bad st = 0 \<and> is_locator_bad st = 0 \<and> is_index_only st = 0"

definition compare_tables ::
  "sha256_fn \<Rightarrow> nat \<Rightarrow> diff_db \<Rightarrow> index_tables \<Rightarrow> u32 \<Rightarrow> u32 \<Rightarrow> difftest_error + index_stats" where
  "compare_tables S examples db t lo hi =
     rbind (rfold (compare_index_row examples db t) (index_entries S t lo hi, no_index_stats) (rows_between db lo hi))
       (\<lambda>state. Inr (count_index_only examples state))"

definition compare_index ::
  "sha256_fn \<Rightarrow> (byte list \<Rightarrow> index_tables option) \<Rightarrow> file_system \<Rightarrow> nat \<Rightarrow> diff_db \<Rightarrow> string \<Rightarrow> u32 \<Rightarrow> u32
     \<Rightarrow> difftest_error + index_meta \<times> index_stats" where
  "compare_index S G fs examples db path lo hi =
     rbind (rlift DiffIndexError (index_open_file G fs path)) (\<lambda>idx.
     rbind (compare_tables S examples db (idx_tables idx) lo hi) (\<lambda>st.
     Inr (idx_meta idx, st)))"

section \<open>The command\<close>

record difftest_args =
  da_txdb :: string
  da_from :: u32
  da_to :: u32
  da_examples :: nat
  da_max_empty_ledgers :: int
  da_index :: "string option"

record difftest_output =
  do_expected_ledgers :: int
  do_ledgers_with_rows :: int
  do_rule :: rule_stats
  do_absent :: "string list"
  do_index :: "(index_meta \<times> index_stats) option"

text \<open>How a run ends: with an error that stops it, or with what it printed and its verdict.\<close>

datatype verdict =
    Pass
  | PartialRange
  | Mismatch

definition expected_ledgers :: "u32 \<Rightarrow> u32 \<Rightarrow> int" where
  "expected_ledgers lo hi = uint (hi - lo + 1)"

definition difftest_main ::
  "sha256_fn \<Rightarrow> (byte list \<Rightarrow> index_tables option) \<Rightarrow> (byte list \<Rightarrow> diff_db option) \<Rightarrow> file_system \<Rightarrow> difftest_args
     \<Rightarrow> difftest_error + difftest_output \<times> verdict" where
  "difftest_main S G J fs args =
     (let lo = da_from args; hi = da_to args; examples = da_examples args in
      if hi < lo then Inl RangeReversed else
      rbind (or_error DatabaseNotOpened (Option.bind (fs (da_txdb args)) J)) (\<lambda>db.
      let expected = expected_ledgers lo hi;
          with_rows = ledgers_with_rows db lo hi;
          empty = expected - with_rows;
          incomplete_range = da_max_empty_ledgers args < empty in
      rbind (compare_rule S examples db lo hi) (\<lambda>rs.
      let out = \<lparr>do_expected_ledgers = expected, do_ledgers_with_rows = with_rows, do_rule = rs,
                 do_absent = absent_types rs, do_index = None\<rparr> in
      if incomplete_range then Inr (out, PartialRange) else
      case da_index args of
        None \<Rightarrow> Inr (out, if rule_ok rs then Pass else Mismatch)
      | Some path \<Rightarrow>
          rbind (compare_index S G fs examples db path lo hi) (\<lambda>(m, st).
          Inr (out\<lparr>do_index := Some (m, st)\<rparr>, if rule_ok rs \<and> index_stats_ok st then Pass else Mismatch)))))"

end
