(* ===== verification/Difftest_Correct.thy ===== *)
theory Difftest_Correct
  imports Difftest
begin

text \<open>
  What the differential tester's counters say: hexadecimal texts read back, xrpld's answer for a
  transaction, the counters of the comparison with the decoder, and those of the comparison
  with an index, over any list of rows.
\<close>

section \<open>Hexadecimal texts\<close>

lemma digit_read:
  assumes "n < 16"
  shows "to_digit16 (hex_upper_digit n) = Some n" "hex_upper_digit n \<noteq> CHR ''+''"
proof -
  have "(of_char (char_of (48 + n) :: char) :: nat) = 48 + n" "(of_char (char_of (55 + n) :: char) :: nat) = 55 + n"
    using assms by simp_all
  then show "to_digit16 (hex_upper_digit n) = Some n" using assms by (auto simp add: to_digit16_def hex_upper_digit_def Let_def)
  have "(of_char (hex_upper_digit n) :: nat) \<noteq> of_char (CHR ''+'')"
    using assms by (auto simp add: hex_upper_digit_def)
  then show "hex_upper_digit n \<noteq> CHR ''+''" by metis
qed

lemma byte_read: "byte_from_hex (hex_upper_digit (unat x div 16)) (hex_upper_digit (unat x mod 16)) = Some x"
proof -
  have "unat x < 256" using unsigned_less [of x, where 'a = nat] by simp
  then have "unat x div 16 < 16" "unat x mod 16 < 16" by (simp_all add: less_mult_imp_div_less)
  moreover have "(16 :: byte) * of_nat (unat x div 16) + of_nat (unat x mod 16) = of_nat (16 * (unat x div 16) + unat x mod 16)"
    by (simp only: of_nat_add of_nat_mult of_nat_numeral)
  then have "(16 :: byte) * of_nat (unat x div 16) + of_nat (unat x mod 16) = x" unfolding mult_div_mod_eq by simp
  ultimately show ?thesis by (simp add: byte_from_hex_def digit_read)
qed

lemma hex_upper_Cons:
  "hex_upper (x # b) = hex_upper_digit (unat x div 16) # hex_upper_digit (unat x mod 16) # hex_upper b"
  by (simp add: hex_upper_def)

lemma length_hex_upper: "length (hex_upper b) = 2 * length b"
  by (induction b) (simp_all add: hex_upper_Cons, simp add: hex_upper_def)

lemma hex_pairs_upper: "hex_pairs (hex_upper b) = Some b"
  by (induction b) (simp_all add: hex_upper_Cons byte_read, simp add: hex_upper_def)

lemma hex_reads_back [simp]: "difftest_hex_decode (hex_upper b) = Inr b"
  by (simp add: difftest_hex_decode_def length_hex_upper hex_pairs_upper or_error_def)

lemma hex_upper_inject [simp]: "hex_upper b = hex_upper c \<longleftrightarrow> b = c"
  by (metis hex_reads_back sum.inject(2))

definition hash_text :: "hash256 \<Rightarrow> string" where
  "hash_text h = hex_upper (to_be_bytes h)"

lemma hash_bytes: "8 dvd LENGTH(256)"
  by (rule dvdI [of _ _ 32]) simp

lemma hash_text_inject [simp]: "hash_text h = hash_text k \<longleftrightarrow> h = k"
  by (simp add: hash_text_def to_be_bytes_inject [OF hash_bytes])

section \<open>The answer of xrpld\<close>

definition complete_rows :: "diff_db \<Rightarrow> string \<Rightarrow> bool" where
  "complete_rows db i \<longleftrightarrow> list_all (\<lambda>r. da_account r \<noteq> None \<and> da_txn_seq r \<noteq> None) (account_rows_of db i)"

definition accounts_of :: "diff_db \<Rightarrow> string \<Rightarrow> string set" where
  "accounts_of db i = (\<lambda>r. the (da_account r)) ` set (account_rows_of db i)"

definition seqs_of :: "diff_db \<Rightarrow> string \<Rightarrow> int list" where
  "seqs_of db i = map (\<lambda>r. the (da_txn_seq r)) (account_rows_of db i)"

lemma read_xrpld_row_cases:
  "da_account r \<noteq> None \<and> da_txn_seq r \<noteq> None \<Longrightarrow> read_xrpld_row (T, s, c) r =
     Inr (insert (the (da_account r)) T, Some (case s of None \<Rightarrow> the (da_txn_seq r) | Some p \<Rightarrow> p),
          c \<and> (case s of None \<Rightarrow> True | Some p \<Rightarrow> the (da_txn_seq r) = p))"
  "\<not> (da_account r \<noteq> None \<and> da_txn_seq r \<noteq> None) \<Longrightarrow> \<exists>e. read_xrpld_row (T, s, c) r = Inl e"
  by (auto simp add: read_xrpld_row_def or_error_def split: option.splits)

lemma read_xrpld_rows:
  assumes "list_all (\<lambda>r. da_account r \<noteq> None \<and> da_txn_seq r \<noteq> None) rows"
  shows "rfold read_xrpld_row (T, s, c) rows =
    (let ns = map (\<lambda>r. the (da_txn_seq r)) rows;
         s' = (case s of Some p \<Rightarrow> Some p | None \<Rightarrow> (case ns of [] \<Rightarrow> None | n # _ \<Rightarrow> Some n))
     in Inr (T \<union> (\<lambda>r. the (da_account r)) ` set rows, s', c \<and> (\<forall>n \<in> set ns. Some n = s')))"
  using assms
proof (induction rows arbitrary: T s c)
  case Nil
  then show ?case by (simp split: option.split)
next
  case (Cons r rows)
  then show ?case by (auto simp add: read_xrpld_row_cases Let_def split: option.split)
qed

lemma read_xrpld_rows_Inr:
  "rfold read_xrpld_row st rows = Inr st' \<Longrightarrow> list_all (\<lambda>r. da_account r \<noteq> None \<and> da_txn_seq r \<noteq> None) rows"
proof (induction rows arbitrary: st)
  case (Cons r rows)
  obtain T s c where st: "st = (T, s, c)" by (cases st)
  from Cons.prems obtain u where u: "read_xrpld_row st r = Inr u" "rfold read_xrpld_row u rows = Inr st'"
    by (auto simp add: rbind_eq_Inr)
  have "da_account r \<noteq> None \<and> da_txn_seq r \<noteq> None" using read_xrpld_row_cases(2) [of r T s c] u(1) st by force
  with Cons.IH [OF u(2)] show ?case by simp
qed simp

lemma xrpld_answer_complete:
  assumes "complete_rows db i"
  shows "\<exists>s c. xrpld_answer db i = Inr (accounts_of db i, s, c) \<and> (s = None \<longleftrightarrow> accounts_of db i = {}) \<and>
    (\<forall>x. (\<forall>n. s = Some n \<longrightarrow> c \<and> x = Some n) \<longleftrightarrow> (\<forall>n \<in> set (seqs_of db i). x = Some n))"
  using read_xrpld_rows [OF assms [unfolded complete_rows_def], of "{}" None True]
  by (cases "account_rows_of db i") (auto simp add: xrpld_answer_def accounts_of_def seqs_of_def Let_def)

lemma xrpld_answer_Inr: "(\<exists>answer. xrpld_answer db i = Inr answer) \<longleftrightarrow> complete_rows db i"
proof
  assume "\<exists>answer. xrpld_answer db i = Inr answer"
  then obtain answer where "xrpld_answer db i = Inr answer" ..
  from read_xrpld_rows_Inr [OF this [unfolded xrpld_answer_def]] show "complete_rows db i" by (simp add: complete_rows_def)
next
  assume "complete_rows db i"
  from xrpld_answer_complete [OF this] show "\<exists>answer. xrpld_answer db i = Inr answer" by (elim exE conjE) (rule exI)
qed

lemma read_xrpld_rows_last:
  assumes "list_all (\<lambda>r. da_account r \<noteq> None \<and> da_txn_seq r \<noteq> None) rows"
  shows "rfold read_xrpld_last (T, s) rows =
    Inr (T \<union> (\<lambda>r. the (da_account r)) ` set rows, if rows = [] then s else Some (the (da_txn_seq (last rows))))"
  using assms
proof (induction rows arbitrary: T s)
  case (Cons r rows)
  from Cons.prems obtain a n where "da_account r = Some a" "da_txn_seq r = Some n" by auto
  with Cons show ?case by (auto simp add: read_xrpld_last_def or_error_def)
qed simp

lemma xrpld_last_complete:
  assumes "complete_rows db i"
  shows "xrpld_last db i =
    Inr (accounts_of db i, if seqs_of db i = [] then None else Some (last (seqs_of db i)))"
  using read_xrpld_rows_last [OF assms [unfolded complete_rows_def], of "{}" None]
  by (simp add: xrpld_last_def accounts_of_def seqs_of_def last_map)

lemma read_xrpld_rows_last_Inr:
  "rfold read_xrpld_last st rows = Inr st' \<Longrightarrow> list_all (\<lambda>r. da_account r \<noteq> None \<and> da_txn_seq r \<noteq> None) rows"
proof (induction rows arbitrary: st)
  case (Cons r rows)
  from Cons.prems obtain u where u: "read_xrpld_last st r = Inr u" "rfold read_xrpld_last u rows = Inr st'"
    by (auto simp add: rbind_eq_Inr)
  from u(1) have "da_account r \<noteq> None \<and> da_txn_seq r \<noteq> None"
    by (auto simp add: read_xrpld_last_def or_error_def split: option.splits prod.splits)
  with Cons.IH [OF u(2)] show ?case by simp
qed simp

lemma xrpld_last_Inr: "xrpld_last db i = Inr answer \<Longrightarrow> complete_rows db i"
  unfolding xrpld_last_def complete_rows_def by (rule read_xrpld_rows_last_Inr)

section \<open>The decoder against xrpld\<close>

definition type_of :: "diff_tx \<Rightarrow> string" where
  "type_of r = (case dt_trans_type r of None \<Rightarrow> '''' | Some t \<Rightarrow> t)"

definition meta_of :: "diff_tx \<Rightarrow> byte list" where
  "meta_of r = (case dt_txn_meta r of None \<Rightarrow> [] | Some m \<Rightarrow> m)"

definition ledger_of :: "diff_tx \<Rightarrow> u32" where
  "ledger_of r = word_of_int (dt_ledger_seq r)"

text \<open>What the tester calls an exact match of xrpld's rows and the decoder.\<close>

definition summary_agrees :: "sha256_fn \<Rightarrow> diff_db \<Rightarrow> string \<Rightarrow> string \<Rightarrow> meta_summary \<Rightarrow> bool" where
  "summary_agrees S db t i s \<longleftrightarrow>
     accounts_of db i = account_id_to_classic_address S ` set (ms_affected_accounts s) \<and>
     (\<forall>n \<in> set (seqs_of db i). map_option uint (ms_transaction_index s) = Some n) \<and>
     (accounts_of db i = {} \<longrightarrow> t \<in> set pseudo_types)"

definition tx_agrees :: "sha256_fn \<Rightarrow> diff_db \<Rightarrow> diff_tx \<Rightarrow> bool" where
  "tx_agrees S db r \<longleftrightarrow>
     (\<exists>s. summarize_meta (meta_of r) = Inr s \<and> summary_agrees S db (type_of r) (dt_trans_id r) s)"

definition ledger_column :: "diff_tx \<Rightarrow> bool" where
  "ledger_column r \<longleftrightarrow> 0 \<le> dt_ledger_seq r \<and> dt_ledger_seq r < 4294967296"

lemma ledger_column: "ledger_column r \<Longrightarrow> column (dt_ledger_seq r) = Some (ledger_of r)"
  by (simp add: ledger_column_def column_def ledger_of_def)

text \<open>What a check does: it keeps the counters clean and the flag set exactly when its condition holds.\<close>

definition sound_check :: "bool \<Rightarrow> rule_stats \<times> bool \<Rightarrow> rule_stats \<times> bool \<Rightarrow> bool" where
  "sound_check good st st' \<longleftrightarrow>
     (rule_ok (fst st') \<longleftrightarrow> rule_ok (fst st) \<and> good) \<and> (snd st' \<longleftrightarrow> snd st \<and> good) \<and>
     rs_total (fst st') = rs_total (fst st) \<and> rs_exact (fst st') = rs_exact (fst st)"

lemma checks_sound:
  "sound_check (\<not> (truth = {} \<and> ours = {} \<and> t \<notin> set pseudo_types)) st (check_nobody ex l t i truth ours st)"
  "sound_check (missing = {}) st (check_missing ex l t i missing ours st)"
  "sound_check (extra = {}) st (check_extra ex l t i extra st)"
  "sound_check (\<forall>n. q = Some n \<longrightarrow> c \<and> map_option uint x = Some n) st (check_txnseq ex l t i q c x st)"
  by (cases st; simp add: sound_check_def rule_ok_def check_nobody_def check_missing_def check_extra_def check_txnseq_def
      Let_def split: option.split)+

lemma sound_check_trans:
  "sound_check a st st' \<Longrightarrow> sound_check b st' st'' \<Longrightarrow> sound_check (a \<and> b) st st''"
  by (auto simp add: sound_check_def)

lemma same_sets:
  "(((\<not> (A = {} \<and> B = {} \<and> \<not> p) \<and> A - B = {}) \<and> B - A = {}) \<and> q) \<longleftrightarrow> A = B \<and> q \<and> (A = {} \<longrightarrow> p)"
  by auto

lemma compare_summary_counts:
  assumes "\<forall>x. (\<forall>n. q = Some n \<longrightarrow> c \<and> x = Some n) \<longleftrightarrow> (\<forall>n \<in> set (seqs_of db i). x = Some n)"
  shows "rule_ok (compare_summary S ex l t i (accounts_of db i, q, c) s rs) \<longleftrightarrow> rule_ok rs \<and> summary_agrees S db t i s"
    "rs_total (compare_summary S ex l t i (accounts_of db i, q, c) s rs) = rs_total rs"
    "rs_exact (compare_summary S ex l t i (accounts_of db i, q, c) s rs) =
       rs_exact rs + (if summary_agrees S db t i s then 1 else 0)"
proof -
  let ?T = "accounts_of db i" and ?O = "account_id_to_classic_address S ` set (ms_affected_accounts s)"
  let ?x = "map_option uint (ms_transaction_index s)"
  define st where "st = check_txnseq ex l t i q c (ms_transaction_index s) (check_extra ex l t i (?O - ?T)
      (check_missing ex l t i (?T - ?O) ?O (check_nobody ex l t i ?T ?O (rs, True))))"
  have "sound_check (((\<not> (?T = {} \<and> ?O = {} \<and> t \<notin> set pseudo_types) \<and> ?T - ?O = {}) \<and> ?O - ?T = {}) \<and>
      (\<forall>n. q = Some n \<longrightarrow> c \<and> ?x = Some n)) (rs, True) st"
    unfolding st_def by (rule sound_check_trans [OF sound_check_trans [OF sound_check_trans [OF checks_sound(1,2)] checks_sound(3)] checks_sound(4)])
  moreover have "(((\<not> (?T = {} \<and> ?O = {} \<and> t \<notin> set pseudo_types) \<and> ?T - ?O = {}) \<and> ?O - ?T = {}) \<and>
      (\<forall>n. q = Some n \<longrightarrow> c \<and> ?x = Some n)) \<longleftrightarrow> summary_agrees S db t i s"
    unfolding summary_agrees_def spec [OF assms, symmetric] by (rule same_sets)
  ultimately have st: "sound_check (summary_agrees S db t i s) (rs, True) st" by simp
  have "compare_summary S ex l t i (?T, q, c) s rs =
      (if snd st then (fst st)\<lparr>rs_exact := rs_exact (fst st) + 1\<rparr> else fst st)"
    by (simp add: compare_summary_def st_def Let_def split_def)
  then show "rule_ok (compare_summary S ex l t i (?T, q, c) s rs) \<longleftrightarrow> rule_ok rs \<and> summary_agrees S db t i s"
    "rs_total (compare_summary S ex l t i (?T, q, c) s rs) = rs_total rs"
    "rs_exact (compare_summary S ex l t i (?T, q, c) s rs) = rs_exact rs + (if summary_agrees S db t i s then 1 else 0)"
    using st by (simp_all add: sound_check_def rule_ok_def)
qed

lemma rule_ok_counters [simp]:
  "rule_ok (rs\<lparr>rs_total := n\<rparr>) = rule_ok rs" "rule_ok (rs\<lparr>rs_per_type := m\<rparr>) = rule_ok rs"
  "rule_ok (rs\<lparr>rs_no_xrpld_rows := n\<rparr>) = rule_ok rs" "rule_ok (rs\<lparr>rs_ex_errors := es\<rparr>) = rule_ok rs"
  by (simp_all add: rule_ok_def)

lemma compare_row_counts:
  assumes "ledger_column r" and "complete_rows db (dt_trans_id r)"
  shows "\<exists>rs'. compare_row S ex db rs r = Inr rs' \<and> (rule_ok rs' \<longleftrightarrow> rule_ok rs \<and> tx_agrees S db r) \<and>
    rs_total rs' = rs_total rs + 1 \<and> rs_exact rs' = rs_exact rs + (if tx_agrees S db r then 1 else 0)"
proof -
  let ?i = "dt_trans_id r"
  obtain q c where answer: "xrpld_answer db ?i = Inr (accounts_of db ?i, q, c)"
    and seq: "\<forall>x. (\<forall>n. q = Some n \<longrightarrow> c \<and> x = Some n) \<longleftrightarrow> (\<forall>n \<in> set (seqs_of db ?i). x = Some n)"
    using xrpld_answer_complete [OF assms(2)] by (elim exE conjE)
  define rs1 where "rs1 = rs\<lparr>rs_total := rs_total rs + 1, rs_per_type := update_type (type_of r) (\<lambda>s. s\<lparr>ts_txs := ts_txs s + 1\<rparr>) (rs_per_type rs)\<rparr>"
  define rs2 where "rs2 = (if accounts_of db ?i = {} then rs1\<lparr>rs_no_xrpld_rows := rs_no_xrpld_rows rs1 + 1\<rparr> else rs1)"
  have rs2: "rule_ok rs2 = rule_ok rs" "rs_total rs2 = rs_total rs + 1" "rs_exact rs2 = rs_exact rs"
    by (simp_all add: rs2_def rs1_def)
  have run: "compare_row S ex db rs r = Inr (case summarize_meta (meta_of r) of
      Inl e \<Rightarrow> rs2\<lparr>rs_decode_errors := rs_decode_errors rs2 + 1,
                  rs_ex_errors := note_example ex (DecodeExample (ledger_of r) (type_of r) ?i e) (rs_ex_errors rs2)\<rparr>
    | Inr s \<Rightarrow> compare_summary S ex (ledger_of r) (type_of r) ?i (accounts_of db ?i, q, c) s rs2)"
    unfolding compare_row_def Let_def ledger_column [OF assms(1)] or_error_def option.case rbind_simps answer fst_conv
      type_of_def [symmetric] meta_of_def [symmetric] rs1_def [symmetric] rs2_def [symmetric] ..
  show ?thesis
  proof (cases "summarize_meta (meta_of r)")
    case (Inl e)
    then show ?thesis using rs2 by (simp add: run tx_agrees_def rule_ok_def)
  next
    case (Inr s)
    then show ?thesis
      using rs2 compare_summary_counts [OF seq, where S = S and ex = ex and l = "ledger_of r" and t = "type_of r" and s = s and rs = rs2]
      by (simp add: run tx_agrees_def)
  qed
qed

lemma compare_row_complete:
  "compare_row S ex db rs r = Inr rs' \<Longrightarrow> complete_rows db (dt_trans_id r)"
  by (auto simp add: compare_row_def Let_def rbind_eq_Inr xrpld_answer_Inr [symmetric] simp del: split_paired_Ex)

lemma compare_rows_counts:
  assumes "\<forall>r \<in> set rows. ledger_column r"
  shows "rfold (compare_row S ex db) rs rows = Inr rs' \<Longrightarrow>
    (\<forall>r \<in> set rows. complete_rows db (dt_trans_id r)) \<and>
    (rule_ok rs' \<longleftrightarrow> rule_ok rs \<and> (\<forall>r \<in> set rows. tx_agrees S db r)) \<and>
    rs_total rs' = rs_total rs + length rows \<and> rs_exact rs' = rs_exact rs + length (filter (tx_agrees S db) rows)"
  using assms
proof (induction rows arbitrary: rs)
  case (Cons r rows)
  from Cons.prems(1) obtain u where u: "compare_row S ex db rs r = Inr u" "rfold (compare_row S ex db) u rows = Inr rs'"
    by (auto simp add: rbind_eq_Inr)
  have c: "complete_rows db (dt_trans_id r)" by (rule compare_row_complete [OF u(1)])
  have "ledger_column r" using Cons.prems(2) by simp
  from compare_row_counts [OF this c, of S ex rs] u(1)
  have "rule_ok u \<longleftrightarrow> rule_ok rs \<and> tx_agrees S db r" "rs_total u = rs_total rs + 1"
    "rs_exact u = rs_exact rs + (if tx_agrees S db r then 1 else 0)" by simp_all
  with Cons.IH [OF u(2)] Cons.prems(2) c show ?case by auto
qed simp

lemma compare_rows_return:
  assumes "\<forall>r \<in> set rows. ledger_column r \<and> complete_rows db (dt_trans_id r)"
  shows "\<exists>rs'. rfold (compare_row S ex db) rs rows = Inr rs'"
  using assms
proof (induction rows arbitrary: rs)
  case (Cons r rows)
  then obtain u where "compare_row S ex db rs r = Inr u" using compare_row_counts [of r db S ex rs] by auto
  with Cons show ?case by simp
qed simp

lemma rows_between_column: "r \<in> set (rows_between db lo hi) \<Longrightarrow> ledger_column r"
proof -
  assume "r \<in> set (rows_between db lo hi)"
  then have "uint lo \<le> dt_ledger_seq r" "dt_ledger_seq r \<le> uint hi" by (auto simp add: rows_between_def)
  moreover have "0 \<le> uint lo" by simp
  moreover have "uint hi < 4294967296" using unsigned_less [of hi, where 'a = int] by simp
  ultimately show ?thesis unfolding ledger_column_def by linarith
qed

lemma compare_rule_counts:
  assumes "compare_rule S ex db lo hi = Inr rs"
  shows "\<forall>r \<in> set (rows_between db lo hi). complete_rows db (dt_trans_id r)"
    "rule_ok rs \<longleftrightarrow> (\<forall>r \<in> set (rows_between db lo hi). tx_agrees S db r)"
    "rs_total rs = length (rows_between db lo hi)" "rs_exact rs = length (filter (tx_agrees S db) (rows_between db lo hi))"
proof -
  have "\<forall>r \<in> set (rows_between db lo hi). ledger_column r" by (intro ballI rows_between_column)
  from compare_rows_counts [OF this assms [unfolded compare_rule_def]]
  show "\<forall>r \<in> set (rows_between db lo hi). complete_rows db (dt_trans_id r)"
    "rule_ok rs \<longleftrightarrow> (\<forall>r \<in> set (rows_between db lo hi). tx_agrees S db r)"
    "rs_total rs = length (rows_between db lo hi)" "rs_exact rs = length (filter (tx_agrees S db) (rows_between db lo hi))"
    by (simp_all add: no_rule_stats_def rule_ok_def)
qed

section \<open>The entries of an index\<close>

definition in_range :: "u32 \<Rightarrow> u32 \<Rightarrow> table_row \<Rightarrow> bool" where
  "in_range lo hi r \<longleftrightarrow> lo \<le> fst (snd (fst r)) \<and> fst (snd (fst r)) \<le> hi"

definition rows_of_hash :: "index_tables \<Rightarrow> u32 \<Rightarrow> u32 \<Rightarrow> string \<Rightarrow> table_row list" where
  "rows_of_hash t lo hi i = filter (\<lambda>r. hash_text (snd r) = i) (filter (in_range lo hi) (it_account_tx t))"

definition entry_of :: "sha256_fn \<Rightarrow> table_row list \<Rightarrow> index_entry option" where
  "entry_of S rows =
     (if rows = [] then None
      else Some \<lparr>ie_ledger = fst (snd (fst (last rows))), ie_txn_seq = snd (snd (fst (last rows))),
                 ie_accounts = (\<lambda>r. account_id_to_classic_address S (fst (fst r))) ` set rows\<rparr>)"

lemma collect_entry_step:
  "map_of (collect_entry S m r) i =
     (if hash_text (snd r) = i
      then Some \<lparr>ie_ledger = fst (snd (fst r)), ie_txn_seq = snd (snd (fst r)),
                 ie_accounts = insert (account_id_to_classic_address S (fst (fst r)))
                   (case map_of m i of None \<Rightarrow> {} | Some e \<Rightarrow> ie_accounts e)\<rparr>
      else map_of m i)"
  "distinct (map fst m) \<Longrightarrow> distinct (map fst (collect_entry S m r))"
  by (auto simp add: collect_entry_def Let_def split_def update_conv' distinct_update hash_text_def split: option.split)

lemma entry_of_snoc:
  "entry_of S (rows @ [r]) =
     Some \<lparr>ie_ledger = fst (snd (fst r)), ie_txn_seq = snd (snd (fst r)),
           ie_accounts = insert (account_id_to_classic_address S (fst (fst r)))
             (case entry_of S rows of None \<Rightarrow> {} | Some e \<Rightarrow> ie_accounts e)\<rparr>"
  by (simp add: entry_of_def)

lemma collected_entries:
  "map_of (foldl (collect_entry S) [] rows) i = entry_of S (filter (\<lambda>r. hash_text (snd r) = i) rows)"
  "distinct (map fst (foldl (collect_entry S) [] rows))"
proof (induction rows rule: rev_induct)
  case Nil
  {
    case 1
    show ?case by (simp add: entry_of_def)
  next
    case 2
    show ?case by simp
  }
next
  case (snoc r rows)
  {
    case 1
    show ?case using snoc.IH(1) by (simp add: collect_entry_step entry_of_snoc)
  next
    case 2
    show ?case using snoc.IH(2) by (simp add: collect_entry_step(2))
  }
qed

lemma index_entries_of: "map_of (index_entries S t lo hi) i = entry_of S (rows_of_hash t lo hi i)"
  "distinct (map fst (index_entries S t lo hi))"
proof -
  have "(\<lambda>((a, l, n), h). lo \<le> l \<and> l \<le> hi) = in_range lo hi" by (auto simp add: in_range_def fun_eq_iff)
  then show "map_of (index_entries S t lo hi) i = entry_of S (rows_of_hash t lo hi i)"
    "distinct (map fst (index_entries S t lo hi))"
    using collected_entries [of S "filter (in_range lo hi) (it_account_tx t)"] by (simp_all add: index_entries_def rows_of_hash_def)
qed

section \<open>An index against xrpld\<close>

definition index_clean :: "index_stats \<Rightarrow> bool" where
  "index_clean st \<longleftrightarrow>
     is_missing_tx st = 0 \<and> is_extra_tx st = 0 \<and> is_not_in_index st = 0 \<and> is_seq_bad st = 0 \<and>
     is_ledger_bad st = 0 \<and> is_locator_bad st = 0"

definition sound_step :: "bool \<Rightarrow> index_stats \<times> bool \<Rightarrow> index_stats \<times> bool \<Rightarrow> bool" where
  "sound_step good st st' \<longleftrightarrow>
     (index_clean (fst st') \<longleftrightarrow> index_clean (fst st) \<and> good) \<and> (snd st' \<longleftrightarrow> snd st \<and> good) \<and>
     is_total (fst st') = is_total (fst st) \<and> is_exact (fst st') = is_exact (fst st)"

lemma steps_sound:
  "sound_step (missing = {}) st (entry_missing ex l i missing st)"
  "sound_step (extra = {}) st (entry_extra ex l i extra st)"
  "sound_step (\<forall>n. q = Some n \<longrightarrow> n = uint s) st (entry_seq ex l i q s st)"
  "sound_step (found = l) st (entry_ledger ex l i found st)"
  "sound_step (locator_agrees l q at) st (check_locator ex l i q at st)"
  by (cases st; simp add: sound_step_def index_clean_def entry_missing_def entry_extra_def entry_seq_def entry_ledger_def
      check_locator_def note_index_def Let_def split: option.split)+

lemma sound_step_trans:
  "sound_step a st st' \<Longrightarrow> sound_step b st' st'' \<Longrightarrow> sound_step (a \<and> b) st st''"
  by (auto simp add: sound_step_def)

definition entry_agrees :: "u32 \<Rightarrow> string set \<times> int option \<Rightarrow> index_entry option \<Rightarrow> bool" where
  "entry_agrees l answer entry =
     (case entry of
        None \<Rightarrow> fst answer = {}
      | Some e \<Rightarrow>
          fst answer = ie_accounts e \<and> (\<forall>n. snd answer = Some n \<longrightarrow> n = uint (ie_txn_seq e)) \<and> ie_ledger e = l)"

lemma compare_entry_sound:
  "sound_step (entry_agrees l answer entry) (st, True) (compare_entry ex l i answer entry st)"
proof (cases entry)
  case None
  then show ?thesis
    by (simp add: sound_step_def entry_agrees_def compare_entry_def index_clean_def note_index_def split_def)
next
  case (Some e)
  let ?T = "fst answer" and ?E = "ie_accounts e"
  have "sound_step (((?T - ?E = {} \<and> ?E - ?T = {}) \<and> (\<forall>n. snd answer = Some n \<longrightarrow> n = uint (ie_txn_seq e))) \<and> ie_ledger e = l)
      (st, True) (compare_entry ex l i answer entry st)"
    unfolding compare_entry_def Some split_def Let_def option.case
    by (rule sound_step_trans [OF sound_step_trans [OF sound_step_trans [OF steps_sound(1,2)] steps_sound(3)] steps_sound(4)])
  moreover have "(((?T - ?E = {} \<and> ?E - ?T = {}) \<and> (\<forall>n. snd answer = Some n \<longrightarrow> n = uint (ie_txn_seq e))) \<and> ie_ledger e = l)
      \<longleftrightarrow> entry_agrees l answer entry"
    by (auto simp add: entry_agrees_def Some)
  ultimately show ?thesis by simp
qed

definition last_answer :: "diff_db \<Rightarrow> string \<Rightarrow> string set \<times> int option" where
  "last_answer db i = (accounts_of db i, if seqs_of db i = [] then None else Some (last (seqs_of db i)))"

definition row_agrees :: "diff_db \<Rightarrow> index_tables \<Rightarrow> index_entry option \<Rightarrow> diff_tx \<Rightarrow> bool" where
  "row_agrees db t entry r \<longleftrightarrow>
     entry_agrees (ledger_of r) (last_answer db (dt_trans_id r)) entry \<and>
     locator_agrees (ledger_of r) (snd (last_answer db (dt_trans_id r)))
       (diff_locate t (projr (difftest_hex_decode (dt_trans_id r))))"

definition comparable :: "diff_db \<Rightarrow> diff_tx \<Rightarrow> bool" where
  "comparable db r \<longleftrightarrow> complete_rows db (dt_trans_id r) \<and> (\<exists>bytes. difftest_hex_decode (dt_trans_id r) = Inr bytes)"

lemma compare_index_row_counts:
  assumes "ledger_column r" and "comparable db r"
  shows "\<exists>st'. compare_index_row ex db t (m, st) r = Inr (AList.delete (dt_trans_id r) m, st') \<and>
    (index_clean st' \<longleftrightarrow> index_clean st \<and> row_agrees db t (map_of m (dt_trans_id r)) r) \<and>
    is_total st' = is_total st + 1 \<and> is_exact st' = is_exact st + (if row_agrees db t (map_of m (dt_trans_id r)) r then 1 else 0)"
proof -
  let ?i = "dt_trans_id r" and ?good = "row_agrees db t (map_of m (dt_trans_id r)) r"
  obtain bytes where bytes: "difftest_hex_decode ?i = Inr bytes" and c: "complete_rows db ?i"
    using assms(2) by (auto simp add: comparable_def)
  have answer: "xrpld_last db ?i = Inr (last_answer db ?i)" using xrpld_last_complete [OF c] by (simp add: last_answer_def)
  let ?st = "st\<lparr>is_total := is_total st + 1\<rparr>"
  define u where "u = check_locator ex (ledger_of r) ?i (snd (last_answer db ?i)) (diff_locate t bytes)
      (compare_entry ex (ledger_of r) ?i (last_answer db ?i) (map_of m ?i) ?st)"
  have "sound_step ?good (?st, True) u"
    unfolding u_def row_agrees_def bytes sum.sel by (rule sound_step_trans [OF compare_entry_sound steps_sound(5)])
  moreover have "compare_index_row ex db t (m, st) r =
      Inr (AList.delete ?i m, if snd u then (fst u)\<lparr>is_exact := is_exact (fst u) + 1\<rparr> else fst u)"
    by (simp add: compare_index_row_def ledger_column [OF assms(1)] or_error_def Let_def answer bytes u_def split_def)
  ultimately show ?thesis by (auto simp add: sound_step_def index_clean_def)
qed

lemma compare_index_row_comparable: "compare_index_row ex db t st r = Inr st' \<Longrightarrow> comparable db r"
  by (auto simp add: compare_index_row_def Let_def rbind_eq_Inr comparable_def xrpld_last_Inr split_def
      simp del: split_paired_Ex split_paired_All)

lemma compare_index_rows_counts:
  assumes "\<forall>r \<in> set rows. ledger_column r \<and> comparable db r" and "distinct (map dt_trans_id rows)"
  shows "\<exists>st'. rfold (compare_index_row ex db t) (m, st) rows =
      Inr (filter (\<lambda>(i, e). i \<notin> dt_trans_id ` set rows) m, st') \<and>
    (index_clean st' \<longleftrightarrow> index_clean st \<and> (\<forall>r \<in> set rows. row_agrees db t (map_of m (dt_trans_id r)) r)) \<and>
    is_total st' = is_total st + length rows \<and>
    is_exact st' = is_exact st + length (filter (\<lambda>r. row_agrees db t (map_of m (dt_trans_id r)) r) rows)"
  using assms
proof (induction rows arbitrary: m st)
  case (Cons r rows)
  let ?m = "AList.delete (dt_trans_id r) m"
  obtain u where u: "compare_index_row ex db t (m, st) r = Inr (?m, u)"
    "index_clean u \<longleftrightarrow> index_clean st \<and> row_agrees db t (map_of m (dt_trans_id r)) r"
    "is_total u = is_total st + 1" "is_exact u = is_exact st + (if row_agrees db t (map_of m (dt_trans_id r)) r then 1 else 0)"
    using compare_index_row_counts [of r db ex t m st] Cons.prems(1) by auto
  have same: "map_of ?m (dt_trans_id s) = map_of m (dt_trans_id s)" if "s \<in> set rows" for s
  proof (rule map_of_delete)
    have "dt_trans_id r \<notin> dt_trans_id ` set rows" using Cons.prems(2) by simp
    with that show "dt_trans_id s \<noteq> dt_trans_id r" by (metis imageI)
  qed
  have rest: "filter (\<lambda>(i, e). i \<notin> dt_trans_id ` set rows) ?m = filter (\<lambda>(i, e). i \<notin> dt_trans_id ` set (r # rows)) m"
    by (auto simp add: AList.delete_eq intro: filter_cong)
  have agree: "filter (\<lambda>s. row_agrees db t (map_of ?m (dt_trans_id s)) s) rows =
      filter (\<lambda>s. row_agrees db t (map_of m (dt_trans_id s)) s) rows"
    by (intro filter_cong refl) (simp add: same)
  have prem: "\<forall>r \<in> set rows. ledger_column r \<and> comparable db r" "distinct (map dt_trans_id rows)" using Cons.prems by simp_all
  from Cons.IH [OF prem, of ?m u] obtain st' where st': "rfold (compare_index_row ex db t) (?m, u) rows =
      Inr (filter (\<lambda>(i, e). i \<notin> dt_trans_id ` set (r # rows)) m, st')"
    "index_clean st' \<longleftrightarrow> index_clean u \<and> (\<forall>r \<in> set rows. row_agrees db t (map_of ?m (dt_trans_id r)) r)"
    "is_total st' = is_total u + length rows"
    "is_exact st' = is_exact u + length (filter (\<lambda>s. row_agrees db t (map_of m (dt_trans_id s)) s) rows)"
    unfolding rest agree by blast
  have "rfold (compare_index_row ex db t) (m, st) (r # rows) = Inr (filter (\<lambda>(i, e). i \<notin> dt_trans_id ` set (r # rows)) m, st')"
    using u(1) st'(1) by simp
  moreover have "index_clean st' \<longleftrightarrow> index_clean st \<and> (\<forall>s \<in> set (r # rows). row_agrees db t (map_of m (dt_trans_id s)) s)"
    using u(2) st'(2) by (simp add: same)
  ultimately show ?case using u(3,4) st'(3,4) by simp
qed simp

lemma compare_index_rows_comparable:
  "rfold (compare_index_row ex db t) st rows = Inr st' \<Longrightarrow> \<forall>r \<in> set rows. comparable db r"
proof (induction rows arbitrary: st)
  case (Cons r rows)
  from Cons.prems obtain u where u: "compare_index_row ex db t st r = Inr u" "rfold (compare_index_row ex db t) u rows = Inr st'"
    by (auto simp add: rbind_eq_Inr simp del: split_paired_Ex split_paired_All)
  from compare_index_row_comparable [OF u(1)] Cons.IH [OF u(2)] show ?case by simp
qed simp

text \<open>What the tester calls an index that matches xrpld.\<close>

definition index_agrees :: "sha256_fn \<Rightarrow> diff_db \<Rightarrow> index_tables \<Rightarrow> u32 \<Rightarrow> u32 \<Rightarrow> bool" where
  "index_agrees S db t lo hi \<longleftrightarrow>
     (\<forall>r \<in> set (rows_between db lo hi). row_agrees db t (entry_of S (rows_of_hash t lo hi (dt_trans_id r))) r) \<and>
     (\<forall>x \<in> set (it_account_tx t). in_range lo hi x \<longrightarrow> hash_text (snd x) \<in> dt_trans_id ` set (rows_between db lo hi))"

lemma left_over_entries:
  "filter (\<lambda>(i, e). i \<notin> A) (index_entries S t lo hi) = [] \<longleftrightarrow>
     (\<forall>x \<in> set (it_account_tx t). in_range lo hi x \<longrightarrow> hash_text (snd x) \<in> A)"
proof -
  have "filter (\<lambda>(i, e). i \<notin> A) (index_entries S t lo hi) = [] \<longleftrightarrow> fst ` set (index_entries S t lo hi) \<subseteq> A"
    by (auto simp add: filter_empty_conv)
  also have "fst ` set (index_entries S t lo hi) = {i. rows_of_hash t lo hi i \<noteq> []}"
    by (auto simp add: entry_of_def index_entries_of(1) dom_map_of_conv_image_fst [symmetric] split: if_splits)
  also have "\<dots> = (\<lambda>x. hash_text (snd x)) ` set (filter (in_range lo hi) (it_account_tx t))"
    by (auto simp add: rows_of_hash_def filter_empty_conv image_iff simp del: split_paired_Ex split_paired_All)
  finally show ?thesis by (auto simp add: image_subset_iff)
qed

lemma compare_tables_counts:
  assumes "distinct (map dt_trans_id (rows_between db lo hi))" and "compare_tables S ex db t lo hi = Inr st"
  shows "index_stats_ok st \<longleftrightarrow> index_agrees S db t lo hi" "is_total st = length (rows_between db lo hi)"
proof -
  let ?rows = "rows_between db lo hi" and ?m = "index_entries S t lo hi"
  obtain state where state: "rfold (compare_index_row ex db t) (?m, no_index_stats) ?rows = Inr state"
    "st = count_index_only ex state"
    using assms(2) by (auto simp add: compare_tables_def rbind_eq_Inr simp del: split_paired_Ex)
  have "\<forall>r \<in> set ?rows. ledger_column r \<and> comparable db r"
    using compare_index_rows_comparable [OF state(1)] rows_between_column by blast
  from compare_index_rows_counts [OF this assms(1), of ex t ?m no_index_stats] state(1) obtain u where
    u: "state = (filter (\<lambda>(i, e). i \<notin> dt_trans_id ` set ?rows) ?m, u)"
      "index_clean u \<longleftrightarrow> (\<forall>r \<in> set ?rows. row_agrees db t (map_of ?m (dt_trans_id r)) r)" "is_total u = length ?rows"
    by (auto simp add: no_index_stats_def index_clean_def)
  have "index_stats_ok st \<longleftrightarrow> index_clean u \<and> filter (\<lambda>(i, e). i \<notin> dt_trans_id ` set ?rows) ?m = []"
    by (auto simp add: state(2) u(1) count_index_only_def index_stats_ok_def index_clean_def)
  then show "index_stats_ok st \<longleftrightarrow> index_agrees S db t lo hi"
    unfolding u(2) left_over_entries index_agrees_def index_entries_of(1) .
  show "is_total st = length ?rows" using u(3) by (simp add: state(2) u(1) count_index_only_def)
qed

lemma compare_tables_return:
  assumes "distinct (map dt_trans_id (rows_between db lo hi))" and "\<forall>r \<in> set (rows_between db lo hi). comparable db r"
  shows "\<exists>st. compare_tables S ex db t lo hi = Inr st"
proof -
  have "\<forall>r \<in> set (rows_between db lo hi). ledger_column r \<and> comparable db r"
    using assms(2) rows_between_column by blast
  from compare_index_rows_counts [OF this assms(1), of ex t "index_entries S t lo hi" no_index_stats]
  show ?thesis by (auto simp add: compare_tables_def)
qed

end
