(* ===== verification/Difftest_Import.thy ===== *)
theory Difftest_Import
  imports Difftest_Correct
begin

text \<open>
  The importer's transaction database and the index of one chunk, seen by the differential
  tester: what it reads from each for a transaction of the chunk, and that the two agree.
\<close>

section \<open>The database of the importer as the tester reads it\<close>

definition db_row :: "hash256 \<Rightarrow> tx_row \<Rightarrow> diff_tx" where
  "db_row h r =
     \<lparr>dt_trans_id = hash_text h, dt_ledger_seq = uint (tr_ledger_seq r), dt_trans_type = Some (tr_trans_type r),
      dt_txn_meta = Some (tr_txn_meta r)\<rparr>"

definition db_account_row :: "acct_row \<Rightarrow> diff_account" where
  "db_account_row r =
     \<lparr>da_trans_id = hash_text (ar_trans_id r), da_account = Some (ar_account r), da_txn_seq = map_option uint (ar_txn_seq r)\<rparr>"

definition reads_tables :: "tx_tables \<Rightarrow> diff_db \<Rightarrow> bool" where
  "reads_tables t db \<longleftrightarrow>
     distinct (map dt_trans_id (db_transactions db)) \<and>
     set (db_transactions db) = {db_row h r | h r. tt_transactions t h = Some r} \<and>
     db_account_transactions db = map db_account_row (tt_account_transactions t)"

lemma rows_between_keys:
  "distinct (map dt_trans_id (db_transactions db)) \<Longrightarrow> distinct (map dt_trans_id (rows_between db lo hi))"
  by (simp add: rows_between_def distinct_map inj_on_def)

lemma filter_own:
  assumes "distinct (map key xs)" and "x \<in> set xs" and "\<forall>y \<in> set xs. \<forall>r \<in> set (g y). k r = key y"
  shows "filter (\<lambda>r. k r = key x) (concat (map g xs)) = g x"
  using assms
proof (induction xs)
  case (Cons y xs)
  have other: "filter (\<lambda>r. k r = key z) (concat (map g ys)) = []"
    if "\<forall>y \<in> set ys. \<forall>r \<in> set (g y). k r = key y" "key z \<notin> key ` set ys" for ys z
    using that by (auto simp add: filter_empty_conv) (metis imageI)
  have mine: "filter (\<lambda>r. k r = key y) (g y) = g y" using Cons.prems(3) by (simp add: filter_id_conv)
  show ?case
  proof (cases "x = y")
    case True
    with Cons.prems other [of xs y] mine show ?thesis by simp
  next
    case False
    then have "x \<in> set xs" using Cons.prems(2) by simp
    moreover from this have "key x \<noteq> key y" using Cons.prems(1) by (metis distinct.simps(2) imageI list.set_map list.simps(9))
    then have "filter (\<lambda>r. k r = key x) (g y) = []" using Cons.prems(3) by (auto simp add: filter_empty_conv)
    ultimately show ?thesis using Cons.IH Cons.prems(1,3) by simp
  qed
qed simp

section \<open>A chunk seen from both sides\<close>

definition hash_of :: "tx_map \<times> tx_record \<Rightarrow> hash256" where
  "hash_of p = tx_hash (snd p)"

definition keys_distinct :: "chunk \<Rightarrow> bool" where
  "keys_distinct c \<longleftrightarrow> distinct (map hash_of (ledger_transactions (ck_tx_maps c)))"

lemma indexable_keys:
  assumes "chunk_indexable H c"
  shows "keys_distinct c"
proof -
  have "unique_keys (ix_tables (put_ledgers (index_sink_new (ck_start_ledger c)) (ck_tx_maps c)))"
    using assms by (simp add: chunk_indexable_def)
  then show ?thesis by (simp add: keys_distinct_def unique_keys_def built_rows comp_def split_def hash_of_def [abs_def])
qed

text \<open>The row of a transaction in the database.\<close>

definition chunk_row :: "sha256_fn \<Rightarrow> tx_map \<Rightarrow> tx_record \<Rightarrow> diff_tx" where
  "chunk_row S m x = db_row (tx_hash x) (snd (transaction_row S m x))"

lemma table_rows:
  assumes "keys_distinct c"
  shows "{db_row h r | h r. tt_transactions (tables_for S (ck_tx_maps c)) h = Some r} =
    (\<lambda>(m, x). chunk_row S m x) ` set (ledger_transactions (ck_tx_maps c))"
proof -
  let ?ps = "ledger_transactions (ck_tx_maps c)"
  have "map fst (map (\<lambda>(m, x). transaction_row S m x) ?ps) = map hash_of ?ps"
    by (auto simp add: transaction_row_def hash_of_def Let_def)
  then have "distinct (map fst (map (\<lambda>(m, x). transaction_row S m x) ?ps))"
    using assms by (simp only: keys_distinct_def)
  then have "distinct (map fst (rev (map (\<lambda>(m, x). transaction_row S m x) ?ps)))"
    by (simp only: rev_map [symmetric] distinct_rev)
  then have "tt_transactions (tables_for S (ck_tx_maps c)) h = Some r \<longleftrightarrow>
      (h, r) \<in> set (map (\<lambda>(m, x). transaction_row S m x) ?ps)" for h r
    by (simp add: tables_for_def)
  then have "{db_row h r | h r. tt_transactions (tables_for S (ck_tx_maps c)) h = Some r} =
      {db_row h r | h r. (h, r) \<in> set (map (\<lambda>(m, x). transaction_row S m x) ?ps)}" by (simp only:)
  also have "\<dots> = (\<lambda>(m, x). chunk_row S m x) ` set ?ps"
    by (force simp add: chunk_row_def transaction_row_def Let_def)
  finally show ?thesis .
qed

lemma chunk_rows:
  assumes "keys_distinct c" and "reads_tables (tables_for S (ck_tx_maps c)) db"
  shows "set (db_transactions db) = (\<lambda>(m, x). chunk_row S m x) ` set (ledger_transactions (ck_tx_maps c))"
  using assms(2) unfolding table_rows [OF assms(1), symmetric] reads_tables_def by blast

lemma chunk_row_fields [simp]:
  "dt_trans_id (chunk_row S m x) = hash_text (tx_hash x)" "dt_ledger_seq (chunk_row S m x) = uint (tm_ledger_seq m)"
  "ledger_of (chunk_row S m x) = tm_ledger_seq m" "meta_of (chunk_row S m x) = meta_blob x"
  by (simp_all add: chunk_row_def db_row_def transaction_row_def Let_def ledger_of_def meta_of_def)

lemma in_rows_between:
  assumes "keys_distinct c" and "reads_tables (tables_for S (ck_tx_maps c)) db"
  shows "r \<in> set (rows_between db lo hi) \<longleftrightarrow>
    (\<exists>m x. (m, x) \<in> set (ledger_transactions (ck_tx_maps c)) \<and> r = chunk_row S m x \<and>
       lo \<le> tm_ledger_seq m \<and> tm_ledger_seq m \<le> hi)"
  unfolding rows_between_def set_sort set_filter chunk_rows [OF assms]
  by (auto simp add: word_le_def) blast

text \<open>xrpld's answer is the decoder's, the entry of the index too.\<close>

lemma chunk_account_rows:
  assumes "keys_distinct c" and "reads_tables (tables_for S (ck_tx_maps c)) db"
    and "(m, x) \<in> set (ledger_transactions (ck_tx_maps c))"
  shows "account_rows_of db (hash_text (tx_hash x)) = map db_account_row (account_rows S m x)"
proof -
  let ?ps = "ledger_transactions (ck_tx_maps c)"
  have key: "distinct (map hash_of ?ps)" using assms(1) by (simp only: keys_distinct_def)
  have own: "\<forall>p \<in> set ?ps. \<forall>r \<in> set ((\<lambda>(m, x). account_rows S m x) p). ar_trans_id r = hash_of p"
    by (auto simp add: account_rows_def hash_of_def Let_def)
  have "account_rows_of db (hash_text (tx_hash x)) =
      map db_account_row (filter (\<lambda>r. ar_trans_id r = hash_of (m, x)) (concat (map (\<lambda>(m, x). account_rows S m x) ?ps)))"
    using assms(2) by (simp add: account_rows_of_def reads_tables_def tables_for_def filter_map comp_def db_account_row_def hash_of_def)
  also have "\<dots> = map db_account_row (account_rows S m x)"
    using filter_own [OF key assms(3) own] by simp
  finally show ?thesis .
qed

lemma chunk_answer:
  assumes "chunk_indexable H c" and "reads_tables (tables_for S (ck_tx_maps c)) db"
    and "(m, x) \<in> set (ledger_transactions (ck_tx_maps c))"
  shows "complete_rows db (hash_text (tx_hash x))"
    "accounts_of db (hash_text (tx_hash x)) = account_id_to_classic_address S ` set (tx_accounts x)"
    "seqs_of db (hash_text (tx_hash x)) = replicate (length (tx_accounts x)) (uint (tx_index x))"
proof -
  obtain s where s: "summarize_meta (meta_blob x) = Inr s" "ms_transaction_index s = Some (tx_index x)"
    "ms_affected_accounts s = tx_accounts x"
    using summary_of [OF assms(1)] assms(3) unfolding in_ledger_transactions by blast
  have rows: "account_rows_of db (hash_text (tx_hash x)) =
      map (\<lambda>a. \<lparr>da_trans_id = hash_text (tx_hash x), da_account = Some (account_id_to_classic_address S a),
                da_txn_seq = Some (uint (tx_index x))\<rparr>) (tx_accounts x)"
    unfolding chunk_account_rows [OF indexable_keys [OF assms(1)] assms(2,3)]
    by (simp add: account_rows_def s db_account_row_def Let_def)
  show "complete_rows db (hash_text (tx_hash x))"
    "accounts_of db (hash_text (tx_hash x)) = account_id_to_classic_address S ` set (tx_accounts x)"
    "seqs_of db (hash_text (tx_hash x)) = replicate (length (tx_accounts x)) (uint (tx_index x))"
    by (simp_all add: complete_rows_def accounts_of_def seqs_of_def rows list_all_iff image_image comp_def map_replicate_const)
qed

lemma chunk_entry:
  assumes "keys_distinct c" and "(m, x) \<in> set (ledger_transactions (ck_tx_maps c))"
    and "it_account_tx t = it_account_tx (ix_tables (put_ledgers (index_sink_new s) (ck_tx_maps c)))"
    and "lo \<le> tm_ledger_seq m" and "tm_ledger_seq m \<le> hi"
  shows "rows_of_hash t lo hi (hash_text (tx_hash x)) = account_keys (tm_ledger_seq m) x"
proof -
  let ?ps = "ledger_transactions (ck_tx_maps c)"
  have key: "distinct (map hash_of ?ps)" using assms(1) by (simp only: keys_distinct_def)
  have own: "\<forall>p \<in> set ?ps. \<forall>r \<in> set ((\<lambda>(m, x). account_keys (tm_ledger_seq m) x) p). snd r = hash_of p"
    by (auto simp add: account_keys_def hash_of_def)
  have "rows_of_hash t lo hi (hash_text (tx_hash x)) =
      filter (in_range lo hi) (filter (\<lambda>r. snd r = hash_of (m, x)) (it_account_tx t))"
    by (auto simp add: rows_of_hash_def hash_of_def conj_commute)
  also have "\<dots> = filter (in_range lo hi) (account_keys (tm_ledger_seq m) x)"
    unfolding assms(3) built_rows(1) filter_own [OF key assms(2) own] by simp
  also have "\<dots> = account_keys (tm_ledger_seq m) x"
    using assms(4,5) by (auto simp add: filter_id_conv in_range_def account_keys_def)
  finally show ?thesis .
qed

section \<open>The two agree\<close>

definition nobody_is_pseudo :: "chunk \<Rightarrow> bool" where
  "nobody_is_pseudo c \<longleftrightarrow>
     (\<forall>(m, x) \<in> set (ledger_transactions (ck_tx_maps c)). tx_accounts x = [] \<longrightarrow>
        the (tx_type_name (tf_tx_type (projr (parse_tx_fields (tx_blob x))))) \<in> set pseudo_types)"

lemma chunk_agrees:
  assumes "chunk_indexable H c" and "reads_tables (tables_for S (ck_tx_maps c)) db" and "nobody_is_pseudo c"
  shows "\<forall>r \<in> set (rows_between db lo hi). tx_agrees S db r \<and> comparable db r"
proof
  fix r
  assume "r \<in> set (rows_between db lo hi)"
  then obtain m x where x: "(m, x) \<in> set (ledger_transactions (ck_tx_maps c))" "r = chunk_row S m x"
    unfolding in_rows_between [OF indexable_keys [OF assms(1)] assms(2)] by blast
  obtain s where s: "summarize_meta (meta_blob x) = Inr s" "ms_transaction_index s = Some (tx_index x)"
    "ms_affected_accounts s = tx_accounts x"
    using summary_of [OF assms(1)] x(1) unfolding in_ledger_transactions by blast
  note answer = chunk_answer [OF assms(1,2) x(1)]
  have "type_of r = the (tx_type_name (tf_tx_type (projr (parse_tx_fields (tx_blob x)))))"
    by (simp add: x(2) type_of_def chunk_row_def db_row_def transaction_row_def Let_def)
  then have "type_of r \<in> set pseudo_types" if "tx_accounts x = []"
    using assms(3) x(1) that unfolding nobody_is_pseudo_def by auto
  then have "tx_agrees S db r" by (auto simp add: tx_agrees_def summary_agrees_def x(2) s answer)
  moreover have "comparable db r"
    by (simp add: comparable_def x(2) answer(1)) (simp add: hash_text_def)
  ultimately show "tx_agrees S db r \<and> comparable db r" ..
qed

lemma chunk_index_agrees:
  assumes "chunk_indexable H c" and "reads_tables (tables_for S (ck_tx_maps c)) db"
    and "it_account_tx t = it_account_tx (ix_tables (put_ledgers (index_sink_new s) (ck_tx_maps c)))"
    and "it_locator t = it_locator (ix_tables (put_ledgers (index_sink_new s) (ck_tx_maps c)))"
    and "unique_keys (ix_tables (put_ledgers (index_sink_new s) (ck_tx_maps c)))"
  shows "index_agrees S db t lo hi"
proof -
  note keys = indexable_keys [OF assms(1)]
  have row: "row_agrees db t (entry_of S (rows_of_hash t lo hi (dt_trans_id r))) r" if r: "r \<in> set (rows_between db lo hi)" for r
  proof -
    obtain m x where x: "(m, x) \<in> set (ledger_transactions (ck_tx_maps c))" "r = chunk_row S m x"
      "lo \<le> tm_ledger_seq m" "tm_ledger_seq m \<le> hi"
      using r unfolding in_rows_between [OF keys assms(2)] by blast
    note answer = chunk_answer [OF assms(1,2) x(1)]
    have entry: "rows_of_hash t lo hi (hash_text (tx_hash x)) = account_keys (tm_ledger_seq m) x"
      by (rule chunk_entry [OF keys x(1) assms(3) x(3,4)])
    have "locate_tx t (tx_hash x) = Some (tm_ledger_seq m, tx_index x)"
      using x(1) unfolding built_locator [OF assms(5,4)] in_ledger_transactions by blast
    then have at: "diff_locate t (projr (difftest_hex_decode (hash_text (tx_hash x)))) = Some (tm_ledger_seq m, tx_index x)"
      by (simp add: hash_text_def diff_locate_def hash_bytes)
    show ?thesis
    proof (cases "tx_accounts x")
      case Nil
      then show ?thesis
        by (simp add: row_agrees_def entry at x(2) last_answer_def answer entry_agrees_def entry_of_def account_keys_def locator_agrees_def)
    next
      case (Cons a as)
      then have ne: "account_keys (tm_ledger_seq m) x \<noteq> []" by (simp add: account_keys_def)
      have "last (account_keys (tm_ledger_seq m) x) \<in> set (account_keys (tm_ledger_seq m) x)" by (rule last_in_set [OF ne])
      then have last: "snd (fst (last (account_keys (tm_ledger_seq m) x))) = (tm_ledger_seq m, tx_index x)"
        by (auto simp add: account_keys_def)
      have "(\<lambda>r. account_id_to_classic_address S (fst (fst r))) ` set (account_keys (tm_ledger_seq m) x) =
          account_id_to_classic_address S ` set (tx_accounts x)"
        by (simp add: account_keys_def image_image)
      with ne last show ?thesis
        by (simp add: row_agrees_def entry at x(2) last_answer_def answer entry_agrees_def entry_of_def locator_agrees_def Cons)
    qed
  qed
  have "hash_text (snd z) \<in> dt_trans_id ` set (rows_between db lo hi)" if z: "z \<in> set (it_account_tx t)" "in_range lo hi z" for z
  proof -
    obtain m x where x: "(m, x) \<in> set (ledger_transactions (ck_tx_maps c))" "z \<in> set (account_keys (tm_ledger_seq m) x)"
      using z(1) unfolding assms(3) built_rows(1) by auto
    have "chunk_row S m x \<in> set (rows_between db lo hi)"
      unfolding in_rows_between [OF keys assms(2)] using x z(2) by (auto simp add: account_keys_def in_range_def) blast
    moreover have "hash_text (snd z) = dt_trans_id (chunk_row S m x)" using x(2) by (auto simp add: account_keys_def)
    ultimately show ?thesis by (metis imageI)
  qed
  with row show ?thesis unfolding index_agrees_def by blast
qed

section \<open>The files\<close>

lemma session_tables:
  assumes "txdb_session S F fs dest ms = (fs', Inr n)"
  shows "fs dest = None" "fs' = fs(tmp_path dest := None, dest \<mapsto> F (tables_for S ms))"
proof -
  let ?sk = "\<lparr>td_conn = Some schema_tables, td_tmp = tmp_path dest, td_dest = dest, td_rows_tx = 0, td_rows_acct = 0\<rparr>"
  show dest: "fs dest = None"
  proof (rule ccontr)
    assume "fs dest \<noteq> None"
    then have "txdb_session S F fs dest ms = (fs, Inl DestinationExists)" by (simp add: txdb_session_def txdb_create_def)
    with assms show False by simp
  qed
  have create: "txdb_create F fs dest = Inr (fs(tmp_path dest \<mapsto> F schema_tables), ?sk)"
    using dest by (simp add: txdb_create_def remove_file_def Let_def)
  have conn: "td_conn ?sk \<noteq> None" by simp
  from txdb_ledgers_wrote [OF conn, of ms S] assms show "fs' = fs(tmp_path dest := None, dest \<mapsto> F (tables_for S ms))"
    by (auto simp add: txdb_session_def create txdb_drop_def txdb_finish_def txdb_counts_def wrote_def tables_for_def
        schema_tables_def remove_file_def rename_file_def fun_upd_twist fun_eq_iff split: if_splits)
qed

lemma session_succeeds:
  assumes "fs dest = None" and "\<forall>(m, tx) \<in> set (ledger_transactions ms). decodes tx"
  shows "\<exists>fs' n. txdb_session S F fs dest ms = (fs', Inr n)"
proof -
  let ?sk = "\<lparr>td_conn = Some schema_tables, td_tmp = tmp_path dest, td_dest = dest, td_rows_tx = 0, td_rows_acct = 0\<rparr>"
  have create: "txdb_create F fs dest = Inr (fs(tmp_path dest \<mapsto> F schema_tables), ?sk)"
    using assms(1) by (simp add: txdb_create_def remove_file_def Let_def)
  have conn: "td_conn ?sk \<noteq> None" by simp
  from txdb_ledgers_wrote [OF conn, of ms S] assms(2) show ?thesis
    by (auto simp add: txdb_session_def create txdb_finish_def wrote_def)
qed

text \<open>The database a tester may read from the tables of a chunk: its rows in the order of the chunk.\<close>

definition chunk_db :: "sha256_fn \<Rightarrow> chunk \<Rightarrow> diff_db" where
  "chunk_db S c =
     \<lparr>db_transactions = map (\<lambda>(m, x). chunk_row S m x) (ledger_transactions (ck_tx_maps c)),
      db_account_transactions = map db_account_row (tt_account_transactions (tables_for S (ck_tx_maps c)))\<rparr>"

lemma chunk_db_reads:
  assumes "keys_distinct c"
  shows "reads_tables (tables_for S (ck_tx_maps c)) (chunk_db S c)"
proof -
  let ?ps = "ledger_transactions (ck_tx_maps c)"
  have "distinct (map (\<lambda>p. hash_text (hash_of p)) ?ps)"
    using assms by (auto simp add: keys_distinct_def distinct_map inj_on_def)
  moreover have keys: "map dt_trans_id (db_transactions (chunk_db S c)) = map (\<lambda>p. hash_text (hash_of p)) ?ps"
    by (auto simp add: chunk_db_def hash_of_def)
  moreover have "set (db_transactions (chunk_db S c)) = {db_row h r | h r. tt_transactions (tables_for S (ck_tx_maps c)) h = Some r}"
    unfolding chunk_db_def table_rows [OF assms] by simp
  moreover have "db_account_transactions (chunk_db S c) = map db_account_row (tt_account_transactions (tables_for S (ck_tx_maps c)))"
    by (simp add: chunk_db_def)
  ultimately show ?thesis unfolding reads_tables_def keys by blast
qed

end
