(* ===== verification/Inspect.thy ===== *)
theory Inspect
  imports Index_Correct
begin

text \<open>
  The chunk inspector of crates/xrla-inspect/src/main.rs. What a command prints is a value of
  \<open>inspect_output\<close>; a scan that met metadata it could not decode has printed its lines and then
  fails, so its error carries the lines. Texts are ASCII here: a file with other characters is
  refused, as its lines are no addresses. \<open>D\<close> is decode of the crate hex, \<open>S\<close> SHA-256.
\<close>

section \<open>Output\<close>

record summary_line =
  sl_ledger :: u32
  sl_ledger_hash :: hash256
  sl_added :: nat
  sl_deleted :: nat
  sl_txns :: nat
  sl_drops :: u64

datatype delta_note =
    DeltaNodes nat nat
  | CheckpointLedger
  | NoDelta

record account_line =
  al_account :: string
  al_ledger :: u32
  al_txn_index :: "u32 option"
  al_tx_hash :: hash256

datatype inspect_output =
    ChunkSummary chunk "summary_line list"
  | LedgerDetail tx_map delta_note "(nat \<times> hash256 \<times> nat \<times> nat) list"
  | TxDetail "u32 option" tx_record
  | AccountTx "(u32 \<times> hash256) list"
  | AccountsTx "account_line list"

datatype inspect_error =
    ChunkFileUnreadable
  | Unparsable chunk_error
  | TxNeedsLedger
  | LedgerNotInChunk u32
  | NoTransactionAt u32 nat
  | BadTxHash string
  | TxNotInChunk hash256
  | AccountsFileUnreadable
  | NotAnAddress string address_error
  | AccountTxIncomplete "(u32 \<times> hash256) list" nat
  | AccountsTxIncomplete "account_line list" nat

section \<open>Ledgers and transactions\<close>

definition find_delta :: "chunk \<Rightarrow> u32 \<Rightarrow> ledger_delta option" where
  "find_delta c seq = find (\<lambda>d. ld_ledger_seq d = seq) (ck_deltas c)"

definition find_tx_map :: "chunk \<Rightarrow> u32 \<Rightarrow> tx_map option" where
  "find_tx_map c seq = find (\<lambda>t. tm_ledger_seq t = seq) (ck_tx_maps c)"

definition summary_of_ledger :: "chunk \<Rightarrow> tx_map \<Rightarrow> summary_line" where
  "summary_of_ledger c m =
     (let (added, deleted) = (case find_delta c (tm_ledger_seq m) of
            None \<Rightarrow> (0, 0)
          | Some d \<Rightarrow> (length (diff_added (ld_diff d)), length (diff_deleted (ld_diff d))))
      in \<lparr>sl_ledger = tm_ledger_seq m, sl_ledger_hash = tm_ledger_hash m, sl_added = added, sl_deleted = deleted,
          sl_txns = length (tm_txns m), sl_drops = tm_drops m\<rparr>)"

definition print_summary :: "chunk \<Rightarrow> inspect_output" where
  "print_summary c = ChunkSummary c (map (summary_of_ledger c) (ck_tx_maps c))"

definition print_ledger :: "chunk \<Rightarrow> u32 \<Rightarrow> inspect_error + inspect_output" where
  "print_ledger c seq =
     (case find_tx_map c seq of
        None \<Rightarrow> Inl (LedgerNotInChunk seq)
      | Some m \<Rightarrow>
          let note = (case find_delta c seq of
                Some d \<Rightarrow> DeltaNodes (length (diff_added (ld_diff d))) (length (diff_deleted (ld_diff d)))
              | None \<Rightarrow> if seq = ck_start_ledger c then CheckpointLedger else NoDelta)
          in Inr (LedgerDetail m note
               (map (\<lambda>(i, tx). (i, tx_hash tx, length (tx_blob tx), length (meta_blob tx))) (enumerate 0 (tm_txns m)))))"

definition print_tx :: "chunk \<Rightarrow> u32 \<Rightarrow> nat \<Rightarrow> inspect_error + inspect_output" where
  "print_tx c seq tx_idx =
     (case find_tx_map c seq of
        None \<Rightarrow> Inl (LedgerNotInChunk seq)
      | Some m \<Rightarrow> if tx_idx < length (tm_txns m) then Inr (TxDetail None (tm_txns m ! tx_idx))
                  else Inl (NoTransactionAt seq tx_idx))"

fun find_tx :: "hash256 \<Rightarrow> tx_map list \<Rightarrow> (u32 \<times> tx_record) option" where
  "find_tx target [] = None"
| "find_tx target (m # ms) =
     (case find (\<lambda>t. tx_hash t = target) (tm_txns m) of
        Some tx \<Rightarrow> Some (tm_ledger_seq m, tx) | None \<Rightarrow> find_tx target ms)"

definition print_tx_by_hash :: "hex_decode \<Rightarrow> chunk \<Rightarrow> string \<Rightarrow> inspect_error + inspect_output" where
  "print_tx_by_hash D c hash_hex =
     (case parse_hash D hash_hex of
        None \<Rightarrow> Inl (BadTxHash hash_hex)
      | Some target \<Rightarrow>
          (case find_tx target (ck_tx_maps c) of
             None \<Rightarrow> Inl (TxNotInChunk target)
           | Some (seq, tx) \<Rightarrow> Inr (TxDetail (Some seq) tx)))"

section \<open>Scans\<close>

text \<open>One transaction of the scan for an account: the lines so far and the undecodable count.\<close>

definition scan_account ::
  "sha256_fn \<Rightarrow> string \<Rightarrow> (u32 \<times> hash256) list \<times> nat \<Rightarrow> tx_map \<times> tx_record \<Rightarrow> (u32 \<times> hash256) list \<times> nat" where
  "scan_account S address st entry =
     (let (lines, undecodable) = st; (m, tx) = entry in
      case affected_accounts (meta_blob tx) of
        Inl e \<Rightarrow> (lines, undecodable + 1)
      | Inr touched \<Rightarrow>
          if list_ex (\<lambda>a. account_id_to_classic_address S a = address) touched
          then (lines @ [(tm_ledger_seq m, tx_hash tx)], undecodable) else (lines, undecodable))"

definition print_account_tx :: "sha256_fn \<Rightarrow> chunk \<Rightarrow> string \<Rightarrow> inspect_error + inspect_output" where
  "print_account_tx S c address =
     (let (lines, undecodable) = foldl (scan_account S address) ([], 0) (ledger_transactions (ck_tx_maps c)) in
      if 0 < undecodable then Inl (AccountTxIncomplete lines undecodable) else Inr (AccountTx lines))"

definition ascii_text :: "byte list \<Rightarrow> string option" where
  "ascii_text b = (if list_all (\<lambda>x. x < 128) b then Some (map (\<lambda>x. char_of (unat x)) b) else None)"

text \<open>\<open>text.lines()\<close>, each trimmed, without the empty ones.\<close>

fun split_lines :: "string \<Rightarrow> string list" where
  "split_lines [] = [[]]"
| "split_lines (c # s) =
     (if c = CHR 0x0A then [] # split_lines s
      else (case split_lines s of [] \<Rightarrow> [[c]] | l # ls \<Rightarrow> (c # l) # ls))"

definition address_lines :: "string \<Rightarrow> string list" where
  "address_lines s = filter (\<lambda>l. l \<noteq> []) (map trim (split_lines s))"

definition wanted_accounts :: "sha256_fn \<Rightarrow> string \<Rightarrow> inspect_error + account_id list" where
  "wanted_accounts S s =
     rmap (\<lambda>l. rlift (NotAnAddress l) (classic_address_to_account_id S l)) (address_lines s)"

definition scan_accounts ::
  "sha256_fn \<Rightarrow> account_id set \<Rightarrow> account_line list \<times> nat \<Rightarrow> tx_map \<times> tx_record \<Rightarrow> account_line list \<times> nat" where
  "scan_accounts S wanted st entry =
     (let (lines, undecodable) = st; (m, tx) = entry in
      case summarize_meta (meta_blob tx) of
        Inl e \<Rightarrow> (lines, undecodable + 1)
      | Inr s \<Rightarrow>
          (lines @ map (\<lambda>a. \<lparr>al_account = account_id_to_classic_address S a, al_ledger = tm_ledger_seq m,
                              al_txn_index = ms_transaction_index s, al_tx_hash = tx_hash tx\<rparr>)
                     (filter (\<lambda>a. a \<in> wanted) (ms_affected_accounts s)), undecodable))"

definition print_accounts_tx :: "sha256_fn \<Rightarrow> file_system \<Rightarrow> chunk \<Rightarrow> string \<Rightarrow> inspect_error + inspect_output" where
  "print_accounts_tx S fs c path =
     (case Option.bind (fs path) ascii_text of
        None \<Rightarrow> Inl AccountsFileUnreadable
      | Some s \<Rightarrow>
          rbind (wanted_accounts S s) (\<lambda>wanted.
          let (lines, undecodable) =
                foldl (scan_accounts S (set wanted)) ([], 0) (ledger_transactions (ck_tx_maps c)) in
          if 0 < undecodable then Inl (AccountsTxIncomplete lines undecodable) else Inr (AccountsTx lines)))"

section \<open>The command\<close>

record inspect_args =
  ia_chunk :: string
  ia_ledger :: "u32 option"
  ia_tx :: "nat option"
  ia_tx_hash :: "string option"
  ia_account :: "string option"
  ia_accounts_file :: "string option"

definition inspect_main ::
  "sha512 \<Rightarrow> sha256_fn \<Rightarrow> hex_decode \<Rightarrow> file_system \<Rightarrow> inspect_args \<Rightarrow> inspect_error + inspect_output" where
  "inspect_main H S D fs args =
     (case fs (ia_chunk args) of
        None \<Rightarrow> Inl ChunkFileUnreadable
      | Some data \<Rightarrow>
          rbind (rlift Unparsable (deserialize_chunk H data)) (\<lambda>c.
          case ia_accounts_file args of Some path \<Rightarrow> print_accounts_tx S fs c path | None \<Rightarrow>
          case ia_account args of Some address \<Rightarrow> print_account_tx S c address | None \<Rightarrow>
          case ia_tx_hash args of Some hash_hex \<Rightarrow> print_tx_by_hash D c hash_hex | None \<Rightarrow>
          (case (ia_ledger args, ia_tx args) of
             (None, None) \<Rightarrow> Inr (print_summary c)
           | (Some seq, None) \<Rightarrow> print_ledger c seq
           | (Some seq, Some tx_idx) \<Rightarrow> print_tx c seq tx_idx
           | (None, Some _) \<Rightarrow> Inl TxNeedsLedger)))"

section \<open>What the scans list\<close>

definition decodable :: "chunk \<Rightarrow> bool" where
  "decodable c \<longleftrightarrow>
     (\<forall>(m, t) \<in> set (ledger_transactions (ck_tx_maps c)). \<exists>s. summarize_meta (meta_blob t) = Inr s)"

lemma affected_summary: "summarize_meta b = Inr s \<Longrightarrow> affected_accounts b = Inr (ms_affected_accounts s)"
  by (simp add: affected_accounts_def)

lemma scan_account_fold:
  assumes "\<forall>(m, t) \<in> set ps. \<exists>s. summarize_meta (meta_blob t) = Inr s"
  shows "foldl (scan_account S address) (lines, k) ps =
    (lines @ map (\<lambda>(m, t). (tm_ledger_seq m, tx_hash t))
       (filter (\<lambda>(m, t). address \<in> account_id_to_classic_address S ` set (tx_accounts t)) ps), k)"
  using assms
proof (induction ps arbitrary: lines)
  case (Cons p ps)
  obtain m t where p: "p = (m, t)" by (cases p)
  with Cons.prems obtain s where s: "summarize_meta (meta_blob t) = Inr s" by auto
  then have "tx_accounts t = ms_affected_accounts s" by (simp add: tx_accounts_def)
  then have "scan_account S address (lines, k) p =
      (if address \<in> account_id_to_classic_address S ` set (tx_accounts t)
       then (lines @ [(tm_ledger_seq m, tx_hash t)], k) else (lines, k))"
    by (auto simp add: scan_account_def p affected_summary [OF s] list_ex_iff)
  with Cons p show ?case by simp
qed simp

lemma print_account_tx_lists:
  assumes "decodable c"
  shows "print_account_tx S c address = Inr (AccountTx (map (\<lambda>(m, t). (tm_ledger_seq m, tx_hash t))
    (filter (\<lambda>(m, t). address \<in> account_id_to_classic_address S ` set (tx_accounts t)) (ledger_transactions (ck_tx_maps c)))))"
  using scan_account_fold [of "ledger_transactions (ck_tx_maps c)" S address "[]" 0] assms
  by (simp add: print_account_tx_def decodable_def)

text \<open>Different accounts have different addresses, as long as the checksum of the zero account is not zero.\<close>

definition checksum_ok :: "sha256_fn \<Rightarrow> bool" where
  "checksum_ok S \<longleftrightarrow> \<not> list_all (\<lambda>b. b = 0) (address_payload S 0)"

lemma address_decodes:
  assumes "checksum_ok S"
  shows "classic_address_to_account_id S s = Inr a \<longleftrightarrow> s = account_id_to_classic_address S a"
proof (rule address_decodes_iff)
  show "\<not> list_all (\<lambda>b. b = 0) (address_payload S a)"
  proof (cases "a = 0")
    case True
    show ?thesis unfolding True using assms unfolding checksum_ok_def .
  next
    case False
    then show ?thesis by (rule nonzero_payload)
  qed
qed

lemma address_in_image:
  assumes "checksum_ok S"
  shows "account_id_to_classic_address S a \<in> account_id_to_classic_address S ` as \<longleftrightarrow> a \<in> as"
proof
  assume "account_id_to_classic_address S a \<in> account_id_to_classic_address S ` as"
  then obtain b where b: "b \<in> as" "account_id_to_classic_address S a = account_id_to_classic_address S b" by blast
  have decodes: "classic_address_to_account_id S (account_id_to_classic_address S x) = Inr x" for x
    by (rule iffD2 [OF address_decodes [OF assms]]) (rule refl)
  from decodes [of a] decodes [of b] have "a = b" unfolding b(2) by (simp only: sum.inject)
  with b(1) show "a \<in> as" by (simp only:)
next
  assume "a \<in> as"
  then show "account_id_to_classic_address S a \<in> account_id_to_classic_address S ` as" by (rule imageI)
qed

section \<open>Rows of one account\<close>

lemma filter_eq_distinct: "distinct xs \<Longrightarrow> filter (\<lambda>b. b = a) xs = (if a \<in> set xs then [a] else [])"
  by (induction xs) (auto simp add: filter_empty_conv)

lemma summary_accounts_distinct: "summarize_meta b = Inr s \<Longrightarrow> distinct (ms_affected_accounts s)"
  by (auto simp add: summarize_meta_def rbind_eq_Inr split: if_splits)

lemma keys_of_account:
  assumes "distinct (tx_accounts t)"
  shows "filter (\<lambda>r. fst (fst r) = a) (account_keys seq t) =
    (if a \<in> set (tx_accounts t) then [((a, seq, tx_index t), tx_hash t)] else [])"
  using filter_eq_distinct [OF assms, of a] by (simp add: account_keys_def filter_map comp_def)

lemma rows_of_account:
  assumes "\<forall>(m, t) \<in> set ps. distinct (tx_accounts t)"
  shows "filter (\<lambda>r. fst (fst r) = a) (concat (map (\<lambda>(m, t). account_keys (tm_ledger_seq m) t) ps)) =
    map (\<lambda>(m, t). ((a, tm_ledger_seq m, tx_index t), tx_hash t)) (filter (\<lambda>(m, t). a \<in> set (tx_accounts t)) ps)"
  using assms
proof (induction ps)
  case (Cons p ps)
  obtain m t where p: "p = (m, t)" by (cases p)
  with Cons.prems have "distinct (tx_accounts t)" by simp
  from keys_of_account [OF this, of a "tm_ledger_seq m"] Cons p show ?case by simp
qed simp

lemma scan_rows_of_index:
  assumes "checksum_ok S" and "chunk_indexable H c"
    and "it_account_tx tables = it_account_tx (ix_tables (put_ledgers (index_sink_new (ck_start_ledger c)) (ck_tx_maps c)))"
  shows "\<exists>lines. print_account_tx S c (account_id_to_classic_address S a) = Inr (AccountTx lines) \<and>
    mset lines = image_mset (\<lambda>r. (row_ledger_seq r, row_tx_hash r)) (mset (account_tx tables a 0 (-1) (-1) forward None))"
proof -
  let ?ps = "ledger_transactions (ck_tx_maps c)"
  have summary: "\<exists>s. summarize_meta (meta_blob t) = Inr s \<and> ms_affected_accounts s = tx_accounts t"
    if "(m, t) \<in> set ?ps" for m t
    using summary_of [OF assms(2)] that by (auto simp add: in_ledger_transactions)
  then have dec: "decodable c" unfolding decodable_def by blast
  have dist: "\<forall>(m, t) \<in> set ?ps. distinct (tx_accounts t)"
    using summary summary_accounts_distinct by fastforce
  have "filter (\<lambda>((b, l, n), h). b = a \<and> 0 \<le> l \<and> l \<le> (-1 :: u32)) xs = filter (\<lambda>r. fst (fst r) = a) xs" for xs :: "table_row list"
    by (intro filter_cong) (auto simp add: word_order.extremum)
  then have "mset (history tables a 0 (-1) forward) = mset (filter (\<lambda>r. fst (fst r) = a) (it_account_tx tables))"
    by (simp add: history_def Let_def)
  also have "\<dots> = image_mset (\<lambda>(m, t). ((a, tm_ledger_seq m, tx_index t), tx_hash t))
      (mset (filter (\<lambda>(m, t). a \<in> set (tx_accounts t)) ?ps))"
    unfolding assms(3) built_rows(1) rows_of_account [OF dist] mset_map ..
  finally have rows: "mset (history tables a 0 (-1) forward) = \<dots>" .
  have "image_mset (\<lambda>r. (row_ledger_seq r, row_tx_hash r)) (mset (account_tx tables a 0 (-1) (-1) forward None)) =
      image_mset (\<lambda>r. (row_ledger_seq r, row_tx_hash r)) (image_mset map_row (mset (history tables a 0 (-1) forward)))"
    by (simp add: account_tx_history behind_def sql_limit_def)
  also have "\<dots> = mset (map (\<lambda>(m, t). (tm_ledger_seq m, tx_hash t)) (filter (\<lambda>(m, t). a \<in> set (tx_accounts t)) ?ps))"
    unfolding rows by (simp add: multiset.map_comp comp_def map_row_def split_def)
  finally show ?thesis
    unfolding print_account_tx_lists [OF dec] address_in_image [OF assms(1)] by simp
qed

text \<open>A scan for a text that is no address.\<close>

lemma scan_of_no_address:
  assumes "checksum_ok S" and "decodable c" and "classic_address_to_account_id S address = Inl e"
  shows "print_account_tx S c address = Inr (AccountTx [])"
proof -
  have "address \<noteq> account_id_to_classic_address S a" for a
    using address_decodes [OF assms(1), of address a] assms(3) by auto
  then have "address \<notin> account_id_to_classic_address S ` as" for as by blast
  then show ?thesis unfolding print_account_tx_lists [OF assms(2)] by (simp add: split_def)
qed

text \<open>The arguments \<open>xrla-inspect chunk --account address\<close> and \<open>--accounts-file path\<close>.\<close>

definition account_args :: "string \<Rightarrow> string \<Rightarrow> inspect_args" where
  "account_args chunk address =
     \<lparr>ia_chunk = chunk, ia_ledger = None, ia_tx = None, ia_tx_hash = None, ia_account = Some address, ia_accounts_file = None\<rparr>"

definition accounts_file_args :: "string \<Rightarrow> string \<Rightarrow> inspect_args" where
  "accounts_file_args chunk path =
     \<lparr>ia_chunk = chunk, ia_ledger = None, ia_tx = None, ia_tx_hash = None, ia_account = None, ia_accounts_file = Some path\<rparr>"

lemma inspect_account:
  assumes "fs chunk_file = Some bytes" and "parse_chunk H bytes = Inr (c, rest)"
  shows "inspect_main H S D fs (account_args chunk_file address) = print_account_tx S c address"
    "inspect_main H S D fs (accounts_file_args chunk_file path) = print_accounts_tx S fs c path"
  using assms by (simp_all add: inspect_main_def account_args_def accounts_file_args_def deserialize_chunk_def)

lemma wanted_accounts_rejects:
  assumes "l \<in> set (address_lines s)" and "classic_address_to_account_id S l = Inl e"
  shows "\<exists>l' e'. l' \<in> set (address_lines s) \<and> wanted_accounts S s = Inl (NotAnAddress l' e')"
proof -
  have "\<exists>l' e'. l' \<in> set ls \<and> rmap (\<lambda>l. rlift (NotAnAddress l) (classic_address_to_account_id S l)) ls = Inl (NotAnAddress l' e')"
    if "l \<in> set ls" for ls using that
  proof (induction ls)
    case (Cons x xs)
    show ?case
    proof (cases "classic_address_to_account_id S x")
      case (Inr a)
      with Cons.prems assms(2) have "l \<in> set xs" by auto
      from Cons.IH [OF this] Inr show ?thesis by auto
    qed auto
  qed simp
  with assms(1) show ?thesis unfolding wanted_accounts_def by blast
qed

end
