(* ===== verification/Index_Properties.thy ===== *)
theory Index_Properties
  imports Index_Correct
begin

text \<open>
  The properties of the index, and a chunk of two ledgers and three transactions on which
  their hypotheses hold. Its hash function is the length of the input.
\<close>

section \<open>A chunk to index\<close>

lemma touching_tx_indexable:
  assumes "k < 1000"
  shows "indexable length_sha (touching_tx k i)" "tx_index (touching_tx k i) = ucast i" "tx_accounts (touching_tx k i) = [11]"
    "tx_hash (touching_tx k i) = of_nat (34 + k)"
  using assms
  by (simp_all add: indexable_def tx_index_def tx_accounts_def touching_tx_def touching_summary calculate_tx_id_def
      length_sha hash_prefix_transaction_id_def)

definition index_body :: "byte list" where
  "index_body =
     stream_body [] (fixture_ledger 100 7 [touching_tx 1 0, touching_tx 2 1])
       [(\<lparr>ld_ledger_seq = 101, ld_diff = \<lparr>diff_added = [], diff_deleted = []\<rparr>\<rparr>, fixture_ledger 101 8 [touching_tx 3 0])]"

definition index_bytes :: "byte list" where
  "index_bytes = header_bytes format_version_streamed 1 100 101 9 (sha512half length_sha index_body) @ index_body"

lemma index_fits:
  "wf_stream 100 101 [] (fixture_ledger 100 7 [touching_tx 1 0, touching_tx 2 1])
     [(\<lparr>ld_ledger_seq = 101, ld_diff = \<lparr>diff_added = [], diff_deleted = []\<rparr>\<rparr>, fixture_ledger 101 8 [touching_tx 3 0])]"
proof -
  have "length (object_bytes (touching i)) < 4294967296" for i using touching_length [of i] by simp
  then show ?thesis
    by (simp add: wf_stream_def wf_tx_map_def wf_tx_def wf_delta_def fixture_ledger_def touching_tx_def)
qed

definition index_fixture :: chunk where
  "index_fixture = stream_chunk 1 100 101 9 (sha512half length_sha index_body) []
     (fixture_ledger 100 7 [touching_tx 1 0, touching_tx 2 1])
     [(\<lparr>ld_ledger_seq = 101, ld_diff = \<lparr>diff_added = [], diff_deleted = []\<rparr>\<rparr>, fixture_ledger 101 8 [touching_tx 3 0])]"

lemma index_fixture_parsed: "parse_chunk length_sha index_bytes = Inr (index_fixture, [])"
  unfolding index_bytes_def index_body_def index_fixture_def by (rule parse_stream_body [OF index_fits])

lemma index_fixture_maps:
  "ck_tx_maps index_fixture = [fixture_ledger 100 7 [touching_tx 1 0, touching_tx 2 1], fixture_ledger 101 8 [touching_tx 3 0]]"
  "ck_start_ledger index_fixture = 100"
  by (simp_all add: index_fixture_def stream_chunk_def canon_tx_map_def fixture_ledger_def touching_tx_def)

lemma index_fixture_opens:
  "\<exists>cr sk. reader_open index_bytes = Inr cr \<and> index_chunk length_sha cr = Inr sk"
proof -
  have "index_bytes ! 4 = format_version_streamed" by (simp add: index_bytes_def streamed_header)
  then obtain cr ns m0 ls where cr: "reader_open index_bytes = Inr cr" "collect_body length_sha cr = Inr (ns, m0, ls, [])"
    "index_fixture = assembled cr ns m0 ls" using stream_reader_iff index_fixture_parsed by blast
  have seq: "tm_ledger_seq (fixture_ledger s h txns) = s" "tm_txns (fixture_ledger s h txns) = txns" for s h txns
    by (simp_all add: fixture_ledger_def)
  have "chunk_indexable length_sha index_fixture"
    unfolding chunk_indexable_def index_fixture_maps
    by (simp add: ledger_indexable_def seq touching_tx_indexable less_Suc_eq All_less_Suc unique_keys_def built_rows
        ledger_transactions_def account_keys_def)
  with cr show ?thesis using index_chunk_Inr [OF cr(1)] by (intro exI conjI) auto
qed

lemma index_fixture_builds:
  "\<exists>report fs'. build_index length_sha E F [''c.xrla'' \<mapsto> index_bytes] ''c.xrla'' ''c.xidx'' False = (Inr report, fs')"
  using index_fixture_opens unfolding build_index_Inr by auto

section \<open>Properties\<close>

text \<open>
  C10: A built index answers account_tx from the chunk: after a successful build the file under the
  index's name opens with the chunk's range, and for every account and range of ledgers the
  unlimited query returns exactly the chunk's transactions whose metadata affects the
  account, ordered by ledger and transaction index in the direction asked for; a limit below
  \<open>2 ^ 63\<close> returns that many from the front. A transaction is located by its hash exactly
  when the chunk holds it.
\<close>

theorem index_answers_queries:
  assumes "build_index H E F fs chunk_file out_file force = (Inr report, fs')"
  shows "\<exists>bytes c tables. fs chunk_file = Some bytes \<and> holds_chunk H bytes c \<and> fs' out_file = Some (F tables) \<and>
    index_open tables = Inr \<lparr>idx_tables = tables, idx_meta = report_meta E report\<rparr> \<and>
    br_start_ledger report = ck_start_ledger c \<and> br_end_ledger report = ck_end_ledger c \<and>
    (\<forall>account lo hi forward.
       set (account_tx tables account lo hi (-1) forward None) = affecting c account lo hi \<and>
       sorted_wrt (\<lambda>r s. after forward (key_of_row r) (key_of_row s)) (account_tx tables account lo hi (-1) forward None) \<and>
       (\<forall>limit. 0 \<le> sint limit \<longrightarrow> account_tx tables account lo hi limit forward None =
          take (nat (sint limit)) (account_tx tables account lo hi (-1) forward None))) \<and>
    (\<forall>h k. locate_tx tables h = Some k \<longleftrightarrow>
       (\<exists>m t. m \<in> set (ck_tx_maps c) \<and> t \<in> set (tm_txns m) \<and> h = tx_hash t \<and> k = (tm_ledger_seq m, tx_index t)))"
proof -
  obtain bytes cr sk where b: "fs chunk_file = Some bytes" "reader_open bytes = Inr cr" "index_chunk H cr = Inr sk"
    "report = index_report cr sk" "fs' out_file = Some (F (built_tables E cr sk))"
    using assms unfolding build_index_Inr by auto
  obtain c where c: "holds_chunk H bytes c" "chunk_indexable H c"
    "sk = put_ledgers (index_sink_new (ck_start_ledger c)) (ck_tx_maps c)"
    "cr_start_ledger cr = ck_start_ledger c" "cr_end_ledger cr = ck_end_ledger c"
    by (rule built_from_chunk [OF b(2,3)])
  let ?t = "built_tables E cr sk"
  have rows: "it_account_tx ?t = it_account_tx (ix_tables (put_ledgers (index_sink_new (ck_start_ledger c)) (ck_tx_maps c)))"
    "it_locator ?t = it_locator (ix_tables (put_ledgers (index_sink_new (ck_start_ledger c)) (ck_tx_maps c)))"
    by (simp_all add: built_tables_def c(3))
  have keys: "unique_keys (ix_tables (put_ledgers (index_sink_new (ck_start_ledger c)) (ck_tx_maps c)))"
    using c(2) by (simp add: chunk_indexable_def)
  then have dist: "distinct (map fst (it_account_tx ?t))" by (simp add: rows unique_keys_def)
  have all: "set (account_tx ?t account lo hi (-1) forward None) = affecting c account lo hi" for account lo hi forward
    using built_history [OF c(2) rows(1)] by (simp add: account_tx_history behind_def sql_limit_def)
  have cut: "account_tx ?t account lo hi limit forward None =
      take (nat (sint limit)) (account_tx ?t account lo hi (-1) forward None)" if "0 \<le> sint limit"
    for account lo hi limit forward
    using that by (simp add: account_tx_history behind_def sql_limit_def take_map)
  show ?thesis
    using b c all_rows_ordered [OF dist] all cut built_locator [OF keys rows(2)]
      index_open_built [where t = "ix_tables sk" and E = E and r = report]
    by (intro exI [of _ bytes] exI [of _ c] exI [of _ ?t])
      (auto simp add: built_tables_def index_report_def)
qed

lemma index_answers_queries_witness:
  "\<exists>report fs' tables c. build_index length_sha (\<lambda>_. []) (\<lambda>_. [1]) [''c.xrla'' \<mapsto> index_bytes] ''c.xrla'' ''c.xidx'' False = (Inr report, fs') \<and>
     fs' ''c.xidx'' = Some [1] \<and> set (account_tx tables 11 0 200 (-1) False None) = affecting c 11 0 200"
proof -
  obtain report fs' where b: "build_index length_sha (\<lambda>_. []) (\<lambda>_. [1]) [''c.xrla'' \<mapsto> index_bytes] ''c.xrla'' ''c.xidx'' False
    = (Inr report, fs')" using index_fixture_builds by blast
  from index_answers_queries [OF b] obtain tables c where "fs' ''c.xidx'' = Some [1]"
    "\<forall>account lo hi forward. set (account_tx tables account lo hi (-1) forward None) = affecting c account lo hi" by blast
  with b show ?thesis by blast
qed

text \<open>
  C11: An index appears only for a verified chunk: a build succeeds exactly when the name is free
  or --force is given and the file is a streamed chunk whose hash verifies, whose
  transactions hash to their ids, whose metadata decodes and whose transaction indices count
  from zero in every ledger. Otherwise no file changes but the temporary one, which is gone
  unless nothing was touched, so an index that was there is still there.
\<close>

theorem index_appears_only_verified:
  "((\<exists>report fs'. build_index H E F fs chunk_file out_file force = (Inr report, fs')) \<longleftrightarrow>
     (fs out_file = None \<or> force) \<and>
     (\<exists>bytes cr ns m0 ls rest. fs chunk_file = Some bytes \<and> reader_open bytes = Inr cr \<and>
        collect_body H cr = Inr (ns, m0, ls, rest) \<and> chunk_indexable H (assembled cr ns m0 ls))) \<and>
   (\<forall>e fs'. build_index H E F fs chunk_file out_file force = (Inl e, fs') \<longrightarrow>
     fs' = fs \<or> fs' = fs(tmp_path out_file := None))"
proof -
  have "(\<exists>report fs'. build_index H E F fs chunk_file out_file force = (Inr report, fs')) \<longleftrightarrow>
     (fs out_file = None \<or> force) \<and>
     (\<exists>bytes cr. fs chunk_file = Some bytes \<and> reader_open bytes = Inr cr \<and> (\<exists>sk. index_chunk H cr = Inr sk))"
    unfolding build_index_Inr by blast
  moreover have "(\<exists>sk. index_chunk H cr = Inr sk) \<longleftrightarrow>
      (\<exists>ns m0 ls rest. collect_body H cr = Inr (ns, m0, ls, rest) \<and> chunk_indexable H (assembled cr ns m0 ls))"
    if "reader_open bytes = Inr cr" for bytes cr
    using index_chunk_Inr [OF that] by blast
  then have "(\<exists>bytes cr. fs chunk_file = Some bytes \<and> reader_open bytes = Inr cr \<and> (\<exists>sk. index_chunk H cr = Inr sk)) \<longleftrightarrow>
     (\<exists>bytes cr ns m0 ls rest. fs chunk_file = Some bytes \<and> reader_open bytes = Inr cr \<and>
        collect_body H cr = Inr (ns, m0, ls, rest) \<and> chunk_indexable H (assembled cr ns m0 ls))"
    by fast
  ultimately show ?thesis using build_index_Inl [of H E F fs chunk_file out_file force] by simp
qed

lemma index_appears_only_verified_witness:
  "fst (build_index length_sha (\<lambda>_. []) (\<lambda>_. [1]) [''c.xidx'' \<mapsto> [9]] ''c.xrla'' ''c.xidx'' True) = Inl ChunkFileMissing \<and>
     snd (build_index length_sha (\<lambda>_. []) (\<lambda>_. [1]) [''c.xidx'' \<mapsto> [9]] ''c.xrla'' ''c.xidx'' True) ''c.xidx'' = Some [9]"
proof -
  let ?b = "build_index length_sha (\<lambda>_. []) (\<lambda>_. [1]) [''c.xidx'' \<mapsto> [9]] ''c.xrla'' ''c.xidx'' True"
  have "fst ?b = Inl ChunkFileMissing" by (simp add: build_index_def)
  then have "?b = (Inl ChunkFileMissing, snd ?b)" by (metis prod.collapse)
  with index_appears_only_verified [of length_sha "\<lambda>_. []" "\<lambda>_. [1]" "[''c.xidx'' \<mapsto> [9]]" "''c.xrla''" "''c.xidx''" True]
  have "snd ?b = [''c.xidx'' \<mapsto> [9]] \<or> snd ?b = [''c.xidx'' \<mapsto> [9]](tmp_path ''c.xidx'' := None)" by blast
  then show ?thesis using \<open>fst ?b = Inl ChunkFileMissing\<close> by (auto simp add: tmp_path_def)
qed

text \<open>
  C12: Paging ends and misses nothing: a client that passes the printed marker on to the next query
  stops after finitely many pages, whatever the limit (not zero), the account, the range of
  ledgers and the direction, and the pages put together are the unlimited answer.
\<close>

theorem pages_add_up:
  assumes "unique_keys t" and "limit \<noteq> 0"
  shows "concat (all_pages t account lo hi limit forward None) = account_tx t account lo hi (-1) forward None"
proof -
  have "distinct (map fst (it_account_tx t))" using assms(1) by (simp add: unique_keys_def)
  from pages_from [OF this assms(2), of forward None account lo hi 0] show ?thesis
    by (simp add: behind_def account_tx_history sql_limit_def)
qed

lemma pages_add_up_witness:
  "concat (all_pages \<lparr>it_meta = [], it_account_tx = [((1, 100, 0), 7), ((1, 101, 0), 8), ((2, 101, 1), 9)], it_locator = []\<rparr>
     1 0 200 1 False None) = [\<lparr>row_ledger_seq = 101, row_txn_seq = 0, row_tx_hash = 8\<rparr>,
       \<lparr>row_ledger_seq = 100, row_txn_seq = 0, row_tx_hash = 7\<rparr>]"
  by (subst pages_add_up)
    (simp_all add: unique_keys_def account_tx_def sql_limit_def row_key_def map_row_def insort_key.simps less_eq_marker_def)

text \<open>
  C38: The tables stay consistent ledger by ledger: indexing a ledger keeps the primary keys
  unique, every account row pointing at the located transaction with the same ledger and
  index, and the two counters equal to the sizes of the tables.
\<close>

theorem index_ledger_keeps_tables:
  assumes "index_wf sk" and "index_ledger H sk m = Inr sk'"
  shows "index_wf sk'"
proof -
  have "unique_keys (ix_tables sk)" using assms(1) by (simp add: index_wf_def)
  from index_ledger_Inr [OF this, of H m sk'] assms(2)
  have "sk' = put_ledgers sk [m]" "unique_keys (ix_tables sk')" by blast+
  with put_ledgers_wf [OF assms(1)] show ?thesis by simp
qed

lemma index_ledger_keeps_tables_witness:
  "\<exists>sk. index_ledger length_sha (index_sink_new 100) (fixture_ledger 100 7 [touching_tx 1 0, touching_tx 2 1]) = Inr sk \<and>
     index_wf sk \<and> length (it_account_tx (ix_tables sk)) = 2"
proof -
  let ?m = "fixture_ledger 100 7 [touching_tx 1 0, touching_tx 2 1]"
  have new: "index_wf (index_sink_new 100)"
    by (simp add: index_wf_def index_sink_new_def index_schema_def unique_keys_def)
  have "index_ledger length_sha (index_sink_new 100) ?m = Inr (put_ledgers (index_sink_new 100) [?m])"
    using new unfolding index_wf_def
    by (subst index_ledger_Inr)
      (simp_all add: ledger_indexable_def fixture_ledger_def index_sink_new_def index_schema_def touching_tx_indexable
        All_less_Suc unique_keys_def put_ledgers_def ledger_transactions_def account_keys_def numeral_2_eq_2)
  moreover have "length (it_account_tx (ix_tables (put_ledgers (index_sink_new 100) [?m]))) = 2"
    by (simp add: built_rows ledger_transactions_def fixture_ledger_def account_keys_def touching_tx_indexable)
  ultimately show ?thesis using index_ledger_keeps_tables [OF new] by blast
qed

text \<open>
  A query with \<open>--limit 0\<close> ends in a panic: the empty page counts as full and the last of its
  rows, which does not exist, is unwrapped; this happens for every index that opens, every
  valid address and every well-formed marker.
\<close>

theorem query_limit_zero_panics:
  assumes "classic_address_to_account_id S account = Inr account_id" and "query_marker marker = Inr m"
  shows "run_query S idx account from_ledger to_ledger 0 forward marker = Inl UnwrapOfNone"
  using assms by (simp add: run_query_def account_tx_def Let_def)

lemma query_limit_zero_panics_witness:
  "\<exists>address. \<forall>idx. run_query (\<lambda>_. 9) idx address None None 0 False None = Inl UnwrapOfNone"
proof -
  have "\<not> list_all (\<lambda>b. b = 0) (address_payload (\<lambda>_. 9) 5)" by (rule nonzero_payload) simp
  then have "classic_address_to_account_id (\<lambda>_. 9) (account_id_to_classic_address (\<lambda>_. 9) 5) = Inr 5"
    by (subst address_decodes_iff) (simp_all)
  from query_limit_zero_panics [OF this, of None None] show ?thesis
    by (intro exI allI) (simp add: query_marker_def)
qed

end
