(* ===== verification/Inspect_Properties.thy ===== *)
theory Inspect_Properties
  imports Inspect Index_Properties
begin

text \<open>
  The properties of the inspector: its scan of a chunk against the index built from the same
  file, and what it makes of a text that is no address.
\<close>

definition sevens_sha :: sha256_fn where
  "sevens_sha data = from_be_bytes (replicate 32 7)"

lemma len_dvd: "8 dvd LENGTH(256)"
  by (rule dvdI [of _ _ 32]) simp

lemma checksum_sevens: "checksum_ok sevens_sha"
proof -
  have "sha256 sevens_sha b = replicate 32 7" for b
    unfolding sha256_def sevens_sha_def by (rule to_be_from_be) (simp_all add: len_dvd)
  moreover have "take 4 (replicate 32 (7 :: byte)) = [7, 7, 7, 7]" by (simp add: numeral_eq_Suc)
  ultimately have "7 \<in> set (address_payload sevens_sha 0)" by (simp add: address_payload_def Let_def)
  then show ?thesis unfolding checksum_ok_def list_all_iff by (rule contrapos_pn) auto
qed

lemma index_fixture_parses: "\<exists>c. parse_chunk length_sha index_bytes = Inr (c, []) \<and> decodable c"
proof -
  have "\<exists>s. summarize_meta (meta_blob (touching_tx k i)) = Inr s" for k i
    by (simp add: touching_tx_def touching_summary)
  then have "decodable index_fixture"
    by (simp add: decodable_def index_fixture_maps ledger_transactions_def fixture_ledger_def)
  with index_fixture_parsed show ?thesis by blast
qed

section \<open>Properties\<close>

text \<open>
  C15: The scan of a chunk and its index give the same history: whenever an index was built from a
  streamed chunk file that ends with its footer, the inspector succeeds on that file for the
  address of every account, and the lines it prints are, as a multiset, the ledgers and hashes
  of the rows that the index returns for the account without limit.
\<close>

theorem inspect_scan_agrees_with_index:
  assumes "checksum_ok S" and "build_index H E F fs chunk_file out_file force = (Inr report, fs')"
    and "fs chunk_file = Some bytes" and "parse_chunk H bytes = Inr (c, [])"
  shows "\<exists>tables. fs' out_file = Some (F tables) \<and>
    (\<forall>a. \<exists>lines. inspect_main H S D fs (account_args chunk_file (account_id_to_classic_address S a)) = Inr (AccountTx lines) \<and>
       mset lines = image_mset (\<lambda>r. (row_ledger_seq r, row_tx_hash r)) (mset (account_tx tables a 0 (-1) (-1) forward None)))"
proof -
  obtain cr sk where b: "reader_open bytes = Inr cr" "index_chunk H cr = Inr sk"
    "fs' = fs(out_file \<mapsto> F (built_tables E cr sk), tmp_path out_file := None)"
    using assms(2,3) unfolding build_index_Inr by auto
  have ix: "chunk_indexable H c" "sk = put_ledgers (index_sink_new (ck_start_ledger c)) (ck_tx_maps c)"
    by (rule index_of_file [OF b(1,2) assms(4)])+
  have "it_account_tx (built_tables E cr sk) =
      it_account_tx (ix_tables (put_ledgers (index_sink_new (ck_start_ledger c)) (ck_tx_maps c)))"
    by (simp add: built_tables_def ix(2))
  note rows = scan_rows_of_index [OF assms(1) ix(1) this]
  have "fs' out_file = Some (F (built_tables E cr sk))" by (simp add: b(3) tmp_path_def)
  with rows show ?thesis unfolding inspect_account(1) [of fs chunk_file, OF assms(3,4)] by blast
qed

lemma inspect_scan_agrees_with_index_witness:
  "\<exists>report fs' tables lines. build_index length_sha (\<lambda>_. []) (\<lambda>_. [1]) [''c.xrla'' \<mapsto> index_bytes] ''c.xrla'' ''c.xidx'' False = (Inr report, fs') \<and>
     inspect_main length_sha sevens_sha (\<lambda>_. None) [''c.xrla'' \<mapsto> index_bytes]
       (account_args ''c.xrla'' (account_id_to_classic_address sevens_sha 11)) = Inr (AccountTx lines) \<and>
     length lines = length (account_tx tables 11 0 (-1) (-1) False None)"
proof -
  obtain report fs' where b: "build_index length_sha (\<lambda>_. []) (\<lambda>_. [1]) [''c.xrla'' \<mapsto> index_bytes] ''c.xrla'' ''c.xidx'' False
    = (Inr report, fs')" using index_fixture_builds by blast
  obtain c where c: "parse_chunk length_sha index_bytes = Inr (c, [])" using index_fixture_parses by blast
  have "[''c.xrla'' \<mapsto> index_bytes] ''c.xrla'' = Some index_bytes" by simp
  from inspect_scan_agrees_with_index [OF checksum_sevens b this c, where D = "\<lambda>_. None" and forward = False]
  obtain tables
    where scans: "\<forall>a. \<exists>lines. inspect_main length_sha sevens_sha (\<lambda>_. None) [''c.xrla'' \<mapsto> index_bytes]
        (account_args ''c.xrla'' (account_id_to_classic_address sevens_sha a)) = Inr (AccountTx lines) \<and>
      mset lines = image_mset (\<lambda>r. (row_ledger_seq r, row_tx_hash r)) (mset (account_tx tables a 0 (-1) (-1) False None))"
    by blast
  obtain lines where lines: "inspect_main length_sha sevens_sha (\<lambda>_. None) [''c.xrla'' \<mapsto> index_bytes]
        (account_args ''c.xrla'' (account_id_to_classic_address sevens_sha 11)) = Inr (AccountTx lines)"
      "mset lines = image_mset (\<lambda>r. (row_ledger_seq r, row_tx_hash r)) (mset (account_tx tables 11 0 (-1) (-1) False None))"
    by (rule exE [OF spec [OF scans]], elim conjE, rule that)
  from arg_cong [OF lines(2), of size] have "length lines = length (account_tx tables 11 0 (-1) (-1) False None)"
    by (simp only: size_mset size_image_mset)
  with b lines(1) show ?thesis by (intro exI conjI)
qed

text \<open>
  A misspelled address is not noticed by \<open>--account\<close>: on every chunk whose metadata decodes, a
  text that is no address at all ends in the successful answer that no transaction touched it,
  while the same text in a file for \<open>--accounts-file\<close> stops the command.
\<close>

theorem misspelled_account_reports_nothing:
  assumes "checksum_ok S" and "fs chunk_file = Some bytes" and "parse_chunk H bytes = Inr (c, rest)" and "decodable c"
    and "classic_address_to_account_id S address = Inl e"
  shows "inspect_main H S D fs (account_args chunk_file address) = Inr (AccountTx []) \<and>
    (\<forall>path data s. fs path = Some data \<and> ascii_text data = Some s \<and> address \<in> set (address_lines s) \<longrightarrow>
       (\<exists>l e'. inspect_main H S D fs (accounts_file_args chunk_file path) = Inl (NotAnAddress l e')))"
proof -
  have "\<exists>l e'. print_accounts_tx S fs c path = Inl (NotAnAddress l e')"
    if "fs path = Some data" "ascii_text data = Some s" "address \<in> set (address_lines s)" for path data s
    using wanted_accounts_rejects [OF that(3) assms(5)] that(1,2) by (auto simp add: print_accounts_tx_def)
  then show ?thesis
    unfolding inspect_account [of fs chunk_file, OF assms(2,3)] using scan_of_no_address [OF assms(1,4,5)] by blast
qed

lemma misspelled_account_reports_nothing_witness:
  "inspect_main length_sha sevens_sha (\<lambda>_. None) [''c.xrla'' \<mapsto> index_bytes] (account_args ''c.xrla'' ''0'') = Inr (AccountTx [])"
proof -
  obtain c where c: "parse_chunk length_sha index_bytes = Inr (c, [])" "decodable c" using index_fixture_parses by blast
  have bad: "classic_address_to_account_id sevens_sha ''0'' = Inl (InvalidCharacter (CHR ''0''))"
    by (simp add: classic_address_to_account_id_def base58_digits_def alphabet_def)
  from misspelled_account_reports_nothing [OF checksum_sevens _ c bad, of "[''c.xrla'' \<mapsto> index_bytes]" "''c.xrla''" "\<lambda>_. None"]
  show ?thesis by simp
qed

end
