(* ===== verification/Difftest_Properties.thy ===== *)
theory Difftest_Properties
  imports Difftest_Import Inspect_Properties
begin

text \<open>
  The properties of the differential tester: what its verdict means, that it accepts the
  database and the index made from one chunk, and two gaps of its checks.
\<close>

section \<open>The verdict\<close>

lemma difftest_runs:
  assumes "difftest_main S G J fs args = Inr (out, v)"
  obtains db rs where "\<not> da_to args < da_from args" "Option.bind (fs (da_txdb args)) J = Some db"
    "compare_rule S (da_examples args) db (da_from args) (da_to args) = Inr rs" "do_rule out = rs"
    "do_ledgers_with_rows out = ledgers_with_rows db (da_from args) (da_to args)"
    "do_expected_ledgers out = expected_ledgers (da_from args) (da_to args)"
    "if da_max_empty_ledgers args < do_expected_ledgers out - do_ledgers_with_rows out then v = PartialRange
     else case da_index args of
            None \<Rightarrow> v = (if rule_ok rs then Pass else Mismatch)
          | Some path \<Rightarrow> \<exists>idx st. index_open_file G fs path = Inr idx \<and>
              compare_tables S (da_examples args) db (idx_tables idx) (da_from args) (da_to args) = Inr st \<and>
              v = (if rule_ok rs \<and> index_stats_ok st then Pass else Mismatch)"
proof -
  obtain db where db: "\<not> da_to args < da_from args" "Option.bind (fs (da_txdb args)) J = Some db"
    using assms by (auto simp add: difftest_main_def Let_def or_error_def rbind_eq_Inr split: if_splits option.splits)
  with assms obtain rs where rs: "compare_rule S (da_examples args) db (da_from args) (da_to args) = Inr rs"
    by (auto simp add: difftest_main_def Let_def or_error_def rbind_eq_Inr)
  show ?thesis
    by (rule that [OF db rs])
      (use assms in \<open>auto simp add: difftest_main_def db rs Let_def or_error_def compare_index_def rbind_eq_Inr
        split: if_splits option.splits\<close>)
qed

text \<open>
  C14: What the verdict of the differential tester means: a run that ends without a technical
  error has compared every row of the range and passes exactly when enough ledgers have rows,
  the decoder gives for every transaction the accounts and the position of xrpld's rows (a
  transaction without any being a pseudo-transaction), and the index, when one is given, the
  same accounts, position and place, and no transaction more.
\<close>

theorem difftest_verdict:
  assumes "difftest_main S G J fs args = Inr (out, v)"
    and "Option.bind (fs (da_txdb args)) J = Some db" and "distinct (map dt_trans_id (db_transactions db))"
    and "lo = da_from args" and "hi = da_to args"
  shows "(v = Pass \<longleftrightarrow>
      expected_ledgers lo hi - ledgers_with_rows db lo hi \<le> da_max_empty_ledgers args \<and>
      (\<forall>r \<in> set (rows_between db lo hi). tx_agrees S db r) \<and>
      (\<forall>path. da_index args = Some path \<longrightarrow>
         (\<exists>idx. index_open_file G fs path = Inr idx \<and> index_agrees S db (idx_tables idx) lo hi))) \<and>
    rs_total (do_rule out) = length (rows_between db lo hi) \<and>
    rs_exact (do_rule out) = length (filter (tx_agrees S db) (rows_between db lo hi))"
proof -
  obtain rs where rs: "compare_rule S (da_examples args) db lo hi = Inr rs" "do_rule out = rs"
    and v: "if da_max_empty_ledgers args < expected_ledgers lo hi - ledgers_with_rows db lo hi then v = PartialRange
     else case da_index args of
            None \<Rightarrow> v = (if rule_ok rs then Pass else Mismatch)
          | Some path \<Rightarrow> \<exists>idx st. index_open_file G fs path = Inr idx \<and>
              compare_tables S (da_examples args) db (idx_tables idx) lo hi = Inr st \<and>
              v = (if rule_ok rs \<and> index_stats_ok st then Pass else Mismatch)"
    by (rule difftest_runs [OF assms(1)]) (use assms(2,4,5) that in auto)
  note counts = compare_rule_counts [OF rs(1)]
  have ix: "index_stats_ok st \<longleftrightarrow> index_agrees S db t lo hi"
    if "compare_tables S (da_examples args) db t lo hi = Inr st" for t st
    by (rule compare_tables_counts(1) [OF rows_between_keys [OF assms(3)] that])
  show ?thesis
  proof (cases "da_max_empty_ledgers args < expected_ledgers lo hi - ledgers_with_rows db lo hi")
    case True
    with v rs(2) counts show ?thesis by simp
  next
    case False
    show ?thesis
    proof (cases "da_index args")
      case None
      with v False rs(2) counts show ?thesis by simp
    next
      case (Some path)
      with v False obtain idx st where "index_open_file G fs path = Inr idx"
        "compare_tables S (da_examples args) db (idx_tables idx) lo hi = Inr st"
        "v = (if rule_ok rs \<and> index_stats_ok st then Pass else Mismatch)" by auto
      with ix [OF this(2)] False Some rs(2) counts show ?thesis by simp
    qed
  qed
qed

definition one_row_db :: diff_db where
  "one_row_db =
     \<lparr>db_transactions = [\<lparr>dt_trans_id = ''AB'', dt_ledger_seq = 5, dt_trans_type = Some ''Payment'', dt_txn_meta = None\<rparr>],
      db_account_transactions = []\<rparr>"

definition range_args :: "u32 \<Rightarrow> u32 \<Rightarrow> int \<Rightarrow> string option \<Rightarrow> difftest_args" where
  "range_args lo hi allowed idx =
     \<lparr>da_txdb = ''t.db'', da_from = lo, da_to = hi, da_examples = 8, da_max_empty_ledgers = allowed, da_index = idx\<rparr>"

lemma one_row: "rows_between one_row_db 5 5 = db_transactions one_row_db"
  by (simp add: rows_between_def one_row_db_def)

lemma difftest_verdict_witness:
  "\<exists>out v. difftest_main (\<lambda>_. 9) (\<lambda>_. None) (\<lambda>_. Some one_row_db) [''t.db'' \<mapsto> []] (range_args 5 5 0 None) = Inr (out, v) \<and>
     v \<noteq> Pass \<and> rs_total (do_rule out) = 1 \<and> rs_exact (do_rule out) = 0"
proof -
  let ?run = "difftest_main (\<lambda>_. 9) (\<lambda>_. None) (\<lambda>_. Some one_row_db) [''t.db'' \<mapsto> []] (range_args 5 5 0 None)"
  have bind: "Option.bind ([''t.db'' \<mapsto> []] (da_txdb (range_args 5 5 0 None))) (\<lambda>_. Some one_row_db) = Some one_row_db"
    by (simp add: range_args_def)
  have "\<exists>rs. compare_rule (\<lambda>_. 9) 8 one_row_db 5 5 = Inr rs"
    unfolding compare_rule_def one_row
    by (rule compare_rows_return) (simp add: one_row_db_def ledger_column_def complete_rows_def account_rows_of_def)
  then have "\<exists>out v. ?run = Inr (out, v)"
    by (auto simp add: difftest_main_def range_args_def Let_def or_error_def)
  then obtain out v where run: "?run = Inr (out, v)" by (elim exE)
  have meta: "summarize_meta [] = Inl (NoAffectedNodes 0)" by (simp add: summarize_meta_def summarize_loop.simps)
  have no: "\<not> tx_agrees (\<lambda>_. 9) one_row_db r" if "r \<in> set (db_transactions one_row_db)" for r
    using that by (simp add: tx_agrees_def one_row_db_def meta_of_def meta)
  have "distinct (map dt_trans_id (db_transactions one_row_db))" by (simp add: one_row_db_def)
  note verdict = difftest_verdict [OF run bind this refl refl]
  have range: "da_from (range_args 5 5 0 None) = 5" "da_to (range_args 5 5 0 None) = 5" by (simp_all add: range_args_def)
  obtain r where r: "db_transactions one_row_db = [r]" by (simp add: one_row_db_def)
  have "\<not> tx_agrees (\<lambda>_. 9) one_row_db r" by (rule no) (simp add: r)
  with verdict have "v \<noteq> Pass \<and> rs_total (do_rule out) = 1 \<and> rs_exact (do_rule out) = 0"
    unfolding range one_row r by simp
  with run show ?thesis by blast
qed

section \<open>The database and the index of one chunk\<close>

text \<open>
  C13: The importer and the index agree under the tester: the transaction database that the
  importer's sink publishes for the ledgers of a chunk and the index built from the chunk's file
  pass the comparison over every range of ledgers whose empty ones stay within the limit
  --max-empty-ledgers, every row an exact match, provided a transaction that affects nobody has the type of a pseudo-transaction.
\<close>

theorem difftest_accepts_import_and_index:
  assumes "build_index H E FI fs chunk_file out_file force = (Inr report, fs1)"
    and "fs chunk_file = Some bytes" and "parse_chunk H bytes = Inr (c, [])" and "nobody_is_pseudo c"
    and "txdb_session S F fs1 db_file (ck_tx_maps c) = (fs2, Inr n)" and "out_file \<noteq> tmp_path db_file"
  shows "\<exists>ixt. fs2 db_file = Some (F (tables_for S (ck_tx_maps c))) \<and> fs2 out_file = Some (FI ixt) \<and>
    (\<forall>G J db args. G (FI ixt) = Some ixt \<and> J (F (tables_for S (ck_tx_maps c))) = Some db \<and>
       reads_tables (tables_for S (ck_tx_maps c)) db \<and>
       da_txdb args = db_file \<and> da_index args = Some out_file \<and> da_from args \<le> da_to args \<and>
       expected_ledgers (da_from args) (da_to args) - ledgers_with_rows db (da_from args) (da_to args) \<le> da_max_empty_ledgers args \<longrightarrow>
       (\<exists>out. difftest_main S G J fs2 args = Inr (out, Pass) \<and> rs_exact (do_rule out) = rs_total (do_rule out)))"
proof -
  obtain cr sk where b: "reader_open bytes = Inr cr" "index_chunk H cr = Inr sk"
    "fs1 = fs(out_file \<mapsto> FI (built_tables E cr sk), tmp_path out_file := None)"
    using assms(1,2) unfolding build_index_Inr by auto
  let ?t = "built_tables E cr sk" and ?maps = "ck_tx_maps c"
  have ix: "chunk_indexable H c" "sk = put_ledgers (index_sink_new (ck_start_ledger c)) ?maps"
    by (rule index_of_file [OF b(1,2) assms(3)])+
  have rows: "it_account_tx ?t = it_account_tx (ix_tables (put_ledgers (index_sink_new (ck_start_ledger c)) ?maps))"
    "it_locator ?t = it_locator (ix_tables (put_ledgers (index_sink_new (ck_start_ledger c)) ?maps))"
    by (simp_all add: built_tables_def ix(2))
  have keys: "unique_keys (ix_tables (put_ledgers (index_sink_new (ck_start_ledger c)) ?maps))"
    using ix(1) by (simp add: chunk_indexable_def)
  have new: "fs1 db_file = None" by (rule session_tables(1) [OF assms(5)])
  then have "db_file \<noteq> out_file" using b(3) by (auto simp add: tmp_path_def)
  then have files: "fs2 db_file = Some (F (tables_for S ?maps))" "fs2 out_file = Some (FI ?t)"
    using session_tables(2) [OF assms(5)] b(3) assms(6) by (auto simp add: tmp_path_def)
  have "\<exists>out. difftest_main S G J fs2 args = Inr (out, Pass) \<and> rs_exact (do_rule out) = rs_total (do_rule out)"
    if G: "G (FI ?t) = Some ?t" and J: "J (F (tables_for S ?maps)) = Some db" and db: "reads_tables (tables_for S ?maps) db"
      and args: "da_txdb args = db_file" "da_index args = Some out_file" "da_from args \<le> da_to args"
      and few: "expected_ledgers (da_from args) (da_to args) - ledgers_with_rows db (da_from args) (da_to args) \<le> da_max_empty_ledgers args"
    for G J db args
  proof -
    let ?lo = "da_from args" and ?hi = "da_to args"
    note agree = chunk_agrees [OF ix(1) db assms(4), of ?lo ?hi]
    have dist: "distinct (map dt_trans_id (rows_between db ?lo ?hi))"
      using db by (intro rows_between_keys) (simp add: reads_tables_def)
    have "\<forall>r \<in> set (rows_between db ?lo ?hi). ledger_column r \<and> complete_rows db (dt_trans_id r)"
      using agree rows_between_column unfolding comparable_def by blast
    then obtain rs where rs: "compare_rule S (da_examples args) db ?lo ?hi = Inr rs"
      using compare_rows_return unfolding compare_rule_def by blast
    have ok: "rule_ok rs" "rs_exact rs = rs_total rs"
      using compare_rule_counts [OF rs] agree by (simp_all add: filter_id_conv)
    have "\<exists>st. compare_tables S (da_examples args) db ?t ?lo ?hi = Inr st"
      using agree by (intro compare_tables_return [OF dist]) blast
    then obtain st where st: "compare_tables S (da_examples args) db ?t ?lo ?hi = Inr st" ..
    have "index_stats_ok st"
      unfolding compare_tables_counts(1) [OF dist st] by (rule chunk_index_agrees [OF ix(1) db rows keys])
    moreover have "index_open ?t = Inr \<lparr>idx_tables = ?t, idx_meta = report_meta E (index_report cr sk)\<rparr>"
      unfolding built_tables_def by (rule index_open_built)
    then have "index_open_file G fs2 out_file = Inr \<lparr>idx_tables = ?t, idx_meta = report_meta E (index_report cr sk)\<rparr>"
      by (simp add: index_open_file_def files(2) G)
    ultimately show ?thesis
      using ok few args by (simp add: difftest_main_def Let_def or_error_def files(1) J rs compare_index_def st not_less)
  qed
  with files show ?thesis by blast
qed

lemma fixture_payments:
  "\<forall>(m, x) \<in> set (ledger_transactions (ck_tx_maps index_fixture)). decodes x \<and> tx_accounts x = [11]"
proof -
  have "decodes (touching_tx k i)" for k i
    by (simp add: decodes_def touching_tx_def payment_fields touching_summary)
  then show ?thesis
    by (simp add: index_fixture_maps ledger_transactions_def fixture_ledger_def touching_tx_indexable)
qed

lemma difftest_accepts_import_and_index_witness:
  "\<exists>G J fs out. difftest_main sevens_sha G J fs (range_args 100 101 2 (Some ''c.xidx'')) = Inr (out, Pass) \<and>
     fs ''t.db'' = Some [2] \<and> fs ''c.xidx'' = Some [1]"
proof -
  obtain report fs1 where b: "build_index length_sha (\<lambda>_. []) (\<lambda>_. [1]) [''c.xrla'' \<mapsto> index_bytes] ''c.xrla'' ''c.xidx'' False
    = (Inr report, fs1)" using index_fixture_builds by blast
  have bytes: "[''c.xrla'' \<mapsto> index_bytes] ''c.xrla'' = Some index_bytes" by simp
  have "fs1 ''t.db'' = None" using b unfolding build_index_Inr by (auto simp add: tmp_path_def)
  moreover have "\<forall>(m, x) \<in> set (ledger_transactions (ck_tx_maps index_fixture)). decodes x" using fixture_payments by auto
  ultimately obtain fs2 n where s: "txdb_session sevens_sha (\<lambda>_. [2]) fs1 ''t.db'' (ck_tx_maps index_fixture) = (fs2, Inr n)"
    using session_succeeds by blast
  have pseudo: "nobody_is_pseudo index_fixture" using fixture_payments by (auto simp add: nobody_is_pseudo_def)
  have tmp: "''c.xidx'' \<noteq> tmp_path ''t.db''" by (simp add: tmp_path_def)
  let ?db = "chunk_db sevens_sha index_fixture"
  obtain cr sk where "reader_open index_bytes = Inr cr" "index_chunk length_sha cr = Inr sk" using index_fixture_opens by blast
  from indexable_keys [OF index_of_file(1) [OF this index_fixture_parsed]]
  have reads: "reads_tables (tables_for sevens_sha (ck_tx_maps index_fixture)) ?db" by (rule chunk_db_reads)
  let ?args = "range_args 100 101 2 (Some ''c.xidx'')"
  have "0 \<le> ledgers_with_rows ?db 100 101" by (simp add: ledgers_with_rows_def)
  then have few: "expected_ledgers (da_from ?args) (da_to ?args) - ledgers_with_rows ?db (da_from ?args) (da_to ?args)
      \<le> da_max_empty_ledgers ?args" by (simp add: range_args_def expected_ledgers_def)
  from difftest_accepts_import_and_index [OF b bytes index_fixture_parsed pseudo s tmp] obtain ixt where
    files: "fs2 ''t.db'' = Some [2]" "fs2 ''c.xidx'' = Some [1]"
    and runs: "\<forall>G J db args. G [1] = Some ixt \<and> J [2] = Some db \<and>
       reads_tables (tables_for sevens_sha (ck_tx_maps index_fixture)) db \<and>
       da_txdb args = ''t.db'' \<and> da_index args = Some ''c.xidx'' \<and> da_from args \<le> da_to args \<and>
       expected_ledgers (da_from args) (da_to args) - ledgers_with_rows db (da_from args) (da_to args) \<le> da_max_empty_ledgers args \<longrightarrow>
       (\<exists>out. difftest_main sevens_sha G J fs2 args = Inr (out, Pass) \<and> rs_exact (do_rule out) = rs_total (do_rule out))"
    by (elim exE conjE)
  from runs [rule_format, of "\<lambda>_. Some ixt" "\<lambda>_. Some ?db" ?db ?args] reads few obtain out where
    "difftest_main sevens_sha (\<lambda>_. Some ixt) (\<lambda>_. Some ?db) fs2 ?args = Inr (out, Pass)"
    by (auto simp add: range_args_def)
  with files show ?thesis by (intro exI conjI)
qed

section \<open>What goes unnoticed\<close>

text \<open>
  Transactions that only the locator of an index holds go unnoticed: a row of tx_locator for a
  hash that is not among xrpld's transactions changes nothing in the result of the comparison,
  although whatever the index holds that xrpld does not is to be reported.
\<close>

theorem extra_locator_row_unnoticed:
  assumes "\<forall>r \<in> set (rows_between db lo hi). dt_trans_id r \<noteq> hash_text h \<and>
      (\<forall>b. difftest_hex_decode (dt_trans_id r) = Inr b \<longrightarrow> b \<noteq> to_be_bytes h)"
  shows "compare_tables S ex db (t\<lparr>it_locator := it_locator t @ [(h, l, n)]\<rparr>) lo hi = compare_tables S ex db t lo hi"
proof -
  let ?t = "t\<lparr>it_locator := it_locator t @ [(h, l, n)]\<rparr>"
  have same: "compare_index_row ex db ?t st r = compare_index_row ex db t st r" if "r \<in> set (rows_between db lo hi)" for st r
  proof (cases "difftest_hex_decode (dt_trans_id r)")
    case (Inl e)
    then show ?thesis by (simp add: compare_index_row_def Let_def split_def)
  next
    case (Inr b)
    with assms that have ne: "b \<noteq> to_be_bytes h" by blast
    have "diff_locate ?t b = diff_locate t b"
    proof (cases "length b = 32")
      case True
      then have "to_be_bytes (from_be_bytes b :: hash256) = b" by (intro to_be_from_be) (simp_all add: hash_bytes)
      with ne have "h \<noteq> from_be_bytes b" by metis
      then have "map_of (it_locator t @ [(h, l, n)]) (from_be_bytes b) = map_of (it_locator t) (from_be_bytes b)"
        by (simp add: map_add_def split: option.split)
      then show ?thesis unfolding diff_locate_def locate_tx_def True by simp
    qed (simp add: diff_locate_def)
    then show ?thesis by (simp add: compare_index_row_def Let_def Inr)
  qed
  have "rfold (compare_index_row ex db ?t) st rows = rfold (compare_index_row ex db t) st rows"
    if "set rows \<subseteq> set (rows_between db lo hi)" for st rows
    using that
  proof (induction rows arbitrary: st)
    case (Cons r rows)
    then have "compare_index_row ex db ?t st r = compare_index_row ex db t st r" by (intro same) simp
    with Cons show ?case by (cases "compare_index_row ex db t st r") simp_all
  qed simp
  moreover have "index_entries S ?t lo hi = index_entries S t lo hi" by (simp add: index_entries_def)
  ultimately show ?thesis by (simp add: compare_tables_def)
qed

lemma extra_locator_row_unnoticed_witness:
  "compare_tables (\<lambda>_. 9) 8 one_row_db (index_schema\<lparr>it_locator := [(7, 100, 0)]\<rparr>) 5 5 =
     compare_tables (\<lambda>_. 9) 8 one_row_db index_schema 5 5"
proof -
  have two: "length (''AB'' :: string) = 2" "length [171 :: byte] = 1" by simp_all
  have hex: "difftest_hex_decode ''AB'' = Inr [171]"
    by (simp add: difftest_hex_decode_def byte_from_hex_def to_digit16_def or_error_def)
  have long: "length (hash_text 7) = 64" "length (to_be_bytes (7 :: hash256)) = 32"
    by (simp_all add: hash_text_def length_hex_upper)
  have "''AB'' \<noteq> hash_text 7" using long(1) two(1) by (metis numeral_eq_iff semiring_norm(83,85,87))
  moreover have "[171] \<noteq> to_be_bytes (7 :: hash256)" using long(2) two(2) by (metis one_eq_numeral_iff semiring_norm(83,85,87))
  ultimately have "\<forall>r \<in> set (rows_between one_row_db 5 5). dt_trans_id r \<noteq> hash_text 7 \<and>
      (\<forall>b. difftest_hex_decode (dt_trans_id r) = Inr b \<longrightarrow> b \<noteq> to_be_bytes (7 :: hash256))"
    unfolding one_row by (simp add: one_row_db_def hex)
  from extra_locator_row_unnoticed [OF this, of "\<lambda>_. 9" 8 index_schema 100 0] show ?thesis by (simp add: index_schema_def)
qed

text \<open>
  The range of all ledgers is never found incomplete: with \<open>--from 0 --to 4294967295\<close> the number
  of expected ledgers wraps to zero, so a database without a single transaction passes,
  whatever \<open>--max-empty-ledgers\<close> (not negative) allows.
\<close>

theorem full_range_passes_empty_database:
  assumes "da_from args = 0" and "da_to args = -1" and "0 \<le> da_max_empty_ledgers args" and "da_index args = None"
    and "fs (da_txdb args) = Some b" and "J b = Some db"
  shows "expected_ledgers (da_from args) (da_to args) = 0 \<and>
    (\<forall>out. difftest_main S G J fs args \<noteq> Inr (out, PartialRange)) \<and>
    (db_transactions db = [] \<longrightarrow> (\<exists>out. difftest_main S G J fs args = Inr (out, Pass)))"
proof -
  have zero: "expected_ledgers (da_from args) (da_to args) = 0" by (simp add: expected_ledgers_def assms(1,2))
  have "0 \<le> ledgers_with_rows db (da_from args) (da_to args)" by (simp add: ledgers_with_rows_def)
  then have full: "\<not> da_max_empty_ledgers args < 0 - ledgers_with_rows db (da_from args) (da_to args)"
    using assms(3) by simp
  have "difftest_main S G J fs args \<noteq> Inr (out, PartialRange)" for out
    using full by (auto simp add: difftest_main_def Let_def or_error_def rbind_eq_Inr zero assms(4-6) split: if_splits)
  moreover have "\<exists>out. difftest_main S G J fs args = Inr (out, Pass)" if "db_transactions db = []"
    using full [unfolded assms(1,2)] that
    by (simp add: difftest_main_def Let_def or_error_def zero [unfolded assms(1,2)] assms compare_rule_def rows_between_def no_rule_stats_def rule_ok_def)
  ultimately show ?thesis using zero by blast
qed

lemma full_range_passes_empty_database_witness:
  "\<exists>out. difftest_main (\<lambda>_. 9) (\<lambda>_. None) (\<lambda>_. Some \<lparr>db_transactions = [], db_account_transactions = []\<rparr>) [''t.db'' \<mapsto> []]
     (range_args 0 (-1) 0 None) = Inr (out, Pass)"
  using full_range_passes_empty_database [of "range_args 0 (-1) 0 None" "[''t.db'' \<mapsto> []]" "[]"
      "\<lambda>_. Some \<lparr>db_transactions = [], db_account_transactions = []\<rparr>"]
  by (simp add: range_args_def)

end
