(* ===== verification/Spec2Isabelle.thy ===== *)
theory Spec2Isabelle
  imports Round_Trip Difftest_Properties
begin

text \<open>
  A model of the ledger archive tools of this repository: a chunk file holds a range of
  ledgers (the full state of the first one, then per ledger the state difference and the
  transactions). xrla-export writes the chunks of a range from an xrpld node (its ledger table
  and its NuDB store); xrla-import checks chunks against the ledger hashes and turns them into a
  NuDB store, a ledger table and, on demand, a transaction database; xrla-index builds and
  queries the account history of one chunk; xrla-inspect prints a chunk; xrla-difftest compares
  decoder and index with the transaction database of xrpld. They meet in files: the chunk
  format, the store format and the tables, and in the common library that encodes them.

  The theories, and what they model (paths below src/crates):

    \<^item> \<open>Xrla_Prelude\<close>: bytes, words, hashes, parsers over the rest of the input, lemmas on
      lists and words that the components share; \<open>File_System\<close>: paths and file contents;
      \<open>Run\<close>: computations that may not return (an option) or fail (a sum).
    \<^item> \<open>Ledger_Hash\<close>: sha512half, the header object and the LedgerHash
      (xrla-common/src/serialize.rs).
    \<^item> \<open>Shamap\<close>: node types, wire form, inner nodes, recomputed node hashes
      (shamap.rs, state_tree.rs).
    \<^item> \<open>Chunk_Format\<close>, \<open>Chunk_Codec\<close>, \<open>Chunk_Roundtrip\<close>: the chunk file, its writer and
      buffered reader (chunk.rs, serialize.rs); \<open>Chunk_Stream\<close>: ChunkWriter;
      \<open>Chunk_Reader\<close>: ChunkReader and its agreement with the buffered reader.
    \<^item> \<open>Tx_Tree\<close>, \<open>Tx_Tree_Correct\<close>, \<open>Tx_Tree_Binding\<close>, \<open>Tx_Leaf\<close>: the transaction tree of a
      ledger and the parser of its leaves (tx_tree.rs, xrla-nudb/src/reader.rs).
    \<^item> \<open>Nudb_Format\<close>, \<open>Nudb_Lookup\<close>: the .dat and .key files, Shard::open and fetch
      (xrla-nudb/src/keyfile.rs); \<open>Nudb_Writer\<close>, \<open>Nudb_Swap\<close>: NuDbSink, the file images
      and the swap of the two files (writer.rs); \<open>Nudb_Codec\<close>: stored values (dat.rs);
      \<open>Nudb_Reader\<close>: NuDBReader (reader.rs), with its walks in \<open>Reader_Trees\<close>, transactions
      in \<open>Reader_Transactions\<close>, the state diff in \<open>Reader_Diff\<close>; \<open>Node_Store\<close>: writer,
      codec and reader composed.
    \<^item> \<open>Meta_Decode\<close>: the metadata and transaction field decoders (meta_decode.rs,
      tx_types.rs); \<open>Meta_Spec\<close>: the abstract fields and the rule they implement;
      \<open>Address_Codec\<close>: account addresses; \<open>Tx_Db\<close>: the transaction database built beside
      a store (xrla-import/src/txdb.rs).
    \<^item> \<open>Import_Replay\<close>: the importer (xrla-import/src/main.rs): the node sinks, the checks of
      a chunk, the buffered replay of a parsed chunk, the streaming replay of a version 3
      file, the import of one chunk and the ledger table. \<open>Import_Stream\<close> states both
      replays as one fold over the ledgers and relates them; \<open>Import_Store\<close> gives the
      entries a replay hands to its sink, through the interface \<open>node_sink_laws\<close> that both
      sinks implement; \<open>Import_Verify\<close> says what a passed check of a tree, a ledger and a
      chunk means; \<open>Import_Correct\<close> holds the guarantees of a verified import and
      \<open>Import_Gaps\<close> the states the checks let through. \<open>Import_Main\<close> is main and
      \<open>verify_only\<close>: the loop over the chunk files with one sink for all, and the order of
      publication; its locale \<open>total_sink\<close> shows that the sink does not change what is
      accepted, and \<open>row_of_ledger\<close> says field by field what a row of the ledger table holds.
    \<^item> \<open>Export\<close>: the exporter (xrla-export/src/main.rs): rows of the ledger table, the running
      state, batches of diffs, the chunk that is open. \<open>Export_Chunks\<close> describes the source as an
      archive (per ledger its row, state nodes and transactions) and holds the invariant of the
      loop; \<open>Export_Files\<close> the files of a run and their contents; \<open>Export_Correct\<close> that the
      importer accepts them, and the run whose chunk size is too large; \<open>Export_Properties\<close> the
      properties.
    \<^item> \<open>Round_Trip\<close>: exporter and importer composed, from the store of the node to the store of
      the import and back to the chunk files.
    \<^item> \<open>Index_Build\<close> (xrla-index/src/build.rs, schema.rs), \<open>Index_Query\<close> (query.rs, main.rs):
      the tables of an index and the queries over them; \<open>Index_Pages\<close> the order of the pages,
      through the interface \<open>pager\<close>; \<open>Index_Correct\<close> and \<open>Index_Properties\<close> what a build leaves.
    \<^item> \<open>Inspect\<close>, \<open>Inspect_Properties\<close>: the inspector (xrla-inspect/src/main.rs); what it prints
      is a value.
    \<^item> \<open>Difftest\<close>: the differential tester (xrla-difftest/src/main.rs); \<open>Difftest_Correct\<close> what
      its counters say, \<open>Difftest_Import\<close> what it reads from the database of the importer and
      the index of one chunk, \<open>Difftest_Properties\<close> the verdict.

  What the lemmas show. The formats: writers and readers of chunks, transaction leaves,
  stores and addresses are inverse, and the streaming reader agrees with the buffered one.
  Commitment: equal chunk, transaction, ledger or account hashes mean equal contents or an
  exhibited collision. The importer: a verified replay chains its ledgers, authenticates
  their transactions and nodes and leaves a complete state tree; the two replays accept the same
  chunks with the same results; a dry run accepts what the chunk loop of an import accepts; the
  finished store serves what was imported and the two databases hold its rows. The exporter: a run on
  a complete source writes one file per chunk, and each passes the importer's checks when the
  source is genuine. Both together: the imported store is a complete source of the same
  archive, and exporting from it writes the same files. The index: it appears only for a
  verified chunk and answers exactly from its transactions, in pages that add up; the scan of
  the inspector agrees with it, and the tester accepts database and index of one chunk.

  The gaps. A leaf disguised as an inner node, a repeated child and a cyclic checkpoint defeat
  the completeness walk or its termination, each shown on a concrete chunk. A chunk size that
  takes the first ledger past \<open>2 ^ 32\<close> wraps the end ledger in the header, and no reader accepts
  the file the export leaves; the full range of ledgers wraps the
  count the tester expects, a limit of 0 on the command line of the index panics, a misspelled
  address of the inspector reports no transaction, and a locator row of an index that belongs
  to no account row is never compared.

  Conventions. A Rust struct is a record, an enum a datatype, \<open>u8\<close> to \<open>u64\<close> are words of
  their width and a hash is a 256-bit word whose bytes are its big-endian ones; \<open>usize\<close> is
  nat where the code cannot exceed memory. \<open>Result\<close> is a sum with the error on the left and
  anyhow messages reduced to a constructor each. A loop that may run for ever is a
  \<open>partial_function\<close> and its result an option; every theorem about one states that it
  returns. Maps, sets and sorted collections are HOL maps, sets and sorted lists.

  Arithmetic on \<open>u32\<close> and \<open>u64\<close> wraps as in a release build.

  Parameters: SHA-512, SHA-256, xxHash64 and LZ4 come from crates and are arguments of the
  definitions that use them (\<open>H\<close>, \<open>S\<close>, \<open>X\<close>, \<open>L\<close>), with no assumption about them: a statement
  that needs collision freedom says that a collision is exhibited, or names the nodes that
  must not share a hash (\<open>collision_free\<close>). So are decode and encode_upper of the crate hex
  (\<open>D\<close>, \<open>E\<close>) and the layout of SQLite files: \<open>F\<close> turns tables into a file, \<open>G\<close> and \<open>J\<close> read the
  tables of an index and of a transaction database from one; where a statement writes and reads
  a file it assumes that the reader inverts the writer. The clock of the calibration and the
  device test are arguments as well. Worker pools return their results in the order of the
  input, as rayon's \<open>collect\<close> does.

  Bounds: lists and blobs of a chunk must fit the length fields of the format (\<open>wf_chunk\<close>,
  \<open>archive_fits\<close>); a store must fit the 48-bit offsets (\<open>store_fits\<close>, over the entries that are
  written, duplicates included); a transaction leaf's blobs must be shorter than 929985 bytes
  (\<open>vl_limit\<close>), which every record read from a store is; the range of an export must leave
  room for the chunk size and one batch below \<open>2 ^ 32\<close> (\<open>range_ok\<close>; the loop itself needs only
  room for a batch, \<open>steps_ok\<close>). No definition uses fuel:
  loops recurse on their input, on a measure, or as \<open>partial_function\<close>.

  Not modelled: command line parsing, the layout of printed reports and progress lines, the
  example and benchmark programs (xrla-nudb/examples, xrla-common/examples), and the failures of
  the operating system except where the source handles them (the swap of the two store files).
\<close>

end
